(* ===== verification/Lockjaw_Prelude.thy ===== *)
theory Lockjaw_Prelude
  imports Main "HOL-Library.Word"
begin

text \<open>
  Shared vocabulary of the Lockjaw development: the Rust result and panic types, machine word
  widths, the standard-library functions the kernel uses on slices and integers, the generic
  lemmas about them, and the interfaces (slot table, queue, bitmap, frame
  allocator) that the components provide and build on.
\<close>

unbundle bit_operations_syntax

section \<open>Outcomes of Rust code\<close>

named_theorems returned \<open>what a body that returned must have done\<close>

text \<open>
  A Rust function that may panic (\<^verbatim>\<open>assert!\<close>, \<^verbatim>\<open>unwrap\<close>, an index out of range) is a
  function into \<open>outcome\<close>. \<open>Diverge\<close> is the outcome of a loop that never ends. Rust's
  \<^verbatim>\<open>Result\<close> is \<open>result\<close>; Rust's \<^verbatim>\<open>Option\<close> is HOL's \<open>option\<close>.
\<close>

datatype 'a outcome = Return 'a | Panic | Diverge

datatype ('a, 'e) result = Ok 'a | Err 'e

fun bind_outcome :: "'a outcome \<Rightarrow> ('a \<Rightarrow> 'b outcome) \<Rightarrow> 'b outcome" where
  "bind_outcome (Return x) f = f x"
| "bind_outcome Panic f = Panic"
| "bind_outcome Diverge f = Diverge"

fun returns :: "'a outcome \<Rightarrow> bool" where
  "returns (Return x) = True"
| "returns Panic = False"
| "returns Diverge = False"

lemma bind_outcome_cong [fundef_cong]:
  "m = m' \<Longrightarrow> (\<And>x. m' = Return x \<Longrightarrow> f x = f' x) \<Longrightarrow> bind_outcome m f = bind_outcome m' f'"
  by (cases m') auto

text \<open>An \<^verbatim>\<open>assert!\<close> in front of the rest of a body.\<close>

definition assert_then :: "bool \<Rightarrow> 'a outcome \<Rightarrow> 'a outcome" where
  "assert_then b rest = (if b then rest else Panic)"

lemma assert_then_simps [simp]:
  "assert_then True r = r"
  "assert_then False r = Panic"
  by (simp_all add: assert_then_def)

lemma assert_then_Return_iff [returned]:
  "assert_then b r = Return x \<longleftrightarrow> b \<and> r = Return x"
  by (simp add: assert_then_def)

lemma bind_outcome_Return_iff [returned]:
  "bind_outcome m f = Return y \<longleftrightarrow> (\<exists>x. m = Return x \<and> f x = Return y)"
  by (cases m) auto

lemma returns_iff: "returns m \<longleftrightarrow> (\<exists>x. m = Return x)"
  by (cases m) auto

fun ok_or :: "'e \<Rightarrow> 'a option \<Rightarrow> ('a, 'e) result" where
  "ok_or e None = Err e"
| "ok_or e (Some x) = Ok x"

section \<open>Machine integers\<close>

type_synonym u8 = "8 word"
type_synonym u16 = "16 word"
type_synonym u32 = "32 word"
type_synonym u64 = "64 word"

definition checked_add :: "'w::len word \<Rightarrow> 'w word \<Rightarrow> 'w word option" where
  "checked_add a b =
     (if unat a + unat b < 2 ^ LENGTH('w) then Some (a + b) else None)"

definition saturating_add :: "'w::len word \<Rightarrow> 'w word \<Rightarrow> 'w word" where
  "saturating_add a b =
     (if unat a + unat b < 2 ^ LENGTH('w) then a + b else - 1)"

lemma checked_add_Some:
  "checked_add a b = Some c \<Longrightarrow> unat c = unat a + unat b"
  by (auto simp: checked_add_def unat_word_ariths split: if_splits)

lemma checked_add_None:
  "checked_add (a :: 'w::len word) b = None \<longleftrightarrow> 2 ^ LENGTH('w) \<le> unat a + unat b"
  by (auto simp: checked_add_def)

lemma single_bit_test: "x AND push_bit n 1 \<noteq> 0 \<longleftrightarrow> bit x n" for x :: "'w::len word"
  by (simp add: bit_iff_and_push_bit_not_eq_0)

section \<open>Slices\<close>

text \<open>\<^verbatim>\<open>iter().position(p)\<close>: the index of the first element that satisfies \<open>p\<close>.\<close>

fun position :: "('a \<Rightarrow> bool) \<Rightarrow> 'a list \<Rightarrow> nat option" where
  "position p [] = None"
| "position p (x # xs) = (if p x then Some 0 else map_option Suc (position p xs))"

text \<open>\<^verbatim>\<open>slice.get(i)\<close>: the element at an index, or \<open>None\<close> out of range.\<close>

definition slice_get :: "'a list \<Rightarrow> nat \<Rightarrow> 'a option" where
  "slice_get xs i = (if i < length xs then Some (xs ! i) else None)"

lemma position_None_iff: "position p xs = None \<longleftrightarrow> (\<forall>x \<in> set xs. \<not> p x)"
  by (induction xs) auto

lemma position_SomeD:
  "position p xs = Some i \<Longrightarrow> i < length xs \<and> p (xs ! i) \<and> (\<forall>j < i. \<not> p (xs ! j))"
proof (induction xs arbitrary: i)
  case Nil
  then show ?case by simp
next
  case (Cons x xs)
  show ?case
  proof (cases "p x")
    case True
    with Cons.prems show ?thesis by simp
  next
    case False
    with Cons.prems obtain k where k: "position p xs = Some k" and i: "i = Suc k"
      by auto
    from Cons.IH [OF k] False show ?thesis
      by (auto simp: i less_Suc_eq_0_disj)
  qed
qed

lemma position_Some_exists:
  "i < length xs \<Longrightarrow> p (xs ! i) \<Longrightarrow> \<exists>k \<le> i. position p xs = Some k"
proof -
  assume i: "i < length xs" "p (xs ! i)"
  then have "position p xs \<noteq> None"
    by (auto simp: position_None_iff)
  then obtain k where k: "position p xs = Some k" by blast
  with position_SomeD [OF k] i have "k \<le> i"
    by (meson not_le)
  with k show ?thesis by blast
qed

lemma position_Some_iff:
  "position p xs = Some i \<longleftrightarrow>
     i < length xs \<and> p (xs ! i) \<and> (\<forall>j < i. \<not> p (xs ! j))"
proof
  assume "position p xs = Some i"
  then show "i < length xs \<and> p (xs ! i) \<and> (\<forall>j < i. \<not> p (xs ! j))"
    by (rule position_SomeD)
next
  assume a: "i < length xs \<and> p (xs ! i) \<and> (\<forall>j < i. \<not> p (xs ! j))"
  then obtain k where "k \<le> i" and k: "position p xs = Some k"
    using position_Some_exists by blast
  with position_SomeD [OF k] a have "k = i"
    by (metis le_neq_implies_less)
  with k show "position p xs = Some i" by simp
qed

lemma slice_get_Some_iff: "slice_get xs i = Some x \<longleftrightarrow> i < length xs \<and> xs ! i = x"
  by (auto simp: slice_get_def)

lemma slice_get_None_iff: "slice_get xs i = None \<longleftrightarrow> length xs \<le> i"
  by (auto simp: slice_get_def)

lemma slice_get_update:
  "slice_get (xs[i := x]) j = (if j = i \<and> i < length xs then Some x else slice_get xs j)"
  by (auto simp: slice_get_def)

lemma length_filter_update:
  "i < length xs \<Longrightarrow> length (filter p (xs[i := x])) =
     length (filter p xs) - (if p (xs ! i) then 1 else 0) + (if p x then 1 else 0)"
proof (induction xs arbitrary: i)
  case Nil
  then show ?case by simp
next
  case (Cons y ys)
  show ?case
  proof (cases i)
    case 0
    then show ?thesis by simp
  next
    case (Suc k)
    with Cons.prems have "k < length ys" by simp
    moreover have "p (ys ! k) \<Longrightarrow> 0 < length (filter p ys)"
      using \<open>k < length ys\<close> by (auto simp: filter_empty_conv)
    ultimately show ?thesis
      using Cons.IH [of k] by (auto simp: Suc)
  qed
qed

section \<open>The interface of a slot table\<close>

text \<open>
  A slot table hands out the lowest free index for a value, finds the value again under that
  index and gives the slot back on removal. \<open>stored\<close> is what a table keeps of an inserted
  value (the handle table clears the per-address-space part of a PageSet handle).
\<close>

locale slot_table =
  fixes find :: "'t \<Rightarrow> nat \<Rightarrow> 'v option"
    and insert :: "'v \<Rightarrow> 't \<Rightarrow> (nat \<times> 't) option"
    and remove :: "nat \<Rightarrow> 't \<Rightarrow> ('v \<times> 't) option"
    and stored :: "'v \<Rightarrow> 'v"
    and reserved :: "nat \<Rightarrow> bool"
  assumes insert_fresh: "insert v t = Some (i, t') \<Longrightarrow> find t i = None \<and> \<not> reserved i"
    and insert_lowest: "insert v t = Some (i, t') \<Longrightarrow> j < i \<Longrightarrow> reserved j \<or> find t j \<noteq> None"
    and insert_find: "insert v t = Some (i, t') \<Longrightarrow>
      find t' j = (if j = i then Some (stored v) else find t j)"
    and remove_find: "remove i t = Some (v, t') \<Longrightarrow>
      find t i = Some v \<and> find t' j = (if j = i then None else find t j)"
    and remove_reserved: "remove i t = Some (v, t') \<Longrightarrow> \<not> reserved i"
    and remove_total: "find t i = Some v \<Longrightarrow> \<not> reserved i \<Longrightarrow> \<exists>t'. remove i t = Some (v, t')"
begin

lemma insert_then_remove:
  assumes "insert v t = Some (i, t')"
  shows "\<exists>t''. remove i t' = Some (stored v, t'') \<and> find t'' = find t"
proof -
  from assms have "find t' i = Some (stored v)" and r: "\<not> reserved i"
    using insert_find [OF assms] insert_fresh [OF assms] by simp_all
  then obtain t'' where t'': "remove i t' = Some (stored v, t'')"
    using remove_total by blast
  have "find t'' j = find t j" for j
    using remove_find [OF t'', of j] insert_find [OF assms, of j] insert_fresh [OF assms]
    by auto
  with t'' show ?thesis by blast
qed

lemma remove_twice: "remove i t = Some (v, t') \<Longrightarrow> remove i t' = None"
proof (rule ccontr)
  assume r: "remove i t = Some (v, t')" and "remove i t' \<noteq> None"
  then obtain w t'' where "remove i t' = Some (w, t'')" by auto
  with remove_find [of i t' w t''] remove_find [OF r, of i] show False by simp
qed

lemma insert_insert_distinct:
  assumes "insert v t = Some (i, t1)" and "insert w t1 = Some (j, t2)"
  shows "i \<noteq> j \<and> find t2 i = Some (stored v) \<and> find t2 j = Some (stored w)"
  using insert_find [OF assms(1), of i] insert_fresh [OF assms(2)]
    insert_find [OF assms(2), of i] insert_find [OF assms(2), of j]
  by auto

lemma freed_slot_reused:
  assumes "remove i t = Some (v, t1)" and "insert w t1 = Some (j, t2)"
  shows "j \<le> i"
proof (rule ccontr)
  assume "\<not> j \<le> i"
  then have "reserved i \<or> find t1 i \<noteq> None"
    using insert_lowest [OF assms(2), of i] by simp
  then show False
    using remove_find [OF assms(1), of i] remove_reserved [OF assms(1)] by simp
qed

end

section \<open>The interface of a first-in first-out queue\<close>

text \<open>
  A queue represents a list of waiters. \<open>room\<close> is the condition under which a waiter may be
  appended. The array queue of the IPC model and the intrusive queue of the kernel's endpoints
  both provide it.
\<close>

primrec drain :: "('q \<Rightarrow> ('e \<times> 'q) option) \<Rightarrow> nat \<Rightarrow> 'q \<Rightarrow> 'e list \<times> 'q" where
  "drain deq 0 q = ([], q)"
| "drain deq (Suc n) q =
     (case deq q of
        None \<Rightarrow> ([], q)
      | Some (e, q') \<Rightarrow> (let (es, q'') = drain deq n q' in (e # es, q'')))"

locale fifo_queue =
  fixes represents :: "'q \<Rightarrow> 'e list \<Rightarrow> bool"
    and room :: "'q \<Rightarrow> 'e list \<Rightarrow> 'e \<Rightarrow> bool"
    and enq :: "'q \<Rightarrow> 'e \<Rightarrow> 'q option"
    and deq :: "'q \<Rightarrow> ('e \<times> 'q) option"
  assumes enq_append: "represents q es \<Longrightarrow> room q es e \<Longrightarrow>
      \<exists>q'. enq q e = Some q' \<and> represents q' (es @ [e])"
    and deq_Nil: "represents q [] \<Longrightarrow> deq q = None"
    and deq_Cons: "represents q (e # es) \<Longrightarrow> \<exists>q'. deq q = Some (e, q') \<and> represents q' es"
begin

lemma drain_in_order:
  "represents q (es @ fs) \<Longrightarrow> \<exists>q'. drain deq (length es) q = (es, q') \<and> represents q' fs"
proof (induction es arbitrary: q)
  case Nil
  then show ?case by simp
next
  case (Cons e es)
  then obtain q' where q': "deq q = Some (e, q')" "represents q' (es @ fs)"
    using deq_Cons by force
  with Cons.IH [OF q'(2)] show ?case by auto
qed

lemma enq_waits_its_turn:
  assumes "represents q es" and "room q es e"
  shows "\<exists>q' q''. enq q e = Some q' \<and> drain deq (length es) q' = (es, q'') \<and>
    (\<exists>q3. deq q'' = Some (e, q3) \<and> represents q3 [])"
proof -
  obtain q' where q': "enq q e = Some q'" "represents q' (es @ [e])"
    using enq_append [OF assms] by blast
  then obtain q'' where "drain deq (length es) q' = (es, q'')" "represents q'' [e]"
    using drain_in_order by blast
  with q' deq_Cons [of q'' e "[]"] show ?thesis by blast
qed

end

section \<open>Bit arrays\<close>

text \<open>
  The interface an allocator's bitmap provides: reading, setting and clearing a valid position never
  panics, changes that position only and leaves the rest of the state alone.
\<close>

locale bit_store =
  fixes valid :: "'i \<Rightarrow> bool"
    and get :: "'s \<Rightarrow> 'i \<Rightarrow> bool outcome"
    and set1 :: "'i \<Rightarrow> 's \<Rightarrow> 's outcome"
    and clear1 :: "'i \<Rightarrow> 's \<Rightarrow> 's outcome"
    and view :: "'s \<Rightarrow> 'i \<Rightarrow> bool"
    and rest :: "'s \<Rightarrow> 'r"
  assumes get_view: "valid i \<Longrightarrow> get s i = Return (view s i)"
    and set_view: "valid i \<Longrightarrow>
      \<exists>s'. set1 i s = Return s' \<and> rest s' = rest s \<and> (\<forall>j. valid j \<longrightarrow> view s' j = (j = i \<or> view s j))"
    and clear_view: "valid i \<Longrightarrow>
      \<exists>s'. clear1 i s = Return s' \<and> rest s' = rest s \<and>
        (\<forall>j. valid j \<longrightarrow> view s' j = (j \<noteq> i \<and> view s j))"
begin

text \<open>Running a checked update over a list of positions.\<close>

lemma set_list:
  assumes "\<And>s. loop [] s = Return s"
    and "\<And>i is s. loop (i # is) s = bind_outcome (set1 i s) (loop is)"
  shows "\<forall>i \<in> set is. valid i \<Longrightarrow>
    \<exists>s'. loop is s = Return s' \<and> rest s' = rest s \<and>
      (\<forall>j. valid j \<longrightarrow> view s' j = (j \<in> set is \<or> view s j))"
proof (induction "is" arbitrary: s)
  case Nil
  then show ?case by (simp add: assms)
next
  case (Cons i js)
  then obtain s1 where s1: "set1 i s = Return s1" "rest s1 = rest s"
    "\<And>j. valid j \<Longrightarrow> view s1 j = (j = i \<or> view s j)"
    using set_view [of i s] by auto
  with Cons.IH [of s1] Cons.prems show ?case by (auto simp: assms)
qed

lemma clear_list:
  assumes "\<And>s. loop [] s = Return s"
    and "\<And>i is s. loop (i # is) s =
      bind_outcome (get s i) (\<lambda>a. assert_then a (bind_outcome (clear1 i s) (loop is)))"
  shows "\<forall>i \<in> set is. valid i \<Longrightarrow> distinct is \<Longrightarrow>
    (if \<forall>i \<in> set is. view s i
     then \<exists>s'. loop is s = Return s' \<and> rest s' = rest s \<and>
       (\<forall>j. valid j \<longrightarrow> view s' j = (j \<notin> set is \<and> view s j))
     else loop is s = Panic)"
proof (induction "is" arbitrary: s)
  case Nil
  then show ?case by (simp add: assms)
next
  case (Cons i js)
  obtain s1 where s1: "clear1 i s = Return s1" "rest s1 = rest s"
    "\<And>j. valid j \<Longrightarrow> view s1 j = (j \<noteq> i \<and> view s j)"
    using clear_view [of i s] Cons.prems by auto
  have eq: "(\<forall>j \<in> set js. view s1 j) \<longleftrightarrow> (\<forall>j \<in> set js. view s j)"
    using s1(3) Cons.prems by auto
  have run: "loop (i # js) s = (if view s i then loop js s1 else Panic)"
    using Cons.prems s1(1) by (simp add: assms get_view)
  show ?case
  proof (cases "view s i")
    case True
    show ?thesis
    proof (cases "\<forall>j \<in> set js. view s j")
      case all: True
      then obtain s' where "loop js s1 = Return s'" "rest s' = rest s1"
        "\<And>j. valid j \<Longrightarrow> view s' j = (j \<notin> set js \<and> view s1 j)"
        using Cons.IH [of s1] Cons.prems eq by auto
      with True all run s1 show ?thesis by auto
    next
      case False
      with Cons.IH [of s1] Cons.prems eq run show ?thesis by auto
    qed
  next
    case False
    with run show ?thesis by simp
  qed
qed

end

section \<open>Frames\<close>

text \<open>
  The interface of the frame allocator: an allocation takes a free frame whenever there is one, a
  frame handed out can be given back, and neither touches the rest of the state. Its clients build
  up lists of frames and return them when a later step fails.
\<close>

locale frame_source =
  fixes good :: "'m \<Rightarrow> bool"
    and free :: "'m \<Rightarrow> 'f set"
    and taken :: "'m \<Rightarrow> 'f set"
    and rest :: "'m \<Rightarrow> 'r"
    and alloc :: "'m \<Rightarrow> ('f option \<times> 'm) outcome"
    and dealloc :: "'f \<Rightarrow> 'm \<Rightarrow> 'm outcome"
  assumes alloc_cases: "good m \<Longrightarrow>
      (\<exists>f m'. alloc m = Return (Some f, m') \<and> good m' \<and> f \<in> free m \<and> free m' = free m - {f} \<and>
        taken m' = insert f (taken m) \<and> rest m' = rest m) \<or>
      alloc m = Return (None, m) \<and> free m = {}"
    and dealloc_taken: "good m \<Longrightarrow> f \<in> taken m \<Longrightarrow>
      \<exists>m'. dealloc f m = Return m' \<and> good m' \<and> free m' = insert f (free m) \<and>
        taken m' = taken m - {f} \<and> rest m' = rest m"
    and dealloc_free: "good m \<Longrightarrow> f \<in> free m \<Longrightarrow> dealloc f m = Panic"
    and free_not_taken: "good m \<Longrightarrow> free m \<inter> taken m = {}"
begin

text \<open>A loop over indices that gives back the frame of each.\<close>

lemma dealloc_loop:
  assumes "\<And>m. loop [] m = Return m"
    and "\<And>j js m. j \<in> J \<Longrightarrow> loop (j # js) m = bind_outcome (dealloc (g j) m) (loop js)"
  shows "good m \<Longrightarrow> set js \<subseteq> J \<Longrightarrow> distinct (map g js) \<Longrightarrow> g ` set js \<subseteq> taken m \<Longrightarrow>
    \<exists>m'. loop js m = Return m' \<and> good m' \<and> free m' = free m \<union> g ` set js \<and>
      taken m' = taken m - g ` set js \<and> rest m' = rest m"
proof (induction js arbitrary: m)
  case Nil
  then show ?case by (simp add: assms)
next
  case (Cons j js)
  then obtain m1 where m1: "dealloc (g j) m = Return m1" "good m1" "free m1 = insert (g j) (free m)"
    "taken m1 = taken m - {g j}" "rest m1 = rest m"
    using dealloc_taken [of m "g j"] by auto
  have "g j \<notin> g ` set js" "g ` set js \<subseteq> taken m" using Cons.prems by simp_all
  then have "g ` set js \<subseteq> taken m1" unfolding m1(4) by blast
  with Cons.IH [OF m1(2)] Cons.prems obtain m' where "loop js m1 = Return m'" "good m'"
    "free m' = free m1 \<union> g ` set js" "taken m' = taken m1 - g ` set js" "rest m' = rest m1"
    by auto
  with m1 Cons.prems show ?case by (auto simp: assms)
qed

end

end
