(* ===== verification/Scheduler.thy ===== *)
theory Scheduler
  imports Lockjaw_Prelude
begin

text \<open>
  The scheduler's pure model, \<^verbatim>\<open>lockjaw-types/src/scheduler.rs\<close>: per-CPU current threads and
  per-slot thread states, the round-robin selection, every transition the kernel calls, the
  invariant \<^verbatim>\<open>check_invariants\<close> and its preservation, and the fairness of the rotation.
\<close>

section \<open>Data\<close>

datatype SchedThreadState = Ready | Running | Blocked | Exited

datatype SchedReason = Preempt | Block | Exit

datatype SchedDecision =
    SwitchTo nat
  | StayOnCurrent
  | WaitForInterrupt
  | ExitAndSwitch nat nat
  | ExitAndHalt nat

datatype SchedError = InvalidTransition | InvalidIndex

definition MAX_THREADS :: nat where
  "MAX_THREADS = 1024"

definition MAX_CPUS :: nat where
  "MAX_CPUS = 4"

record SchedState =
  current_per_cpu :: "nat option list"
  states :: "SchedThreadState option list"

section \<open>Selection\<close>

text \<open>
  The search loop of \<^verbatim>\<open>select_next\<close>. \<open>None\<close> is a loop that never ends (which happens for a
  \<^verbatim>\<open>current\<close> outside the table), \<open>Some None\<close> a loop left by its \<^verbatim>\<open>break\<close>.
\<close>

partial_function (option) select_loop ::
  "nat \<Rightarrow> nat \<Rightarrow> (nat \<Rightarrow> SchedThreadState) \<Rightarrow> nat \<Rightarrow> nat option option" where
  "select_loop current thread_count get_state nxt =
     (if get_state nxt = Ready then Some (Some nxt)
      else let nxt' = (nxt + 1) mod thread_count in
           if nxt' = current then Some None
           else select_loop current thread_count get_state nxt')"

definition select_default ::
  "nat \<Rightarrow> SchedReason \<Rightarrow> (nat \<Rightarrow> SchedThreadState) \<Rightarrow> SchedDecision" where
  "select_default current reason get_state =
     (case reason of
        Preempt \<Rightarrow> (if get_state current = Running then StayOnCurrent else WaitForInterrupt)
      | Block \<Rightarrow> WaitForInterrupt
      | Exit \<Rightarrow> ExitAndHalt current)"

definition select_found :: "nat \<Rightarrow> SchedReason \<Rightarrow> nat \<Rightarrow> SchedDecision" where
  "select_found current reason nxt =
     (case reason of Exit \<Rightarrow> ExitAndSwitch current nxt | _ \<Rightarrow> SwitchTo nxt)"

definition select_next ::
  "nat \<Rightarrow> nat \<Rightarrow> SchedReason \<Rightarrow> (nat \<Rightarrow> SchedThreadState) \<Rightarrow> SchedDecision outcome" where
  "select_next current thread_count reason get_state =
     (if 2 \<le> thread_count
      then case select_loop current thread_count get_state ((current + 1) mod thread_count) of
             None \<Rightarrow> Diverge
           | Some (Some nxt) \<Rightarrow> Return (select_found current reason nxt)
           | Some None \<Rightarrow> Return (select_default current reason get_state)
      else Return (select_default current reason get_state))"

definition select_for_idle_cpu :: "nat \<Rightarrow> (nat \<Rightarrow> SchedThreadState) \<Rightarrow> nat option" where
  "select_for_idle_cpu thread_count get_state =
     position (\<lambda>i. get_state i = Ready) [0..<thread_count]"

section \<open>State and transitions\<close>

definition new_const :: SchedState where
  "new_const = \<lparr>current_per_cpu = replicate MAX_CPUS None, states = replicate MAX_THREADS None\<rparr>"

definition sched_new :: SchedState where
  "sched_new = new_const\<lparr>states := (states new_const)[0 := Some Running],
                         current_per_cpu := (current_per_cpu new_const)[0 := Some 0]\<rparr>"

definition current_for :: "SchedState \<Rightarrow> nat \<Rightarrow> nat outcome" where
  "current_for s cpu_id =
     (if cpu_id < length (current_per_cpu s)
      then case current_per_cpu s ! cpu_id of Some idx \<Rightarrow> Return idx | None \<Rightarrow> Panic
      else Panic)"

definition try_current_for :: "SchedState \<Rightarrow> nat \<Rightarrow> nat option outcome" where
  "try_current_for s cpu_id =
     (if cpu_id < length (current_per_cpu s) then Return (current_per_cpu s ! cpu_id) else Panic)"

definition current_for_panic_safe :: "SchedState \<Rightarrow> nat \<Rightarrow> nat option" where
  "current_for_panic_safe s cpu_id = Option.bind (slice_get (current_per_cpu s) cpu_id) id"

definition add_thread :: "SchedState \<Rightarrow> nat option \<times> SchedState" where
  "add_thread s =
     (case position (\<lambda>st. st = None) (states s) of
        Some i \<Rightarrow> (Some i, s\<lparr>states := (states s)[i := Some Ready]\<rparr>)
      | None \<Rightarrow> (None, s))"

definition has_free_slot :: "SchedState \<Rightarrow> bool" where
  "has_free_slot s = list_ex (\<lambda>st. st = None) (states s)"

definition sched_get :: "SchedState \<Rightarrow> nat \<Rightarrow> SchedThreadState option" where
  "sched_get s idx = Option.bind (slice_get (states s) idx) id"

definition set_state :: "SchedState \<Rightarrow> nat \<Rightarrow> SchedThreadState option \<Rightarrow> SchedState" where
  "set_state s idx st = s\<lparr>states := (states s)[idx := st]\<rparr>"

definition set_current :: "SchedState \<Rightarrow> nat \<Rightarrow> nat \<Rightarrow> SchedState" where
  "set_current s cpu_id idx = s\<lparr>current_per_cpu := (current_per_cpu s)[cpu_id := Some idx]\<rparr>"

definition mark_initial_running :: "SchedState \<Rightarrow> nat \<Rightarrow> SchedState outcome" where
  "mark_initial_running s cpu_id =
     bind_outcome (current_for s cpu_id) (\<lambda>idx.
       assert_then (idx < length (states s)) (Return (set_state s idx (Some Running))))"

definition thread_count :: "SchedState \<Rightarrow> nat" where
  "thread_count s = length (filter (\<lambda>st. st \<noteq> None) (states s))"

definition block_current :: "SchedState \<Rightarrow> nat \<Rightarrow> (SchedState, SchedError) result outcome" where
  "block_current s cpu_id =
     bind_outcome (current_for s cpu_id) (\<lambda>current.
       Return (if sched_get s current = Some Running
               then Ok (set_state s current (Some Blocked))
               else Err InvalidTransition))"

definition unblock :: "SchedState \<Rightarrow> nat \<Rightarrow> (SchedState, SchedError) result" where
  "unblock s idx =
     (case sched_get s idx of
        Some Blocked \<Rightarrow>
          Ok (set_state s idx
                (Some (if list_ex (\<lambda>c. c = Some idx) (current_per_cpu s) then Running else Ready)))
      | Some _ \<Rightarrow> Err InvalidTransition
      | None \<Rightarrow> Err InvalidIndex)"

definition remove_thread :: "SchedState \<Rightarrow> nat \<Rightarrow> (SchedState, SchedError) result" where
  "remove_thread s idx =
     (if list_ex (\<lambda>c. c = Some idx) (current_per_cpu s) then Err InvalidTransition
      else case sched_get s idx of
             Some Exited \<Rightarrow> Ok (set_state s idx None)
           | Some _ \<Rightarrow> Err InvalidTransition
           | None \<Rightarrow> Err InvalidIndex)"

definition check_invariants :: "SchedState \<Rightarrow> bool" where
  "check_invariants s \<longleftrightarrow>
     (\<forall>c < length (current_per_cpu s).
        case current_per_cpu s ! c of
          None \<Rightarrow> True
        | Some idx \<Rightarrow>
            idx < MAX_THREADS \<and> states s ! idx \<noteq> None \<and>
            (\<forall>c2 < length (current_per_cpu s).
               c2 \<noteq> c \<longrightarrow> current_per_cpu s ! c2 \<noteq> Some idx)) \<and>
     (\<forall>i < length (states s).
        states s ! i = Some Running \<longrightarrow>
        length (filter (\<lambda>c. c = Some i) (current_per_cpu s)) = 1) \<and>
     (\<forall>c \<in> set (current_per_cpu s).
        case c of None \<Rightarrow> True | Some idx \<Rightarrow> states s ! idx \<noteq> Some Ready)"

text \<open>The closure \<^verbatim>\<open>decide\<close> passes to \<^verbatim>\<open>select_next\<close>.\<close>

definition decide_view :: "SchedState \<Rightarrow> nat \<Rightarrow> nat \<Rightarrow> SchedThreadState" where
  "decide_view s current i =
     (let st = (case sched_get s i of None \<Rightarrow> Blocked | Some st \<Rightarrow> st) in
      if st = Running \<and> i \<noteq> current then Blocked else st)"

definition decide :: "SchedState \<Rightarrow> nat \<Rightarrow> SchedReason \<Rightarrow> SchedDecision outcome" where
  "decide s cpu_id reason =
     bind_outcome (current_for s cpu_id) (\<lambda>current.
       select_next current MAX_THREADS reason (decide_view s current))"

definition apply_decision ::
  "SchedState \<Rightarrow> nat \<Rightarrow> SchedReason \<Rightarrow> SchedDecision \<Rightarrow> (SchedState, SchedError) result outcome" where
  "apply_decision s cpu_id reason decision =
     bind_outcome (current_for s cpu_id) (\<lambda>current. Return
       (case decision of
          SwitchTo new_idx \<Rightarrow>
            if sched_get s new_idx \<noteq> Some Ready then Err InvalidTransition
            else if reason = Preempt then
              (if sched_get s current \<noteq> Some Running then Err InvalidTransition
               else Ok (set_current (set_state (set_state s current (Some Ready))
                                       new_idx (Some Running)) cpu_id new_idx))
            else if sched_get s current \<noteq> Some Blocked \<and> sched_get s current \<noteq> Some Exited
              then Err InvalidTransition
            else Ok (set_current (set_state s new_idx (Some Running)) cpu_id new_idx)
        | StayOnCurrent \<Rightarrow>
            if reason \<noteq> Preempt then Err InvalidTransition
            else if sched_get s current \<noteq> Some Running then Err InvalidTransition
            else if list_ex (\<lambda>i. i \<noteq> current \<and> states s ! i = Some Ready) [0..<length (states s)]
              then Err InvalidTransition
            else Ok s
        | WaitForInterrupt \<Rightarrow>
            if list_ex (\<lambda>st. st = Some Ready) (states s) then Err InvalidTransition else Ok s
        | ExitAndSwitch ex nxt \<Rightarrow>
            if reason \<noteq> Exit then Err InvalidTransition
            else if sched_get s ex \<noteq> Some Running then Err InvalidTransition
            else if sched_get s nxt \<noteq> Some Ready then Err InvalidTransition
            else Ok (set_current (set_state (set_state s ex (Some Exited))
                                    nxt (Some Running)) cpu_id nxt)
        | ExitAndHalt ex \<Rightarrow>
            if reason \<noteq> Exit then Err InvalidTransition
            else if sched_get s ex \<noteq> Some Running then Err InvalidTransition
            else Ok (set_state s ex (Some Exited))))"

text \<open>
  The entry assertions of \<^verbatim>\<open>step\<close> and the step itself. The closing \<^verbatim>\<open>debug_assert!\<close> is kept
  as a panic branch, as in the development profile.
\<close>

definition step_precondition :: "SchedState \<Rightarrow> nat \<Rightarrow> SchedReason \<Rightarrow> bool" where
  "step_precondition s current reason =
     (case reason of
        Preempt \<Rightarrow> sched_get s current = Some Running
      | Block \<Rightarrow> sched_get s current = Some Blocked \<or> sched_get s current = Some Exited
      | Exit \<Rightarrow> sched_get s current = Some Running)"

definition sched_step :: "SchedState \<Rightarrow> nat \<Rightarrow> SchedReason \<Rightarrow> (SchedDecision \<times> SchedState) outcome" where
  "sched_step s cpu_id reason =
     bind_outcome (current_for s cpu_id) (\<lambda>current.
       assert_then (step_precondition s current reason)
         (bind_outcome (decide s cpu_id reason) (\<lambda>decision.
            bind_outcome (apply_decision s cpu_id reason decision) (\<lambda>r.
              case r of
                Err _ \<Rightarrow> Panic
              | Ok s' \<Rightarrow> assert_then (check_invariants s') (Return (decision, s'))))))"

definition set_initial_current :: "SchedState \<Rightarrow> nat \<Rightarrow> nat \<Rightarrow> SchedState outcome" where
  "set_initial_current s cpu_id thread_idx =
     bind_outcome (try_current_for s cpu_id) (\<lambda>cur.
       assert_then (cur = None)
         (assert_then (sched_get s thread_idx = Some Ready)
            (Return (set_current (set_state s thread_idx (Some Running)) cpu_id thread_idx))))"

definition idle_view :: "SchedState \<Rightarrow> nat \<Rightarrow> SchedThreadState" where
  "idle_view s i =
     (let st = (case sched_get s i of None \<Rightarrow> Blocked | Some st \<Rightarrow> st) in
      if st = Running then Blocked else st)"

definition step_from_idle :: "SchedState \<Rightarrow> nat \<Rightarrow> (SchedDecision option \<times> SchedState) outcome" where
  "step_from_idle s cpu_id =
     bind_outcome (try_current_for s cpu_id) (\<lambda>cur.
       assert_then (cur = None)
         (case select_for_idle_cpu MAX_THREADS (idle_view s) of
            None \<Rightarrow> Return (None, s)
          | Some next_idx \<Rightarrow>
              (let s' = set_current (set_state s next_idx (Some Running)) cpu_id next_idx in
               assert_then (check_invariants s') (Return (Some (SwitchTo next_idx), s')))))"


section \<open>Round-robin order\<close>

definition round_robin_order :: "nat \<Rightarrow> nat \<Rightarrow> nat list" where
  "round_robin_order current n = map (\<lambda>k. (current + k) mod n) [1..<n]"

lemma rotation_back_iff:
  assumes "current < n" and "1 \<le> k" and "k < n"
  shows "((current + k) mod n + 1) mod n = current \<longleftrightarrow> Suc k = n"
proof -
  have e: "((current + k) mod n + 1) mod n = (current + Suc k) mod n"
    by (simp add: mod_Suc_eq)
  show ?thesis
  proof (cases "current + Suc k < n")
    case True
    then show ?thesis by (simp only: e mod_less) (use True assms in simp)
  next
    case False
    with assms have "(current + Suc k) mod n = current + Suc k - n"
      by (simp add: mod_if)
    with False assms show ?thesis by (simp only: e) auto
  qed
qed

lemma select_loop_find:
  assumes "current < n" and "1 \<le> k" and "k < n"
  shows "select_loop current n g ((current + k) mod n) =
    Some (List.find (\<lambda>i. g i = Ready) (map (\<lambda>j. (current + j) mod n) [k..<n]))"
  using assms(2,3)
proof (induction "n - k" arbitrary: k)
  case 0
  then show ?case by simp
next
  case (Suc d)
  let ?i = "(current + k) mod n"
  have e: "(?i + 1) mod n = (current + Suc k) mod n"
    by (simp add: mod_Suc_eq)
  have u: "[k..<n] = k # [Suc k..<n]"
    using Suc.prems by (simp add: upt_conv_Cons)
  show ?case
  proof (cases "g ?i = Ready")
    case True
    then show ?thesis by (subst select_loop.simps) (simp add: u)
  next
    case False
    show ?thesis
    proof (cases "Suc k = n")
      case True
      with False assms(1) Suc.prems rotation_back_iff [of current n k] show ?thesis
        by (subst select_loop.simps) (simp add: u Let_def)
    next
      case neq: False
      have "select_loop current n g ((current + Suc k) mod n) =
        Some (List.find (\<lambda>i. g i = Ready) (map (\<lambda>j. (current + j) mod n) [Suc k..<n]))"
        by (rule Suc.hyps(1)) (use Suc.hyps(2) Suc.prems neq in auto)
      with False neq assms(1) Suc.prems rotation_back_iff [of current n k] e show ?thesis
        by (subst select_loop.simps) (simp add: u Let_def)
    qed
  qed
qed

lemma select_next_round_robin_found:
  assumes "current < n"
  shows "select_next current n reason g = Return
    (case List.find (\<lambda>i. g i = Ready) (round_robin_order current n) of
       Some nxt \<Rightarrow> select_found current reason nxt
     | None \<Rightarrow> select_default current reason g)"
proof (cases "2 \<le> n")
  case True
  then have "select_loop current n g ((current + 1) mod n) =
    Some (List.find (\<lambda>i. g i = Ready) (round_robin_order current n))"
    using select_loop_find [OF assms, of 1 g] by (simp add: round_robin_order_def)
  with True show ?thesis
    by (simp add: select_next_def split: option.splits)
next
  case False
  with assms have "n = 1" by simp
  then show ?thesis by (simp add: select_next_def round_robin_order_def)
qed

lemma set_round_robin_order:
  assumes "current < n"
  shows "set (round_robin_order current n) = {0..<n} - {current}"
proof -
  have 1: "i \<in> (\<lambda>k. (current + k) mod n) ` {1..<n}" if "i < n" "i \<noteq> current" for i
  proof (cases "current < i")
    case True
    with that show ?thesis by (intro image_eqI [where x = "i - current"]) auto
  next
    case False
    with that assms show ?thesis
      by (intro image_eqI [where x = "n - current + i"]) (auto simp: mod_if)
  qed
  have 2: "(current + k) mod n \<in> {0..<n} - {current}" if "k \<in> {1..<n}" for k
    using that assms by (auto simp: mod_if)
  have "set (round_robin_order current n) = (\<lambda>k. (current + k) mod n) ` {1..<n}"
    by (simp add: round_robin_order_def)
  also have "\<dots> = {0..<n} - {current}"
  proof (rule set_eqI, rule iffI)
    fix i assume "i \<in> (\<lambda>k. (current + k) mod n) ` {1..<n}"
    then obtain k where "i = (current + k) mod n" "k \<in> {1..<n}" by (rule imageE)
    then show "i \<in> {0..<n} - {current}" using 2 [of k] by simp
  next
    fix i assume "i \<in> {0..<n} - {current}"
    then show "i \<in> (\<lambda>k. (current + k) mod n) ` {1..<n}" using 1 by simp
  qed
  finally show ?thesis .
qed

section \<open>States as total lookups\<close>

text \<open>
  The proofs read a state through two total functions, \<open>current_for_panic_safe\<close> and
  \<open>sched_get\<close>; every transition is a pair of pointwise updates of them.
\<close>

definition sched_wf :: "SchedState \<Rightarrow> bool" where
  "sched_wf s \<longleftrightarrow> length (current_per_cpu s) = MAX_CPUS \<and> length (states s) = MAX_THREADS"

lemma sched_get_set_state [simp]:
  "sched_get (set_state s i st) j =
     (if j = i \<and> i < length (states s) then st else sched_get s j)"
  by (simp add: sched_get_def set_state_def slice_get_update)

lemma sched_get_set_current [simp]: "sched_get (set_current s c i) j = sched_get s j"
  by (simp add: sched_get_def set_current_def)

lemma current_set_state [simp]:
  "current_for_panic_safe (set_state s i st) c = current_for_panic_safe s c"
  by (simp add: current_for_panic_safe_def set_state_def)

lemma current_set_current [simp]:
  "current_for_panic_safe (set_current s c i) d =
     (if d = c \<and> c < length (current_per_cpu s) then Some i else current_for_panic_safe s d)"
  by (simp add: current_for_panic_safe_def set_current_def slice_get_update)

lemma length_set_state [simp]:
  "length (states (set_state s i st)) = length (states s)"
  "length (current_per_cpu (set_state s i st)) = length (current_per_cpu s)"
  by (simp_all add: set_state_def)

lemma length_set_current [simp]:
  "length (states (set_current s c i)) = length (states s)"
  "length (current_per_cpu (set_current s c i)) = length (current_per_cpu s)"
  by (simp_all add: set_current_def)

lemma sched_wf_set [simp]:
  "sched_wf (set_state s i st) \<longleftrightarrow> sched_wf s"
  "sched_wf (set_current s c i) \<longleftrightarrow> sched_wf s"
  by (simp_all add: sched_wf_def)

lemma sched_get_Some_length: "sched_get s i = Some st \<Longrightarrow> i < length (states s)"
  by (auto simp: sched_get_def slice_get_def split: if_splits)

lemma current_Some_length: "current_for_panic_safe s c = Some i \<Longrightarrow> c < length (current_per_cpu s)"
  by (auto simp: current_for_panic_safe_def slice_get_def split: if_splits)

lemma sched_get_nth: "i < length (states s) \<Longrightarrow> sched_get s i = states s ! i"
  by (simp add: sched_get_def slice_get_def)

lemma current_nth:
  "c < length (current_per_cpu s) \<Longrightarrow> current_for_panic_safe s c = current_per_cpu s ! c"
  by (simp add: current_for_panic_safe_def slice_get_def)

lemma current_for_Return_iff:
  "current_for s c = Return i \<longleftrightarrow> current_for_panic_safe s c = Some i"
  by (auto simp: current_for_def current_for_panic_safe_def slice_get_def split: option.splits)

lemma try_current_for_None_iff:
  "try_current_for s c = Return None \<longleftrightarrow>
     c < length (current_per_cpu s) \<and> current_for_panic_safe s c = None"
  by (auto simp: try_current_for_def current_nth)

lemma is_current_iff:
  "list_ex (\<lambda>c. c = Some i) (current_per_cpu s) \<longleftrightarrow> (\<exists>c. current_for_panic_safe s c = Some i)"
proof -
  have "(\<exists>c. current_for_panic_safe s c = Some i) \<longleftrightarrow>
    (\<exists>c < length (current_per_cpu s). current_per_cpu s ! c = Some i)"
    using current_Some_length [of s _ i] current_nth [of _ s] by metis
  then show ?thesis by (simp add: list_ex_length)
qed

lemma set_state_same: "set_state s i (sched_get s i) = s"
proof (cases "i < length (states s)")
  case True
  then show ?thesis by (simp add: set_state_def sched_get_nth)
next
  case False
  then have "(states s)[i := sched_get s i] = states s" by (intro list_update_beyond) simp
  then show ?thesis by (simp add: set_state_def)
qed

lemma filter_eq_once_iff:
  "length (filter (\<lambda>x. x = a) xs) = 1 \<longleftrightarrow> (\<exists>!i. i < length xs \<and> xs ! i = a)"
proof -
  have "length (filter (\<lambda>x. x = a) xs) = card {i. i < length xs \<and> xs ! i = a}"
    by (rule length_filter_conv_card)
  moreover have "(card A = 1) = (\<exists>!i. i \<in> A)" for A :: "nat set"
    unfolding One_nat_def card_1_singleton_iff by blast
  ultimately show ?thesis by simp
qed

text \<open>The checker of the code, read as three laws of the lookups.\<close>

lemma check_invariants_iff:
  assumes "sched_wf s"
  shows "check_invariants s \<longleftrightarrow>
    (\<forall>c i. current_for_panic_safe s c = Some i \<longrightarrow> (\<exists>st. sched_get s i = Some st \<and> st \<noteq> Ready)) \<and>
    (\<forall>c d i. current_for_panic_safe s c = Some i \<longrightarrow> current_for_panic_safe s d = Some i \<longrightarrow> c = d) \<and>
    (\<forall>i. sched_get s i = Some Running \<longrightarrow> (\<exists>c. current_for_panic_safe s c = Some i))"
    (is "_ \<longleftrightarrow> ?A \<and> ?B \<and> ?C")
proof
  assume inv: "check_invariants s"
  have 1: "i < MAX_THREADS \<and> states s ! i \<noteq> None \<and>
      (\<forall>d < length (current_per_cpu s). d \<noteq> c \<longrightarrow> current_per_cpu s ! d \<noteq> Some i)"
    if "current_for_panic_safe s c = Some i" for c i
    using inv that current_Some_length [OF that]
    by (auto simp: check_invariants_def current_nth split: option.splits)
  have 2: "states s ! i \<noteq> Some Ready" if "current_for_panic_safe s c = Some i" for c i
  proof -
    from that have "Some i \<in> set (current_per_cpu s)"
      using current_Some_length [OF that] by (metis current_nth nth_mem)
    moreover from inv have "\<forall>c \<in> set (current_per_cpu s).
        case c of None \<Rightarrow> True | Some idx \<Rightarrow> states s ! idx \<noteq> Some Ready"
      unfolding check_invariants_def by blast
    ultimately show ?thesis by (auto dest: bspec)
  qed
  have ?A
  proof (intro allI impI)
    fix c i assume c: "current_for_panic_safe s c = Some i"
    with 1 have "i < length (states s)" using assms by (simp add: sched_wf_def)
    with 1 [OF c] 2 [OF c] show "\<exists>st. sched_get s i = Some st \<and> st \<noteq> Ready"
      by (auto simp: sched_get_nth)
  qed
  moreover have ?B
  proof (intro allI impI)
    fix c d i
    assume c: "current_for_panic_safe s c = Some i" and d: "current_for_panic_safe s d = Some i"
    from 1 [OF c] d current_Some_length [OF d] show "c = d" by (auto simp: current_nth)
  qed
  moreover have ?C
  proof (intro allI impI)
    fix i assume r: "sched_get s i = Some Running"
    then have "length (filter (\<lambda>c. c = Some i) (current_per_cpu s)) = 1"
      using inv sched_get_Some_length [OF r] by (auto simp: check_invariants_def sched_get_nth)
    then obtain c where "c < length (current_per_cpu s)" "current_per_cpu s ! c = Some i"
      unfolding filter_eq_once_iff by blast
    then have "current_for_panic_safe s c = Some i" by (simp add: current_nth)
    then show "\<exists>c. current_for_panic_safe s c = Some i" by blast
  qed
  ultimately show "?A \<and> ?B \<and> ?C" by blast
next
  assume abc: "?A \<and> ?B \<and> ?C"
  have 1: "idx < MAX_THREADS \<and> states s ! idx \<noteq> None \<and> states s ! idx \<noteq> Some Ready \<and>
      (\<forall>c2 < length (current_per_cpu s). c2 \<noteq> c \<longrightarrow> current_per_cpu s ! c2 \<noteq> Some idx)"
    if "c < length (current_per_cpu s)" "current_per_cpu s ! c = Some idx" for c idx
  proof -
    from that have cs: "current_for_panic_safe s c = Some idx" by (simp add: current_nth)
    with abc obtain st where st: "sched_get s idx = Some st" "st \<noteq> Ready" by blast
    from st(1) have "idx < length (states s)" by (rule sched_get_Some_length)
    moreover have "c2 = c" if "c2 < length (current_per_cpu s)" "current_per_cpu s ! c2 = Some idx" for c2
      using abc cs that by (simp add: current_nth)
    ultimately show ?thesis
      using st assms by (auto simp: sched_get_nth sched_wf_def)
  qed
  have 2: "length (filter (\<lambda>c. c = Some i) (current_per_cpu s)) = 1"
    if "i < length (states s)" "states s ! i = Some Running" for i
  proof -
    from that have "sched_get s i = Some Running" by (simp add: sched_get_nth)
    with abc obtain c where "current_for_panic_safe s c = Some i" by blast
    then have c: "c < length (current_per_cpu s) \<and> current_per_cpu s ! c = Some i"
      using current_Some_length [of s c i] by (simp add: current_nth)
    have "d = c" if "d < length (current_per_cpu s) \<and> current_per_cpu s ! d = Some i" for d
      using 1 [of c i] c that by blast
    with c show ?thesis
      unfolding filter_eq_once_iff by blast
  qed
  show "check_invariants s"
    using 1 2 by (auto simp: check_invariants_def in_set_conv_nth split: option.splits)
qed


section \<open>Every transition keeps the invariant\<close>

lemma invariant_current:
  "sched_wf s \<Longrightarrow> check_invariants s \<Longrightarrow> current_for_panic_safe s c = Some i \<Longrightarrow>
     \<exists>st. sched_get s i = Some st \<and> st \<noteq> Ready"
  by (simp add: check_invariants_iff)

lemma invariant_unique:
  "sched_wf s \<Longrightarrow> check_invariants s \<Longrightarrow>
     current_for_panic_safe s c = Some i \<Longrightarrow> current_for_panic_safe s d = Some i \<Longrightarrow> c = d"
  using check_invariants_iff by blast

lemma invariant_running:
  assumes "sched_wf s" and "check_invariants s" and "sched_get s i = Some Running"
  obtains c where "current_for_panic_safe s c = Some i"
  using assms by (auto simp: check_invariants_iff)

lemma ready_not_current:
  "sched_wf s \<Longrightarrow> check_invariants s \<Longrightarrow> sched_get s i = Some Ready \<Longrightarrow>
     current_for_panic_safe s c \<noteq> Some i"
  by (auto dest: invariant_current)

text \<open>The shapes of a transition: retiring a current thread, switching to a Ready thread, giving
  an idle CPU a Ready thread.\<close>

lemma retire_invariants:
  assumes "sched_wf s" and "check_invariants s" and "current_for_panic_safe s cpu_id = Some current"
    and "st = Blocked \<or> st = Exited"
  shows "check_invariants (set_state s current (Some st))"
  using assms by (auto simp: check_invariants_iff)

lemma switch_invariants:
  assumes "sched_wf s" and "check_invariants s" and "current_for_panic_safe s cpu_id = Some current"
    and "sched_get s nxt = Some Ready" and "st \<noteq> Running" and "nxt \<noteq> current"
  shows "check_invariants (set_current (set_state (set_state s current (Some st))
           nxt (Some Running)) cpu_id nxt)" (is "check_invariants ?t")
proof -
  note len = sched_get_Some_length [OF assms(4)] current_Some_length [OF assms(3)]
  note nc = ready_not_current [OF assms(1,2,4)]
  have cl: "current < length (states s)"
    using invariant_current [OF assms(1-3)] by (auto dest: sched_get_Some_length)
  have other: "d = cpu_id" if "current_for_panic_safe s d = Some current" for d
    using that assms(3) by (rule invariant_unique [OF assms(1,2)])
  have "\<exists>st. sched_get ?t i = Some st \<and> st \<noteq> Ready"
    if "current_for_panic_safe ?t c = Some i" for c i
  proof (cases "c = cpu_id")
    case True
    with that len show ?thesis by simp
  next
    case False
    with that have c: "current_for_panic_safe s c = Some i" by simp
    with nc other False have "i \<noteq> nxt" "i \<noteq> current" by auto
    with invariant_current [OF assms(1,2) c] show ?thesis by simp
  qed
  moreover have "c = d"
    if "current_for_panic_safe ?t c = Some i" "current_for_panic_safe ?t d = Some i" for c d i
    using that len nc invariant_unique [OF assms(1,2), of c i d] by (auto split: if_splits)
  moreover have "\<exists>c. current_for_panic_safe ?t c = Some i" if "sched_get ?t i = Some Running" for i
  proof (cases "i = nxt")
    case True
    with len show ?thesis by (intro exI [of _ cpu_id]) simp
  next
    case False
    with that cl assms(5) have i: "i \<noteq> current" "sched_get s i = Some Running"
      by (auto split: if_splits)
    from i(2) obtain c where "current_for_panic_safe s c = Some i"
      by (rule invariant_running [OF assms(1,2)])
    moreover from this i(1) assms(3) have "c \<noteq> cpu_id" by auto
    ultimately show ?thesis by (intro exI [of _ c]) simp
  qed
  moreover have "sched_wf ?t" using assms(1) by simp
  ultimately show ?thesis
    unfolding check_invariants_iff [OF \<open>sched_wf ?t\<close>] by blast
qed

lemma assign_invariants:
  assumes "sched_wf s" and "check_invariants s"
    and "current_for_panic_safe s cpu_id = None" and "cpu_id < length (current_per_cpu s)"
    and "sched_get s nxt = Some Ready"
  shows "check_invariants (set_current (set_state s nxt (Some Running)) cpu_id nxt)"
    (is "check_invariants ?t")
proof -
  note len = sched_get_Some_length [OF assms(5)] assms(4)
  note nc = ready_not_current [OF assms(1,2,5)]
  have "\<exists>st. sched_get ?t i = Some st \<and> st \<noteq> Ready"
    if "current_for_panic_safe ?t c = Some i" for c i
    using that len invariant_current [OF assms(1,2), of c i] by (auto split: if_splits)
  moreover have "c = d"
    if "current_for_panic_safe ?t c = Some i" "current_for_panic_safe ?t d = Some i" for c d i
    using that len nc invariant_unique [OF assms(1,2), of c i d] by (auto split: if_splits)
  moreover have "\<exists>c. current_for_panic_safe ?t c = Some i" if "sched_get ?t i = Some Running" for i
  proof (cases "i = nxt")
    case True
    with len show ?thesis by (intro exI [of _ cpu_id]) simp
  next
    case False
    with that have "sched_get s i = Some Running" by (auto split: if_splits)
    then obtain c where "current_for_panic_safe s c = Some i"
      by (rule invariant_running [OF assms(1,2)])
    moreover from this assms(3) have "c \<noteq> cpu_id" by auto
    ultimately show ?thesis by (intro exI [of _ c]) simp
  qed
  moreover have "sched_wf ?t" using assms(1) by simp
  ultimately show ?thesis
    unfolding check_invariants_iff [OF \<open>sched_wf ?t\<close>] by blast
qed

text \<open>What one \<^verbatim>\<open>step\<close> computes, with its assertions and its internal checks discharged.\<close>

definition next_ready :: "SchedState \<Rightarrow> nat \<Rightarrow> nat option" where
  "next_ready s current =
     List.find (\<lambda>i. sched_get s i = Some Ready) (round_robin_order current MAX_THREADS)"

definition retired :: "SchedState \<Rightarrow> nat \<Rightarrow> SchedReason \<Rightarrow> SchedThreadState option" where
  "retired s current reason =
     (case reason of Preempt \<Rightarrow> Some Ready | Block \<Rightarrow> sched_get s current | Exit \<Rightarrow> Some Exited)"

definition switched :: "SchedState \<Rightarrow> nat \<Rightarrow> nat \<Rightarrow> SchedReason \<Rightarrow> nat \<Rightarrow> SchedState" where
  "switched s cpu_id current reason nxt =
     set_current (set_state (set_state s current (retired s current reason)) nxt (Some Running))
       cpu_id nxt"

lemma decide_view_Ready_iff: "decide_view s current i = Ready \<longleftrightarrow> sched_get s i = Some Ready"
  by (auto simp: decide_view_def Let_def split: option.splits)

lemma idle_view_Ready_iff: "idle_view s i = Ready \<longleftrightarrow> sched_get s i = Some Ready"
  by (auto simp: idle_view_def Let_def split: option.splits)

lemma current_in_range:
  assumes "sched_wf s" and "check_invariants s" and "current_for s cpu_id = Return current"
  shows "current < MAX_THREADS"
proof -
  from assms(3) have "current_for_panic_safe s cpu_id = Some current"
    by (simp add: current_for_Return_iff)
  with assms(1,2) obtain st where "sched_get s current = Some st"
    by (blast dest: invariant_current)
  then have "current < length (states s)" by (rule sched_get_Some_length)
  with assms(1) show ?thesis by (simp add: sched_wf_def)
qed

lemma decide_eq:
  assumes "sched_wf s" and "check_invariants s" and "current_for s cpu_id = Return current"
  shows "decide s cpu_id reason = Return
    (case next_ready s current of
       Some nxt \<Rightarrow> select_found current reason nxt
     | None \<Rightarrow> select_default current reason (decide_view s current))"
  using select_next_round_robin_found [OF current_in_range [OF assms], of reason "decide_view s current"]
  by (simp add: decide_def assms(3) next_ready_def decide_view_Ready_iff)

lemma next_ready_Some:
  assumes "current < MAX_THREADS" and "next_ready s current = Some nxt"
  shows "sched_get s nxt = Some Ready" and "nxt \<noteq> current" and "nxt < MAX_THREADS"
proof -
  from assms(2) obtain j where j: "j < length (round_robin_order current MAX_THREADS)"
    "nxt = round_robin_order current MAX_THREADS ! j" "sched_get s nxt = Some Ready"
    by (auto simp: next_ready_def find_Some_iff)
  then have "nxt \<in> set (round_robin_order current MAX_THREADS)" by simp
  then show "nxt \<noteq> current" "nxt < MAX_THREADS"
    unfolding set_round_robin_order [OF assms(1)] by simp_all
  from j(3) show "sched_get s nxt = Some Ready" .
qed

lemma next_ready_None:
  assumes "sched_wf s" and "current < MAX_THREADS" and "next_ready s current = None"
    and "i \<noteq> current"
  shows "sched_get s i \<noteq> Some Ready"
proof
  assume r: "sched_get s i = Some Ready"
  then have "i < MAX_THREADS"
    using sched_get_Some_length [OF r] assms(1) by (simp add: sched_wf_def)
  with assms(2,4) have "i \<in> set (round_robin_order current MAX_THREADS)"
    by (simp add: set_round_robin_order)
  with r assms(3) show False by (auto simp: next_ready_def find_None_iff)
qed

lemma switched_invariants:
  assumes "sched_wf s" and "check_invariants s" and "current_for s cpu_id = Return current"
    and "step_precondition s current reason" and "next_ready s current = Some nxt"
  shows "check_invariants (switched s cpu_id current reason nxt)"
proof -
  from assms(4) obtain st where st: "retired s current reason = Some st" "st \<noteq> Running"
    by (auto simp: retired_def step_precondition_def split: SchedReason.splits)
  note nxt = next_ready_Some [OF current_in_range [OF assms(1-3)] assms(5)]
  show ?thesis
    unfolding switched_def st(1)
    using assms(3) nxt(1,2) st(2)
    by (intro switch_invariants [OF assms(1,2)]) (simp_all add: current_for_Return_iff)
qed

lemma sched_step_found:
  assumes "sched_wf s" and "check_invariants s" and "current_for s cpu_id = Return current"
    and "step_precondition s current reason" and "next_ready s current = Some nxt"
  shows "sched_step s cpu_id reason =
    Return (select_found current reason nxt, switched s cpu_id current reason nxt)"
proof -
  note nxt = next_ready_Some [OF current_in_range [OF assms(1-3)] assms(5)]
  have "apply_decision s cpu_id reason (select_found current reason nxt) =
    Return (Ok (switched s cpu_id current reason nxt))"
    using assms(3,4) nxt
    by (cases reason)
      (auto simp: apply_decision_def select_found_def switched_def retired_def
        step_precondition_def set_state_same)
  with switched_invariants [OF assms] decide_eq [OF assms(1-3), of reason] assms(3-5)
  show ?thesis by (simp add: sched_step_def)
qed

lemma sched_step_none:
  assumes "sched_wf s" and "check_invariants s" and "current_for s cpu_id = Return current"
    and "step_precondition s current reason" and "next_ready s current = None"
  shows "sched_step s cpu_id reason = Return
    (case reason of Preempt \<Rightarrow> (StayOnCurrent, s) | Block \<Rightarrow> (WaitForInterrupt, s)
     | Exit \<Rightarrow> (ExitAndHalt current, set_state s current (Some Exited)))"
proof -
  have cs: "current_for_panic_safe s cpu_id = Some current"
    using assms(3) by (simp add: current_for_Return_iff)
  have none: "sched_get s i \<noteq> Some Ready" for i
    using next_ready_None [OF assms(1) current_in_range [OF assms(1-3)] assms(5), of i]
      invariant_current [OF assms(1,2) cs] by (cases "i = current") auto
  then have "\<not> list_ex (\<lambda>st. st = Some Ready) (states s)"
    by (auto simp: list_ex_length) (metis sched_get_nth)
  moreover have "\<not> list_ex (\<lambda>i. i \<noteq> current \<and> states s ! i = Some Ready) [0..<length (states s)]"
    using none by (auto simp: list_ex_iff) (metis sched_get_nth)
  moreover have "check_invariants (set_state s current (Some Exited))"
    using retire_invariants [OF assms(1,2) cs] by blast
  ultimately show ?thesis
    using assms(2-5) decide_eq [OF assms(1-3), of reason]
    by (cases reason) (auto simp: sched_step_def apply_decision_def select_default_def
        step_precondition_def decide_view_def)
qed

text \<open>Preservation, one lemma per operation.\<close>

lemma sched_step_ReturnD:
  assumes "sched_step s cpu_id reason = Return (d, s')"
  shows "\<exists>current. current_for s cpu_id = Return current \<and>
    step_precondition s current reason \<and> check_invariants s'"
proof -
  from assms obtain current decision and r :: "(SchedState, SchedError) result"
    where "current_for s cpu_id = Return current"
    and "step_precondition s current reason"
    and r: "(case r of Err _ \<Rightarrow> Panic
             | Ok s' \<Rightarrow> assert_then (check_invariants s') (Return (decision, s'))) = Return (d, s')"
    unfolding sched_step_def bind_outcome_Return_iff assert_then_Return_iff
    by blast
  moreover from r have "check_invariants s'"
    by (cases r) (auto simp: assert_then_Return_iff)
  ultimately show ?thesis by blast
qed

lemma sched_step_preserves:
  assumes "sched_wf s" and "check_invariants s" and "sched_step s cpu_id reason = Return (d, s')"
  shows "sched_wf s' \<and> check_invariants s'"
proof -
  from assms(3) obtain current where cur: "current_for s cpu_id = Return current"
    and pre: "step_precondition s current reason" and inv': "check_invariants s'"
    by (auto dest: sched_step_ReturnD)
  show ?thesis
  proof (cases "next_ready s current")
    case None
    with sched_step_none [OF assms(1,2) cur pre] assms(1,3) inv' show ?thesis
      by (auto split: SchedReason.splits)
  next
    case (Some nxt)
    with sched_step_found [OF assms(1,2) cur pre] assms(1,3) inv' show ?thesis
      by (auto simp: switched_def)
  qed
qed

lemma add_thread_preserves:
  assumes "sched_wf s" and "check_invariants s"
  shows "sched_wf (snd (add_thread s)) \<and> check_invariants (snd (add_thread s))"
proof (cases "position (\<lambda>st. st = None) (states s)")
  case None
  with assms show ?thesis by (simp add: add_thread_def)
next
  case (Some i)
  then have i: "i < length (states s)" "sched_get s i = None"
    by (auto simp: position_Some_iff sched_get_nth)
  then have nc: "current_for_panic_safe s c \<noteq> Some i" for c
    using invariant_current [OF assms] by force
  have e: "snd (add_thread s) = set_state s i (Some Ready)"
    by (simp add: add_thread_def Some set_state_def)
  have "check_invariants (set_state s i (Some Ready))"
    using assms nc by (auto simp: check_invariants_iff)
  with assms(1) show ?thesis by (simp add: e)
qed

lemma block_current_preserves:
  assumes "sched_wf s" and "check_invariants s" and "block_current s cpu_id = Return (Ok s')"
  shows "sched_wf s' \<and> check_invariants s'"
proof -
  from assms(3) obtain current where "current_for_panic_safe s cpu_id = Some current"
    and "s' = set_state s current (Some Blocked)"
    by (auto simp: block_current_def bind_outcome_Return_iff current_for_Return_iff
        split: if_splits)
  with retire_invariants [OF assms(1,2)] assms(1) show ?thesis by simp
qed

lemma unblock_preserves:
  assumes "sched_wf s" and "check_invariants s" and "unblock s idx = Ok s'"
  shows "sched_wf s' \<and> check_invariants s'"
proof -
  from assms(3) have b: "sched_get s idx = Some Blocked"
    and s': "s' = set_state s idx
      (Some (if \<exists>c. current_for_panic_safe s c = Some idx then Running else Ready))"
    by (auto simp: unblock_def is_current_iff split: option.splits SchedThreadState.splits)
  note len = sched_get_Some_length [OF b]
  have "check_invariants s'"
    using assms(1,2) b len unfolding s' by (auto simp: check_invariants_iff)
  with assms(1) show ?thesis by (simp add: s')
qed

lemma remove_thread_preserves:
  assumes "sched_wf s" and "check_invariants s" and "remove_thread s idx = Ok s'"
  shows "sched_wf s' \<and> check_invariants s'"
proof -
  from assms(3) have nc: "\<And>c. current_for_panic_safe s c \<noteq> Some idx"
    and s': "s' = set_state s idx None"
    by (auto simp: remove_thread_def is_current_iff split: option.splits SchedThreadState.splits
        if_splits)
  have "check_invariants s'"
    using assms(1,2) nc unfolding s' by (auto simp: check_invariants_iff)
  with assms(1) show ?thesis by (simp add: s')
qed

lemma mark_initial_running_preserves:
  assumes "sched_wf s" and "check_invariants s" and "mark_initial_running s cpu_id = Return s'"
  shows "sched_wf s' \<and> check_invariants s'"
proof -
  from assms(3) obtain idx where "current_for_panic_safe s cpu_id = Some idx"
    and s': "s' = set_state s idx (Some Running)"
    by (auto simp: mark_initial_running_def bind_outcome_Return_iff current_for_Return_iff
        assert_then_Return_iff)
  then have "check_invariants s'"
    using assms(1,2) by (auto simp: check_invariants_iff)
  with assms(1) show ?thesis by (simp add: s')
qed

lemma set_initial_current_preserves:
  assumes "sched_wf s" and "check_invariants s"
    and "set_initial_current s cpu_id thread_idx = Return s'"
  shows "sched_wf s' \<and> check_invariants s'"
proof -
  from assms(3) have "try_current_for s cpu_id = Return None"
    and "sched_get s thread_idx = Some Ready"
    and "s' = set_current (set_state s thread_idx (Some Running)) cpu_id thread_idx"
    by (auto simp: set_initial_current_def bind_outcome_Return_iff assert_then_Return_iff)
  with assign_invariants [OF assms(1,2)] assms(1) show ?thesis
    by (simp add: try_current_for_None_iff)
qed

lemma step_from_idle_preserves:
  assumes "sched_wf s" and "check_invariants s" and "step_from_idle s cpu_id = Return (d, s')"
  shows "sched_wf s' \<and> check_invariants s'"
  using assms
  by (auto simp: step_from_idle_def bind_outcome_Return_iff assert_then_Return_iff Let_def
      split: option.splits)

section \<open>Reachable scheduler states\<close>

text \<open>
  One operation of the model, on any CPU and any thread index, as the running kernel issues them;
  \<^verbatim>\<open>mark_initial_running\<close> belongs to boot. The reachable states are those any sequence of
  operations reaches from the empty table or from the boot state.
\<close>

inductive sched_op :: "SchedState \<Rightarrow> SchedState \<Rightarrow> bool" where
  add: "add_thread s = (i, s') \<Longrightarrow> sched_op s s'"
| initial: "set_initial_current s cpu_id thread_idx = Return s' \<Longrightarrow> sched_op s s'"
| block: "block_current s cpu_id = Return (Ok s') \<Longrightarrow> sched_op s s'"
| unblock: "unblock s idx = Ok s' \<Longrightarrow> sched_op s s'"
| remove: "remove_thread s idx = Ok s' \<Longrightarrow> sched_op s s'"
| step: "sched_step s cpu_id reason = Return (d, s') \<Longrightarrow> sched_op s s'"
| idle: "step_from_idle s cpu_id = Return (dopt, s') \<Longrightarrow> sched_op s s'"

inductive sched_reachable :: "SchedState \<Rightarrow> bool" where
  empty: "sched_reachable new_const"
| boot: "sched_reachable sched_new"
| mark: "sched_reachable s \<Longrightarrow> mark_initial_running s cpu_id = Return s' \<Longrightarrow> sched_reachable s'"
| op: "sched_reachable s \<Longrightarrow> sched_op s s' \<Longrightarrow> sched_reachable s'"

lemma sched_wf_new: "sched_wf new_const" "sched_wf sched_new"
  by (simp_all add: sched_wf_def sched_new_def new_const_def)

lemma sched_get_new:
  "sched_get new_const i = None"
  "sched_get sched_new i = (if i = 0 then Some Running else None)"
  by (auto simp: sched_get_def sched_new_def new_const_def slice_get_def MAX_THREADS_def)

lemma current_new:
  "current_for_panic_safe new_const c = None"
  "current_for_panic_safe sched_new c = (if c = 0 then Some 0 else None)"
  by (auto simp: current_for_panic_safe_def sched_new_def new_const_def slice_get_def MAX_CPUS_def)

lemma check_invariants_new: "check_invariants new_const" "check_invariants sched_new"
  by (auto simp: check_invariants_iff sched_wf_new sched_get_new current_new split: if_splits)

lemma sched_op_preserves:
  "sched_op s s' \<Longrightarrow> sched_wf s \<Longrightarrow> check_invariants s \<Longrightarrow> sched_wf s' \<and> check_invariants s'"
proof (induction rule: sched_op.induct)
  case (add s i s')
  then show ?case using add_thread_preserves [of s] by simp
next
  case (initial s cpu_id thread_idx s')
  then show ?case using set_initial_current_preserves by blast
next
  case (block s cpu_id s')
  then show ?case using block_current_preserves by blast
next
  case (unblock s idx s')
  then show ?case using unblock_preserves by blast
next
  case (remove s idx s')
  then show ?case using remove_thread_preserves by blast
next
  case (step s cpu_id reason d s')
  then show ?case using sched_step_preserves by blast
next
  case (idle s cpu_id dopt s')
  then show ?case using step_from_idle_preserves by blast
qed

lemma sched_reachable_inv: "sched_reachable s \<Longrightarrow> sched_wf s \<and> check_invariants s"
proof (induction rule: sched_reachable.induct)
  case empty
  show ?case by (simp add: sched_wf_new check_invariants_new)
next
  case boot
  show ?case by (simp add: sched_wf_new check_invariants_new)
next
  case (mark s cpu_id s')
  then show ?case using mark_initial_running_preserves by blast
next
  case (op s s')
  then show ?case using sched_op_preserves by blast
qed

lemmas reachable_wf = sched_reachable_inv [THEN conjunct1]
lemmas reachable_invariants = sched_reachable_inv [THEN conjunct2]

lemma running_bounded:
  assumes "sched_wf s" and "check_invariants s"
  shows "finite {i. sched_get s i = Some Running} \<and> card {i. sched_get s i = Some Running} \<le> MAX_CPUS"
proof -
  have sub: "{i. sched_get s i = Some Running} \<subseteq>
      (\<lambda>c. the (current_for_panic_safe s c)) ` {0..<MAX_CPUS}"
  proof
    fix i assume "i \<in> {i. sched_get s i = Some Running}"
    then obtain c where c: "current_for_panic_safe s c = Some i"
      using invariant_running [OF assms] by auto
    with current_Some_length [OF c] assms(1) have "c \<in> {0..<MAX_CPUS}"
      by (simp add: sched_wf_def)
    with c show "i \<in> (\<lambda>c. the (current_for_panic_safe s c)) ` {0..<MAX_CPUS}"
      by (metis imageI option.sel)
  qed
  have fin: "finite ((\<lambda>c. the (current_for_panic_safe s c)) ` {0..<MAX_CPUS})" by simp
  have "card {i. sched_get s i = Some Running} \<le>
      card ((\<lambda>c. the (current_for_panic_safe s c)) ` {0..<MAX_CPUS})"
    by (rule card_mono [OF fin sub])
  also have "\<dots> \<le> MAX_CPUS" using card_image_le [of "{0..<MAX_CPUS}"] by simp
  finally show ?thesis using finite_subset [OF sub fin] by simp
qed

section \<open>Fairness of the rotation\<close>

definition rr_distance :: "nat \<Rightarrow> nat \<Rightarrow> nat" where
  "rr_distance current t = (t + MAX_THREADS - current) mod MAX_THREADS"

lemma rr_distance_rotate:
  assumes "current < MAX_THREADS" and "k < MAX_THREADS"
  shows "rr_distance current ((current + k) mod MAX_THREADS) = k"
  using assms by (auto simp: rr_distance_def mod_if)

lemma rr_rotate_distance:
  assumes "current < MAX_THREADS" and "t < MAX_THREADS"
  shows "(current + rr_distance current t) mod MAX_THREADS = t"
  using assms by (simp add: rr_distance_def mod_if)

lemma rr_distance_pos:
  "current < MAX_THREADS \<Longrightarrow> t < MAX_THREADS \<Longrightarrow> t \<noteq> current \<Longrightarrow> 0 < rr_distance current t"
  by (rule ccontr) (use rr_rotate_distance [of current t] in simp)

lemma rr_distance_less: "rr_distance current t < MAX_THREADS"
  by (simp add: rr_distance_def MAX_THREADS_def)

lemma next_ready_closer:
  assumes "sched_wf s" and "current < MAX_THREADS" and "sched_get s t = Some Ready" and "t \<noteq> current"
  obtains nxt where "next_ready s current = Some nxt"
    and "nxt \<noteq> t \<Longrightarrow> rr_distance nxt t < rr_distance current t"
proof -
  have t: "t < MAX_THREADS"
    using sched_get_Some_length [OF assms(3)] assms(1) by (simp add: sched_wf_def)
  define k where "k = rr_distance current t"
  have k: "0 < k" "k < MAX_THREADS" "(current + k) mod MAX_THREADS = t"
    using rr_distance_pos [OF assms(2) t assms(4)] rr_distance_less rr_rotate_distance [OF assms(2) t]
    by (simp_all add: k_def)
  have "next_ready s current \<noteq> None"
    using next_ready_None [OF assms(1,2)] assms(3,4) by blast
  then obtain nxt where nxt: "next_ready s current = Some nxt" by blast
  then obtain j where j: "j < MAX_THREADS - 1" "nxt = (current + Suc j) mod MAX_THREADS"
    "\<And>i. i < j \<Longrightarrow> sched_get s ((current + Suc i) mod MAX_THREADS) \<noteq> Some Ready"
    by (auto simp: next_ready_def find_Some_iff round_robin_order_def)
  have "Suc j \<le> k"
  proof (rule ccontr)
    assume "\<not> Suc j \<le> k"
    with k(1) have "k - 1 < j" by simp
    with j(3) [of "k - 1"] k assms(3) show False by simp
  qed
  have "rr_distance nxt t < k" if "nxt \<noteq> t"
  proof -
    from that j(2) k(3) \<open>Suc j \<le> k\<close> have "Suc j < k" by (metis le_neq_implies_less)
    have "rr_distance nxt t = k - Suc j"
    proof -
      have n: "nxt < MAX_THREADS" using j(2) by (simp add: MAX_THREADS_def)
      have "(nxt + (k - Suc j)) mod MAX_THREADS = (current + Suc j + (k - Suc j)) mod MAX_THREADS"
        unfolding j(2) by (rule mod_add_left_eq)
      also have "current + Suc j + (k - Suc j) = current + k"
        using \<open>Suc j < k\<close> by simp
      finally have "(nxt + (k - Suc j)) mod MAX_THREADS = (current + k) mod MAX_THREADS" .
      then have "t = (nxt + (k - Suc j)) mod MAX_THREADS" using k(3) by simp
      then show ?thesis
        using rr_distance_rotate [OF n, of "k - Suc j"] k(2) by simp
    qed
    with \<open>Suc j < k\<close> show ?thesis by simp
  qed
  with nxt show ?thesis using that by (auto simp: k_def)
qed


text \<open>\<open>k\<close> timer preemptions in a row on one CPU.\<close>

fun preempt_rounds :: "nat \<Rightarrow> nat \<Rightarrow> SchedState \<Rightarrow> SchedState outcome" where
  "preempt_rounds 0 cpu_id s = Return s"
| "preempt_rounds (Suc k) cpu_id s =
     bind_outcome (sched_step s cpu_id Preempt) (\<lambda>(d, s'). preempt_rounds k cpu_id s')"

lemma preempt_switches:
  assumes "sched_wf s" and "check_invariants s" and "current_for s cpu_id = Return current"
    and "sched_get s current = Some Running" and "next_ready s current = Some nxt"
  shows "sched_step s cpu_id Preempt = Return (SwitchTo nxt, switched s cpu_id current Preempt nxt)"
    and "current_for (switched s cpu_id current Preempt nxt) cpu_id = Return nxt"
    and "sched_get (switched s cpu_id current Preempt nxt) nxt = Some Running"
    and "i \<noteq> nxt \<Longrightarrow> sched_get s i = Some Ready \<Longrightarrow>
      sched_get (switched s cpu_id current Preempt nxt) i = Some Ready"
proof -
  have "step_precondition s current Preempt"
    using assms(4) by (simp add: step_precondition_def)
  from sched_step_found [OF assms(1-3) this assms(5)]
  show "sched_step s cpu_id Preempt = Return (SwitchTo nxt, switched s cpu_id current Preempt nxt)"
    by (simp add: select_found_def)
  have len: "nxt < length (states s)" "cpu_id < length (current_per_cpu s)"
    using next_ready_Some(1) [OF current_in_range [OF assms(1-3)] assms(5)] assms(3)
    by (auto simp: current_for_Return_iff dest: sched_get_Some_length current_Some_length)
  then show "current_for (switched s cpu_id current Preempt nxt) cpu_id = Return nxt"
    and "sched_get (switched s cpu_id current Preempt nxt) nxt = Some Running"
    by (simp_all add: switched_def current_for_Return_iff)
  show "i \<noteq> nxt \<Longrightarrow> sched_get s i = Some Ready \<Longrightarrow>
      sched_get (switched s cpu_id current Preempt nxt) i = Some Ready"
    by (simp add: switched_def retired_def)
qed

lemma preempt_rounds_reach:
  assumes "sched_wf s" and "check_invariants s" and "current_for s cpu_id = Return current"
    and "sched_get s current = Some Running" and "sched_get s t = Some Ready"
  shows "\<exists>k s'. 0 < k \<and> k \<le> rr_distance current t \<and> preempt_rounds k cpu_id s = Return s' \<and>
    current_for s' cpu_id = Return t \<and> sched_get s' t = Some Running"
  using assms
proof (induction "rr_distance current t" arbitrary: s current rule: less_induct)
  case less
  from less.prems(4,5) have ne: "t \<noteq> current" by auto
  obtain nxt where nxt: "next_ready s current = Some nxt"
    and closer: "nxt \<noteq> t \<Longrightarrow> rr_distance nxt t < rr_distance current t"
    using next_ready_closer [OF less.prems(1) current_in_range [OF less.prems(1-3)] less.prems(5) ne]
    by blast
  let ?s = "switched s cpu_id current Preempt nxt"
  note sw = preempt_switches [OF less.prems(1-4) nxt]
  have inv: "sched_wf ?s" "check_invariants ?s"
    using sched_step_preserves [OF less.prems(1,2) sw(1)] by simp_all
  have pos: "0 < rr_distance current t"
    using rr_distance_pos [OF current_in_range [OF less.prems(1-3)] _ ne] less.prems(1)
      sched_get_Some_length [OF less.prems(5)] by (simp add: sched_wf_def)
  show ?case
  proof (cases "nxt = t")
    case True
    with sw(1-3) pos show ?thesis
      by (intro exI [of _ 1] exI [of _ ?s]) simp
  next
    case False
    have "sched_get ?s t = Some Ready" using sw(4) False less.prems(5) by metis
    from less.hyps [OF closer [OF False] inv sw(2,3) this]
    obtain k s' where "k \<le> rr_distance nxt t" "preempt_rounds k cpu_id ?s = Return s'"
      "current_for s' cpu_id = Return t" "sched_get s' t = Some Running" by blast
    with closer [OF False] sw(1) show ?thesis
      by (intro exI [of _ "Suc k"] exI [of _ s']) simp
  qed
qed

section \<open>Exit is final\<close>

lemma sched_op_exited:
  "sched_op s s' \<Longrightarrow> sched_wf s \<Longrightarrow> check_invariants s \<Longrightarrow> sched_get s i = Some Exited \<Longrightarrow>
     sched_get s' i = Some Exited \<or>
     sched_get s' i = None \<and> (\<forall>c. current_for_panic_safe s c \<noteq> Some i)"
proof (induction rule: sched_op.induct)
  case (add s j s')
  then show ?case
    by (auto simp: add_thread_def sched_get_def slice_get_update position_Some_iff slice_get_def
        nth_list_update
        split: option.splits if_splits)
next
  case (initial s cpu_id thread_idx s')
  then show ?case
    by (auto simp: set_initial_current_def bind_outcome_Return_iff assert_then_Return_iff
        split: if_splits)
next
  case (block s cpu_id s')
  then show ?case
    by (auto simp: block_current_def bind_outcome_Return_iff split: if_splits)
next
  case (unblock s idx s')
  then show ?case
    by (auto simp: unblock_def split: option.splits SchedThreadState.splits if_splits)
next
  case (remove s idx s')
  then show ?case
    by (auto simp: remove_thread_def is_current_iff split: option.splits SchedThreadState.splits
        if_splits)
next
  case (step s cpu_id reason d s')
  then obtain current where cur: "current_for s cpu_id = Return current"
    and pre: "step_precondition s current reason"
    by (auto dest: sched_step_ReturnD)
  show ?case
  proof (cases "next_ready s current")
    case None
    with sched_step_none [OF step.prems(1,2) cur pre] step show ?thesis
      by (auto split: SchedReason.splits if_splits)
  next
    case (Some nxt)
    note nxt = next_ready_Some [OF current_in_range [OF step.prems(1,2) cur] Some]
    from sched_step_found [OF step.prems(1,2) cur pre Some] step nxt pre show ?thesis
      by (auto simp: switched_def retired_def step_precondition_def
          split: SchedReason.splits if_splits)
  qed
next
  case (idle s cpu_id dopt s')
  then show ?case
    by (auto simp: step_from_idle_def bind_outcome_Return_iff assert_then_Return_iff Let_def
        select_for_idle_cpu_def position_Some_iff idle_view_Ready_iff
        split: option.splits if_splits)
qed

section \<open>A two-thread scheduler\<close>

text \<open>The boot thread running on CPU 0 and one spawned thread, for concrete instances.\<close>

definition two_threads :: SchedState where
  "two_threads = snd (add_thread sched_new)"

lemma two_threads_op: "sched_op sched_new two_threads"
  unfolding two_threads_def by (rule sched_op.add [of _ "fst (add_thread sched_new)"]) simp

lemma two_threads_reachable: "sched_reachable two_threads"
  by (rule sched_reachable.op [OF sched_reachable.boot two_threads_op])

lemma add_thread_new: "add_thread sched_new = (Some 1, two_threads)"
proof -
  have "position (\<lambda>st. st = None) (states sched_new) = Some 1"
    by (auto simp: position_Some_iff sched_new_def new_const_def MAX_THREADS_def)
  then show ?thesis by (simp add: two_threads_def add_thread_def)
qed

lemma two_threads_get:
  "sched_get two_threads i = (if i = 0 then Some Running else if i = 1 then Some Ready else None)"
proof -
  have eq: "two_threads = set_state sched_new 1 (Some Ready)"
    using add_thread_new by (auto simp: add_thread_def set_state_def split: option.splits)
  have "1 < length (states sched_new)"
    using sched_wf_new by (simp add: sched_wf_def MAX_THREADS_def)
  then show ?thesis unfolding eq by (simp add: sched_get_new)
qed

lemma two_threads_current: "current_for two_threads 0 = Return 0"
  by (simp add: two_threads_def add_thread_def current_for_def sched_new_def new_const_def
      MAX_CPUS_def split: option.splits)

lemma MAX_THREADS_gt_1: "Suc 0 < MAX_THREADS"
  by (simp add: MAX_THREADS_def)

lemma two_threads_next_ready: "next_ready two_threads 0 = Some 1"
proof -
  have "[1..<MAX_THREADS] = 1 # [2..<MAX_THREADS]"
    using upt_conv_Cons [of 1 MAX_THREADS] by (simp add: MAX_THREADS_gt_1 numeral_2_eq_2)
  then have "round_robin_order 0 MAX_THREADS =
      1 mod MAX_THREADS # map (\<lambda>k. k mod MAX_THREADS) [2..<MAX_THREADS]"
    by (simp add: round_robin_order_def)
  also have "1 mod MAX_THREADS = 1" by (simp add: MAX_THREADS_def)
  finally show ?thesis by (simp add: next_ready_def two_threads_get)
qed

section \<open>Properties of the scheduler\<close>

text \<open>C1. In every state the kernel can drive the scheduler into, the code's own invariant checker
  accepts: each CPU's current thread is registered, no two CPUs share a current thread, every
  Running thread is current on exactly one CPU, and no current thread is Ready. So at most
  \<open>MAX_CPUS\<close> threads run at once.\<close>

theorem sched_reachable_invariants:
  "sched_reachable s \<Longrightarrow>
     check_invariants s \<and> card {i. sched_get s i = Some Running} \<le> MAX_CPUS"
  using running_bounded [OF reachable_wf reachable_invariants] reachable_invariants by blast

theorem sched_reachable_invariants_witness:
  "check_invariants sched_new \<and> card {i. sched_get sched_new i = Some Running} \<le> MAX_CPUS"
  by (rule sched_reachable_invariants) (rule sched_reachable.boot)

text \<open>C2. A scheduler step whose entry assertion holds never panics, never loops and never has its
  decision rejected: it switches to the first Ready thread in round-robin order after the current
  one, retiring the current thread as the reason says, and otherwise stays, waits or halts with
  the rest of the state untouched.\<close>

theorem sched_step_round_robin:
  assumes "sched_reachable s" and "current_for s cpu_id = Return current"
    and "step_precondition s current reason"
  shows "sched_step s cpu_id reason = Return
    (case next_ready s current of
       Some nxt \<Rightarrow> (select_found current reason nxt, switched s cpu_id current reason nxt)
     | None \<Rightarrow>
         (case reason of
            Preempt \<Rightarrow> (StayOnCurrent, s)
          | Block \<Rightarrow> (WaitForInterrupt, s)
          | Exit \<Rightarrow> (ExitAndHalt current, set_state s current (Some Exited))))"
  using sched_step_found [OF reachable_wf [OF assms(1)] reachable_invariants [OF assms(1)] assms(2,3)]
    sched_step_none [OF reachable_wf [OF assms(1)] reachable_invariants [OF assms(1)] assms(2,3)]
  by (simp split: option.splits)

theorem sched_step_round_robin_witness:
  "sched_step two_threads 0 Exit = Return (ExitAndSwitch 0 1, switched two_threads 0 0 Exit 1)"
  using sched_step_round_robin [OF two_threads_reachable two_threads_current, of Exit]
  by (simp add: step_precondition_def two_threads_get two_threads_next_ready select_found_def)

text \<open>C10. Round-robin selection is fair: from any reachable state whose CPU runs a thread, a Ready
  thread \<open>t\<close> is running on that CPU after at most its round-robin distance from the current
  thread many timer preemptions, fewer than \<open>MAX_THREADS\<close>, none of which panics.\<close>

theorem sched_preempt_fair:
  assumes "sched_reachable s" and "current_for s cpu_id = Return current"
    and "sched_get s current = Some Running" and "sched_get s t = Some Ready"
  shows "\<exists>k s'. 0 < k \<and> k \<le> rr_distance current t \<and> k < MAX_THREADS \<and>
    preempt_rounds k cpu_id s = Return s' \<and>
    current_for s' cpu_id = Return t \<and> sched_get s' t = Some Running"
proof -
  obtain k s' where "0 < k" "k \<le> rr_distance current t" "preempt_rounds k cpu_id s = Return s'"
    "current_for s' cpu_id = Return t" "sched_get s' t = Some Running"
    using preempt_rounds_reach [OF reachable_wf [OF assms(1)] reachable_invariants [OF assms(1)]
        assms(2-4)] by blast
  moreover from this have "k < MAX_THREADS" using rr_distance_less [of current t] by simp
  ultimately show ?thesis by blast
qed

theorem sched_preempt_fair_witness:
  "\<exists>k s'. 0 < k \<and> k \<le> rr_distance 0 1 \<and> k < MAX_THREADS \<and>
    preempt_rounds k 0 two_threads = Return s' \<and>
    current_for s' 0 = Return 1 \<and> sched_get s' 1 = Some Running"
  by (rule sched_preempt_fair [OF two_threads_reachable two_threads_current])
    (simp_all add: two_threads_get)

text \<open>C33. A wake-up that arrives between marking the current thread Blocked and switching away is
  not lost: \<^verbatim>\<open>unblock\<close> undoes \<^verbatim>\<open>block_current\<close> exactly, leaving the thread Running on its CPU
  and not Ready.\<close>

theorem block_unblock_roundtrip:
  assumes "sched_reachable s" and "current_for s cpu_id = Return current"
    and "block_current s cpu_id = Return (Ok s')"
  shows "unblock s' current = Ok s"
proof -
  have cs: "current_for_panic_safe s cpu_id = Some current"
    using assms(2) by (simp add: current_for_Return_iff)
  from assms(2,3) have r: "sched_get s current = Some Running"
    and s': "s' = set_state s current (Some Blocked)"
    by (auto simp: block_current_def split: if_splits)
  note len = sched_get_Some_length [OF r]
  have "list_ex (\<lambda>c. c = Some current) (current_per_cpu s')"
    unfolding is_current_iff s' using cs by auto
  then have "unblock s' current = Ok (set_state s' current (sched_get s current))"
    using len r by (simp add: unblock_def s')
  also have "set_state s' current (sched_get s current) = s"
    using set_state_same [of s current] by (simp add: s' set_state_def)
  finally show ?thesis .
qed

theorem block_unblock_roundtrip_witness:
  "\<exists>s'. block_current two_threads 0 = Return (Ok s') \<and> sched_get s' 0 = Some Blocked \<and>
     unblock s' 0 = Ok two_threads"
proof -
  have b: "block_current two_threads 0 = Return (Ok (set_state two_threads 0 (Some Blocked)))"
    by (simp add: block_current_def two_threads_current two_threads_get)
  have "0 < length (states two_threads)"
    using sched_get_Some_length [of two_threads 0] by (simp add: two_threads_get)
  then show ?thesis
    using b block_unblock_roundtrip [OF two_threads_reachable two_threads_current b] by simp
qed

text \<open>C14. Exit is final: no operation makes an Exited thread anything but Exited, except
  \<^verbatim>\<open>remove_thread\<close>, which frees its slot only once no CPU has it as current.\<close>

theorem exited_is_final:
  assumes "sched_reachable s" and "sched_op s s'" and "sched_get s i = Some Exited"
  shows "sched_get s' i = Some Exited \<or>
    sched_get s' i = None \<and> (\<forall>c. current_for_panic_safe s c \<noteq> Some i)"
  using sched_op_exited [OF assms(2) reachable_wf [OF assms(1)] reachable_invariants [OF assms(1)]
      assms(3)] .

theorem exited_is_final_witness:
  "\<exists>s s'. sched_op s s' \<and> sched_get s 0 = Some Exited \<and>
     (sched_get s' 0 = Some Exited \<or>
      sched_get s' 0 = None \<and> (\<forall>c. current_for_panic_safe s c \<noteq> Some 0))"
proof -
  let ?s = "switched two_threads 0 0 Exit 1"
  have "sched_step two_threads 0 Exit = Return (ExitAndSwitch 0 1, ?s)"
    using sched_step_found [OF reachable_wf [OF two_threads_reachable]
        reachable_invariants [OF two_threads_reachable] two_threads_current _ two_threads_next_ready]
    by (simp add: step_precondition_def two_threads_get select_found_def)
  then have r: "sched_reachable ?s"
    by (rule sched_reachable.op [OF two_threads_reachable sched_op.step])
  have "0 < length (states two_threads)"
    using sched_get_Some_length [of two_threads 0] by (simp add: two_threads_get)
  then have ex: "sched_get ?s 0 = Some Exited"
    by (simp add: switched_def retired_def)
  have op: "sched_op ?s (snd (add_thread ?s))"
    by (rule sched_op.add [of _ "fst (add_thread ?s)"]) simp
  from op ex exited_is_final [OF r op ex] show ?thesis by blast
qed

end
