(* ===== verification/Ipc_State.thy ===== *)
theory Ipc_State
  imports Lockjaw_Prelude
begin

text \<open>
  The IPC state machine of \<^verbatim>\<open>lockjaw-types/src/ipc_state.rs\<close>: endpoint, waiter queue, Reply
  objects and threads, the transitions \<^verbatim>\<open>step_send\<close>, \<^verbatim>\<open>step_receive\<close>, \<^verbatim>\<open>step_call\<close> and
  \<^verbatim>\<open>step_reply\<close> with their effect lists, the decision functions the kernel calls, and the raw
  encodings of the states. Panics (\<^verbatim>\<open>unwrap\<close>, \<^verbatim>\<open>assert!\<close>, \<^verbatim>\<open>debug_assert!\<close>,
  \<^verbatim>\<open>unreachable!\<close>) are outcomes. The lemmas show that a reachable state satisfies every
  invariant the code checks, that no transition panics, that a call's Reply is consumed only by
  the reply to that call, and that the effects and the decisions describe the same transition.
\<close>

section \<open>Types\<close>

datatype EpState = Idle | HasWaiters | HasReceiver

datatype ThreadState = Ready | Running | Blocked

datatype ThreadId = Client1 | Client2 | Server

datatype ClientId = One | Two

datatype WaitKind = Send | Receive | Call

datatype ReplyState = Fresh | Bound ClientId

definition ThreadId_ALL :: "ThreadId list" where
  "ThreadId_ALL = [Client1, Client2, Server]"

fun as_index :: "ThreadId \<Rightarrow> nat" where
  "as_index Client1 = 0"
| "as_index Client2 = 1"
| "as_index Server = 2"

fun is_client :: "ThreadId \<Rightarrow> bool" where
  "is_client Client1 = True"
| "is_client Client2 = True"
| "is_client Server = False"

fun as_client :: "ThreadId \<Rightarrow> ClientId option" where
  "as_client Client1 = Some One"
| "as_client Client2 = Some Two"
| "as_client Server = None"

definition ClientId_ALL :: "ClientId list" where
  "ClientId_ALL = [One, Two]"

fun client_index :: "ClientId \<Rightarrow> nat" where
  "client_index One = 0"
| "client_index Two = 1"

fun as_thread :: "ClientId \<Rightarrow> ThreadId" where
  "as_thread One = Client1"
| "as_thread Two = Client2"

subsection \<open>Raw encodings\<close>

definition EP_IDLE :: u8 where "EP_IDLE = 0"
definition EP_HAS_WAITERS :: u8 where "EP_HAS_WAITERS = 1"
definition EP_HAS_RECEIVER :: u8 where "EP_HAS_RECEIVER = 2"
definition WAIT_KIND_NONE :: u8 where "WAIT_KIND_NONE = 0"
definition WAIT_KIND_SEND :: u8 where "WAIT_KIND_SEND = 1"
definition WAIT_KIND_RECEIVE :: u8 where "WAIT_KIND_RECEIVE = 2"
definition WAIT_KIND_CALL :: u8 where "WAIT_KIND_CALL = 3"
definition REPLY_STATE_FRESH :: u8 where "REPLY_STATE_FRESH = 0"

definition EpState_from_raw :: "u8 \<Rightarrow> EpState option" where
  "EpState_from_raw v =
     (if v = EP_IDLE then Some Idle
      else if v = EP_HAS_WAITERS then Some HasWaiters
      else if v = EP_HAS_RECEIVER then Some HasReceiver
      else None)"

fun EpState_to_raw :: "EpState \<Rightarrow> u8" where
  "EpState_to_raw Idle = EP_IDLE"
| "EpState_to_raw HasWaiters = EP_HAS_WAITERS"
| "EpState_to_raw HasReceiver = EP_HAS_RECEIVER"

definition WaitKind_from_raw :: "u8 \<Rightarrow> WaitKind option" where
  "WaitKind_from_raw v =
     (if v = WAIT_KIND_SEND then Some Send
      else if v = WAIT_KIND_RECEIVE then Some Receive
      else if v = WAIT_KIND_CALL then Some Call
      else None)"

fun WaitKind_to_raw :: "WaitKind \<Rightarrow> u8" where
  "WaitKind_to_raw Send = WAIT_KIND_SEND"
| "WaitKind_to_raw Receive = WAIT_KIND_RECEIVE"
| "WaitKind_to_raw Call = WAIT_KIND_CALL"



definition from_raw_tag :: "u8 \<Rightarrow> ReplyState option" where
  "from_raw_tag v = (if v = REPLY_STATE_FRESH then Some Fresh else None)"


section \<open>Kernel-facing decisions\<close>

datatype IpcError = EndpointBusy | NoCaller | WouldBlock | ReplyBound









section \<open>The waiter queue\<close>

datatype IpcOp = Send | Receive | Call | Reply

datatype TransitionError = Busy | NoCaller | ReplyAlreadyBound | ThreadNotRunnable

record QueueEntry =
  thread :: ThreadId
  kind :: WaitKind

record Queue =
  entries :: "QueueEntry option list"
  count :: nat

abbreviation entry :: "ThreadId \<Rightarrow> WaitKind \<Rightarrow> QueueEntry" where
  "entry t k \<equiv> \<lparr>thread = t, kind = k\<rparr>"

definition queue_empty :: Queue where
  "queue_empty = \<lparr>entries = replicate 3 None, count = 0\<rparr>"

definition enqueue :: "Queue \<Rightarrow> QueueEntry \<Rightarrow> Queue outcome" where
  "enqueue q e =
     assert_then (count q < 3)
       (assert_then (count q < length (entries q))
         (Return (q\<lparr>entries := (entries q)[count q := Some e], count := count q + 1\<rparr>)))"

text \<open>
  The shift loop \<^verbatim>\<open>for i in 0..(count - 1)\<close> copies each entry one place forward; a \<^verbatim>\<open>count\<close>
  beyond the array would index out of range.
\<close>

definition shift_entries :: "'a list \<Rightarrow> nat \<Rightarrow> 'a list" where
  "shift_entries es n = fold (\<lambda>i es. es[i := es ! (i + 1)]) [0..<n] es"

definition dequeue :: "Queue \<Rightarrow> (QueueEntry option \<times> Queue) outcome" where
  "dequeue q =
     (if count q = 0 then Return (None, q)
      else assert_then (count q \<le> length (entries q))
        (Return (entries q ! 0,
           q\<lparr>entries := (shift_entries (entries q) (count q - 1))[count q - 1 := None],
             count := count q - 1\<rparr>)))"

definition head :: "Queue \<Rightarrow> QueueEntry option" where
  "head q = (if count q = 0 then None else entries q ! 0)"

definition is_empty :: "Queue \<Rightarrow> bool" where
  "is_empty q \<longleftrightarrow> count q = 0"

definition queue_contains :: "Queue \<Rightarrow> ThreadId \<Rightarrow> bool" where
  "queue_contains q t \<longleftrightarrow>
     list_ex (\<lambda>e. case e of Some x \<Rightarrow> thread x = t | None \<Rightarrow> False) (take (count q) (entries q))"

definition count_kind :: "Queue \<Rightarrow> WaitKind \<Rightarrow> nat" where
  "count_kind q k =
     length (filter (\<lambda>e. case e of Some x \<Rightarrow> kind x = k | None \<Rightarrow> False)
       (take (count q) (entries q)))"

section \<open>System state\<close>

record SystemState =
  endpoint :: EpState
  queue :: Queue
  reply_state :: "ReplyState list"
  current_reply :: "ClientId option list"
  thread_state :: "ThreadState list"

definition initial :: SystemState where
  "initial =
     \<lparr>endpoint = Idle, queue = queue_empty, reply_state = [Fresh, Fresh],
      current_reply = [None, None, None], thread_state = [Ready, Ready, Ready]\<rparr>"

definition thread_of :: "SystemState \<Rightarrow> ThreadId \<Rightarrow> ThreadState" where
  "thread_of s t = thread_state s ! as_index t"

definition with_thread :: "ThreadId \<Rightarrow> ThreadState \<Rightarrow> SystemState \<Rightarrow> SystemState" where
  "with_thread t st s = s\<lparr>thread_state := (thread_state s)[as_index t := st]\<rparr>"

definition with_reply :: "ClientId \<Rightarrow> ReplyState \<Rightarrow> SystemState \<Rightarrow> SystemState" where
  "with_reply c r s = s\<lparr>reply_state := (reply_state s)[client_index c := r]\<rparr>"

definition reply :: "SystemState \<Rightarrow> ClientId \<Rightarrow> ReplyState" where
  "reply s c = reply_state s ! client_index c"

definition current_reply_of :: "SystemState \<Rightarrow> ThreadId \<Rightarrow> ClientId option" where
  "current_reply_of s t = current_reply s ! as_index t"

definition with_current_reply ::
  "ThreadId \<Rightarrow> ClientId option \<Rightarrow> SystemState \<Rightarrow> SystemState" where
  "with_current_reply t c s = s\<lparr>current_reply := (current_reply s)[as_index t := c]\<rparr>"

section \<open>Effects and transitions\<close>

datatype IpcEffect =
    SetEndpointState EpState
  | EnqueueSelfAs WaitKind
  | DequeueHead
  | StoreMsgInOwnTcb
  | WriteMsgToBlockedReceiver
  | WriteMsgToBoundCaller
  | TakeMsgFromDequeuedHead
  | BindReply ClientId
  | ClearReply ClientId
  | SetCurrentReply ThreadId ClientId
  | ClearCurrentReply ThreadId
  | UnblockThread ThreadId
  | BlockCurrent

definition MAX_EFFECTS :: nat where
  "MAX_EFFECTS = 10"

definition empty_effects :: "IpcEffect list" where
  "empty_effects = replicate MAX_EFFECTS (SetEndpointState Idle)"

text \<open>
  Writing effects one after the other into the fixed array, \<^verbatim>\<open>effects[n] = e; n += 1\<close>; a
  write past \<^verbatim>\<open>MAX_EFFECTS\<close> panics. A transition returns the next state, the array and \<^verbatim>\<open>n\<close>.
\<close>

type_synonym transition =
  "(SystemState \<times> IpcEffect list \<times> nat, TransitionError) result outcome"

definition with_effects :: "SystemState \<Rightarrow> IpcEffect list \<Rightarrow> transition" where
  "with_effects s es =
     assert_then (length es \<le> MAX_EFFECTS)
       (Return (Ok (s, es @ drop (length es) empty_effects, length es)))"

text \<open>\<^verbatim>\<open>dequeue().unwrap_or_else(panic)\<close>: the head, or a panic on an empty queue.\<close>

definition dequeue_or_panic ::
  "SystemState \<Rightarrow> (QueueEntry \<Rightarrow> SystemState \<Rightarrow> transition) \<Rightarrow> transition" where
  "dequeue_or_panic s k =
     bind_outcome (dequeue (queue s)) (\<lambda>(h, q).
       case h of None \<Rightarrow> Panic | Some e \<Rightarrow> k e (s\<lparr>queue := q\<rparr>))"

definition step_send :: "SystemState \<Rightarrow> ThreadId \<Rightarrow> transition" where
  "step_send s who =
     (case endpoint s of
        HasReceiver \<Rightarrow>
          dequeue_or_panic s (\<lambda>h nxt.
            assert_then (kind h = WaitKind.Receive)
              (let receiver = thread h;
                   nxt = (with_thread receiver Ready nxt)\<lparr>endpoint := Idle\<rparr>
               in with_effects nxt
                    [DequeueHead, WriteMsgToBlockedReceiver, UnblockThread receiver,
                     SetEndpointState Idle]))
      | _ \<Rightarrow>
          bind_outcome (enqueue (queue s) (entry who WaitKind.Send)) (\<lambda>q.
            let nxt = with_thread who Blocked (s\<lparr>queue := q\<rparr>);
                endpoint_changed = endpoint nxt = Idle;
                nxt = (if endpoint_changed then nxt\<lparr>endpoint := HasWaiters\<rparr> else nxt)
            in with_effects nxt
                 ([StoreMsgInOwnTcb, EnqueueSelfAs WaitKind.Send] @
                  (if endpoint_changed then [SetEndpointState HasWaiters] else []) @
                  [BlockCurrent])))"

definition step_receive :: "SystemState \<Rightarrow> ThreadId \<Rightarrow> transition" where
  "step_receive s who =
     (if current_reply_of s who \<noteq> None then Return (Err Busy)
      else case endpoint s of
        HasReceiver \<Rightarrow> Return (Err Busy)
      | HasWaiters \<Rightarrow>
          dequeue_or_panic s (\<lambda>h nxt.
            assert_then (kind h = WaitKind.Send \<or> kind h = WaitKind.Call)
              (bind_outcome
                (case kind h of
                   WaitKind.Send \<Rightarrow>
                     Return (with_thread (thread h) Ready nxt, UnblockThread (thread h))
                 | WaitKind.Call \<Rightarrow>
                     (case as_client (thread h) of
                        None \<Rightarrow> Panic
                      | Some client \<Rightarrow>
                          Return (with_current_reply who (Some client) nxt,
                                  SetCurrentReply who client))
                 | WaitKind.Receive \<Rightarrow> Panic)
                (\<lambda>(nxt, eff).
                  if is_empty (queue nxt)
                  then with_effects (nxt\<lparr>endpoint := Idle\<rparr>)
                         [DequeueHead, TakeMsgFromDequeuedHead, eff, SetEndpointState Idle]
                  else with_effects nxt [DequeueHead, TakeMsgFromDequeuedHead, eff])))
      | Idle \<Rightarrow>
          bind_outcome (enqueue (queue s) (entry who WaitKind.Receive)) (\<lambda>q.
            with_effects ((with_thread who Blocked (s\<lparr>queue := q\<rparr>))\<lparr>endpoint := HasReceiver\<rparr>)
              [EnqueueSelfAs WaitKind.Receive, SetEndpointState HasReceiver, BlockCurrent]))"

definition step_call :: "SystemState \<Rightarrow> ThreadId \<Rightarrow> transition" where
  "step_call s who =
     (case as_client who of
        None \<Rightarrow> Return (Err Busy)
      | Some client \<Rightarrow>
          if reply s client \<noteq> Fresh then Return (Err ReplyAlreadyBound)
          else case endpoint s of
            HasReceiver \<Rightarrow>
              dequeue_or_panic s (\<lambda>h nxt.
                assert_then (kind h = WaitKind.Receive)
                  (let server = thread h;
                       nxt = with_reply client (Bound client)
                               (with_thread who Blocked (with_thread server Ready nxt));
                       nxt = (with_current_reply server (Some client) nxt)\<lparr>endpoint := Idle\<rparr>
                   in with_effects nxt
                        [DequeueHead, BindReply client, WriteMsgToBlockedReceiver,
                         SetCurrentReply server client, UnblockThread server,
                         SetEndpointState Idle, BlockCurrent]))
          | _ \<Rightarrow>
              (let nxt = with_reply client (Bound client) s in
               bind_outcome (enqueue (queue nxt) (entry who WaitKind.Call)) (\<lambda>q.
                 let nxt = with_thread who Blocked (nxt\<lparr>queue := q\<rparr>);
                     endpoint_changed = endpoint nxt = Idle;
                     nxt = (if endpoint_changed then nxt\<lparr>endpoint := HasWaiters\<rparr> else nxt)
                 in with_effects nxt
                      ([BindReply client, StoreMsgInOwnTcb, EnqueueSelfAs WaitKind.Call] @
                       (if endpoint_changed then [SetEndpointState HasWaiters] else []) @
                       [BlockCurrent]))))"

definition step_reply :: "SystemState \<Rightarrow> ThreadId \<Rightarrow> transition" where
  "step_reply s who =
     (case current_reply_of s who of
        None \<Rightarrow> Return (Err TransitionError.NoCaller)
      | Some client \<Rightarrow>
          if reply s client \<noteq> Bound client then Return (Err Busy)
          else
            (let target = as_thread client;
                 nxt = with_reply client Fresh (with_thread target Ready s)
             in with_effects (with_current_reply who None nxt)
                  [WriteMsgToBoundCaller, UnblockThread target, ClearReply client,
                   ClearCurrentReply who]))"

fun ipc_step :: "SystemState \<Rightarrow> ThreadId \<Rightarrow> IpcOp \<Rightarrow> transition" where
  "ipc_step s who op =
     (if thread_of s who = Blocked then Return (Err ThreadNotRunnable)
      else case op of
        IpcOp.Send \<Rightarrow> step_send s who
      | IpcOp.Receive \<Rightarrow> step_receive s who
      | IpcOp.Call \<Rightarrow> step_call s who
      | IpcOp.Reply \<Rightarrow> step_reply s who)"

section \<open>Invariants\<close>

text \<open>
  \<^verbatim>\<open>check_invariants\<close> panics on a violation; here it is the condition under which it does not.
  A missing entry among the first \<^verbatim>\<open>count\<close> would fail an \<^verbatim>\<open>unwrap\<close>.
\<close>

definition live_entries :: "Queue \<Rightarrow> QueueEntry option list" where
  "live_entries q = take (count q) (entries q)"

definition ipc_check_invariants :: "SystemState \<Rightarrow> bool" where
  "ipc_check_invariants s \<longleftrightarrow>
     (let es = live_entries (queue s) in
      (case endpoint s of
         Idle \<Rightarrow> is_empty (queue s)
       | HasReceiver \<Rightarrow>
           count (queue s) = 1 \<and>
           (case head (queue s) of Some h \<Rightarrow> kind h = WaitKind.Receive | None \<Rightarrow> False)
       | HasWaiters \<Rightarrow>
           \<not> is_empty (queue s) \<and>
           list_all (\<lambda>e. case e of
               Some x \<Rightarrow> kind x = WaitKind.Send \<or> kind x = WaitKind.Call | None \<Rightarrow> False) es) \<and>
      count_kind (queue s) WaitKind.Receive \<le> 1 \<and>
      list_all (\<lambda>e. case e of Some x \<Rightarrow> thread_of s (thread x) = Blocked | None \<Rightarrow> False) es \<and>
      list_all (\<lambda>t. length (filter (\<lambda>e. case e of Some x \<Rightarrow> thread x = t | None \<Rightarrow> False) es) \<le> 1)
        ThreadId_ALL \<and>
      list_all (\<lambda>c.
        let t = as_thread c;
            queued_as_call = list_ex (\<lambda>e. case e of
                Some x \<Rightarrow> thread x = t \<and> kind x = WaitKind.Call | None \<Rightarrow> False) es;
            being_handled_by = length (filter (\<lambda>x. x = Some c) (current_reply s))
        in being_handled_by \<le> 1 \<and>
           (case reply s c of
              Bound caller \<Rightarrow>
                caller = c \<and> thread_of s t = Blocked \<and> queued_as_call \<noteq> (being_handled_by = 1)
            | Fresh \<Rightarrow> being_handled_by = 0 \<and> \<not> queued_as_call))
        ClientId_ALL \<and>
      list_all (\<lambda>cr. case cr of Some c \<Rightarrow> reply s c = Bound c | None \<Rightarrow> True) (current_reply s) \<and>
      length (filter (\<lambda>st. st = Running) (thread_state s)) \<le> 1)"

section \<open>The queue as a list\<close>

definition queue_of :: "QueueEntry list \<Rightarrow> Queue" where
  "queue_of xs = \<lparr>entries = map Some xs @ replicate (3 - length xs) None, count = length xs\<rparr>"

lemma queue_of_Nil: "queue_empty = queue_of []"
  by (simp add: queue_of_def queue_empty_def)

lemma list_length_le_3:
  "length xs \<le> 3 \<longleftrightarrow> xs = [] \<or> (\<exists>a. xs = [a]) \<or> (\<exists>a b. xs = [a, b]) \<or> (\<exists>a b c. xs = [a, b, c])"
  by (auto simp: numeral_3_eq_3 le_Suc_eq length_Suc_conv)

lemma enqueue_queue_of:
  "length xs < 3 \<Longrightarrow> enqueue (queue_of xs) e = Return (queue_of (xs @ [e]))"
  using list_length_le_3 [of xs]
  by (auto simp: enqueue_def queue_of_def numeral_3_eq_3)

lemma dequeue_queue_of_Nil: "dequeue (queue_of []) = Return (None, queue_of [])"
  by (simp add: dequeue_def queue_of_def)

lemma dequeue_queue_of_Cons:
  "length (x # xs) \<le> 3 \<Longrightarrow> dequeue (queue_of (x # xs)) = Return (Some x, queue_of xs)"
  unfolding list_length_le_3
  by (auto simp: dequeue_def queue_of_def shift_entries_def numeral_3_eq_3)

lemma queue_of_observe:
  assumes "length xs \<le> 3"
  shows "live_entries (queue_of xs) = map Some xs"
    and "is_empty (queue_of xs) \<longleftrightarrow> xs = []"
    and "head (queue_of xs) = (case xs of [] \<Rightarrow> None | x # _ \<Rightarrow> Some x)"
    and "count (queue_of xs) = length xs"
    and "count_kind (queue_of xs) k = length (filter (\<lambda>e. kind e = k) xs)"
  using assms
  by (auto simp: live_entries_def queue_of_def is_empty_def head_def count_kind_def
      filter_map comp_def split: list.splits)

text \<open>The array queue provides the queue interface, as long as there is a free slot.\<close>

definition enqueue_opt :: "Queue \<Rightarrow> QueueEntry \<Rightarrow> Queue option" where
  "enqueue_opt q e = (case enqueue q e of Return q' \<Rightarrow> Some q' | _ \<Rightarrow> None)"

definition dequeue_opt :: "Queue \<Rightarrow> (QueueEntry \<times> Queue) option" where
  "dequeue_opt q = (case dequeue q of Return (Some e, q') \<Rightarrow> Some (e, q') | _ \<Rightarrow> None)"

definition queue_represents :: "Queue \<Rightarrow> QueueEntry list \<Rightarrow> bool" where
  "queue_represents q es \<longleftrightarrow> q = queue_of es \<and> length es \<le> 3"

interpretation waiters: fifo_queue queue_represents "\<lambda>q es e. length es < 3" enqueue_opt dequeue_opt
  by unfold_locales
    (auto simp: queue_represents_def enqueue_opt_def dequeue_opt_def enqueue_queue_of
      dequeue_queue_of_Nil dequeue_queue_of_Cons)

section \<open>The abstract machine\<close>

text \<open>
  What the endpoint promises, without its redundant fields: the waiters in arrival order, and for
  each thread the client whose call it is handling. Whether a thread is blocked, whether a client's
  Reply is bound and the state of the endpoint all follow.
\<close>

type_synonym abs_state = "QueueEntry list \<times> (ThreadId \<Rightarrow> ClientId option)"

definition ep_of :: "QueueEntry list \<Rightarrow> EpState" where
  "ep_of xs = (case xs of [] \<Rightarrow> Idle | x # _ \<Rightarrow> if kind x = WaitKind.Receive then HasReceiver else HasWaiters)"

definition handled :: "(ThreadId \<Rightarrow> ClientId option) \<Rightarrow> ClientId \<Rightarrow> bool" where
  "handled h c \<longleftrightarrow> (\<exists>t. h t = Some c)"

definition outstanding :: "abs_state \<Rightarrow> ClientId \<Rightarrow> bool" where
  "outstanding a c \<longleftrightarrow> entry (as_thread c) WaitKind.Call \<in> set (fst a) \<or> handled (snd a) c"

definition waiting :: "abs_state \<Rightarrow> ThreadId \<Rightarrow> bool" where
  "waiting a t \<longleftrightarrow> t \<in> thread ` set (fst a) \<or> (\<exists>c. handled (snd a) c \<and> t = as_thread c)"

fun abs_step :: "abs_state \<Rightarrow> ThreadId \<Rightarrow> IpcOp \<Rightarrow> (abs_state, TransitionError) result" where
  "abs_step (xs, h) who op =
     (if waiting (xs, h) who then Err ThreadNotRunnable
      else case op of
        IpcOp.Send \<Rightarrow>
          if ep_of xs = HasReceiver then Ok (tl xs, h)
          else Ok (xs @ [entry who WaitKind.Send], h)
      | IpcOp.Receive \<Rightarrow>
          if h who \<noteq> None then Err Busy
          else (case xs of
            [] \<Rightarrow> Ok ([entry who WaitKind.Receive], h)
          | x # xs' \<Rightarrow>
              (case kind x of
                 WaitKind.Receive \<Rightarrow> Err Busy
               | WaitKind.Send \<Rightarrow> Ok (xs', h)
               | WaitKind.Call \<Rightarrow> Ok (xs', h(who := as_client (thread x)))))
      | IpcOp.Call \<Rightarrow>
          (case as_client who of
             None \<Rightarrow> Err Busy
           | Some c \<Rightarrow>
               if ep_of xs = HasReceiver then Ok (tl xs, h(thread (hd xs) := Some c))
               else Ok (xs @ [entry who WaitKind.Call], h))
      | IpcOp.Reply \<Rightarrow>
          if h who = None then Err TransitionError.NoCaller else Ok (xs, h(who := None)))"

definition abs_inv :: "abs_state \<Rightarrow> bool" where
  "abs_inv a \<longleftrightarrow>
     distinct (map thread (fst a)) \<and>
     (\<forall>e \<in> set (fst a). kind e = WaitKind.Receive \<longrightarrow> length (fst a) = 1 \<and> snd a (thread e) = None) \<and>
     (\<forall>e \<in> set (fst a). kind e = WaitKind.Call \<longrightarrow> is_client (thread e)) \<and>
     inj_on (snd a) {t. snd a t \<noteq> None} \<and>
     (\<forall>c. handled (snd a) c \<longrightarrow> (\<forall>e \<in> set (fst a). thread e \<noteq> as_thread c))"

definition one_running :: "SystemState \<Rightarrow> bool" where
  "one_running s \<longleftrightarrow>
     (\<forall>t t'. thread_of s t = Running \<longrightarrow> thread_of s t' = Running \<longrightarrow> t = t')"

definition implements :: "SystemState \<Rightarrow> abs_state \<Rightarrow> bool" where
  "implements s a \<longleftrightarrow>
     length (reply_state s) = 2 \<and> length (current_reply s) = 3 \<and> length (thread_state s) = 3 \<and>
     queue s = queue_of (fst a) \<and> length (fst a) \<le> 3 \<and>
     endpoint s = ep_of (fst a) \<and>
     (\<forall>t. current_reply_of s t = snd a t) \<and>
     (\<forall>c. reply s c = (if outstanding a c then Bound c else Fresh)) \<and>
     (\<forall>t. thread_of s t = Blocked \<longleftrightarrow> waiting a t) \<and>
     one_running s"

section \<open>Refinement\<close>

lemma as_index_less [simp]: "as_index t < 3" by (cases t) simp_all

lemma as_index_eq_iff [simp]: "as_index t = as_index t' \<longleftrightarrow> t = t'"
  by (cases t; cases t') simp_all

lemma client_index_less [simp]: "client_index c < 2" by (cases c) simp_all

lemma client_index_eq_iff [simp]: "client_index c = client_index c' \<longleftrightarrow> c = c'"
  by (cases c; cases c') simp_all

lemma as_thread_eq_iff [simp]: "as_thread c = as_thread c' \<longleftrightarrow> c = c'"
  by (cases c; cases c') simp_all

lemma as_client_as_thread [simp]: "as_client (as_thread c) = Some c" by (cases c) simp_all

lemma as_client_Some_iff: "as_client t = Some c \<longleftrightarrow> t = as_thread c"
  by (cases t; cases c) simp_all

lemma as_client_None_iff: "as_client t = None \<longleftrightarrow> t = Server" by (cases t) simp_all

lemma as_thread_not_Server [simp]: "as_thread c \<noteq> Server" "Server \<noteq> as_thread c"
  by (cases c; simp)+

lemma is_client_iff: "is_client t \<longleftrightarrow> (\<exists>c. t = as_thread c)"
  by (cases t) (auto intro: exI [of _ One] exI [of _ Two])

lemma state_views [simp]:
  "length (thread_state s) = 3 \<Longrightarrow>
     thread_of (with_thread t st s) t' = (if t' = t then st else thread_of s t')"
  "length (reply_state s) = 2 \<Longrightarrow> reply (with_reply c r s) c' = (if c' = c then r else reply s c')"
  "length (current_reply s) = 3 \<Longrightarrow>
     current_reply_of (with_current_reply t x s) t' = (if t' = t then x else current_reply_of s t')"
  "thread_of (with_reply c r s) t = thread_of s t"
  "thread_of (with_current_reply t' x s) t = thread_of s t"
  "reply (with_thread t st s) c = reply s c"
  "reply (with_current_reply t' x s) c = reply s c"
  "current_reply_of (with_thread t st s) t' = current_reply_of s t'"
  "current_reply_of (with_reply c r s) t' = current_reply_of s t'"
  "thread_of (s\<lparr>queue := q\<rparr>) t = thread_of s t"
  "thread_of (s\<lparr>endpoint := e\<rparr>) t = thread_of s t"
  "reply (s\<lparr>queue := q\<rparr>) c = reply s c"
  "reply (s\<lparr>endpoint := e\<rparr>) c = reply s c"
  "current_reply_of (s\<lparr>queue := q\<rparr>) t = current_reply_of s t"
  "current_reply_of (s\<lparr>endpoint := e\<rparr>) t = current_reply_of s t"
  by (simp_all add: thread_of_def with_thread_def reply_def with_reply_def current_reply_of_def
      with_current_reply_def nth_list_update)

lemma state_fields [simp]:
  "queue (with_thread t st s) = queue s" "queue (with_reply c r s) = queue s"
  "queue (with_current_reply t x s) = queue s"
  "endpoint (with_thread t st s) = endpoint s" "endpoint (with_reply c r s) = endpoint s"
  "endpoint (with_current_reply t x s) = endpoint s"
  "length (thread_state (with_thread t st s)) = length (thread_state s)"
  "thread_state (with_reply c r s) = thread_state s"
  "thread_state (with_current_reply t x s) = thread_state s"
  "reply_state (with_thread t st s) = reply_state s"
  "length (reply_state (with_reply c r s)) = length (reply_state s)"
  "reply_state (with_current_reply t x s) = reply_state s"
  "current_reply (with_thread t st s) = current_reply s"
  "current_reply (with_reply c r s) = current_reply s"
  "length (current_reply (with_current_reply t x s)) = length (current_reply s)"
  by (simp_all add: with_thread_def with_reply_def with_current_reply_def)

lemma with_effects_Return: "length es \<le> MAX_EFFECTS \<Longrightarrow>
    with_effects s es = Return (Ok (s, es @ drop (length es) empty_effects, length es))"
  by (simp add: with_effects_def)

text \<open>A thread that is not waiting finds a free slot in the queue.\<close>

lemma card_ThreadId: "card (UNIV :: ThreadId set) = 3" "finite (UNIV :: ThreadId set)"
proof -
  have u: "(UNIV :: ThreadId set) = {Client1, Client2, Server}" using ThreadId.exhaust by auto
  show "card (UNIV :: ThreadId set) = 3" "finite (UNIV :: ThreadId set)" unfolding u by simp_all
qed

lemma room_for_runnable:
  assumes "distinct (map thread xs)" and "who \<notin> thread ` set xs"
  shows "length xs < 3"
proof -
  have "card (thread ` set xs) = length xs"
    using distinct_card [OF assms(1)] by simp
  moreover have "card (insert who (thread ` set xs)) \<le> card (UNIV :: ThreadId set)"
    using card_ThreadId(2) by (intro card_mono) auto
  ultimately show ?thesis using assms(2) by (simp add: card_ThreadId)
qed

lemma abs_inv_append:
  assumes "abs_inv (xs, h)" and "\<not> waiting (xs, h) t" and "ep_of xs \<noteq> HasReceiver"
    and "k \<noteq> WaitKind.Receive" and "k = WaitKind.Call \<longrightarrow> is_client t"
  shows "abs_inv (xs @ [entry t k], h)"
proof -
  have "kind e \<noteq> WaitKind.Receive" if "e \<in> set xs" for e
    using assms(1,3) that by (auto simp: abs_inv_def ep_of_def split: list.splits)
  with assms show ?thesis by (auto simp: abs_inv_def waiting_def)
qed

lemma abs_inv_tl: "abs_inv (xs, h) \<Longrightarrow> abs_inv (tl xs, h)"
  by (cases xs) (auto simp: abs_inv_def)

lemma handled_assign: "h t = None \<Longrightarrow> handled (h(t := Some c)) d \<longleftrightarrow> handled h d \<or> d = c"
  unfolding handled_def by (metis fun_upd_apply option.distinct(1) option.inject)

lemma handler_unique: "abs_inv (xs, h) \<Longrightarrow> h t = Some c \<Longrightarrow> h u = Some c \<Longrightarrow> u = t"
  by (auto simp: abs_inv_def inj_on_def)

lemma handled_clear:
  assumes "abs_inv (xs, h)" and "h t = Some c"
  shows "handled (h(t := None)) d \<longleftrightarrow> handled h d \<and> d \<noteq> c"
proof -
  have "h u = Some d \<and> d \<noteq> c \<longleftrightarrow> (h(t := None)) u = Some d" for u
    using assms(2) handler_unique [OF assms, of u] by (cases "u = t") auto
  then show ?thesis unfolding handled_def by blast
qed

lemma abs_inv_assign:
  assumes "abs_inv (xs, h)" and "h t = None" and "\<not> handled h c"
    and "\<forall>e \<in> set xs. thread e \<noteq> as_thread c" and "\<forall>e \<in> set xs. thread e \<noteq> t"
  shows "abs_inv (xs, h(t := Some c))"
proof -
  have eq: "{u. (h(t := Some c)) u \<noteq> None} = insert t {u. h u \<noteq> None}" by auto
  have "inj_on (h(t := Some c)) {u. (h(t := Some c)) u \<noteq> None}"
    unfolding eq using assms(1-3) by (auto simp: abs_inv_def inj_on_def handled_def)
  with assms show ?thesis by (auto simp: abs_inv_def handled_assign)
qed

lemma abs_inv_clear:
  assumes "abs_inv (xs, h)" and "h t = Some c"
  shows "abs_inv (xs, h(t := None))"
  using assms by (auto simp: abs_inv_def handled_clear [OF assms] inj_on_def)

lemma ep_of_HasReceiver:
  assumes "abs_inv (xs, h)" and "ep_of xs = HasReceiver"
  shows "\<exists>r. xs = [entry r WaitKind.Receive] \<and> h r = None"
proof (cases xs)
  case Nil
  with assms show ?thesis by (simp add: ep_of_def)
next
  case (Cons e es)
  with assms show ?thesis
    by (cases e) (auto simp: ep_of_def abs_inv_def split: if_splits)
qed

lemma abs_step_inv:
  assumes "abs_inv (xs, h)" and "abs_step (xs, h) who op = Ok a'"
  shows "abs_inv a'"
proof -
  from assms(2) have nw: "\<not> waiting (xs, h) who" by (auto split: if_splits)
  then have who: "\<forall>e \<in> set xs. thread e \<noteq> who" "\<forall>c. handled h c \<longrightarrow> who \<noteq> as_thread c"
    by (auto simp: waiting_def)
  show ?thesis
  proof (cases op)
    case Send
    with assms nw show ?thesis
      by (auto simp: abs_inv_append abs_inv_tl split: if_splits)
  next
    case Receive
    show ?thesis
    proof (cases xs)
      case Nil
      with assms nw who Receive show ?thesis by (auto simp: abs_inv_def split: if_splits)
    next
      case (Cons x xs')
      have "abs_inv (xs', h(who := Some c))" if "h who = None" "thread x = as_thread c" for c
        using assms(1) that who by (intro abs_inv_assign) (auto simp: abs_inv_def Cons image_iff)
      with assms nw Receive Cons abs_inv_tl [of xs h] show ?thesis
        by (auto simp: abs_inv_def is_client_iff split: if_splits WaitKind.splits)
    qed
  next
    case Call
    show ?thesis
    proof (cases "ep_of xs = HasReceiver")
      case True
      then obtain r where r: "xs = [entry r WaitKind.Receive]" "h r = None"
        using ep_of_HasReceiver [OF assms(1)] by blast
      have "abs_inv ([], h(r := Some c))" if "who = as_thread c" for c
        using assms(1) r that who by (intro abs_inv_assign) (auto simp: abs_inv_def)
      with assms(2) True Call nw r show ?thesis
        by (auto simp: as_client_Some_iff split: if_splits option.splits)
    next
      case False
      with assms nw Call show ?thesis
        by (auto simp: abs_inv_append is_client_iff as_client_Some_iff split: if_splits option.splits)
    qed
  next
    case Reply
    with assms nw show ?thesis by (auto simp: abs_inv_clear split: if_splits)
  qed
qed

text \<open>How each abstract update moves the set of waiting threads and of outstanding calls.\<close>

lemma waiting_append: "waiting (xs @ [entry t k], h) u \<longleftrightarrow> waiting (xs, h) u \<or> u = t"
  by (auto simp: waiting_def)

lemma outstanding_append:
  "outstanding (xs @ [entry t k], h) c \<longleftrightarrow>
     outstanding (xs, h) c \<or> k = WaitKind.Call \<and> t = as_thread c"
  by (auto simp: outstanding_def)

lemma waiting_tl:
  "abs_inv (x # xs, h) \<Longrightarrow> waiting (xs, h) u \<longleftrightarrow> waiting (x # xs, h) u \<and> u \<noteq> thread x"
  by (auto simp: waiting_def abs_inv_def image_iff)

lemma outstanding_tl:
  "kind x \<noteq> WaitKind.Call \<Longrightarrow> outstanding (xs, h) c \<longleftrightarrow> outstanding (x # xs, h) c"
  by (auto simp: outstanding_def)

lemma waiting_take:
  assumes "h who = None" and "thread x = as_thread c"
  shows "waiting (xs, h(who := Some c)) u \<longleftrightarrow> waiting (x # xs, h) u"
  using assms(2) by (auto simp: waiting_def handled_assign assms(1))

lemma outstanding_take:
  assumes "h who = None" and "x = entry (as_thread c) WaitKind.Call"
  shows "outstanding (xs, h(who := Some c)) d \<longleftrightarrow> outstanding (x # xs, h) d"
  using assms(2) by (auto simp: outstanding_def handled_assign assms(1))

lemma waiting_deliver:
  assumes "abs_inv ([entry r WaitKind.Receive], h)" and "h r = None"
  shows "waiting ([], h(r := Some c)) u \<longleftrightarrow>
    waiting ([entry r WaitKind.Receive], h) u \<and> u \<noteq> r \<or> u = as_thread c"
  using assms(1) by (auto simp: waiting_def abs_inv_def handled_assign assms(2))

lemma outstanding_deliver:
  assumes "h r = None"
  shows "outstanding ([], h(r := Some c)) d \<longleftrightarrow>
    outstanding ([entry r WaitKind.Receive], h) d \<or> d = c"
  by (auto simp: outstanding_def handled_assign assms)

lemma waiting_reply:
  assumes "abs_inv (xs, h)" and "h who = Some c"
  shows "waiting (xs, h(who := None)) u \<longleftrightarrow> waiting (xs, h) u \<and> u \<noteq> as_thread c"
proof -
  have "handled h c" using assms(2) by (auto simp: handled_def)
  with assms(1) show ?thesis
    by (auto simp: waiting_def abs_inv_def handled_clear [OF assms])
qed

lemma outstanding_reply:
  assumes "abs_inv (xs, h)" and "h who = Some c"
  shows "outstanding (xs, h(who := None)) d \<longleftrightarrow> outstanding (xs, h) d \<and> d \<noteq> c"
proof -
  have "handled h c" using assms(2) by (auto simp: handled_def)
  with assms(1) show ?thesis
    by (force simp: outstanding_def abs_inv_def handled_clear [OF assms])
qed

definition refines :: "SystemState \<Rightarrow> abs_state \<Rightarrow> ThreadId \<Rightarrow> IpcOp \<Rightarrow> bool" where
  "refines s a who op \<longleftrightarrow>
     (case abs_step a who op of
        Ok a' \<Rightarrow> \<exists>s' es n. ipc_step s who op = Return (Ok (s', es, n)) \<and> implements s' a'
      | Err e \<Rightarrow> ipc_step s who op = Return (Err e))"

lemma implementsD:
  assumes "implements s (xs, h)"
  shows "length (reply_state s) = 2" "length (current_reply s) = 3" "length (thread_state s) = 3"
    "queue s = queue_of xs" "length xs \<le> 3" "endpoint s = ep_of xs"
    "current_reply_of s t = h t" "reply s c = (if outstanding (xs, h) c then Bound c else Fresh)"
    "thread_of s t = Blocked \<longleftrightarrow> waiting (xs, h) t"
    "one_running s"
  using assms by (auto simp: implements_def)

lemma ep_of_append: "xs \<noteq> [] \<Longrightarrow> ep_of (xs @ ys) = ep_of xs"
  by (cases xs) (simp_all add: ep_of_def)

lemma one_running_simps [simp]:
  "one_running (s\<lparr>queue := q\<rparr>) = one_running s"
  "one_running (s\<lparr>endpoint := e\<rparr>) = one_running s"
  "one_running (with_reply c r s) = one_running s"
  "one_running (with_current_reply t x s) = one_running s"
  by (simp_all add: one_running_def)

lemma one_running_with_thread:
  "one_running s \<Longrightarrow> length (thread_state s) = 3 \<Longrightarrow> st \<noteq> Running \<Longrightarrow> one_running (with_thread t st s)"
  unfolding one_running_def by (metis state_views(1))

lemma runnable_room: "abs_inv (xs, h) \<Longrightarrow> \<not> waiting (xs, h) who \<Longrightarrow> length xs < 3"
  by (rule room_for_runnable [of _ who]) (auto simp: abs_inv_def waiting_def)

lemma implements_block:
  assumes "implements s (xs, h)" and "abs_inv (xs, h)" and "\<not> waiting (xs, h) who"
    and "k \<noteq> WaitKind.Call"
  shows "implements ((with_thread who Blocked (s\<lparr>queue := queue_of (xs @ [entry who k])\<rparr>))
      \<lparr>endpoint := ep_of (xs @ [entry who k])\<rparr>) (xs @ [entry who k], h)"
  using implementsD [OF assms(1)] runnable_room [OF assms(2,3)] assms(4) unfolding implements_def
  by (auto simp: waiting_append outstanding_append one_running_with_thread)

lemma implements_block_call:
  assumes "implements s (xs, h)" and "abs_inv (xs, h)" and "\<not> waiting (xs, h) (as_thread c)"
  shows "implements ((with_thread (as_thread c) Blocked
      ((with_reply c (Bound c) s)\<lparr>queue := queue_of (xs @ [entry (as_thread c) WaitKind.Call])\<rparr>))
      \<lparr>endpoint := ep_of (xs @ [entry (as_thread c) WaitKind.Call])\<rparr>)
    (xs @ [entry (as_thread c) WaitKind.Call], h)"
  using implementsD [OF assms(1)] runnable_room [OF assms(2,3)] unfolding implements_def
  by (auto simp: waiting_append outstanding_append one_running_with_thread)

lemma ep_of_cases:
  assumes "ep_of xs \<noteq> HasReceiver"
  shows "xs = [] \<and> ep_of xs = Idle \<or> xs \<noteq> [] \<and> ep_of xs = HasWaiters"
  using assms by (cases xs) (auto simp: ep_of_def)

lemma set_endpoint_same: "endpoint s = e \<Longrightarrow> s\<lparr>endpoint := e\<rparr> = s" by simp

lemma refines_send:
  assumes "implements s (xs, h)" and "abs_inv (xs, h)" and "\<not> waiting (xs, h) who"
  shows "refines s (xs, h) who IpcOp.Send"
proof (cases "ep_of xs = HasReceiver")
  case True
  then obtain r where r: "xs = [entry r WaitKind.Receive]" "h r = None"
    using ep_of_HasReceiver [OF assms(2)] by blast
  note w = waiting_tl [OF assms(2) [unfolded r]] and i = implementsD [OF assms(1)]
  have "implements ((with_thread r Ready (s\<lparr>queue := queue_of []\<rparr>))\<lparr>endpoint := Idle\<rparr>) ([], h)"
    using i unfolding implements_def
    by (auto simp: r ep_of_def w outstanding_tl [of "entry r WaitKind.Receive" "[]"]
        one_running_with_thread)
  with True assms(3) i r show ?thesis
    by (simp add: refines_def step_send_def dequeue_or_panic_def dequeue_queue_of_Cons Let_def
        with_effects_Return MAX_EFFECTS_def)
next
  case False
  note i = implementsD [OF assms(1)] and m = implements_block [OF assms, of WaitKind.Send]
    and e = enqueue_queue_of [OF runnable_room [OF assms(2,3)]]
  from ep_of_cases [OF False] show ?thesis
  proof (elim disjE conjE)
    assume "xs = []" "ep_of xs = Idle"
    with m i e False assms(3) show ?thesis
      by (simp add: refines_def step_send_def Let_def with_effects_Return MAX_EFFECTS_def ep_of_def)
  next
    assume "xs \<noteq> []" "ep_of xs = HasWaiters"
    with m i e False assms(3) show ?thesis
      by (simp add: refines_def step_send_def Let_def with_effects_Return MAX_EFFECTS_def
          ep_of_append set_endpoint_same)
  qed
qed

lemma refines_receive_waiter:
  assumes "implements s (x # xs, h)" and "abs_inv (x # xs, h)" and "\<not> waiting (x # xs, h) who"
    and "h who = None" and "kind x \<noteq> WaitKind.Receive"
  shows "refines s (x # xs, h) who IpcOp.Receive"
proof -
  note i = implementsD [OF assms(1)]
  have xs: "xs = [] \<Longrightarrow> ep_of xs = Idle" "xs \<noteq> [] \<Longrightarrow> ep_of xs = HasWaiters"
    using assms(2) by (cases xs; fastforce simp: ep_of_def abs_inv_def)+
  have ep: "ep_of (x # xs) = HasWaiters" using assms(5) by (simp add: ep_of_def)
  note step = step_receive_def dequeue_or_panic_def dequeue_queue_of_Cons with_effects_Return
    MAX_EFFECTS_def queue_of_observe
  show ?thesis
  proof (cases "kind x")
    case Send
    have "implements ((with_thread (thread x) Ready (s\<lparr>queue := queue_of xs\<rparr>))\<lparr>endpoint := ep_of xs\<rparr>) (xs, h)"
      using i Send unfolding implements_def
      by (auto simp: waiting_tl [OF assms(2)] outstanding_tl [of x xs] one_running_with_thread)
    with i ep xs Send assms(3,4) show ?thesis
      by (cases "xs = []") (simp_all add: refines_def step set_endpoint_same)
  next
    case Call
    with assms(2) obtain c where c: "thread x = as_thread c"
      by (auto simp: abs_inv_def is_client_iff)
    with Call have x: "x = entry (as_thread c) WaitKind.Call" by (cases x) simp
    have "implements ((with_current_reply who (Some c) (s\<lparr>queue := queue_of xs\<rparr>))\<lparr>endpoint := ep_of xs\<rparr>)
        (xs, h(who := Some c))"
      using i unfolding implements_def
      by (auto simp: waiting_take [where h = h, OF assms(4) c] outstanding_take [where h = h, OF assms(4) x])
    with i ep xs Call c assms(3,4) show ?thesis
      by (cases "xs = []") (simp_all add: refines_def step set_endpoint_same)
  qed (use assms(5) in simp)
qed

lemma refines_receive:
  assumes "implements s (xs, h)" and "abs_inv (xs, h)" and "\<not> waiting (xs, h) who"
  shows "refines s (xs, h) who IpcOp.Receive"
proof (cases "h who")
  case None
  note i = implementsD [OF assms(1)]
  show ?thesis
  proof (cases xs)
    case Nil
    note m = implements_block [OF assms, of WaitKind.Receive]
      and e = enqueue_queue_of [OF runnable_room [OF assms(2,3)]]
    from Nil None m i e assms(3) show ?thesis
      by (simp add: refines_def step_receive_def with_effects_Return MAX_EFFECTS_def ep_of_def)
  next
    case (Cons x xs')
    show ?thesis
    proof (cases "kind x = WaitKind.Receive")
      case True
      with Cons None i assms(3) show ?thesis
        by (simp add: refines_def step_receive_def ep_of_def)
    next
      case False
      with refines_receive_waiter Cons None assms show ?thesis by simp
    qed
  qed
next
  case (Some c)
  with implementsD [OF assms(1)] assms(3) show ?thesis
    by (simp add: refines_def step_receive_def)
qed

lemma refines_call_deliver:
  assumes "implements s ([entry r WaitKind.Receive], h)" and "abs_inv ([entry r WaitKind.Receive], h)"
    and "h r = None" and "\<not> waiting ([entry r WaitKind.Receive], h) (as_thread c)"
  shows "refines s ([entry r WaitKind.Receive], h) (as_thread c) IpcOp.Call"
proof -
  note i = implementsD [OF assms(1)]
  have o: "\<not> outstanding ([entry r WaitKind.Receive], h) c"
    using assms(4) by (auto simp: outstanding_def waiting_def)
  have "implements ((with_current_reply r (Some c) (with_reply c (Bound c)
      (with_thread (as_thread c) Blocked (with_thread r Ready (s\<lparr>queue := queue_of []\<rparr>)))))
      \<lparr>endpoint := Idle\<rparr>) ([], h(r := Some c))"
    using i assms(4) unfolding implements_def
    by (auto simp: waiting_deliver [OF assms(2,3)] outstanding_deliver [where h = h, OF assms(3)]
        ep_of_def one_running_with_thread)
  with i o assms(4) show ?thesis
    by (simp add: refines_def step_call_def dequeue_or_panic_def dequeue_queue_of_Cons Let_def
        with_effects_Return MAX_EFFECTS_def ep_of_def)
qed

lemma refines_call:
  assumes "implements s (xs, h)" and "abs_inv (xs, h)" and "\<not> waiting (xs, h) who"
  shows "refines s (xs, h) who IpcOp.Call"
proof (cases "as_client who")
  case None
  with assms implementsD [OF assms(1)] show ?thesis by (simp add: refines_def step_call_def)
next
  case (Some c)
  then have who: "who = as_thread c" by (simp add: as_client_Some_iff)
  note i = implementsD [OF assms(1)]
  have o: "\<not> outstanding (xs, h) c"
    using assms(3) who by (force simp: outstanding_def waiting_def)
  show ?thesis
  proof (cases "ep_of xs = HasReceiver")
    case True
    with ep_of_HasReceiver [OF assms(2)] refines_call_deliver assms who show ?thesis by blast
  next
    case False
    note m = implements_block_call [OF assms(1,2) assms(3) [unfolded who]]
      and e = enqueue_queue_of [OF runnable_room [OF assms(2,3)]]
    from ep_of_cases [OF False] show ?thesis
    proof (elim disjE conjE)
      assume "xs = []" "ep_of xs = Idle"
      with m i o e False assms(3) who show ?thesis
        by (simp add: refines_def step_call_def Let_def with_effects_Return MAX_EFFECTS_def ep_of_def)
    next
      assume "xs \<noteq> []" "ep_of xs = HasWaiters"
      with m i o e False assms(3) who show ?thesis
        by (simp add: refines_def step_call_def Let_def with_effects_Return MAX_EFFECTS_def
            ep_of_append set_endpoint_same)
    qed
  qed
qed

lemma refines_reply:
  assumes "implements s (xs, h)" and "abs_inv (xs, h)" and "\<not> waiting (xs, h) who"
  shows "refines s (xs, h) who IpcOp.Reply"
proof (cases "h who")
  case None
  with assms implementsD [OF assms(1)] show ?thesis by (simp add: refines_def step_reply_def)
next
  case (Some c)
  note i = implementsD [OF assms(1)]
  have o: "outstanding (xs, h) c" using Some by (auto simp: outstanding_def handled_def)
  have "implements (with_current_reply who None (with_reply c Fresh (with_thread (as_thread c) Ready s)))
      (xs, h(who := None))"
    using i unfolding implements_def
    by (auto simp: waiting_reply [OF assms(2) Some] outstanding_reply [OF assms(2) Some]
        one_running_with_thread)
  with i o Some assms(3) show ?thesis
    by (simp add: refines_def step_reply_def Let_def with_effects_Return MAX_EFFECTS_def)
qed

lemma ipc_step_refines:
  assumes "implements s a" and "abs_inv a"
  shows "refines s a who op"
proof (cases a)
  case (Pair xs h)
  show ?thesis
  proof (cases "waiting (xs, h) who")
    case True
    with assms implementsD [of s xs h] Pair show ?thesis by (simp add: refines_def)
  next
    case False
    with assms Pair refines_send refines_receive refines_call refines_reply show ?thesis
      by (cases op) simp_all
  qed
qed

section \<open>Reachable states satisfy the checked invariants\<close>

inductive ipc_reachable :: "SystemState \<Rightarrow> bool" where
  init: "ipc_reachable initial"
| step: "ipc_reachable s \<Longrightarrow> ipc_step s who op = Return (Ok (s', es, n)) \<Longrightarrow> ipc_reachable s'"

lemma implements_initial: "implements initial ([], \<lambda>t. None)" "abs_inv ([], \<lambda>t. None)"
proof -
  have t: "as_index t = 0 \<or> as_index t = 1 \<or> as_index t = 2" for t by (cases t) simp_all
  have c: "client_index c = 0 \<or> client_index c = 1" for c by (cases c) simp_all
  have "thread_of initial t = Ready" "current_reply_of initial t = None" for t
    using t [of t] by (auto simp: thread_of_def current_reply_of_def initial_def)
  moreover have "reply initial c = Fresh" for c
    using c [of c] by (auto simp: reply_def initial_def)
  ultimately show "implements initial ([], \<lambda>t. None)"
    by (simp add: implements_def waiting_def outstanding_def handled_def one_running_def ep_of_def)
      (simp add: initial_def queue_of_Nil)
  show "abs_inv ([], \<lambda>t. None)" by (simp add: abs_inv_def handled_def)
qed

lemma reachable_implements:
  "ipc_reachable s \<Longrightarrow> \<exists>a. implements s a \<and> abs_inv a"
proof (induction rule: ipc_reachable.induct)
  case init
  show ?case using implements_initial by blast
next
  case (step s who op s' es n)
  then obtain xs h where a: "implements s (xs, h)" "abs_inv (xs, h)" by force
  from ipc_step_refines [OF a, of who op] step.hyps(2)
  obtain a' where "abs_step (xs, h) who op = Ok a'" "implements s' a'"
    by (auto simp: refines_def split: result.splits)
  with abs_step_inv [OF a(2)] show ?case by blast
qed

lemma length_filter_distinct:
  "distinct (map f xs) \<Longrightarrow> length (filter (\<lambda>x. f x = t) xs) \<le> 1"
proof (induction xs)
  case (Cons x xs)
  then have "f x = t \<Longrightarrow> filter (\<lambda>x. f x = t) xs = []"
    by (auto simp: filter_empty_conv image_iff)
  with Cons show ?case by auto
qed simp

lemma list_length_3: "length xs = 3 \<Longrightarrow> xs = [xs ! 0, xs ! 1, xs ! 2]"
  by (auto simp: numeral_3_eq_3 length_Suc_conv)

lemma thread_views:
  "length (thread_state s) = 3 \<Longrightarrow>
     thread_state s = [thread_of s Client1, thread_of s Client2, thread_of s Server]"
  "length (current_reply s) = 3 \<Longrightarrow>
     current_reply s = [current_reply_of s Client1, current_reply_of s Client2, current_reply_of s Server]"
  using list_length_3 by (simp_all add: thread_of_def current_reply_of_def)

lemma handled_iff: "handled h c \<longleftrightarrow> h Client1 = Some c \<or> h Client2 = Some c \<or> h Server = Some c"
  unfolding handled_def by (metis ThreadId.exhaust)

lemma handlers_count:
  assumes "implements s (xs, h)" and "abs_inv (xs, h)"
  shows "length (filter (\<lambda>x. x = Some c) (current_reply s)) = (if handled h c then 1 else 0)"
proof -
  note i = implementsD [OF assms(1)] and u = handler_unique [OF assms(2), of _ c]
  have "current_reply s = [h Client1, h Client2, h Server]"
    using thread_views(2) [OF i(2)] i(7) by simp
  then show ?thesis
    using u [of Client1 Client2] u [of Client1 Server] u [of Client2 Server] by (auto simp: handled_iff)
qed

lemma running_count:
  assumes "implements s (xs, h)"
  shows "length (filter (\<lambda>st. st = Running) (thread_state s)) \<le> 1"
  using thread_views(1) [OF implementsD(3) [OF assms]] implementsD(10) [OF assms]
  by (auto simp: one_running_def)

lemma endpoint_check:
  assumes "implements s (xs, h)" and "abs_inv (xs, h)"
  shows "case endpoint s of
      Idle \<Rightarrow> is_empty (queue s)
    | HasReceiver \<Rightarrow> count (queue s) = 1 \<and>
        (case head (queue s) of Some x \<Rightarrow> kind x = WaitKind.Receive | None \<Rightarrow> False)
    | HasWaiters \<Rightarrow> \<not> is_empty (queue s) \<and>
        list_all (\<lambda>e. case e of
          Some x \<Rightarrow> kind x = WaitKind.Send \<or> kind x = WaitKind.Call | None \<Rightarrow> False) (map Some xs)"
proof -
  note i = implementsD [OF assms(1)]
  note o = queue_of_observe [OF i(5)]
  have nr: "kind e = WaitKind.Send \<or> kind e = WaitKind.Call" if "kind e \<noteq> WaitKind.Receive" for e
    using that by (cases "kind e") simp_all
  show ?thesis
  proof (cases xs)
    case Nil
    with o show ?thesis by (simp add: i ep_of_def)
  next
    case (Cons x ys)
    then have "kind x \<noteq> WaitKind.Receive \<Longrightarrow> \<forall>e \<in> set xs. kind e \<noteq> WaitKind.Receive"
      using assms(2) by (auto simp: abs_inv_def)
    moreover from Cons have "kind x = WaitKind.Receive \<Longrightarrow> ys = []"
      using assms(2) by (auto simp: abs_inv_def)
    ultimately show ?thesis using Cons nr o by (auto simp: i ep_of_def list_all_iff)
  qed
qed

lemma receive_check:
  assumes "abs_inv (xs, h)"
  shows "length (filter (\<lambda>e. kind e = WaitKind.Receive) xs) \<le> 1"
proof (cases "\<exists>e \<in> set xs. kind e = WaitKind.Receive")
  case True
  with assms have "length xs = 1" by (auto simp: abs_inv_def)
  then show ?thesis using length_filter_le [of "\<lambda>e. kind e = WaitKind.Receive" xs] by simp
next
  case False
  then show ?thesis by simp
qed

lemma implements_check:
  assumes "implements s (xs, h)" and "abs_inv (xs, h)"
  shows "ipc_check_invariants s"
proof -
  note i = implementsD [OF assms(1)] and hc = handlers_count [OF assms]
  have live: "live_entries (queue s) = map Some xs" "count_kind (queue s) k = length (filter (\<lambda>e. kind e = k) xs)" for k
    using queue_of_observe [OF i(5)] by (simp_all add: i)
  have blocked: "\<forall>e \<in> set xs. thread_of s (thread e) = Blocked"
    by (auto simp: i(9) waiting_def)
  have dist: "distinct (map thread xs)" using assms(2) by (simp add: abs_inv_def)
  have clients: "case reply s c of
      Bound caller \<Rightarrow> caller = c \<and> thread_of s (as_thread c) = Blocked \<and>
        (\<exists>e \<in> set xs. thread e = as_thread c \<and> kind e = WaitKind.Call) \<noteq> handled h c
    | Fresh \<Rightarrow> \<not> handled h c \<and> \<not> (\<exists>e \<in> set xs. thread e = as_thread c \<and> kind e = WaitKind.Call)" for c
  proof -
    have q: "(\<exists>e \<in> set xs. thread e = as_thread c \<and> kind e = WaitKind.Call) \<longleftrightarrow>
        entry (as_thread c) WaitKind.Call \<in> set xs"
      by (metis QueueEntry.cases QueueEntry.select_convs(1,2))
    show ?thesis using assms(2)
      by (force simp: q i outstanding_def waiting_def abs_inv_def)
  qed
  have cur: "case current_reply_of s t of Some c \<Rightarrow> reply s c = Bound c | None \<Rightarrow> True" for t
    by (auto simp: i outstanding_def handled_def split: option.splits)
  have "(if handled h c then 1 else 0::nat) \<le> 1 \<and>
      (case reply s c of
         Bound caller \<Rightarrow> caller = c \<and> thread_of s (as_thread c) = Blocked \<and>
           list_ex (\<lambda>e. case e of Some x \<Rightarrow> thread x = as_thread c \<and> kind x = WaitKind.Call | None \<Rightarrow> False)
             (map Some xs) \<noteq> ((if handled h c then 1 else 0::nat) = 1)
       | Fresh \<Rightarrow> (if handled h c then 1 else 0::nat) = 0 \<and>
           \<not> list_ex (\<lambda>e. case e of Some x \<Rightarrow> thread x = as_thread c \<and> kind x = WaitKind.Call | None \<Rightarrow> False)
             (map Some xs))" for c
    using clients [of c] by (cases "reply s c") (auto simp: list_ex_iff)
  moreover have "list_all (\<lambda>cr. case cr of Some c \<Rightarrow> reply s c = Bound c | None \<Rightarrow> True) (current_reply s)"
    unfolding thread_views(2) [OF i(2)] using cur by simp
  moreover have "list_all (\<lambda>t. length (filter
      (\<lambda>e. case e of Some x \<Rightarrow> thread x = t | None \<Rightarrow> False) (map Some xs)) \<le> 1) ThreadId_ALL"
    using length_filter_distinct [OF dist] by (simp add: list_all_iff filter_map comp_def)
  moreover have "list_all (\<lambda>e. case e of Some x \<Rightarrow> thread_of s (thread x) = Blocked | None \<Rightarrow> False)
      (map Some xs)"
    using blocked by (simp add: list_all_iff)
  ultimately show ?thesis
    using endpoint_check [OF assms] receive_check [OF assms(2)] running_count [OF assms(1)]
    unfolding ipc_check_invariants_def Let_def live hc list_all_iff by blast
qed

section \<open>A call is answered by its own reply\<close>

lemma outstanding_step:
  assumes "abs_inv (xs, h)" and "abs_step (xs, h) who op = Ok a'" and "outstanding (xs, h) c"
  shows "outstanding a' c \<or> op = IpcOp.Reply \<and> h who = Some c"
proof (cases op)
  case Send
  show ?thesis
  proof (cases "ep_of xs = HasReceiver")
    case True
    with ep_of_HasReceiver [OF assms(1)] obtain r where "xs = [entry r WaitKind.Receive]" by blast
    with True assms(2,3) Send show ?thesis
      by (auto simp: outstanding_tl [of "entry r WaitKind.Receive" "[]"] split: if_splits)
  next
    case False
    with assms(2,3) Send show ?thesis by (auto simp: outstanding_append split: if_splits)
  qed
next
  case Receive
  show ?thesis
  proof (cases xs)
    case Nil
    with assms(2,3) Receive show ?thesis by (auto simp: outstanding_def split: if_splits)
  next
    case (Cons x xs')
    have "outstanding (xs', h(who := as_client (thread x))) c"
      if "h who = None" and call: "kind x = WaitKind.Call"
    proof -
      obtain d where d: "thread x = as_thread d"
        using assms(1) call Cons by (auto simp: abs_inv_def is_client_iff)
      with call have "x = entry (as_thread d) WaitKind.Call" by (cases x) simp
      from outstanding_take [where h = h, OF \<open>h who = None\<close> this] assms(3) Cons d show ?thesis by simp
    qed
    with assms(2,3) Cons Receive outstanding_tl [of x xs' h c] show ?thesis
      by (auto split: if_splits WaitKind.splits)
  qed
next
  case Call
  show ?thesis
  proof (cases "ep_of xs = HasReceiver")
    case True
    with ep_of_HasReceiver [OF assms(1)] obtain r where "xs = [entry r WaitKind.Receive]" "h r = None"
      by blast
    with True assms(2,3) Call show ?thesis
      by (auto simp: outstanding_deliver split: if_splits option.splits)
  next
    case False
    with assms(2,3) Call show ?thesis
      by (auto simp: outstanding_append split: if_splits option.splits)
  qed
next
  case Reply
  with assms(2,3) show ?thesis
    by (auto simp: outstanding_reply [OF assms(1)] split: if_splits)
qed

lemma step_reply_effect:
  assumes "implements s (xs, h)" and "h who = Some c" and "step_reply s who = Return (Ok (s', es, n))"
  shows "reply s' c = Fresh \<and> thread_of s' (as_thread c) = Ready \<and> current_reply_of s' who = None \<and>
    UnblockThread (as_thread c) \<in> set (take n es)"
proof -
  note i = implementsD [OF assms(1)]
  from assms(2,3) have "s' = with_current_reply who None (with_reply c Fresh (with_thread (as_thread c) Ready s))"
    "take n es = [WriteMsgToBoundCaller, UnblockThread (as_thread c), ClearReply c, ClearCurrentReply who]"
    by (auto simp: step_reply_def i(7) with_effects_def Let_def MAX_EFFECTS_def split: if_splits)
  then show ?thesis by (simp add: i)
qed

section \<open>Effects\<close>

text \<open>What the kernel does for each effect, as its comments describe it. The message transfers
  move no state of this model.\<close>

fun apply_effect :: "ThreadId \<Rightarrow> IpcEffect \<Rightarrow> SystemState \<Rightarrow> SystemState" where
  "apply_effect who (SetEndpointState e) s = s\<lparr>endpoint := e\<rparr>"
| "apply_effect who (EnqueueSelfAs k) s =
     (case enqueue (queue s) (entry who k) of Return q \<Rightarrow> s\<lparr>queue := q\<rparr> | _ \<Rightarrow> s)"
| "apply_effect who DequeueHead s =
     (case dequeue (queue s) of Return (_, q) \<Rightarrow> s\<lparr>queue := q\<rparr> | _ \<Rightarrow> s)"
| "apply_effect who (BindReply c) s = with_reply c (Bound c) s"
| "apply_effect who (ClearReply c) s = with_reply c Fresh s"
| "apply_effect who (SetCurrentReply r c) s = with_current_reply r (Some c) s"
| "apply_effect who (ClearCurrentReply r) s = with_current_reply r None s"
| "apply_effect who (UnblockThread t) s = with_thread t Ready s"
| "apply_effect who BlockCurrent s = with_thread who Blocked s"
| "apply_effect who StoreMsgInOwnTcb s = s"
| "apply_effect who WriteMsgToBlockedReceiver s = s"
| "apply_effect who WriteMsgToBoundCaller s = s"
| "apply_effect who TakeMsgFromDequeuedHead s = s"

lemmas state_updates = with_thread_def with_reply_def with_current_reply_def

lemma with_effects_OkD:
  "with_effects s es = Return (Ok (s', es', n)) \<Longrightarrow>
     s' = s \<and> take n es' = es \<and> n = length es \<and> length es \<le> MAX_EFFECTS"
  by (auto simp: with_effects_def assert_then_Return_iff)

definition effects_ok :: "SystemState \<Rightarrow> ThreadId \<Rightarrow> SystemState \<Rightarrow> IpcEffect list \<Rightarrow> bool" where
  "effects_ok s who s' es \<longleftrightarrow>
     fold (apply_effect who) es s = s' \<and> BlockCurrent \<notin> set (butlast es)"

lemma dequeue_or_panicE:
  assumes "dequeue_or_panic s k = Return r"
  obtains x q where "dequeue (queue s) = Return (Some x, q)" and "k x (s\<lparr>queue := q\<rparr>) = Return r"
  using assms
  by (auto simp: dequeue_or_panic_def bind_outcome_Return_iff split: option.splits)

lemmas step_cases = bind_outcome_Return_iff assert_then_Return_iff Let_def

lemma step_send_effects:
  "step_send s who = Return (Ok (s', es, n)) \<Longrightarrow> effects_ok s who s' (take n es)"
  unfolding step_send_def
  by (auto simp: step_cases effects_ok_def state_updates
      split: EpState.splits option.splits if_splits elim!: dequeue_or_panicE
      dest!: with_effects_OkD)

lemma step_receive_effects:
  "step_receive s who = Return (Ok (s', es, n)) \<Longrightarrow> effects_ok s who s' (take n es)"
  unfolding step_receive_def
  by (cases "current_reply_of s who"; cases "endpoint s") (auto simp: step_cases effects_ok_def state_updates
      split: EpState.splits option.splits if_splits WaitKind.splits elim!: dequeue_or_panicE
      dest!: with_effects_OkD)

lemma step_call_effects:
  "step_call s who = Return (Ok (s', es, n)) \<Longrightarrow> effects_ok s who s' (take n es)"
  unfolding step_call_def
  by (auto simp: step_cases effects_ok_def state_updates
      split: EpState.splits option.splits if_splits elim!: dequeue_or_panicE
      dest!: with_effects_OkD)

lemma step_reply_effects:
  "step_reply s who = Return (Ok (s', es, n)) \<Longrightarrow> effects_ok s who s' (take n es)"
  unfolding step_reply_def
  by (auto simp: step_cases effects_ok_def state_updates
      split: option.splits if_splits elim!: dequeue_or_panicE
      dest!: with_effects_OkD)

section \<open>The decision functions describe the same transitions\<close>

definition accepted ::
  "SystemState \<Rightarrow> ThreadId \<Rightarrow> IpcOp \<Rightarrow> (SystemState \<Rightarrow> IpcEffect list \<Rightarrow> bool) \<Rightarrow> bool" where
  "accepted s who op P \<longleftrightarrow>
     (\<exists>s' es n. ipc_step s who op = Return (Ok (s', es, n)) \<and> P s' (take n es))"











text \<open>The state after the first client's call, before the server runs.\<close>

definition called :: SystemState where
  "called = \<lparr>endpoint = HasWaiters, queue = queue_of [entry Client1 WaitKind.Call],
     reply_state = [Bound One, Fresh], current_reply = [None, None, None],
     thread_state = [Blocked, Ready, Ready]\<rparr>"

lemma called_step: "\<exists>es n. ipc_step initial Client1 IpcOp.Call = Return (Ok (called, es, n))"
  by (simp add: initial_def called_def step_call_def thread_of_def reply_def Let_def
      with_effects_Return MAX_EFFECTS_def state_updates enqueue_queue_of queue_of_Nil)

lemma called_reachable: "ipc_reachable called"
  using called_step ipc_reachable.step [OF ipc_reachable.init] by blast

lemma second_call: "\<exists>s' es n. ipc_step called Client2 IpcOp.Call = Return (Ok (s', es, n))"
  by (simp add: called_def step_call_def thread_of_def reply_def Let_def
      with_effects_Return MAX_EFFECTS_def state_updates enqueue_queue_of)

text \<open>The server has taken the call and is handling it.\<close>

definition served :: SystemState where
  "served = \<lparr>endpoint = Idle, queue = queue_of [],
     reply_state = [Bound One, Fresh], current_reply = [None, None, Some One],
     thread_state = [Blocked, Ready, Ready]\<rparr>"

lemma served_step: "\<exists>es n. ipc_step called Server IpcOp.Receive = Return (Ok (served, es, n))"
  by (simp add: called_def served_def step_receive_def dequeue_or_panic_def dequeue_queue_of_Cons thread_of_def
      current_reply_of_def as_client_Some_iff queue_of_observe with_effects_Return MAX_EFFECTS_def state_updates)

lemma served_reachable: "ipc_reachable served"
  using served_step ipc_reachable.step [OF called_reachable] by blast

lemma implements_queue_contains:
  assumes "implements s (xs, h)"
  shows "queue_contains (queue s) t \<longleftrightarrow> t \<in> thread ` set xs"
  using queue_of_observe(1) [OF implementsD(5) [OF assms]]
  by (auto simp: implementsD(4) [OF assms] queue_contains_def live_entries_def list_ex_iff)

text \<open>A call that is queued or handled stays so under every transition but the reply to it.\<close>

lemma call_kept:
  assumes a: "implements s (xs, h)" "abs_inv (xs, h)" and out: "outstanding (xs, h) c"
    and st: "ipc_step s who op = Return (Ok (s', es, n))" and other: "\<not> (op = IpcOp.Reply \<and> current_reply_of s who = Some c)"
  shows "reply s' c = Bound c \<and> thread_of s' (as_thread c) = Blocked \<and>
    (queue_contains (queue s') (as_thread c) \<or> (\<exists>w. current_reply_of s' w = Some c))"
proof -
  from ipc_step_refines [OF a, of who op] st
  obtain xs' h' where a': "abs_step (xs, h) who op = Ok (xs', h')" "implements s' (xs', h')"
    by (auto simp: refines_def split: result.splits)
  have o: "outstanding (xs', h') c" using outstanding_step [OF a(2) a'(1) out] other implementsD(7) [OF a(1)] by auto
  then have "waiting (xs', h') (as_thread c)" by (force simp: outstanding_def waiting_def)
  moreover have "queue_contains (queue s') (as_thread c) \<or> (\<exists>w. current_reply_of s' w = Some c)"
    using o by (force simp: outstanding_def handled_def implements_queue_contains [OF a'(2)] implementsD(7) [OF a'(2)])
  ultimately show ?thesis using o implementsD(8,9) [OF a'(2)] by simp
qed

section \<open>Properties of the IPC state machine\<close>



text \<open>C15. Every reachable state passes all the invariants \<^verbatim>\<open>check_invariants\<close> asserts (endpoint and
  queue agree, at most one receiver, queued threads are blocked and queued once, a bound Reply's
  owner is blocked and is either queued or handled by exactly one thread, at most one thread runs),
  and every blocked thread is queued or has an outstanding call, so no wake-up can be lost. Every
  operation of every thread returns there: none panics.\<close>

theorem ipc_invariants:
  assumes "ipc_reachable s"
  shows "ipc_check_invariants s \<and>
    (\<forall>t. thread_of s t = Blocked \<longrightarrow>
       queue_contains (queue s) t \<or> (\<exists>c. t = as_thread c \<and> reply s c = Bound c)) \<and>
    (\<forall>who op. returns (ipc_step s who op))"
proof -
  obtain xs h where a: "implements s (xs, h)" "abs_inv (xs, h)"
    using reachable_implements [OF assms] by force
  have "returns (ipc_step s who op)" for who op
    using ipc_step_refines [OF a, of who op] by (auto simp: refines_def split: result.splits)
  with implements_check [OF a] show ?thesis
    by (auto simp: implementsD(8,9) [OF a(1)] implements_queue_contains [OF a(1)] waiting_def outstanding_def)
qed

theorem ipc_invariants_witness:
  "ipc_check_invariants called \<and> thread_of called Client1 = Blocked \<and>
    (queue_contains (queue called) Client1 \<or> (\<exists>c. Client1 = as_thread c \<and> reply called c = Bound c)) \<and>
    returns (ipc_step called Server IpcOp.Receive)"
proof -
  have "thread_of called Client1 = Blocked" by (simp add: thread_of_def called_def)
  with ipc_invariants [OF called_reachable] show ?thesis by blast
qed

text \<open>C4. A caller is never forgotten and never answered by someone else's reply. While a client's
  Reply is bound, the Reply of the thread that is handling this very call is always accepted while
  that thread runs, and it frees the Reply, wakes its owner and ends the handling. Every other
  transition of any thread keeps the Reply bound and its owner blocked, and the call is still queued
  or handled by some thread. In particular a second client's call cannot overwrite the first.\<close>

theorem reply_reaches_its_caller:
  assumes "ipc_reachable s" and "reply s c = Bound c"
  shows "(\<forall>who. current_reply_of s who = Some c \<and> thread_of s who \<noteq> Blocked \<longrightarrow>
      (\<exists>s' es n. ipc_step s who IpcOp.Reply = Return (Ok (s', es, n)))) \<and>
    (\<forall>who op s' es n. ipc_step s who op = Return (Ok (s', es, n)) \<longrightarrow>
      (if op = IpcOp.Reply \<and> current_reply_of s who = Some c
       then reply s' c = Fresh \<and> thread_of s' (as_thread c) = Ready \<and> current_reply_of s' who = None \<and>
         UnblockThread (as_thread c) \<in> set (take n es)
       else reply s' c = Bound c \<and> thread_of s' (as_thread c) = Blocked \<and>
         (queue_contains (queue s') (as_thread c) \<or> (\<exists>w. current_reply_of s' w = Some c))))"
proof -
  obtain xs h where a: "implements s (xs, h)" "abs_inv (xs, h)"
    using reachable_implements [OF assms(1)] by force
  note i = implementsD [OF a(1)]
  have out: "outstanding (xs, h) c" using assms(2) i(8) [of c] by (auto split: if_splits)
  have accepted: "\<exists>s' es n. ipc_step s who IpcOp.Reply = Return (Ok (s', es, n))"
    if "current_reply_of s who = Some c" "thread_of s who \<noteq> Blocked" for who
    using that assms(2) by (simp add: step_reply_def Let_def with_effects_def MAX_EFFECTS_def)
  have wakes: "reply s' c = Fresh \<and> thread_of s' (as_thread c) = Ready \<and> current_reply_of s' who = None \<and>
      UnblockThread (as_thread c) \<in> set (take n es)"
    if "ipc_step s who IpcOp.Reply = Return (Ok (s', es, n))" "current_reply_of s who = Some c" for who s' es n
  proof -
    have "step_reply s who = Return (Ok (s', es, n))" using that(1) by (auto split: if_splits)
    from step_reply_effect [OF a(1) _ this] that(2) i(7) show ?thesis by simp
  qed
  note kept = call_kept [OF a out]
  show ?thesis
  proof (intro conjI allI impI)
    fix who op s' es n assume st: "ipc_step s who op = Return (Ok (s', es, n))"
    show "if op = IpcOp.Reply \<and> current_reply_of s who = Some c
       then reply s' c = Fresh \<and> thread_of s' (as_thread c) = Ready \<and> current_reply_of s' who = None \<and>
         UnblockThread (as_thread c) \<in> set (take n es)
       else reply s' c = Bound c \<and> thread_of s' (as_thread c) = Blocked \<and>
         (queue_contains (queue s') (as_thread c) \<or> (\<exists>w. current_reply_of s' w = Some c))"
      using wakes kept [OF st] st by (cases "op = IpcOp.Reply \<and> current_reply_of s who = Some c") (simp_all del: ipc_step.simps)
  qed (use accepted in blast)
qed

theorem reply_reaches_its_caller_witness:
  "(\<exists>s' es n. ipc_step called Client2 IpcOp.Call = Return (Ok (s', es, n)) \<and>
      reply s' One = Bound One \<and> thread_of s' Client1 = Blocked) \<and>
   (\<exists>s' es n. ipc_step served Server IpcOp.Reply = Return (Ok (s', es, n)) \<and>
      reply s' One = Fresh \<and> thread_of s' Client1 = Ready \<and> UnblockThread Client1 \<in> set (take n es))"
proof
  obtain s' es n where st: "ipc_step called Client2 IpcOp.Call = Return (Ok (s', es, n))"
    using second_call by blast
  have "reply called One = Bound One" by (simp add: called_def reply_def)
  from reply_reaches_its_caller [OF called_reachable this] st
  show "\<exists>s' es n. ipc_step called Client2 IpcOp.Call = Return (Ok (s', es, n)) \<and>
      reply s' One = Bound One \<and> thread_of s' Client1 = Blocked" by fastforce
next
  have b: "reply served One = Bound One" by (simp add: served_def reply_def)
  have h: "current_reply_of served Server = Some One" "thread_of served Server \<noteq> Blocked"
    by (simp_all add: served_def current_reply_of_def thread_of_def)
  note r = reply_reaches_its_caller [OF served_reachable b]
  obtain s' es n where st: "ipc_step served Server IpcOp.Reply = Return (Ok (s', es, n))" using r h by blast
  with r h(1) show "\<exists>s' es n. ipc_step served Server IpcOp.Reply = Return (Ok (s', es, n)) \<and>
      reply s' One = Fresh \<and> thread_of s' Client1 = Ready \<and> UnblockThread Client1 \<in> set (take n es)" by fastforce
qed

text \<open>C31. The effect list is the transition: executing the effects in order from the old state gives
  exactly the new state, and \<^verbatim>\<open>BlockCurrent\<close> can only be the last effect.\<close>

theorem effects_realise_step:
  assumes "ipc_step s who op = Return (Ok (s', es, n))"
  shows "fold (apply_effect who) (take n es) s = s' \<and> BlockCurrent \<notin> set (butlast (take n es))"
proof -
  from assms have "effects_ok s who s' (take n es)"
    by (cases op) (auto simp: step_send_effects step_receive_effects step_call_effects
        step_reply_effects split: if_splits)
  then show ?thesis by (simp add: effects_ok_def)
qed

theorem effects_realise_step_witness:
  "\<exists>s' es n. ipc_step called Client2 IpcOp.Call = Return (Ok (s', es, n)) \<and>
    fold (apply_effect Client2) (take n es) called = s' \<and>
    BlockCurrent \<notin> set (butlast (take n es))"
  using second_call effects_realise_step by blast



end
