(* ===== verification/Addr.thy ===== *)
theory Addr
  imports Lockjaw_Prelude
begin

text \<open>
  The address newtypes of \<^verbatim>\<open>lockjaw-types/src/addr.rs\<close>. Physical addresses, physical pages and
  kernel virtual addresses are distinct types, as in the source, so no definition can mix them.
\<close>

datatype PhysAddr = PhysAddr (phys_u64: u64)
datatype PhysPage = PhysPage (page_number: u64)
datatype KernelVa = KernelVa (kva_u64: u64)
datatype NotPageAligned = NotPageAligned u64

definition PAGE_SIZE :: u64 where "PAGE_SIZE = 4096"
definition PAGE_SHIFT :: nat where "PAGE_SHIFT = 12"
definition USER_VA_END :: u64 where "USER_VA_END = 0x40000000"

definition containing_page :: "PhysAddr \<Rightarrow> PhysPage" where
  "containing_page addr = PhysPage (drop_bit PAGE_SHIFT (phys_u64 addr))"

definition aligned :: "PhysAddr \<Rightarrow> (PhysPage, NotPageAligned) result" where
  "aligned addr =
     (let raw = phys_u64 addr in
      if raw AND (PAGE_SIZE - 1) \<noteq> 0 then Err (NotPageAligned raw)
      else Ok (PhysPage (drop_bit PAGE_SHIFT raw)))"

definition start_addr :: "PhysPage \<Rightarrow> PhysAddr" where
  "start_addr page = PhysAddr (push_bit PAGE_SHIFT (page_number page))"

definition add_pages :: "PhysPage \<Rightarrow> nat \<Rightarrow> PhysPage" where
  "add_pages page n = PhysPage (page_number page + word_of_nat n)"

text \<open>\<^verbatim>\<open>KernelVa::add_pages\<close> and \<^verbatim>\<open>pages_since\<close> use checked arithmetic in the development profile.\<close>

definition kva_add_pages :: "KernelVa \<Rightarrow> nat \<Rightarrow> KernelVa outcome" where
  "kva_add_pages kva pages =
     assert_then (unat (kva_u64 kva) + pages * unat PAGE_SIZE < 2 ^ 64)
       (Return (KernelVa (kva_u64 kva + word_of_nat pages * PAGE_SIZE)))"

definition pages_since :: "KernelVa \<Rightarrow> KernelVa \<Rightarrow> nat outcome" where
  "pages_since self other =
     assert_then (kva_u64 other \<le> kva_u64 self)
       (Return (unat (drop_bit PAGE_SHIFT (kva_u64 self - kva_u64 other))))"

section \<open>Lemmas\<close>

lemma page_mask: "PAGE_SIZE - 1 = mask PAGE_SHIFT"
  by (simp add: PAGE_SIZE_def PAGE_SHIFT_def mask_eq_exp_minus_1)

lemma page_offset: "raw AND (PAGE_SIZE - 1) = take_bit PAGE_SHIFT raw"
  by (simp add: page_mask take_bit_eq_mask)

lemma page_floor: "push_bit PAGE_SHIFT (drop_bit PAGE_SHIFT raw) = raw - take_bit PAGE_SHIFT raw"
  for raw :: u64
  by (metis add_diff_cancel_right' bits_ident add.commute)

lemma start_addr_containing:
  "start_addr (containing_page addr) = PhysAddr (phys_u64 addr - take_bit PAGE_SHIFT (phys_u64 addr))"
  by (simp add: start_addr_def containing_page_def page_floor)

lemma aligned_Ok_iff:
  "aligned addr = Ok page \<longleftrightarrow>
     take_bit PAGE_SHIFT (phys_u64 addr) = 0 \<and> page = containing_page addr"
  by (auto simp: aligned_def Let_def page_offset containing_page_def)

lemma aligned_roundtrip: "aligned addr = Ok page \<Longrightarrow> start_addr page = addr"
  by (cases addr) (simp add: aligned_Ok_iff start_addr_containing)

lemma unat_u64_less: "unat (x :: u64) < 2 ^ 64"
  using unsigned_less [of x, where ?'a = nat] by simp

lemma unat_drop_bit: "unat (drop_bit k x) = unat x div 2 ^ k"
  for x :: "'w::len word"
  by (subst unsigned_drop_bit_eq) (simp add: drop_bit_eq_div take_bit_nat_eq_self)

lemma kva_pages_roundtrip:
  assumes "kva_add_pages kva n = Return kva'"
  shows "pages_since kva' kva = Return n"
proof -
  have b: "unat (kva_u64 kva) + n * 4096 < 2 ^ 64" and k: "kva' = KernelVa (kva_u64 kva + word_of_nat n * PAGE_SIZE)"
    using assms by (auto simp: kva_add_pages_def assert_then_Return_iff PAGE_SIZE_def)
  have w: "unat (word_of_nat n * PAGE_SIZE :: u64) = n * 4096"
    using b by (simp add: PAGE_SIZE_def unat_word_ariths unat_of_nat mod_simps)
  have "unat (kva_u64 kva + word_of_nat n * PAGE_SIZE) = unat (kva_u64 kva) + n * 4096"
    using b by (simp add: unat_word_ariths(1) w)
  moreover have "unat (drop_bit PAGE_SHIFT (word_of_nat n * PAGE_SIZE :: u64)) = n"
    unfolding unat_drop_bit w by (simp add: PAGE_SHIFT_def)
  ultimately show ?thesis
    by (simp add: k pages_since_def assert_then_def word_le_nat_alt)
qed

end
