(* ===== verification/Wait_Objects.thy ===== *)
theory Wait_Objects
  imports Ipc_State Addr
begin

text \<open>
  The pure parts of the kernel's waitable objects: the timeline notification of
  \<^verbatim>\<open>lockjaw-types/src/notification_state.rs\<close>, the readiness logic and the readiness waiter slot
  of \<^verbatim>\<open>lockjaw-types/src/wait.rs\<close>, and the caller tokens of \<^verbatim>\<open>lockjaw-types/src/ipc_token.rs\<close>.
\<close>

section \<open>Notifications\<close>

record NotificationState =
  notif_value :: u64
  has_waiter :: bool
  wait_threshold :: u64

datatype SignalResult = Updated | WakeWaiter

datatype WaitResult = WaitReady | WaitBlock

datatype NotificationError = ValueNotMonotonic | AlreadyHasWaiter

definition notification_new :: NotificationState where
  "notification_new = \<lparr>notif_value = 0, has_waiter = False, wait_threshold = 0\<rparr>"

definition signal :: "NotificationState \<Rightarrow> u64 \<Rightarrow>
    (SignalResult, NotificationError) result \<times> NotificationState" where
  "signal self new_value =
     (if new_value \<le> notif_value self then (Err ValueNotMonotonic, self)
      else
        let self = self\<lparr>notif_value := new_value\<rparr> in
        if has_waiter self \<and> wait_threshold self \<le> notif_value self
        then (Ok WakeWaiter, self\<lparr>has_waiter := False, wait_threshold := 0\<rparr>)
        else (Ok Updated, self))"

definition wait :: "NotificationState \<Rightarrow> u64 \<Rightarrow>
    (WaitResult, NotificationError) result \<times> NotificationState" where
  "wait self threshold =
     (if threshold \<le> notif_value self then (Ok WaitReady, self)
      else if has_waiter self then (Err AlreadyHasWaiter, self)
      else (Ok WaitBlock, self\<lparr>has_waiter := True, wait_threshold := threshold\<rparr>))"

section \<open>Readiness\<close>

definition MAX_WAIT_OBJECTS :: nat where "MAX_WAIT_OBJECTS = 4"

definition validate_user_buffer :: "u64 \<Rightarrow> u64 \<Rightarrow> bool" where
  "validate_user_buffer ptr byte_count \<longleftrightarrow>
     (case checked_add ptr byte_count of
        Some buffer_end \<Rightarrow> ptr < USER_VA_END \<and> buffer_end \<le> USER_VA_END
      | None \<Rightarrow> False)"

definition validate_wait_count :: "nat \<Rightarrow> bool" where
  "validate_wait_count n \<longleftrightarrow> n \<le> MAX_WAIT_OBJECTS"

definition is_endpoint_ready :: "EpState \<Rightarrow> bool" where
  "is_endpoint_ready st \<longleftrightarrow> st = HasWaiters"

definition is_notification_ready :: "u64 \<Rightarrow> u64 \<Rightarrow> bool" where
  "is_notification_ready current_value threshold \<longleftrightarrow> threshold \<le> current_value"

definition can_export_to_caller :: "u64 \<Rightarrow> bool" where
  "can_export_to_caller caller_tcb_paddr \<longleftrightarrow> caller_tcb_paddr \<noteq> 0"

datatype ObjectReadiness = Endpoint EpState | Notification u64 u64

fun object_ready :: "ObjectReadiness \<Rightarrow> bool" where
  "object_ready (Endpoint st) = is_endpoint_ready st"
| "object_ready (Notification v threshold) = is_notification_ready v threshold"

text \<open>The loop of \<^verbatim>\<open>compute_ready_mask\<close> from object \<open>i\<close> on. \<^verbatim>\<open>1 << i\<close> panics for \<open>i \<ge> 64\<close>.\<close>

fun ready_mask_loop :: "nat \<Rightarrow> ObjectReadiness list \<Rightarrow> u64 \<Rightarrow> u64 outcome" where
  "ready_mask_loop i [] msk = Return msk"
| "ready_mask_loop i (obj # objs) msk =
     (if object_ready obj
      then assert_then (i < 64) (ready_mask_loop (i + 1) objs (msk OR push_bit i 1))
      else ready_mask_loop (i + 1) objs msk)"

definition compute_ready_mask :: "ObjectReadiness list \<Rightarrow> u64 outcome" where
  "compute_ready_mask objects = ready_mask_loop 0 objects 0"

section \<open>The readiness waiter\<close>

datatype WaiterError = AlreadyRegistered

record ReadinessWaiter =
  paddr :: u64

definition waiter_empty :: ReadinessWaiter where
  "waiter_empty = \<lparr>paddr = 0\<rparr>"

definition register :: "ReadinessWaiter \<Rightarrow> u64 \<Rightarrow> (unit, WaiterError) result \<times> ReadinessWaiter" where
  "register self tcb_paddr =
     (if paddr self \<noteq> 0 then (Err AlreadyRegistered, self)
      else (Ok (), self\<lparr>paddr := tcb_paddr\<rparr>))"

definition clear_if_match :: "ReadinessWaiter \<Rightarrow> u64 \<Rightarrow> bool \<times> ReadinessWaiter" where
  "clear_if_match self expected =
     (if paddr self = expected \<and> expected \<noteq> 0 then (True, self\<lparr>paddr := 0\<rparr>) else (False, self))"

definition is_registered :: "ReadinessWaiter \<Rightarrow> bool" where
  "is_registered self \<longleftrightarrow> paddr self \<noteq> 0"

section \<open>Caller tokens\<close>

definition mint_caller_token :: "u64 \<Rightarrow> (u64 \<times> u64) outcome" where
  "mint_caller_token next_token =
     (if next_token = 0 then Panic
      else case checked_add next_token 1 of
             None \<Rightarrow> Panic
           | Some nxt \<Rightarrow> Return (next_token, nxt))"

section \<open>Lemmas\<close>

text \<open>A recorded waiter's threshold is always still ahead of the counter.\<close>

definition notification_wf :: "NotificationState \<Rightarrow> bool" where
  "notification_wf s \<longleftrightarrow> (has_waiter s \<longrightarrow> notif_value s < wait_threshold s)"

datatype notification_op = Signal u64 | Wait u64

fun notification_apply :: "notification_op \<Rightarrow> NotificationState \<Rightarrow> NotificationState" where
  "notification_apply (Signal v) s = snd (signal s v)"
| "notification_apply (Wait t) s = snd (wait s t)"

lemma notification_apply_wf: "notification_wf s \<Longrightarrow> notification_wf (notification_apply op s)"
  by (cases op) (auto simp: notification_wf_def signal_def wait_def Let_def not_le)

lemma notification_run_wf:
  "notification_wf s \<Longrightarrow> notification_wf (fold notification_apply ops s)"
  by (induction ops arbitrary: s) (simp_all add: notification_apply_wf)

lemma notification_new_wf: "notification_wf notification_new"
  by (simp add: notification_wf_def notification_new_def)

lemma notification_value:
  "notif_value (fold notification_apply ops notification_new) = Max (insert 0 {v. Signal v \<in> set ops})"
proof (induction ops rule: rev_induct)
  case Nil
  show ?case by (simp add: notification_new_def)
next
  case (snoc op ops)
  have fin: "finite {v. Signal v \<in> set ops}"
    by (rule finite_subset [of _ "(\<lambda>op. case op of Signal v \<Rightarrow> v | Wait v \<Rightarrow> v) ` set ops"]) force+
  show ?case
  proof (cases op)
    case (Signal v)
    let ?M = "Max (insert 0 {w. Signal w \<in> set ops})"
    have i: "insert 0 {w. Signal w \<in> set (ops @ [op])} = insert v (insert 0 {w. Signal w \<in> set ops})"
      using Signal by auto
    have "notif_value (snd (signal s v)) = max v (notif_value s)" for s
      by (auto simp: signal_def Let_def max_def)
    moreover have "Max (insert v (insert 0 {w. Signal w \<in> set ops})) = max v ?M"
      using fin by (intro Max_insert) simp_all
    ultimately show ?thesis unfolding i using Signal snoc.IH by simp
  next
    case (Wait t)
    then show ?thesis using snoc.IH by (simp add: wait_def)
  qed
qed

lemma signal_wakes:
  assumes "notification_wf s"
  shows "(fst (signal s v) = Err ValueNotMonotonic \<longleftrightarrow> v \<le> notif_value s) \<and>
    (fst (signal s v) = Ok WakeWaiter \<longleftrightarrow> has_waiter s \<and> wait_threshold s \<le> v) \<and>
    (has_waiter (snd (signal s v)) \<longleftrightarrow> has_waiter s \<and> v < wait_threshold s)"
  using assms by (auto simp: signal_def notification_wf_def Let_def)

lemma signal_keeps_threshold:
  "has_waiter (snd (signal s v)) \<Longrightarrow> wait_threshold (snd (signal s v)) = wait_threshold s"
  by (auto simp: signal_def Let_def split: if_splits)

text \<open>A waiter is recorded exactly when its wait blocked and no signal has reached it since.\<close>

definition waits_for :: "notification_op list \<Rightarrow> u64 \<Rightarrow> bool" where
  "waits_for ops t \<longleftrightarrow> (\<exists>before later. ops = before @ Wait t # later \<and>
     fst (wait (fold notification_apply before notification_new) t) = Ok WaitBlock \<and>
     (\<forall>v. Signal v \<in> set later \<longrightarrow> v < t))"

lemma waits_for_snoc:
  "waits_for (ops @ [op]) t \<longleftrightarrow> waits_for ops t \<and> (\<forall>v. op = Signal v \<longrightarrow> v < t) \<or>
     op = Wait t \<and> fst (wait (fold notification_apply ops notification_new) t) = Ok WaitBlock"
  (is "?l \<longleftrightarrow> ?a \<or> ?b")
proof
  assume ?l
  then obtain before later where b: "ops @ [op] = before @ Wait t # later"
    "fst (wait (fold notification_apply before notification_new) t) = Ok WaitBlock"
    "\<forall>v. Signal v \<in> set later \<longrightarrow> v < t" unfolding waits_for_def by blast
  show "?a \<or> ?b"
  proof (cases later rule: rev_cases)
    case Nil
    then show ?thesis using b by simp
  next
    case (snoc l x)
    then have "ops = before @ Wait t # l" "op = x" using b(1) by simp_all
    then show ?thesis using b snoc unfolding waits_for_def by (intro disjI1 conjI exI [of _ before] exI [of _ l]) simp_all
  qed
next
  assume "?a \<or> ?b"
  then show ?l
  proof
    assume a: ?a
    then obtain before later where b: "ops = before @ Wait t # later"
      "fst (wait (fold notification_apply before notification_new) t) = Ok WaitBlock"
      "\<forall>v. Signal v \<in> set later \<longrightarrow> v < t" unfolding waits_for_def by blast
    show ?l unfolding waits_for_def
      by (rule exI [of _ before], rule exI [of _ "later @ [op]"]) (use a b in auto)
  next
    assume ?b
    then show ?l unfolding waits_for_def by (intro exI [of _ ops] exI [of _ "[]"]) simp
  qed
qed

lemma notification_waits:
  "has_waiter (fold notification_apply ops notification_new) \<and>
     wait_threshold (fold notification_apply ops notification_new) = t \<longleftrightarrow> waits_for ops t"
proof (induction ops arbitrary: t rule: rev_induct)
  case Nil
  show ?case by (simp add: notification_new_def waits_for_def)
next
  case (snoc op ops)
  let ?s = "fold notification_apply ops notification_new"
  show ?case
  proof (cases op)
    case (Signal v)
    have "has_waiter (snd (signal ?s v)) \<longleftrightarrow> has_waiter ?s \<and> v < wait_threshold ?s"
      using signal_wakes [OF notification_run_wf [OF notification_new_wf]] by blast
    then show ?thesis using signal_keeps_threshold [of ?s v]
      by (auto simp: waits_for_snoc Signal snoc.IH [symmetric])
  next
    case (Wait u)
    then show ?thesis by (auto simp: waits_for_snoc snoc.IH [symmetric] wait_def split: if_splits)
  qed
qed

lemmas notification_waiting = notification_waits [unfolded waits_for_def]

lemma ready_mask_loop_bits:
  "i + length objs \<le> 64 \<Longrightarrow>
     \<exists>m. ready_mask_loop i objs msk = Return m \<and>
       (\<forall>n. bit m n \<longleftrightarrow> bit msk n \<or> i \<le> n \<and> n < i + length objs \<and> object_ready (objs ! (n - i)))"
proof (induction objs arbitrary: i msk)
  case Nil
  then show ?case by auto
next
  case (Cons obj objs)
  let ?msk = "if object_ready obj then msk OR push_bit i 1 else msk"
  from Cons.IH [of "i + 1" ?msk] Cons.prems obtain m where
    m: "ready_mask_loop (i + 1) objs ?msk = Return m"
    "\<And>n. bit m n \<longleftrightarrow> bit ?msk n \<or> i + 1 \<le> n \<and> n < i + 1 + length objs \<and> object_ready (objs ! (n - (i + 1)))"
    by auto
  have b: "bit ?msk n \<longleftrightarrow> bit msk n \<or> n = i \<and> object_ready obj" for n
    using Cons.prems by (auto simp: bit_or_iff bit_exp_iff)
  have "bit m n \<longleftrightarrow> bit msk n \<or> i \<le> n \<and> n < i + length (obj # objs) \<and> object_ready ((obj # objs) ! (n - i))" for n
    unfolding m(2) b by (cases "n = i") (auto simp: nth_Cons' dest: le_neq_implies_less)
  moreover have "ready_mask_loop i (obj # objs) msk = Return m"
    using m(1) Cons.prems by (cases "object_ready obj") simp_all
  ultimately show ?case by blast
qed

section \<open>Properties of the waitable objects\<close>

text \<open>C28. No notification wake-up is lost and none is invented. After any sequence of signals and
  waits from a new notification the counter is the largest value signalled, and a waiter with
  threshold \<open>t\<close> is recorded exactly when some wait for \<open>t\<close> blocked and no later signal has reached
  \<open>t\<close>. A further wait returns at once when the counter has reached its threshold, is refused
  without touching the recorded waiter when there is one, and blocks otherwise. A further signal
  fails exactly when it does not raise the counter, and wakes the waiter exactly when one is
  recorded whose threshold it reaches; that waiter is then no longer recorded.\<close>

theorem notification_wakes:
  assumes "s = fold notification_apply ops notification_new"
  shows "notif_value s = Max (insert 0 {v. Signal v \<in> set ops}) \<and>
    (has_waiter s \<and> wait_threshold s = t \<longleftrightarrow>
       (\<exists>before later. ops = before @ Wait t # later \<and>
          fst (wait (fold notification_apply before notification_new) t) = Ok WaitBlock \<and>
          (\<forall>v. Signal v \<in> set later \<longrightarrow> v < t))) \<and>
    (wait s t' =
       (if t' \<le> notif_value s then (Ok WaitReady, s)
        else if has_waiter s then (Err AlreadyHasWaiter, s)
        else (Ok WaitBlock, s\<lparr>has_waiter := True, wait_threshold := t'\<rparr>))) \<and>
    (fst (signal s v) = Err ValueNotMonotonic \<longleftrightarrow> v \<le> notif_value s) \<and>
    (fst (signal s v) = Ok WakeWaiter \<longleftrightarrow> has_waiter s \<and> wait_threshold s \<le> v) \<and>
    (has_waiter (snd (signal s v)) \<longleftrightarrow> has_waiter s \<and> v < wait_threshold s)"
proof -
  have w: "notification_wf s" using notification_run_wf notification_new_wf assms by simp
  note g = signal_wakes [OF w, of v]
  have "notif_value s = Max (insert 0 {v. Signal v \<in> set ops})"
    unfolding assms by (rule notification_value)
  moreover note notification_waiting [of ops t, folded assms] wait_def [of s t']
    g [THEN conjunct1] g [THEN conjunct2, THEN conjunct1] g [THEN conjunct2, THEN conjunct2]
  ultimately show ?thesis by (intro conjI)
qed

theorem notification_wakes_witness:
  "fst (wait (fold notification_apply [Signal 3, Wait 5, Signal 4] notification_new) 6) = Err AlreadyHasWaiter \<and>
   wait_threshold (fold notification_apply [Signal 3, Wait 5, Signal 4] notification_new) = 5 \<and>
   fst (signal (fold notification_apply [Signal 3, Wait 5, Signal 4] notification_new) 7) = Ok WakeWaiter"
proof -
  let ?ops = "[Signal 3, Wait 5, Signal 4]"
  let ?s = "fold notification_apply ?ops notification_new"
  have s: "?s = \<lparr>notif_value = 4, has_waiter = True, wait_threshold = 5\<rparr>"
    by (simp add: notification_new_def signal_def wait_def)
  show ?thesis
    using notification_wakes [of ?s ?ops 5 6 7] unfolding s by simp
qed

text \<open>C37. The readiness mask is exact: for at most \<open>MAX_WAIT_OBJECTS\<close> objects it is computed without a
  panic, bit \<open>n\<close> is set exactly when object \<open>n\<close> exists and is ready, and so the mask is zero (the
  time-out encoding) exactly when no object is ready.\<close>

theorem ready_mask_exact:
  assumes "validate_wait_count (length objects)"
  shows "\<exists>m. compute_ready_mask objects = Return m \<and>
    (\<forall>n. bit m n \<longleftrightarrow> n < length objects \<and> object_ready (objects ! n)) \<and>
    (m = 0 \<longleftrightarrow> (\<forall>obj \<in> set objects. \<not> object_ready obj))"
proof -
  from assms have "0 + length objects \<le> 64"
    by (simp add: validate_wait_count_def MAX_WAIT_OBJECTS_def)
  from ready_mask_loop_bits [OF this, of 0] obtain m where
    m: "compute_ready_mask objects = Return m"
    "\<And>n. bit m n \<longleftrightarrow> n < length objects \<and> object_ready (objects ! n)"
    by (auto simp: compute_ready_mask_def)
  have "m = 0 \<longleftrightarrow> (\<forall>n. \<not> bit m n)" by (auto intro!: bit_eqI)
  also have "\<dots> \<longleftrightarrow> (\<forall>obj \<in> set objects. \<not> object_ready obj)"
    unfolding m(2) all_set_conv_all_nth by blast
  finally show ?thesis using m by blast
qed

theorem ready_mask_exact_witness:
  "\<exists>m. compute_ready_mask [Endpoint HasReceiver, Notification 7 5, Endpoint HasWaiters] = Return m \<and>
     \<not> bit m 0 \<and> bit m 1 \<and> bit m 2 \<and> \<not> bit m 3 \<and> m \<noteq> 0"
proof -
  let ?os = "[Endpoint HasReceiver, Notification 7 5, Endpoint HasWaiters]"
  have "validate_wait_count (length ?os)"
    by (simp add: validate_wait_count_def MAX_WAIT_OBJECTS_def)
  from ready_mask_exact [OF this] obtain m where m: "compute_ready_mask ?os = Return m"
    "\<And>n. bit m n \<longleftrightarrow> n < length ?os \<and> object_ready (?os ! n)"
    "m = 0 \<longleftrightarrow> (\<forall>obj \<in> set ?os. \<not> object_ready obj)"
    by blast
  have r: "\<not> object_ready (?os ! 0)" "object_ready (?os ! 1)" "object_ready (?os ! 2)"
    by (simp_all add: is_endpoint_ready_def is_notification_ready_def)
  then have "\<not> bit m 0" "bit m 1" "bit m 2" "\<not> bit m 3" by (simp_all add: m(2))
  moreover from this have "m \<noteq> 0" by auto
  ultimately show ?thesis using m(1) by blast
qed

text \<open>C34. A user buffer is accepted exactly when it starts in the user range and every byte of it lies
  there, with no wrap-around of its end.\<close>

theorem user_buffer_in_range:
  "validate_user_buffer ptr n \<longleftrightarrow>
     unat ptr < 0x40000000 \<and> unat ptr + unat n \<le> 0x40000000"
proof -
  have e: "unat USER_VA_END = 0x40000000" by (simp add: USER_VA_END_def)
  show ?thesis
  proof (cases "checked_add ptr n")
    case None
    then have "2 ^ 64 \<le> unat ptr + unat n" using checked_add_None [of ptr n] by simp
    with None show ?thesis by (simp add: validate_user_buffer_def)
  next
    case (Some c)
    with checked_add_Some [OF Some] show ?thesis
      by (simp add: validate_user_buffer_def word_less_nat_alt word_le_nat_alt e)
  qed
qed

end
