(* ===== verification/Time.thy ===== *)
theory Time
  imports Lockjaw_Prelude
begin

text \<open>
  Monotonic time and deadlines, \<^verbatim>\<open>lockjaw-types/src/time.rs\<close>: conversions between counter ticks
  and nanoseconds and the deadline arithmetic of \<^verbatim>\<open>sys_wait_any\<close>. The newtypes \<^verbatim>\<open>MonoTicks\<close>,
  \<^verbatim>\<open>Nanos\<close> and \<^verbatim>\<open>TickFreq\<close> are 64-bit words; the 128-bit intermediate values are naturals with
  the saturation written out.
\<close>

datatype MonoTicks = MonoTicks u64
datatype Nanos = Nanos u64
datatype TickFreq = TickFreq u64

fun ticks_raw :: "MonoTicks \<Rightarrow> u64" where "ticks_raw (MonoTicks t) = t"
fun nanos_raw :: "Nanos \<Rightarrow> u64" where "nanos_raw (Nanos n) = n"
fun freq_raw :: "TickFreq \<Rightarrow> u64" where "freq_raw (TickFreq f) = f"

definition U64_MAX :: nat where "U64_MAX = 2 ^ 64 - 1"
definition U128_MAX :: nat where "U128_MAX = 2 ^ 128 - 1"

definition saturating_mul_u128 :: "nat \<Rightarrow> nat \<Rightarrow> nat" where
  "saturating_mul_u128 a b = min (a * b) U128_MAX"

definition saturating_mul_u64 :: "u64 \<Rightarrow> u64 \<Rightarrow> u64" where
  "saturating_mul_u64 a b =
     (if unat a * unat b \<le> U64_MAX then a * b else - 1)"

definition NS_PER_SEC :: nat where "NS_PER_SEC = 1000000000"

definition NO_DEADLINE :: MonoTicks where "NO_DEADLINE = MonoTicks (- 1)"

definition ticks_to_nanos :: "MonoTicks \<Rightarrow> TickFreq \<Rightarrow> Nanos" where
  "ticks_to_nanos ticks freq =
     (if freq_raw freq = 0 then Nanos 0
      else let prod = saturating_mul_u128 (unat (ticks_raw ticks)) NS_PER_SEC;
               ns = prod div unat (freq_raw freq)
           in if ns > U64_MAX then Nanos (- 1) else Nanos (word_of_nat ns))"

definition nanos_to_ticks :: "Nanos \<Rightarrow> TickFreq \<Rightarrow> MonoTicks" where
  "nanos_to_ticks nanos freq =
     (if freq_raw freq = 0 then MonoTicks 0
      else let prod = saturating_mul_u128 (unat (nanos_raw nanos)) (unat (freq_raw freq));
               ticks = (prod + NS_PER_SEC - 1) div NS_PER_SEC
           in if ticks > U64_MAX then MonoTicks (- 1) else MonoTicks (word_of_nat ticks))"

definition deadline_in :: "MonoTicks \<Rightarrow> Nanos \<Rightarrow> TickFreq \<Rightarrow> MonoTicks" where
  "deadline_in self nanos freq =
     (let delta = ticks_raw (nanos_to_ticks nanos freq);
          raw = saturating_add (ticks_raw self) delta
      in if raw = - 1 then MonoTicks (- 1 - 1) else MonoTicks raw)"

definition has_expired :: "MonoTicks \<Rightarrow> MonoTicks \<Rightarrow> bool" where
  "has_expired self now \<longleftrightarrow> (if ticks_raw self = - 1 then False else ticks_raw self \<le> ticks_raw now)"

definition is_no_deadline :: "MonoTicks \<Rightarrow> bool" where
  "is_no_deadline self \<longleftrightarrow> ticks_raw self = - 1"

definition from_nanos :: "u64 \<Rightarrow> Nanos" where "from_nanos n = Nanos n"
definition from_micros :: "u64 \<Rightarrow> Nanos" where "from_micros us = Nanos (saturating_mul_u64 us 1000)"
definition from_millis :: "u64 \<Rightarrow> Nanos" where "from_millis ms = Nanos (saturating_mul_u64 ms 1000000)"
definition from_secs :: "u64 \<Rightarrow> Nanos" where "from_secs s = Nanos (saturating_mul_u64 s 1000000000)"

section \<open>Arithmetic\<close>

lemma u64_bound: "unat (x :: u64) \<le> U64_MAX"
  using unsigned_less [of x, where ?'a = nat] by (simp add: U64_MAX_def)

lemma unat_minus_one_u64: "unat (- 1 :: u64) = U64_MAX"
  by (simp add: U64_MAX_def unsigned_minus_1_eq_mask mask_eq_exp_minus_1)

lemma u64_product_exact:
  "saturating_mul_u128 (unat (a :: u64)) (unat (b :: u64)) = unat a * unat b"
proof -
  have "unat a * unat b \<le> U64_MAX * U64_MAX" using u64_bound by (intro mult_le_mono)
  also have "U64_MAX * U64_MAX \<le> U128_MAX" by (simp add: U64_MAX_def U128_MAX_def)
  finally show ?thesis by (simp add: saturating_mul_u128_def)
qed

lemma ceil_div_bounds:
  fixes a b :: nat
  assumes "0 < b"
  shows "a \<le> (a + b - 1) div b * b" and "(a + b - 1) div b * b < a + b"
proof -
  have m: "(a + b - 1) div b * b + (a + b - 1) mod b = a + b - 1" by (rule div_mult_mod_eq)
  have r: "(a + b - 1) mod b < b" using assms by simp
  show "a \<le> (a + b - 1) div b * b" using m r assms by linarith
  show "(a + b - 1) div b * b < a + b" using m r assms by linarith
qed

lemma nanos_to_ticks_exact:
  assumes "freq_raw freq \<noteq> 0"
    and "unat (nanos_raw nanos) * unat (freq_raw freq) \<le> U64_MAX * NS_PER_SEC"
  shows "unat (ticks_raw (nanos_to_ticks nanos freq)) =
    (unat (nanos_raw nanos) * unat (freq_raw freq) + NS_PER_SEC - 1) div NS_PER_SEC"
proof -
  let ?p = "unat (nanos_raw nanos) * unat (freq_raw freq)"
  have "(?p + NS_PER_SEC - 1) div NS_PER_SEC \<le> (U64_MAX * NS_PER_SEC + NS_PER_SEC - 1) div NS_PER_SEC"
    using assms(2) by (intro div_le_mono) simp
  also have "\<dots> = U64_MAX" by (simp add: NS_PER_SEC_def U64_MAX_def)
  finally have "(?p + NS_PER_SEC - 1) div NS_PER_SEC \<le> U64_MAX" .
  then show ?thesis using assms(1)
    by (simp add: nanos_to_ticks_def u64_product_exact Let_def unat_of_nat U64_MAX_def)
qed

lemma nanos_to_ticks_saturates:
  assumes "freq_raw freq \<noteq> 0"
    and "U64_MAX * NS_PER_SEC < unat (nanos_raw nanos) * unat (freq_raw freq)"
  shows "nanos_to_ticks nanos freq = MonoTicks (- 1)"
proof -
  let ?p = "unat (nanos_raw nanos) * unat (freq_raw freq)"
  have "U64_MAX * NS_PER_SEC < (?p + NS_PER_SEC - 1) div NS_PER_SEC * NS_PER_SEC"
    using assms(2) ceil_div_bounds(1) [of NS_PER_SEC ?p] by (simp add: NS_PER_SEC_def)
  then have "U64_MAX < (?p + NS_PER_SEC - 1) div NS_PER_SEC" by (simp add: NS_PER_SEC_def)
  then show ?thesis using assms(1) by (simp add: nanos_to_ticks_def u64_product_exact Let_def)
qed

lemma deadline_in_raw:
  "unat (ticks_raw (deadline_in self nanos freq)) =
     min (unat (ticks_raw self) + unat (ticks_raw (nanos_to_ticks nanos freq))) (U64_MAX - 1)"
proof -
  let ?a = "ticks_raw self" and ?b = "ticks_raw (nanos_to_ticks nanos freq)"
  have m: "unat (- 1 - 1 :: u64) = U64_MAX - 1"
    by (simp add: U64_MAX_def)
  have e: "unat (saturating_add ?a ?b) = min (unat ?a + unat ?b) U64_MAX"
  proof (cases "unat ?a + unat ?b < 2 ^ 64")
    case True
    then show ?thesis by (simp add: saturating_add_def unat_word_ariths U64_MAX_def)
  next
    case False
    then show ?thesis by (simp add: saturating_add_def unat_minus_one_u64) (simp add: U64_MAX_def)
  qed
  have i: "saturating_add ?a ?b = - 1 \<longleftrightarrow> U64_MAX \<le> unat ?a + unat ?b"
    unfolding word_unat_eq_iff e unat_minus_one_u64 by auto
  show ?thesis
    using e i m by (auto simp: deadline_in_def Let_def min_def)
qed

lemma expires_at:
  "has_expired (deadline_in start nanos freq) now \<longleftrightarrow> U64_MAX - 1 \<le> unat (ticks_raw now) \<or>
     unat (ticks_raw start) + unat (ticks_raw (nanos_to_ticks nanos freq)) \<le> unat (ticks_raw now)"
proof -
  let ?d = "deadline_in start nanos freq"
  have "ticks_raw ?d \<noteq> - 1"
    unfolding word_unat_eq_iff deadline_in_raw unat_minus_one_u64 by (simp add: U64_MAX_def)
  then have "has_expired ?d now \<longleftrightarrow> unat (ticks_raw ?d) \<le> unat (ticks_raw now)"
    by (simp add: has_expired_def word_le_nat_alt)
  then show ?thesis unfolding deadline_in_raw by (auto simp: min_le_iff_disj)
qed

lemma ceil_div_le:
  fixes a b c :: nat
  assumes "0 < b"
  shows "(a + b - 1) div b \<le> c \<longleftrightarrow> a \<le> c * b"
proof
  assume "(a + b - 1) div b \<le> c"
  then show "a \<le> c * b" using ceil_div_bounds(1) [OF assms, of a] mult_le_mono1 order_trans by blast
next
  assume "a \<le> c * b"
  then have "(a + b - 1) div b * b < Suc c * b" using ceil_div_bounds(2) [OF assms, of a] by simp
  then show "(a + b - 1) div b \<le> c" by (metis mult_less_cancel2 less_Suc_eq_le)
qed

lemma delta_reached:
  assumes "unat (ticks_raw now) < U64_MAX - 1"
  shows "unat (ticks_raw start) + unat (ticks_raw (nanos_to_ticks nanos freq)) \<le> unat (ticks_raw now) \<longleftrightarrow>
    unat (ticks_raw start) \<le> unat (ticks_raw now) \<and>
    unat (nanos_raw nanos) * unat (freq_raw freq)
      \<le> (unat (ticks_raw now) - unat (ticks_raw start)) * NS_PER_SEC"
proof (cases "freq_raw freq = 0")
  case True
  then show ?thesis by (simp add: nanos_to_ticks_def)
next
  case f: False
  let ?p = "unat (nanos_raw nanos) * unat (freq_raw freq)" and ?e = "unat (ticks_raw now) - unat (ticks_raw start)"
  show ?thesis
  proof (cases "?p \<le> U64_MAX * NS_PER_SEC")
    case True
    have "unat (ticks_raw (nanos_to_ticks nanos freq)) \<le> ?e \<longleftrightarrow> ?p \<le> ?e * NS_PER_SEC"
      unfolding nanos_to_ticks_exact [OF f True] by (rule ceil_div_le) (simp add: NS_PER_SEC_def)
    then show ?thesis by linarith
  next
    case False
    then have s: "nanos_to_ticks nanos freq = MonoTicks (- 1)" using nanos_to_ticks_saturates [OF f] by simp
    have "?e * NS_PER_SEC \<le> U64_MAX * NS_PER_SEC" using assms by (intro mult_le_mono1) linarith
    with False have "\<not> ?p \<le> ?e * NS_PER_SEC" by linarith
    moreover have "\<not> unat (ticks_raw start) + U64_MAX \<le> unat (ticks_raw now)" using assms by linarith
    ultimately show ?thesis by (simp add: s unat_minus_one_u64)
  qed
qed

section \<open>Properties of deadlines\<close>

text \<open>C35. A deadline fires exactly when it should. Whatever the start, the duration and the
  frequency, a deadline built by \<^verbatim>\<open>deadline_in\<close> is never the \<open>NO_DEADLINE\<close> sentinel, so it is one
  that can expire. At a reading \<open>now\<close> below the last tick before the sentinel, where a deadline too
  far away is clamped, it has expired if and only if the ticks elapsed since the start amount to at
  least the requested nanoseconds at the counter's frequency; from that last tick on, every
  deadline has expired.\<close>

theorem deadline_not_early:
  "\<not> is_no_deadline (deadline_in start nanos freq) \<and> deadline_in start nanos freq \<noteq> NO_DEADLINE \<and>
   (has_expired (deadline_in start nanos freq) now \<longleftrightarrow>
      (if unat (ticks_raw now) < U64_MAX - 1
       then unat (ticks_raw start) \<le> unat (ticks_raw now) \<and>
         unat (nanos_raw nanos) * unat (freq_raw freq)
           \<le> (unat (ticks_raw now) - unat (ticks_raw start)) * NS_PER_SEC
       else True))"
proof -
  let ?d = "deadline_in start nanos freq"
  have "ticks_raw ?d \<noteq> - 1"
    unfolding word_unat_eq_iff deadline_in_raw unat_minus_one_u64 by (simp add: U64_MAX_def)
  then have n: "\<not> is_no_deadline ?d" "?d \<noteq> NO_DEADLINE"
    by (auto simp: is_no_deadline_def NO_DEADLINE_def)
  show ?thesis
  proof (cases "unat (ticks_raw now) < U64_MAX - 1")
    case True
    then show ?thesis using n unfolding expires_at delta_reached [OF True] by simp
  qed (use n in \<open>simp add: expires_at\<close>)
qed

theorem deadline_not_early_witness:
  "has_expired (deadline_in (MonoTicks 100) (Nanos 1401) (TickFreq 10000000)) (MonoTicks 115) \<and>
   \<not> has_expired (deadline_in (MonoTicks 100) (Nanos 1401) (TickFreq 10000000)) (MonoTicks 114) \<and>
   \<not> is_no_deadline (deadline_in (MonoTicks (- 6)) (Nanos 60000000000) (TickFreq 10000000)) \<and>
   \<not> has_expired (deadline_in (MonoTicks (- 6)) (Nanos 60000000000) (TickFreq 10000000)) (MonoTicks (- 3))"
proof -
  have e: "unat (- 3 :: u64) = U64_MAX - 2" "unat (- 6 :: u64) = U64_MAX - 5" by (simp_all add: U64_MAX_def)
  show ?thesis
    using deadline_not_early [of "MonoTicks 100" "Nanos 1401" "TickFreq 10000000" "MonoTicks 115"]
      deadline_not_early [of "MonoTicks 100" "Nanos 1401" "TickFreq 10000000" "MonoTicks 114"]
      deadline_not_early [of "MonoTicks (- 6)" "Nanos 60000000000" "TickFreq 10000000" "MonoTicks (- 3)"]
    unfolding ticks_raw.simps e by (simp add: U64_MAX_def NS_PER_SEC_def)
qed

end
