(* ===== verification/Ticket_Lock.thy ===== *)
theory Ticket_Lock
  imports Lockjaw_Prelude
begin

text \<open>
  The Giant Kernel Lock: the ticket lock of \<^verbatim>\<open>lockjaw-types/src/ticket_lock.rs\<close> that
  \<^verbatim>\<open>src/sched/gkl.rs\<close> wraps. Each atomic access of \<^verbatim>\<open>lock\<close> and \<^verbatim>\<open>unlock\<close> is one step, steps of
  different CPUs interleave freely, and the two counters are 32-bit words that wrap around. The
  lemmas show mutual exclusion, first-come first-served order and progress for any number of CPUs
  below the counters' range.
\<close>

record TicketLock =
  next_ticket :: u32
  now_serving :: u32

definition lock_new :: TicketLock where
  "lock_new = \<lparr>next_ticket = 0, now_serving = 0\<rparr>"

text \<open>\<^verbatim>\<open>fetch_add(1)\<close> on the next ticket returns the old value.\<close>

definition take_ticket :: "TicketLock \<Rightarrow> u32 \<times> TicketLock" where
  "take_ticket l = (next_ticket l, l\<lparr>next_ticket := next_ticket l + 1\<rparr>)"

text \<open>One load of the spin loop: whether the ticket is served.\<close>

definition is_served :: "TicketLock \<Rightarrow> u32 \<Rightarrow> bool" where
  "is_served l ticket \<longleftrightarrow> now_serving l = ticket"

definition unlock :: "TicketLock \<Rightarrow> TicketLock" where
  "unlock l = l\<lparr>now_serving := now_serving l + 1\<rparr>"

definition is_locked :: "TicketLock \<Rightarrow> bool" where
  "is_locked l \<longleftrightarrow> next_ticket l \<noteq> now_serving l"

section \<open>Interleaved execution\<close>

text \<open>Where a CPU stands in \<^verbatim>\<open>lock\<close>: outside, spinning with its ticket, or past the loop.\<close>

datatype phase = Outside | Spinning u32 | Holding u32

record lock_system =
  lock :: TicketLock
  phases :: "nat \<Rightarrow> phase"

text \<open>
  \<open>lock_run n s q\<close>: the system of CPUs below \<open>n\<close> can reach \<open>s\<close>, and \<open>q\<close> lists the CPUs inside
  \<^verbatim>\<open>lock\<close> or holding it, in the order in which they took their tickets.
\<close>

inductive lock_run :: "nat \<Rightarrow> lock_system \<Rightarrow> nat list \<Rightarrow> bool" for n :: nat where
  init: "lock_run n \<lparr>lock = lock_new, phases = (\<lambda>c. Outside)\<rparr> []"
| take: "lock_run n s q \<Longrightarrow> cpu < n \<Longrightarrow> phases s cpu = Outside \<Longrightarrow>
    take_ticket (lock s) = (ticket, l') \<Longrightarrow>
    lock_run n (s\<lparr>lock := l', phases := (phases s)(cpu := Spinning ticket)\<rparr>) (q @ [cpu])"
| spin: "lock_run n s q \<Longrightarrow> phases s cpu = Spinning ticket \<Longrightarrow> \<not> is_served (lock s) ticket \<Longrightarrow>
    lock_run n s q"
| enter: "lock_run n s q \<Longrightarrow> phases s cpu = Spinning ticket \<Longrightarrow> is_served (lock s) ticket \<Longrightarrow>
    lock_run n (s\<lparr>phases := (phases s)(cpu := Holding ticket)\<rparr>) q"
| leave: "lock_run n s q \<Longrightarrow> phases s cpu = Holding ticket \<Longrightarrow>
    lock_run n (s\<lparr>lock := unlock (lock s), phases := (phases s)(cpu := Outside)\<rparr>) (remove1 cpu q)"

text \<open>The tickets of the queued CPUs are consecutive from the one being served, modulo the width.\<close>

definition tickets_ok :: "lock_system \<Rightarrow> nat list \<Rightarrow> bool" where
  "tickets_ok s q \<longleftrightarrow>
     next_ticket (lock s) = now_serving (lock s) + word_of_nat (length q) \<and>
     (\<forall>i < length q. phases s (q ! i) = Spinning (now_serving (lock s) + word_of_nat i) \<or>
        i = 0 \<and> phases s (q ! i) = Holding (now_serving (lock s)))"

definition queue_ok :: "nat \<Rightarrow> lock_system \<Rightarrow> nat list \<Rightarrow> bool" where
  "queue_ok n s q \<longleftrightarrow>
     distinct q \<and> set q \<subseteq> {..<n} \<and> (\<forall>c. phases s c \<noteq> Outside \<longleftrightarrow> c \<in> set q)"

lemma queue_ok_length: "queue_ok n s q \<Longrightarrow> length q \<le> n"
  using distinct_card [of q] card_mono [of "{..<n}" "set q"] by (simp add: queue_ok_def)

lemma word_of_nat_inj_u32:
  assumes "i < 2 ^ 32" and "j < 2 ^ 32" and "(word_of_nat i :: u32) = word_of_nat j"
  shows "i = j"
  using assms by (simp add: word_of_nat_eq_iff take_bit_nat_eq_self)

lemma served_is_head:
  assumes "queue_ok n s q" and "tickets_ok s q" and "n < 2 ^ 32"
    and "phases s cpu = Spinning (now_serving (lock s))"
  shows "q \<noteq> [] \<and> hd q = cpu"
proof -
  have "cpu \<in> set q" using assms(1,4) by (auto simp: queue_ok_def)
  then obtain i where i: "i < length q" "q ! i = cpu" by (auto simp: in_set_conv_nth)
  with assms(2,4) have "(word_of_nat i :: u32) = word_of_nat 0"
    by (auto simp: tickets_ok_def)
  moreover have "i < 2 ^ 32" using i(1) queue_ok_length [OF assms(1)] assms(3) by simp
  ultimately have "i = 0" using word_of_nat_inj_u32 [of i 0] by simp
  with i show ?thesis by (auto simp: hd_conv_nth)
qed

lemma holder_is_head:
  assumes "queue_ok n s q" and "tickets_ok s q" and "phases s cpu = Holding ticket"
  shows "q \<noteq> [] \<and> hd q = cpu \<and> ticket = now_serving (lock s)"
proof -
  have "cpu \<in> set q" using assms(1,3) by (auto simp: queue_ok_def)
  then obtain i where i: "i < length q" "q ! i = cpu" by (auto simp: in_set_conv_nth)
  with assms(2,3) have "i = 0 \<and> ticket = now_serving (lock s)" by (auto simp: tickets_ok_def)
  with i show ?thesis by (auto simp: hd_conv_nth)
qed

lemma tickets_ok_take:
  assumes "queue_ok n s q" and "tickets_ok s q" and "phases s cpu = Outside"
    and "take_ticket (lock s) = (ticket, l')"
  shows "tickets_ok (s\<lparr>lock := l', phases := (phases s)(cpu := Spinning ticket)\<rparr>) (q @ [cpu])"
proof -
  have "cpu \<notin> set q" using assms(1,3) by (auto simp: queue_ok_def)
  then have "i < length q \<Longrightarrow> q ! i \<noteq> cpu" for i using nth_mem by blast
  with assms(2,4) show ?thesis
    by (auto simp: tickets_ok_def take_ticket_def nth_append less_Suc_eq)
qed

lemma tickets_ok_leave:
  assumes "distinct (cpu # q)" and "tickets_ok s (cpu # q)"
  shows "tickets_ok (s\<lparr>lock := unlock (lock s), phases := (phases s)(cpu := Outside)\<rparr>) q"
proof -
  have "phases s (q ! i) = Spinning (now_serving (lock s) + word_of_nat (Suc i)) \<and> q ! i \<noteq> cpu"
    if "i < length q" for i
  proof -
    from assms(2) that have "phases s ((cpu # q) ! Suc i) = Spinning (now_serving (lock s) + word_of_nat (Suc i))"
      unfolding tickets_ok_def by (metis Suc_less_eq length_Cons nat.distinct(1))
    then show ?thesis using assms(1) that by auto
  qed
  with assms(2) show ?thesis by (simp add: tickets_ok_def unlock_def algebra_simps)
qed

lemma lock_run_inv:
  "lock_run n s q \<Longrightarrow> n < 2 ^ 32 \<Longrightarrow> queue_ok n s q \<and> tickets_ok s q"
proof (induction rule: lock_run.induct)
  case init
  then show ?case by (simp add: queue_ok_def tickets_ok_def lock_new_def)
next
  case (take s q cpu ticket l')
  then have "cpu \<notin> set q" by (auto simp: queue_ok_def)
  with take tickets_ok_take [of n s q] show ?case by (auto simp: queue_ok_def)
next
  case (spin s q cpu ticket)
  then show ?case by simp
next
  case (enter s q cpu ticket)
  then have inv: "queue_ok n s q" "tickets_ok s q" by simp_all
  have t: "phases s cpu = Spinning (now_serving (lock s))" "ticket = now_serving (lock s)"
    using enter.hyps by (simp_all add: is_served_def)
  have h: "q \<noteq> []" "q ! 0 = cpu"
    using served_is_head [OF inv enter.prems t(1)] hd_conv_nth [of q] by auto
  have "i < length q \<Longrightarrow> q ! i = cpu \<Longrightarrow> i = 0" for i
    using h inv(1) nth_eq_iff_index_eq [of q i 0] by (auto simp: queue_ok_def)
  then have "i < length q \<Longrightarrow> i \<noteq> 0 \<Longrightarrow> q ! i \<noteq> cpu" for i by blast
  with inv(2) t h have "tickets_ok (s\<lparr>phases := (phases s)(cpu := Holding ticket)\<rparr>) q"
    by (auto simp: tickets_ok_def)
  moreover have "queue_ok n (s\<lparr>phases := (phases s)(cpu := Holding ticket)\<rparr>) q"
    using inv(1) t(1) by (auto simp: queue_ok_def)
  ultimately show ?case by simp
next
  case (leave s q cpu ticket)
  then have inv: "queue_ok n s q" "tickets_ok s q" by simp_all
  from holder_is_head [OF inv leave.hyps(2)] obtain q' where q: "q = cpu # q'" by (cases q) auto
  from inv(1) have "queue_ok n (s\<lparr>lock := unlock (lock s), phases := (phases s)(cpu := Outside)\<rparr>) q'"
    by (auto simp: queue_ok_def q)
  with tickets_ok_leave [of cpu q' s] inv q show ?case by (simp add: queue_ok_def)
qed

section \<open>Properties of the kernel lock\<close>

text \<open>C5. For any number of CPUs below the range of the counters, and across their wrap-around, at most
  one CPU holds the lock; it is the one that took its ticket first among those inside; the lock
  reads as locked exactly while some CPU is inside; and whenever some CPU is inside, the first one
  holds the lock or its next load of \<^verbatim>\<open>now_serving\<close> ends its spin loop.\<close>

theorem ticket_lock_exclusive_fair:
  assumes "lock_run n s q" and "n < 2 ^ 32"
  shows "(\<forall>a t. phases s a = Holding t \<longrightarrow> q \<noteq> [] \<and> hd q = a) \<and>
    (\<forall>a b t u. phases s a = Holding t \<longrightarrow> phases s b = Holding u \<longrightarrow> a = b) \<and>
    (is_locked (lock s) \<longleftrightarrow> q \<noteq> []) \<and>
    (q \<noteq> [] \<longrightarrow> (\<exists>t. phases s (hd q) = Holding t \<or>
       phases s (hd q) = Spinning t \<and> is_served (lock s) t))"
proof -
  note inv = conjunct1 [OF lock_run_inv [OF assms]] conjunct2 [OF lock_run_inv [OF assms]]
  have "length q < 2 ^ 32" using queue_ok_length [OF inv(1)] assms(2) by simp
  then have "(word_of_nat (length q) :: u32) = 0 \<longleftrightarrow> q = []"
    using word_of_nat_inj_u32 [of "length q" 0] by auto
  then have l: "is_locked (lock s) \<longleftrightarrow> q \<noteq> []"
    using inv(2) by (auto simp: is_locked_def tickets_ok_def)
  have p: "q \<noteq> [] \<Longrightarrow> \<exists>t. phases s (hd q) = Holding t \<or>
      phases s (hd q) = Spinning t \<and> is_served (lock s) t"
    using inv(2) by (cases q) (force simp: tickets_ok_def is_served_def)+
  show ?thesis using holder_is_head [OF inv] l p by blast
qed

lemma one_holder_run: "\<exists>s. lock_run 4 s [2] \<and> phases s 2 = Holding 0"
proof -
  let ?s0 = "\<lparr>lock = lock_new, phases = (\<lambda>c. Outside)\<rparr>"
  let ?l = "\<lparr>next_ticket = 1, now_serving = 0\<rparr>"
  let ?s1 = "?s0\<lparr>lock := ?l, phases := (phases ?s0)(2 := Spinning 0)\<rparr>"
  let ?s2 = "?s1\<lparr>phases := (phases ?s1)(2 := Holding 0)\<rparr>"
  have "lock_run 4 ?s1 ([] @ [2])"
    by (rule lock_run.take [OF lock_run.init]) (simp_all add: take_ticket_def lock_new_def)
  then have "lock_run 4 ?s2 ([] @ [2])"
    by (rule lock_run.enter) (simp_all add: is_served_def)
  moreover have "phases ?s2 2 = Holding 0" by simp
  ultimately show ?thesis unfolding append_Nil by blast
qed

theorem ticket_lock_exclusive_fair_witness:
  "\<exists>s. lock_run 4 s [2] \<and> phases s 2 = Holding 0 \<and> is_locked (lock s) \<and>
     (\<forall>b u. phases s b = Holding u \<longrightarrow> b = 2)"
proof -
  obtain s where s: "lock_run 4 s [2]" "phases s 2 = Holding 0" using one_holder_run by blast
  have "(4::nat) < 2 ^ 32" by simp
  from ticket_lock_exclusive_fair [OF s(1) this] s show ?thesis by blast
qed

end
