(* ===== verification/Handles.thy ===== *)
theory Handles
  imports Addr
begin

text \<open>
  Capabilities: the rights of \<^verbatim>\<open>lockjaw-types/src/rights.rs\<close>, the object kinds, handle entries and
  close decisions of \<^verbatim>\<open>lockjaw-types/src/object.rs\<close>, and the handle-table operations of
  \<^verbatim>\<open>lockjaw-types/src/handle_ops.rs\<close> on a slice of entries. The table provides the slot-table
  interface; the revocation walks are shown to see the same slots in both phases and to leave no
  handle to the revoked PageSet.
\<close>

section \<open>Rights\<close>

datatype Rights = Rights (rights_bits: u8)

definition RIGHT_READ :: u8 where "RIGHT_READ = push_bit 0 1"
definition RIGHT_WRITE :: u8 where "RIGHT_WRITE = push_bit 1 1"
definition RIGHT_GRANT :: u8 where "RIGHT_GRANT = push_bit 2 1"

definition rights_none :: Rights where "rights_none = Rights 0"

definition rights_contains :: "Rights \<Rightarrow> Rights \<Rightarrow> bool" where
  "rights_contains self required \<longleftrightarrow> rights_bits required AND NOT (rights_bits self) = 0"

section \<open>Object kinds\<close>

datatype ObjectType =
  OtHandleTable | OtThreadControlBlock | OtEndpoint | OtNotification | OtReply | OtProcess | OtPageSet

datatype HandleKind =
    Empty
  | HandleTable KernelVa
  | ThreadControlBlock PhysAddr
  | Endpoint KernelVa "u64 option"
  | Notification KernelVa
  | Reply KernelVa
  | Process KernelVa
  | PageSet KernelVa u32

fun is_pageset :: "HandleKind \<Rightarrow> bool" where
  "is_pageset (PageSet kva mapped_va_page) = True"
| "is_pageset _ = False"

fun obj_type :: "HandleKind \<Rightarrow> ObjectType" where
  "obj_type Empty = OtHandleTable"
| "obj_type (HandleTable kva) = OtHandleTable"
| "obj_type (ThreadControlBlock paddr) = OtThreadControlBlock"
| "obj_type (Endpoint kva caller_token) = OtEndpoint"
| "obj_type (Notification kva) = OtNotification"
| "obj_type (Reply kva) = OtReply"
| "obj_type (Process kva) = OtProcess"
| "obj_type (PageSet kva mapped_va_page) = OtPageSet"

record HandleEntry =
  entry_rights :: Rights
  entry_kind :: HandleKind

definition EMPTY :: HandleEntry where
  "EMPTY = \<lparr>entry_rights = rights_none, entry_kind = Empty\<rparr>"

section \<open>Close and teardown decisions\<close>

datatype CloseHandleResult =
    RemoveOnly
  | RemoveAndDecRef KernelVa
  | UnmapThenRemove KernelVa u32
  | CloseInvalidHandle

definition decide_close_handle :: "HandleEntry option \<Rightarrow> CloseHandleResult" where
  "decide_close_handle entry =
     (case entry of
        None \<Rightarrow> CloseInvalidHandle
      | Some e \<Rightarrow>
          (case entry_kind e of
             Empty \<Rightarrow> CloseInvalidHandle
           | PageSet kva mapped_va_page \<Rightarrow>
               (if mapped_va_page \<noteq> 0 then UnmapThenRemove kva mapped_va_page
                else RemoveAndDecRef kva)
           | _ \<Rightarrow> RemoveOnly))"

datatype TeardownHandleAction = DecRef KernelVa | Skip

definition decide_teardown_handle :: "HandleEntry \<Rightarrow> TeardownHandleAction outcome" where
  "decide_teardown_handle e =
     (case entry_kind e of
        Empty \<Rightarrow> Return Skip
      | PageSet kva mapped_va_page \<Rightarrow> assert_then (mapped_va_page = 0) (Return (DecRef kva))
      | _ \<Rightarrow> Return Skip)"

subsection \<open>Sizes\<close>

text \<open>\<^verbatim>\<open>HandleTableHeader\<close> is 16 bytes (type, page count, reference count, slot count) and
  \<^verbatim>\<open>HandleEntry\<close> 32 bytes, which the source asserts. The sum may overflow \<^verbatim>\<open>usize\<close>.\<close>

definition handle_table_header_size :: nat where "handle_table_header_size = 16"
definition handle_entry_size :: nat where "handle_entry_size = 32"

definition HANDLE_SLOTS_PER_PAGE :: nat where
  "HANDLE_SLOTS_PER_PAGE = (unat PAGE_SIZE - handle_table_header_size) div handle_entry_size"

definition query_handle_table_size :: "u64 \<Rightarrow> nat outcome" where
  "query_handle_table_size slot_count =
     (let total_bytes = handle_table_header_size + handle_entry_size * unat slot_count in
      assert_then (total_bytes + unat PAGE_SIZE < 2 ^ 64)
        (Return ((total_bytes + unat PAGE_SIZE - 1) div unat PAGE_SIZE)))"

section \<open>Slot operations\<close>

datatype HandleError = TableFull | InvalidHandle | InsufficientRights

definition find_empty_slot :: "HandleEntry list \<Rightarrow> nat option" where
  "find_empty_slot slots = position (\<lambda>s. entry_kind s = Empty) slots"

definition slot_lookup :: "HandleEntry list \<Rightarrow> u32 \<Rightarrow> Rights \<Rightarrow> (HandleEntry, HandleError) result" where
  "slot_lookup slots index required =
     (case slice_get slots (unat index) of
        None \<Rightarrow> Err InvalidHandle
      | Some slot \<Rightarrow>
          if entry_kind slot = Empty then Err InvalidHandle
          else if \<not> rights_contains (entry_rights slot) required then Err InsufficientRights
          else Ok slot)"

definition clear_mapping :: "HandleKind \<Rightarrow> HandleKind" where
  "clear_mapping k = (case k of PageSet kva _ \<Rightarrow> PageSet kva 0 | other \<Rightarrow> other)"

definition slot_insert ::
  "HandleEntry list \<Rightarrow> Rights \<Rightarrow> HandleKind \<Rightarrow> (u32, HandleError) result \<times> HandleEntry list" where
  "slot_insert slots rights k =
     (if k = Empty then (Err InvalidHandle, slots)
      else case find_empty_slot slots of
             None \<Rightarrow> (Err TableFull, slots)
           | Some idx \<Rightarrow>
               (Ok (word_of_nat idx),
                slots[idx := \<lparr>entry_rights = rights, entry_kind = clear_mapping k\<rparr>]))"

definition slot_remove ::
  "HandleEntry list \<Rightarrow> u32 \<Rightarrow> (HandleEntry, HandleError) result \<times> HandleEntry list" where
  "slot_remove slots index =
     (case slice_get slots (unat index) of
        None \<Rightarrow> (Err InvalidHandle, slots)
      | Some slot \<Rightarrow>
          if entry_kind slot = Empty then (Err InvalidHandle, slots)
          else (Ok slot, slots[unat index := EMPTY]))"

definition slot_get_mapped_va :: "HandleEntry list \<Rightarrow> u32 \<Rightarrow> (u32, HandleError) result" where
  "slot_get_mapped_va slots index =
     (case slice_get slots (unat index) of
        None \<Rightarrow> Err InvalidHandle
      | Some slot \<Rightarrow>
          (case entry_kind slot of
             PageSet kva mapped_va_page \<Rightarrow> Ok mapped_va_page
           | _ \<Rightarrow> Err InvalidHandle))"

definition slot_set_mapped_va ::
  "HandleEntry list \<Rightarrow> u32 \<Rightarrow> u32 \<Rightarrow> (unit, HandleError) result \<times> HandleEntry list" where
  "slot_set_mapped_va slots index va_page =
     (case slice_get slots (unat index) of
        None \<Rightarrow> (Err InvalidHandle, slots)
      | Some slot \<Rightarrow>
          (case entry_kind slot of
             PageSet kva _ \<Rightarrow>
               (Ok (), slots[unat index := slot\<lparr>entry_kind := PageSet kva va_page\<rparr>])
           | _ \<Rightarrow> (Err InvalidHandle, slots)))"

section \<open>Revocation walks\<close>

record SlotRevokeAction =
  had_mapping :: bool
  action_va_page :: u32
  action_kind :: HandleKind

definition revoke_action :: "KernelVa \<Rightarrow> HandleEntry \<Rightarrow> SlotRevokeAction option" where
  "revoke_action target slot =
     (case entry_kind slot of
        PageSet kva mapped_va_page \<Rightarrow>
          (if kva \<noteq> target then None
           else Some \<lparr>had_mapping = mapped_va_page \<noteq> 0, action_va_page = mapped_va_page,
                     action_kind = entry_kind slot\<rparr>)
      | _ \<Rightarrow> None)"

text \<open>The callback \<^verbatim>\<open>on_action: FnMut\<close> is a function on the caller's captured state.\<close>

fun slot_revoke_validate ::
  "HandleEntry list \<Rightarrow> KernelVa \<Rightarrow> (SlotRevokeAction \<Rightarrow> 's \<Rightarrow> 's) \<Rightarrow> 's \<Rightarrow> nat \<times> 's" where
  "slot_revoke_validate [] target on_action st = (0, st)"
| "slot_revoke_validate (slot # slots) target on_action st =
     (case revoke_action target slot of
        None \<Rightarrow> slot_revoke_validate slots target on_action st
      | Some action \<Rightarrow>
          (let (n, st') = slot_revoke_validate slots target on_action (on_action action st)
           in (n + 1, st')))"

fun slot_revoke_apply ::
  "HandleEntry list \<Rightarrow> KernelVa \<Rightarrow> (SlotRevokeAction \<Rightarrow> 's \<Rightarrow> 's) \<Rightarrow> 's \<Rightarrow>
     nat \<times> HandleEntry list \<times> 's" where
  "slot_revoke_apply [] target on_action st = (0, [], st)"
| "slot_revoke_apply (slot # slots) target on_action st =
     (case revoke_action target slot of
        None \<Rightarrow>
          (let (n, slots', st') = slot_revoke_apply slots target on_action st
           in (n, slot # slots', st'))
      | Some action \<Rightarrow>
          (let (n, slots', st') = slot_revoke_apply slots target on_action (on_action action st)
           in (n + 1, EMPTY # slots', st')))"

section \<open>The table as a slot table\<close>

text \<open>
  Handles are 32-bit indices, so a table of more than \<open>2 ^ 32\<close> slots could not be addressed; the
  kernel's tables fit in one page.
\<close>

definition handle_find :: "HandleEntry list \<Rightarrow> nat \<Rightarrow> HandleEntry option" where
  "handle_find slots i =
     (case slice_get slots i of
        Some e \<Rightarrow> if entry_kind e = Empty then None else Some e
      | None \<Rightarrow> None)"

definition handle_insert :: "HandleEntry \<Rightarrow> HandleEntry list \<Rightarrow> (nat \<times> HandleEntry list) option" where
  "handle_insert e slots =
     (if length slots \<le> 2 ^ 32
      then case slot_insert slots (entry_rights e) (entry_kind e) of
             (Ok idx, slots') \<Rightarrow> Some (unat idx, slots')
           | (Err _, _) \<Rightarrow> None
      else None)"

definition handle_remove :: "nat \<Rightarrow> HandleEntry list \<Rightarrow> (HandleEntry \<times> HandleEntry list) option" where
  "handle_remove i slots =
     (if i < 2 ^ 32
      then case slot_remove slots (word_of_nat i) of
             (Ok e, slots') \<Rightarrow> Some (e, slots')
           | (Err _, _) \<Rightarrow> None
      else None)"

definition stored_entry :: "HandleEntry \<Rightarrow> HandleEntry" where
  "stored_entry e = \<lparr>entry_rights = entry_rights e, entry_kind = clear_mapping (entry_kind e)\<rparr>"

lemma clear_mapping_Empty [simp]: "clear_mapping k = Empty \<longleftrightarrow> k = Empty"
  by (cases k) (simp_all add: clear_mapping_def)

lemma find_empty_slot_Some_iff:
  "find_empty_slot slots = Some i \<longleftrightarrow>
     i < length slots \<and> entry_kind (slots ! i) = Empty \<and> (\<forall>j < i. entry_kind (slots ! j) \<noteq> Empty)"
  by (simp add: find_empty_slot_def position_Some_iff)

lemma unat_word_of_nat_u32: "i < 2 ^ 32 \<Longrightarrow> unat (word_of_nat i :: u32) = i"
  by (simp add: unat_of_nat)

lemma slot_insert_Ok:
  assumes "slot_insert slots rights k = (Ok idx, slots')" and "length slots \<le> 2 ^ 32"
  shows "k \<noteq> Empty \<and> find_empty_slot slots = Some (unat idx) \<and>
    slots' = slots[unat idx := \<lparr>entry_rights = rights, entry_kind = clear_mapping k\<rparr>]"
proof -
  from assms(1) obtain i where i: "k \<noteq> Empty" "find_empty_slot slots = Some i" "idx = word_of_nat i"
    "slots' = slots[i := \<lparr>entry_rights = rights, entry_kind = clear_mapping k\<rparr>]"
    by (auto simp: slot_insert_def split: if_splits option.splits)
  then have "i < 2 ^ 32" using assms(2) by (simp add: find_empty_slot_Some_iff)
  with i show ?thesis by (simp add: unat_word_of_nat_u32)
qed

lemma handle_insert_Some:
  assumes "handle_insert e slots = Some (i, slots')"
  shows "entry_kind e \<noteq> Empty \<and> find_empty_slot slots = Some i \<and> i < 2 ^ 32 \<and>
    slots' = slots[i := stored_entry e]"
proof -
  from assms obtain idx where l: "length slots \<le> 2 ^ 32" and i: "i = unat idx"
    and ins: "slot_insert slots (entry_rights e) (entry_kind e) = (Ok idx, slots')"
    by (auto simp: handle_insert_def split: if_splits prod.splits result.splits)
  from slot_insert_Ok [OF ins l] i unsigned_less [of idx, where ?'a = nat] show ?thesis
    by (simp add: stored_entry_def)
qed

lemma handle_remove_Some_iff:
  "handle_remove i slots = Some (e, slots') \<longleftrightarrow>
     i < 2 ^ 32 \<and> i < length slots \<and> entry_kind e \<noteq> Empty \<and> slots ! i = e \<and> slots' = slots[i := EMPTY]"
  by (auto simp: handle_remove_def slot_remove_def slice_get_def unat_word_of_nat_u32)

lemma handle_find_Some_iff:
  "handle_find slots i = Some e \<longleftrightarrow> i < length slots \<and> slots ! i = e \<and> entry_kind e \<noteq> Empty"
  by (auto simp: handle_find_def slice_get_def)

lemma handle_find_update:
  "i < length slots \<Longrightarrow>
     handle_find (slots[i := e]) j =
       (if j = i then (if entry_kind e = Empty then None else Some e) else handle_find slots j)"
  by (simp add: handle_find_def slice_get_def)

lemma handle_find_None_iff:
  "i < length slots \<Longrightarrow> handle_find slots i = None \<longleftrightarrow> entry_kind (slots ! i) = Empty"
  by (simp add: handle_find_def slice_get_def)

interpretation handles: slot_table handle_find handle_insert handle_remove stored_entry
  "\<lambda>i. 2 ^ 32 \<le> i"
proof
  fix e slots i slots' j
  assume ins: "handle_insert e slots = Some (i, slots')"
  note s = handle_insert_Some [OF ins]
  from s show "handle_find slots i = None \<and> \<not> 2 ^ 32 \<le> i"
    by (simp add: find_empty_slot_Some_iff handle_find_def slice_get_def)
  from s show "handle_find slots' j = (if j = i then Some (stored_entry e) else handle_find slots j)"
    by (simp add: find_empty_slot_Some_iff handle_find_update) (simp add: stored_entry_def)
  show "j < i \<Longrightarrow> 2 ^ 32 \<le> j \<or> handle_find slots j \<noteq> None"
    using s by (simp add: find_empty_slot_Some_iff handle_find_None_iff)
next
  fix i slots e slots' j
  assume "handle_remove i slots = Some (e, slots')"
  then show "handle_find slots i = Some e \<and>
      handle_find slots' j = (if j = i then None else handle_find slots j)"
    by (simp add: handle_remove_Some_iff handle_find_update handle_find_Some_iff) (simp add: EMPTY_def)
next
  fix i slots e slots'
  assume "handle_remove i slots = Some (e, slots')"
  then show "\<not> 2 ^ 32 \<le> i" by (simp add: handle_remove_Some_iff)
next
  fix slots i e
  assume "handle_find slots i = Some e" and "\<not> (2 ^ 32 \<le> i)"
  then show "\<exists>slots'. handle_remove i slots = Some (e, slots')"
    by (simp add: handle_remove_Some_iff handle_find_Some_iff)
qed

section \<open>The two revocation phases\<close>

abbreviation names_pageset :: "KernelVa \<Rightarrow> HandleEntry \<Rightarrow> bool" where
  "names_pageset target e \<equiv> revoke_action target e \<noteq> None"

lemma names_pageset_iff: "names_pageset target e \<longleftrightarrow> (\<exists>page. entry_kind e = PageSet target page)"
  by (auto simp: revoke_action_def split: HandleKind.splits)

definition revoke_actions :: "KernelVa \<Rightarrow> HandleEntry list \<Rightarrow> SlotRevokeAction list" where
  "revoke_actions target slots = List.map_filter (revoke_action target) slots"

lemma revoke_validate_fold:
  "slot_revoke_validate slots target on_action st =
     (length (revoke_actions target slots), fold on_action (revoke_actions target slots) st)"
  by (induction slots target on_action st rule: slot_revoke_validate.induct)
    (auto simp: revoke_actions_def List.map_filter_simps split: option.splits)

lemma revoke_apply_fold:
  "slot_revoke_apply slots target on_action st =
     (length (revoke_actions target slots),
      map (\<lambda>e. if names_pageset target e then EMPTY else e) slots,
      fold on_action (revoke_actions target slots) st)"
  by (induction slots target on_action st rule: slot_revoke_apply.induct)
    (auto simp: revoke_actions_def List.map_filter_simps split: option.splits)

lemma rights_contains_iff: "rights_contains self required \<longleftrightarrow> (\<forall>n. bit (rights_bits required) n \<longrightarrow> bit (rights_bits self) n)"
proof -
  have "rights_bits required AND NOT (rights_bits self) = 0 \<longleftrightarrow>
      (\<forall>n. \<not> bit (rights_bits required AND NOT (rights_bits self)) n)"
    by (auto intro!: bit_eqI)
  also have "\<dots> \<longleftrightarrow> (\<forall>n. bit (rights_bits required) n \<longrightarrow> bit (rights_bits self) n)"
    using bit_imp_le_length [of "rights_bits required"] by (auto simp: bit_and_iff bit_not_iff)
  finally show ?thesis by (simp add: rights_contains_def)
qed

section \<open>Properties of the handle table\<close>

text \<open>C18. A lookup yields a capability only to those who may have it: it succeeds exactly when the
  index names an occupied slot whose rights include every required right, it then returns that
  very slot, and lack of rights is the only reason for \<^verbatim>\<open>InsufficientRights\<close>.\<close>

theorem slot_lookup_authorised:
  "(slot_lookup slots index required = Ok e \<longleftrightarrow>
      handle_find slots (unat index) = Some e \<and>
      (\<forall>n. bit (rights_bits required) n \<longrightarrow> bit (rights_bits (entry_rights e)) n)) \<and>
   (slot_lookup slots index required = Err InsufficientRights \<longleftrightarrow>
      (\<exists>e. handle_find slots (unat index) = Some e \<and>
        \<not> (\<forall>n. bit (rights_bits required) n \<longrightarrow> bit (rights_bits (entry_rights e)) n)))"
  by (auto simp: slot_lookup_def handle_find_def rights_contains_iff split: option.splits if_splits)

theorem slot_lookup_authorised_witness:
  "slot_lookup [\<lparr>entry_rights = Rights 3, entry_kind = Reply (KernelVa 4096)\<rparr>] 0 (Rights 1) =
     Ok \<lparr>entry_rights = Rights 3, entry_kind = Reply (KernelVa 4096)\<rparr> \<and>
   slot_lookup [\<lparr>entry_rights = Rights 3, entry_kind = Reply (KernelVa 4096)\<rparr>] 0 (Rights 4) =
     Err InsufficientRights"
proof -
  let ?e = "\<lparr>entry_rights = Rights 3, entry_kind = Reply (KernelVa 4096)\<rparr>"
  have find: "handle_find [?e] (unat (0::u32)) = Some ?e" by (simp add: handle_find_def slice_get_def)
  have sub: "\<forall>n. bit (1::u8) n \<longrightarrow> bit (3::u8) n" by (simp add: bit_1_iff)
  have "bit (4::u8) 2" "\<not> bit (3::u8) 2" by simp_all
  then have "\<not> (\<forall>n. bit (4::u8) n \<longrightarrow> bit (3::u8) n)" by blast
  with find sub slot_lookup_authorised [of "[?e]" 0 "Rights 1" ?e]
    slot_lookup_authorised [of "[?e]" 0 "Rights 4" ?e] show ?thesis by auto
qed

text \<open>C32. An inserted handle is found again and no other handle is disturbed: after an insertion the
  returned index was free, looks up with exactly the inserted rights and kind but with no mapping
  inherited from the source handle, every other slot is as before, removing it gives the entry back
  and restores the table, and removing it twice is rejected.\<close>

theorem handle_insert_remove:
  assumes "slot_insert slots rights k = (Ok idx, slots')" and "length slots \<le> 2 ^ 32"
  shows "handle_find slots (unat idx) = None \<and>
    slot_lookup slots' idx rights = Ok \<lparr>entry_rights = rights, entry_kind = clear_mapping k\<rparr> \<and>
    (is_pageset k \<longrightarrow> slot_get_mapped_va slots' idx = Ok 0) \<and>
    (\<forall>j. j \<noteq> unat idx \<longrightarrow> handle_find slots' j = handle_find slots j) \<and>
    (\<exists>slots''. slot_remove slots' idx =
        (Ok \<lparr>entry_rights = rights, entry_kind = clear_mapping k\<rparr>, slots'') \<and>
      handle_find slots'' = handle_find slots \<and>
      fst (slot_remove slots'' idx) = Err InvalidHandle)"
proof -
  let ?e = "\<lparr>entry_rights = rights, entry_kind = k\<rparr>"
  note ok = slot_insert_Ok [OF assms]
  have ins: "handle_insert ?e slots = Some (unat idx, slots')"
    using assms by (simp add: handle_insert_def)
  obtain slots'' where rem: "handle_remove (unat idx) slots' = Some (stored_entry ?e, slots'')"
    and same: "handle_find slots'' = handle_find slots"
    using handles.insert_then_remove [OF ins] by blast
  have idx: "word_of_nat (unat idx) = idx" "unat idx < 2 ^ 32"
    using unsigned_less [of idx, where ?'a = nat] by simp_all
  have "slot_remove slots' idx = (Ok (stored_entry ?e), slots'')"
    using rem idx by (auto simp: handle_remove_def split: prod.splits result.splits if_splits)
  moreover have "fst (slot_remove slots'' idx) = Err InvalidHandle"
    using handles.remove_twice [OF rem] idx
    by (auto simp: handle_remove_def slot_remove_def split: prod.splits result.splits option.splits if_splits)
  moreover have "slot_lookup slots' idx rights = Ok (stored_entry ?e)"
    using ok by (simp add: slot_lookup_def slice_get_def find_empty_slot_Some_iff stored_entry_def
        rights_contains_iff)
  moreover have "is_pageset k \<Longrightarrow> slot_get_mapped_va slots' idx = Ok 0"
    using ok by (cases k) (simp_all add: slot_get_mapped_va_def slice_get_def find_empty_slot_Some_iff
        clear_mapping_def)
  ultimately show ?thesis
    using same handles.insert_fresh [OF ins] handles.insert_find [OF ins] by (simp add: stored_entry_def)
qed

theorem handle_insert_remove_witness:
  "slot_get_mapped_va (snd (slot_insert [EMPTY] (Rights 7) (PageSet (KernelVa 4096) 9))) 0 = Ok 0 \<and>
   handle_find [EMPTY] 0 = None"
proof -
  let ?ins = "slot_insert [EMPTY] (Rights 7) (PageSet (KernelVa 4096) 9)"
  have "?ins = (Ok 0, snd ?ins)"
    by (simp add: slot_insert_def find_empty_slot_def EMPTY_def)
  from handle_insert_remove [OF this] show ?thesis by simp
qed

text \<open>C24. Revocation is complete and exact: the read-only phase and the write phase report the same
  actions in the same order with the same count, namely one per slot that names the PageSet;
  afterwards no slot names it and every slot that did not is untouched.\<close>

theorem revoke_complete:
  assumes "slot_revoke_apply slots target on_action st = (n, slots', st')"
  shows "slot_revoke_validate slots target on_action st = (n, st') \<and>
    n = length (filter (\<lambda>e. \<exists>page. entry_kind e = PageSet target page) slots) \<and>
    length slots' = length slots \<and>
    (\<forall>e \<in> set slots'. \<forall>page. entry_kind e \<noteq> PageSet target page) \<and>
    (\<forall>i < length slots. (\<forall>page. entry_kind (slots ! i) \<noteq> PageSet target page) \<longrightarrow> slots' ! i = slots ! i)"
proof -
  have n: "length (revoke_actions target slots) = length (filter (\<lambda>e. \<exists>page. entry_kind e = PageSet target page) slots)"
    unfolding names_pageset_iff [symmetric] by (simp add: revoke_actions_def List.map_filter_def comp_def)
  have e: "\<exists>page. entry_kind (slots ! i) = PageSet target page"
    if "names_pageset target (slots ! i)" for i using that names_pageset_iff by blast
  show ?thesis
    using assms n e unfolding revoke_apply_fold revoke_validate_fold names_pageset_iff
    by (auto simp: EMPTY_def)
qed

theorem revoke_complete_witness:
  "\<exists>n slots' st'.
     slot_revoke_apply
       [\<lparr>entry_rights = Rights 3, entry_kind = PageSet (KernelVa 4096) 5\<rparr>, EMPTY,
        \<lparr>entry_rights = Rights 1, entry_kind = PageSet (KernelVa 8192) 0\<rparr>]
       (KernelVa 4096) (#) [] = (n, slots', st') \<and>
     n = 1 \<and> (\<forall>e \<in> set slots'. \<forall>page. entry_kind e \<noteq> PageSet (KernelVa 4096) page)"
proof -
  let ?slots = "[\<lparr>entry_rights = Rights 3, entry_kind = PageSet (KernelVa 4096) 5\<rparr>, EMPTY,
        \<lparr>entry_rights = Rights 1, entry_kind = PageSet (KernelVa 8192) 0\<rparr>]"
  obtain n slots' st' where a: "slot_revoke_apply ?slots (KernelVa 4096) (#) [] = (n, slots', st')"
    using prod_cases3 by blast
  from revoke_complete [OF a] have "n = 1"
    "\<forall>e \<in> set slots'. \<forall>page. entry_kind e \<noteq> PageSet (KernelVa 4096) page"
    by (simp_all add: EMPTY_def)
  with a show ?thesis by blast
qed

end
