(* ===== verification/Buddy.thy ===== *)
theory Buddy
  imports Lockjaw_Prelude
begin

text \<open>
  The physical page allocator: the buddy allocator of \<^verbatim>\<open>lockjaw-types/src/buddy.rs\<close> with its
  byte bitmaps, and below it the abstract allocator, a set of free pages and a set of allocated
  pages. Array accesses out of range, counter underflow and the \<^verbatim>\<open>assert!\<close>s are panics. The
  lemmas relate every operation to the abstract allocator: the free blocks partition the free
  pages, allocation hands out an aligned block of free pages whenever one exists, freeing gives
  exactly the block back, a double free panics.
\<close>

definition MAX_PAGES :: nat where "MAX_PAGES = 262144"
definition MAX_ORDER :: nat where "MAX_ORDER = 18"

definition bitmap_bytes_for_order :: "nat \<Rightarrow> nat" where
  "bitmap_bytes_for_order order = (drop_bit order MAX_PAGES + 7) div 8"

fun bitmap_offset :: "nat \<Rightarrow> nat" where
  "bitmap_offset 0 = 0"
| "bitmap_offset (Suc k) = bitmap_offset k + bitmap_bytes_for_order k"

definition BITMAP_TOTAL :: nat where "BITMAP_TOTAL = bitmap_offset (MAX_ORDER + 1)"

definition ALLOC_BITMAP_SIZE :: nat where "ALLOC_BITMAP_SIZE = (MAX_PAGES + 7) div 8"

text \<open>The two byte arrays are functions on indices; every access checks the array's size.\<close>

record BuddyAllocator =
  bitmap :: "nat \<Rightarrow> u8"
  allocated :: "nat \<Rightarrow> u8"
  total_pages :: nat
  free_count :: nat

definition buddy_new :: BuddyAllocator where
  "buddy_new = \<lparr>bitmap = (\<lambda>i. 0), allocated = (\<lambda>i. 0), total_pages = 0, free_count = 0\<rparr>"

definition buddy_init :: "nat \<Rightarrow> BuddyAllocator \<Rightarrow> BuddyAllocator outcome" where
  "buddy_init pages b =
     assert_then (pages \<le> MAX_PAGES)
       (Return \<lparr>bitmap = (\<lambda>i. 0), allocated = (\<lambda>i. 0), total_pages = pages, free_count = 0\<rparr>)"

section \<open>Bitmap helpers\<close>

definition is_allocated :: "BuddyAllocator \<Rightarrow> nat \<Rightarrow> bool outcome" where
  "is_allocated b page =
     assert_then (page div 8 < ALLOC_BITMAP_SIZE)
       (Return (allocated b (page div 8) AND push_bit (page mod 8) 1 \<noteq> 0))"

definition set_allocated :: "nat \<Rightarrow> BuddyAllocator \<Rightarrow> BuddyAllocator outcome" where
  "set_allocated page b =
     assert_then (page div 8 < ALLOC_BITMAP_SIZE)
       (Return (b\<lparr>allocated := (allocated b)
          (page div 8 := allocated b (page div 8) OR push_bit (page mod 8) 1)\<rparr>))"

definition clear_allocated :: "nat \<Rightarrow> BuddyAllocator \<Rightarrow> BuddyAllocator outcome" where
  "clear_allocated page b =
     assert_then (page div 8 < ALLOC_BITMAP_SIZE)
       (Return (b\<lparr>allocated := (allocated b)
          (page div 8 := allocated b (page div 8) AND NOT (push_bit (page mod 8) 1))\<rparr>))"

definition is_free :: "BuddyAllocator \<Rightarrow> nat \<Rightarrow> nat \<Rightarrow> bool outcome" where
  "is_free b order block_idx =
     (let offset = bitmap_offset order + block_idx div 8 in
      assert_then (offset < BITMAP_TOTAL)
        (Return (bitmap b offset AND push_bit (block_idx mod 8) 1 \<noteq> 0)))"

definition set_bit :: "nat \<Rightarrow> nat \<Rightarrow> BuddyAllocator \<Rightarrow> BuddyAllocator outcome" where
  "set_bit order block_idx b =
     (let offset = bitmap_offset order + block_idx div 8 in
      assert_then (offset < BITMAP_TOTAL)
        (Return (b\<lparr>bitmap := (bitmap b)
           (offset := bitmap b offset OR push_bit (block_idx mod 8) 1)\<rparr>)))"

definition clear_bit :: "nat \<Rightarrow> nat \<Rightarrow> BuddyAllocator \<Rightarrow> BuddyAllocator outcome" where
  "clear_bit order block_idx b =
     (let offset = bitmap_offset order + block_idx div 8 in
      assert_then (offset < BITMAP_TOTAL)
        (Return (b\<lparr>bitmap := (bitmap b)
           (offset := bitmap b offset AND NOT (push_bit (block_idx mod 8) 1))\<rparr>)))"

definition trailing_zeros :: "u8 \<Rightarrow> nat" where
  "trailing_zeros w = (case position (\<lambda>n. bit w n) [0..<8] of Some n \<Rightarrow> n | None \<Rightarrow> 8)"

text \<open>The scan of \<^verbatim>\<open>find_free\<close> over the byte indices, then the partial last byte.\<close>

fun scan_bytes :: "BuddyAllocator \<Rightarrow> nat \<Rightarrow> nat list \<Rightarrow> nat option outcome" where
  "scan_bytes b base [] = Return None"
| "scan_bytes b base (byte_idx # rest) =
     assert_then (base + byte_idx < BITMAP_TOTAL)
       (if bitmap b (base + byte_idx) \<noteq> 0
        then Return (Some (byte_idx * 8 + trailing_zeros (bitmap b (base + byte_idx))))
        else scan_bytes b base rest)"

definition find_free :: "BuddyAllocator \<Rightarrow> nat \<Rightarrow> nat \<Rightarrow> nat option outcome" where
  "find_free b order max_blocks =
     (let base = bitmap_offset order;
          full_bytes = max_blocks div 8;
          remainder_bits = max_blocks mod 8
      in bind_outcome (scan_bytes b base [0..<full_bytes]) (\<lambda>r.
           case r of
             Some i \<Rightarrow> Return (Some i)
           | None \<Rightarrow>
               if 0 < remainder_bits
               then assert_then (base + full_bytes < BITMAP_TOTAL)
                 (let masked = bitmap b (base + full_bytes) AND (push_bit remainder_bits 1 - 1)
                  in if masked \<noteq> 0 then Return (Some (full_bytes * 8 + trailing_zeros masked))
                     else Return None)
               else Return None))"

section \<open>Allocation\<close>

text \<open>\<^verbatim>\<open>self.free_count -= n\<close>, which panics when it would underflow.\<close>

definition sub_free_count :: "nat \<Rightarrow> BuddyAllocator \<Rightarrow> BuddyAllocator outcome" where
  "sub_free_count n b = assert_then (n \<le> free_count b) (Return (b\<lparr>free_count := free_count b - n\<rparr>))"

definition add_free_count :: "nat \<Rightarrow> BuddyAllocator \<Rightarrow> BuddyAllocator" where
  "add_free_count n b = b\<lparr>free_count := free_count b + n\<rparr>"

text \<open>The upward search: the first order with a free block, which is taken off its bitmap.\<close>

function alloc_search :: "BuddyAllocator \<Rightarrow> nat \<Rightarrow> (nat \<times> nat \<times> BuddyAllocator) option outcome" where
  "alloc_search b found_order =
     (if MAX_ORDER < found_order then Return None
      else bind_outcome (find_free b found_order (drop_bit found_order (total_pages b))) (\<lambda>r.
        case r of
          Some block_idx \<Rightarrow>
            bind_outcome (clear_bit found_order block_idx b) (\<lambda>b.
            bind_outcome (sub_free_count (push_bit found_order 1) b) (\<lambda>b.
              Return (Some (push_bit found_order block_idx, found_order, b))))
        | None \<Rightarrow> alloc_search b (found_order + 1)))"
  by pat_completeness auto
termination by (relation "measure (\<lambda>(b, k). MAX_ORDER + 1 - k)") auto

declare alloc_search.simps [simp del]

text \<open>The split downward, giving the right half back at each level.\<close>

fun alloc_split :: "nat \<Rightarrow> nat \<Rightarrow> nat \<Rightarrow> BuddyAllocator \<Rightarrow> BuddyAllocator outcome" where
  "alloc_split page order 0 b = Return b"
| "alloc_split page order (Suc k) b =
     (if order < Suc k
      then
        let right_half = page + push_bit k 1 in
        bind_outcome (set_bit k (drop_bit k right_half) b) (\<lambda>b.
          alloc_split page order k (add_free_count (push_bit k 1) b))
      else Return b)"

fun mark_allocated :: "nat list \<Rightarrow> BuddyAllocator \<Rightarrow> BuddyAllocator outcome" where
  "mark_allocated [] b = Return b"
| "mark_allocated (p # ps) b = bind_outcome (set_allocated p b) (mark_allocated ps)"

definition buddy_alloc :: "nat \<Rightarrow> BuddyAllocator \<Rightarrow> (nat option \<times> BuddyAllocator) outcome" where
  "buddy_alloc order b =
     (if MAX_ORDER < order then Return (None, b)
      else bind_outcome (alloc_search b order) (\<lambda>r.
        case r of
          None \<Rightarrow> Return (None, b)
        | Some (page, found_order, b) \<Rightarrow>
            bind_outcome (alloc_split page order found_order b) (\<lambda>b.
            bind_outcome (mark_allocated (map (\<lambda>i. page + i) [0..<push_bit order 1]) b) (\<lambda>b.
              Return (Some page, b)))))"

section \<open>Freeing\<close>

fun unmark_allocated :: "nat list \<Rightarrow> BuddyAllocator \<Rightarrow> BuddyAllocator outcome" where
  "unmark_allocated [] b = Return b"
| "unmark_allocated (p # ps) b =
     bind_outcome (is_allocated b p) (\<lambda>a.
       assert_then a (bind_outcome (clear_allocated p b) (unmark_allocated ps)))"

text \<open>
  The merge loop. Its order never exceeds \<^verbatim>\<open>MAX_ORDER\<close>; beyond it the first access would lie
  past the end of the bitmap.
\<close>

function free_merge :: "nat \<Rightarrow> nat \<Rightarrow> BuddyAllocator \<Rightarrow> BuddyAllocator outcome" where
  "free_merge page order b =
     (if MAX_ORDER < order then Panic
      else if order = MAX_ORDER
      then bind_outcome (set_bit order (drop_bit order page) b) (\<lambda>b.
             Return (add_free_count (push_bit order 1) b))
      else
        let block_idx = drop_bit order page;
            buddy_idx = block_idx XOR 1;
            buddy_page = push_bit order buddy_idx
        in bind_outcome (if buddy_page < total_pages b then is_free b order buddy_idx else Return False)
             (\<lambda>merge.
               if merge
               then bind_outcome (clear_bit order buddy_idx b) (\<lambda>b.
                    bind_outcome (sub_free_count (push_bit order 1) b) (\<lambda>b.
                      free_merge (unset_bit order page) (order + 1) b))
               else bind_outcome (set_bit order block_idx b) (\<lambda>b.
                      Return (add_free_count (push_bit order 1) b))))"
  by pat_completeness auto
termination by (relation "measure (\<lambda>(p, k, b). MAX_ORDER + 1 - k)") auto

declare free_merge.simps [simp del]

definition buddy_free :: "nat \<Rightarrow> nat \<Rightarrow> BuddyAllocator \<Rightarrow> BuddyAllocator outcome" where
  "buddy_free page order b =
     assert_then (order \<le> MAX_ORDER)
       (assert_then (page + push_bit order 1 \<le> total_pages b)
         (assert_then (page mod push_bit order 1 = 0)
           (bind_outcome (unmark_allocated (map (\<lambda>i. page + i) [0..<push_bit order 1]) b)
             (free_merge page order))))"

fun free_each :: "nat list \<Rightarrow> BuddyAllocator \<Rightarrow> BuddyAllocator outcome" where
  "free_each [] b = Return b"
| "free_each (p # ps) b = bind_outcome (buddy_free p 0 b) (free_each ps)"

definition add_range :: "nat \<Rightarrow> nat \<Rightarrow> BuddyAllocator \<Rightarrow> BuddyAllocator outcome" where
  "add_range start_page n b =
     assert_then (start_page + n < 2 ^ 64)
       (assert_then (start_page + n \<le> total_pages b)
         (bind_outcome (mark_allocated (map (\<lambda>i. start_page + i) [0..<n]) b)
           (free_each (map (\<lambda>i. start_page + i) [0..<n]))))"

text \<open>The loop of \<^verbatim>\<open>order_for_count\<close>: doubling \<^verbatim>\<open>size\<close> until it reaches the count. Both counters
  are \<^verbatim>\<open>usize\<close>: shifting a set top bit out of \<^verbatim>\<open>size\<close> leaves zero without a panic, while
  \<^verbatim>\<open>order += 1\<close> panics at the largest \<^verbatim>\<open>usize\<close>.\<close>

function order_loop :: "nat \<Rightarrow> nat \<Rightarrow> nat \<Rightarrow> nat outcome" where
  "order_loop n order sz =
     (if sz < n
      then if order + 1 < 2 ^ 64 then order_loop n (order + 1) (push_bit 1 sz mod 2 ^ 64) else Panic
      else Return order)"
  by pat_completeness auto
termination by (relation "measure (\<lambda>(n, order, sz). 2 ^ 64 - order)") auto

declare order_loop.simps [simp del]

definition order_for_count :: "nat \<Rightarrow> nat outcome" where
  "order_for_count n = (if n \<le> 1 then Return 0 else order_loop n 0 1)"

section \<open>The two bitmaps\<close>

definition page_valid :: "nat \<Rightarrow> bool" where "page_valid p \<longleftrightarrow> p < MAX_PAGES"

definition page_allocated :: "BuddyAllocator \<Rightarrow> nat \<Rightarrow> bool" where
  "page_allocated b p \<longleftrightarrow> bit (allocated b (p div 8)) (p mod 8)"

definition block_valid :: "nat \<times> nat \<Rightarrow> bool" where
  "block_valid ki \<longleftrightarrow> fst ki \<le> MAX_ORDER \<and> snd ki < drop_bit (fst ki) MAX_PAGES"

definition block_free :: "BuddyAllocator \<Rightarrow> nat \<times> nat \<Rightarrow> bool" where
  "block_free b ki \<longleftrightarrow> bit (bitmap b (bitmap_offset (fst ki) + snd ki div 8)) (snd ki mod 8)"

lemma byte_test: "n < 8 \<Longrightarrow> w AND push_bit n 1 \<noteq> 0 \<longleftrightarrow> bit w n" for w :: u8
  by (simp add: bit_iff_and_push_bit_not_eq_0)

lemma byte_set: "n < 8 \<Longrightarrow> bit (w OR push_bit n 1) m \<longleftrightarrow> m = n \<or> bit w m" for w :: u8
  by (auto simp: bit_or_iff bit_exp_iff)

lemma byte_clear: "n < 8 \<Longrightarrow> bit (w AND NOT (push_bit n 1)) m \<longleftrightarrow> m \<noteq> n \<and> bit w m" for w :: u8
  by (auto simp: bit_and_iff bit_not_iff bit_exp_iff dest: bit_imp_le_length)

lemma div_mod_8_eq: "p div 8 = q div 8 \<Longrightarrow> p mod 8 = q mod 8 \<Longrightarrow> p = q" for p q :: nat
  by (metis div_mult_mod_eq)

lemma bitmap_offset_mono: "k \<le> k' \<Longrightarrow> bitmap_offset k \<le> bitmap_offset k'"
  by (rule lift_Suc_mono_le [where f = bitmap_offset]) simp_all

lemma block_byte_bound:
  assumes "block_valid (k, i)"
  shows "bitmap_offset k + i div 8 < bitmap_offset (Suc k)" and "bitmap_offset k + i div 8 < BITMAP_TOTAL"
proof -
  have "i div 8 < (drop_bit k MAX_PAGES + 7) div 8"
    using assms by (simp add: block_valid_def) linarith
  then show 1: "bitmap_offset k + i div 8 < bitmap_offset (Suc k)"
    by (simp add: bitmap_bytes_for_order_def)
  have "bitmap_offset (Suc k) \<le> BITMAP_TOTAL"
    unfolding BITMAP_TOTAL_def using assms by (intro bitmap_offset_mono) (simp add: block_valid_def)
  with 1 show "bitmap_offset k + i div 8 < BITMAP_TOTAL" by simp
qed

text \<open>Blocks of different orders never share a byte of the bitmap.\<close>

lemma block_bit_inj:
  assumes "block_valid (k, i)" and "block_valid (k', i')"
    and "bitmap_offset k + i div 8 = bitmap_offset k' + i' div 8" and "i mod 8 = i' mod 8"
  shows "k = k' \<and> i = i'"
proof -
  have "\<not> k < k'"
    using block_byte_bound(1) [OF assms(1)] bitmap_offset_mono [of "Suc k" k'] assms(3) by auto
  moreover have "\<not> k' < k"
    using block_byte_bound(1) [OF assms(2)] bitmap_offset_mono [of "Suc k'" k] assms(3) by auto
  ultimately show ?thesis using assms(3,4) div_mod_8_eq [of i i'] by simp
qed

lemma page_byte_bound: "page_valid p \<Longrightarrow> p div 8 < ALLOC_BITMAP_SIZE"
  by (simp add: page_valid_def ALLOC_BITMAP_SIZE_def MAX_PAGES_def)

interpretation pages: bit_store page_valid is_allocated set_allocated clear_allocated page_allocated
  "\<lambda>b. (bitmap b, total_pages b, free_count b)"
proof
  fix p b assume v: "page_valid p"
  note bd = page_byte_bound [OF v]
  have m: "p mod 8 < 8" by simp
  show "is_allocated b p = Return (page_allocated b p)"
    using bd byte_test [OF m] by (simp add: is_allocated_def page_allocated_def)
  show "\<exists>b'. set_allocated p b = Return b' \<and>
      (bitmap b', total_pages b', free_count b') = (bitmap b, total_pages b, free_count b) \<and>
      (\<forall>j. page_valid j \<longrightarrow> page_allocated b' j = (j = p \<or> page_allocated b j))"
    using bd byte_set [OF m] div_mod_8_eq [of _ p]
    by (auto simp: set_allocated_def page_allocated_def)
  show "\<exists>b'. clear_allocated p b = Return b' \<and>
      (bitmap b', total_pages b', free_count b') = (bitmap b, total_pages b, free_count b) \<and>
      (\<forall>j. page_valid j \<longrightarrow> page_allocated b' j = (j \<noteq> p \<and> page_allocated b j))"
    using bd byte_clear [OF m] div_mod_8_eq [of _ p]
    by (auto simp: clear_allocated_def page_allocated_def)
qed

interpretation blocks: bit_store block_valid "\<lambda>b (k, i). is_free b k i" "\<lambda>(k, i). set_bit k i"
  "\<lambda>(k, i). clear_bit k i" block_free "\<lambda>b. (allocated b, total_pages b, free_count b)"
proof
  fix ki b assume v: "block_valid ki"
  obtain k i where ki: "ki = (k, i)" by (cases ki)
  note v' = v [unfolded ki]
  note bd = block_byte_bound(2) [OF v']
  have m: "i mod 8 < 8" by simp
  show "(case ki of (k, i) \<Rightarrow> is_free b k i) = Return (block_free b ki)"
    using bd byte_test [OF m] by (simp add: ki is_free_def block_free_def Let_def)
  show "\<exists>b'. (case ki of (k, i) \<Rightarrow> set_bit k i) b = Return b' \<and>
      (allocated b', total_pages b', free_count b') = (allocated b, total_pages b, free_count b) \<and>
      (\<forall>j. block_valid j \<longrightarrow> block_free b' j = (j = ki \<or> block_free b j))"
    using bd byte_set [OF m] block_bit_inj [OF _ v']
    by (auto simp: ki set_bit_def block_free_def Let_def)
  show "\<exists>b'. (case ki of (k, i) \<Rightarrow> clear_bit k i) b = Return b' \<and>
      (allocated b', total_pages b', free_count b') = (allocated b, total_pages b, free_count b) \<and>
      (\<forall>j. block_valid j \<longrightarrow> block_free b' j = (j \<noteq> ki \<and> block_free b j))"
    using bd byte_clear [OF m] block_bit_inj [OF _ v']
    by (auto simp: ki clear_bit_def block_free_def Let_def)
qed

section \<open>Block sets\<close>

text \<open>
  The pages of block \<open>i\<close> of order \<open>k\<close> are those \<open>p\<close> with \<open>p div 2 ^ k = i\<close>. A set of blocks is
  well formed for a number of pages when its blocks lie inside it, overlap nowhere and no two
  buddies are both in it.
\<close>

definition block :: "nat \<times> nat \<Rightarrow> nat set" where
  "block ki = {p. p div 2 ^ fst ki = snd ki}"

definition pages_of :: "(nat \<times> nat) set \<Rightarrow> nat set" where
  "pages_of B = (\<Union>ki \<in> B. block ki)"

definition inside :: "nat \<Rightarrow> nat \<times> nat \<Rightarrow> bool" where
  "inside np ki \<longleftrightarrow> fst ki \<le> MAX_ORDER \<and> Suc (snd ki) * 2 ^ fst ki \<le> np"

definition block_set_wf :: "nat \<Rightarrow> (nat \<times> nat) set \<Rightarrow> bool" where
  "block_set_wf np B \<longleftrightarrow>
     (\<forall>ki \<in> B. inside np ki) \<and>
     (\<forall>ki \<in> B. \<forall>kj \<in> B. ki \<noteq> kj \<longrightarrow> block ki \<inter> block kj = {}) \<and>
     (\<forall>(k, i) \<in> B. k < MAX_ORDER \<longrightarrow> (k, i XOR 1) \<notin> B)"

lemma block_interval: "block (k, i) = {i * 2 ^ k ..< Suc i * 2 ^ k}"
proof -
  have eq: "p div 2 ^ k = i \<longleftrightarrow> p \<in> {i * 2 ^ k ..< Suc i * 2 ^ k}" for p :: nat
  proof
    assume "p div 2 ^ k = i"
    then have "p = i * 2 ^ k + p mod 2 ^ k" by (metis div_mult_mod_eq)
    moreover have "p mod 2 ^ k < 2 ^ k" by simp
    ultimately have "i * 2 ^ k \<le> p" "p < i * 2 ^ k + 2 ^ k" by linarith+
    then show "p \<in> {i * 2 ^ k ..< Suc i * 2 ^ k}" by simp
  next
    assume "p \<in> {i * 2 ^ k ..< Suc i * 2 ^ k}"
    then show "p div 2 ^ k = i" by (intro div_nat_eqI) (simp_all add: mult.commute)
  qed
  show ?thesis unfolding block_def fst_conv snd_conv eq by (rule Collect_mem_eq)
qed

lemma block_card: "card (block (k, i)) = 2 ^ k" "finite (block (k, i))"
  by (simp_all add: block_interval)

lemma block_nonempty: "i * 2 ^ k \<in> block (k, i)"
  by (simp add: block_def)

lemma block_inside: "inside np ki \<Longrightarrow> block ki \<subseteq> {..<np}"
  by (cases ki) (auto simp: block_interval inside_def)

lemma block_halves:
  "block (Suc k, i) = block (k, 2 * i) \<union> block (k, Suc (2 * i))"
  "block (k, 2 * i) \<inter> block (k, Suc (2 * i)) = {}"
  by (auto simp: block_interval)

lemma buddy_index: "(2 * i) XOR 1 = Suc (2 * i)" "Suc (2 * i) XOR 1 = 2 * i" for i :: nat
proof -
  show "(2 * i) XOR 1 = Suc (2 * i)" by (subst xor_nat_rec) simp
  show "Suc (2 * i) XOR 1 = 2 * i" by (subst xor_nat_rec) simp
qed

lemma buddy_index_Suc [simp]: "(2 * i) XOR Suc 0 = Suc (2 * i)" "Suc (2 * i) XOR Suc 0 = 2 * i"
  using buddy_index by simp_all

lemma buddy_cases:
  fixes i :: nat
  obtains j where "i = 2 * j" "i XOR 1 = Suc (2 * j)" | j where "i = Suc (2 * j)" "i XOR 1 = 2 * j"
proof (cases "even i")
  case True
  then obtain j where "i = 2 * j" by (rule evenE)
  with buddy_index(1) [of j] that(1) show thesis by simp
next
  case False
  then obtain j where "i = 2 * j + 1" by (rule oddE)
  with buddy_index(2) [of j] that(2) [of j] show thesis by simp
qed

lemma block_parent: "block (Suc k, i div 2) = block (k, i) \<union> block (k, i XOR 1)"
  by (cases i rule: buddy_cases) (auto simp: block_halves)

lemma block_buddy_disjoint: "block (k, i) \<inter> block (k, i XOR 1) = {}"
  by (cases i rule: buddy_cases) (auto simp: block_halves(2) Int_commute)

lemma inside_halves:
  "inside np (Suc k, i) \<Longrightarrow> inside np (k, 2 * i) \<and> inside np (k, Suc (2 * i))"
  by (auto simp: inside_def)

lemma inside_parent:
  "k < MAX_ORDER \<Longrightarrow> inside np (k, i) \<Longrightarrow> inside np (k, i XOR 1) \<Longrightarrow> inside np (Suc k, i div 2)"
  by (cases i rule: buddy_cases) (auto simp: inside_def)

lemma inside_valid: "np \<le> MAX_PAGES \<Longrightarrow> inside np ki \<Longrightarrow> block_valid ki"
proof -
  assume t: "np \<le> MAX_PAGES" and i: "inside np ki"
  obtain k j where ki: "ki = (k, j)" by (cases ki)
  have "Suc j * 2 ^ k \<le> MAX_PAGES" using t i by (simp add: ki inside_def)
  then have "Suc j \<le> MAX_PAGES div 2 ^ k" by (simp add: less_eq_div_iff_mult_less_eq)
  then show "block_valid ki" using i by (simp add: ki block_valid_def inside_def drop_bit_eq_div)
qed

lemma finite_inside: "\<forall>ki \<in> B. inside np ki \<Longrightarrow> finite (pages_of B)"
  using block_inside by (intro finite_subset [of "pages_of B" "{..<np}"]) (force simp: pages_of_def)+

text \<open>Taking a block out, and putting a block in whose pages are not free.\<close>

lemma block_set_remove:
  assumes "block_set_wf np B" and "ki \<in> B"
  shows "block_set_wf np (B - {ki})" and "pages_of (B - {ki}) = pages_of B - block ki"
    and "block ki \<subseteq> pages_of B"
proof -
  have d: "block kj \<inter> block ki = {}" if "kj \<in> B" "kj \<noteq> ki" for kj
    using assms that unfolding block_set_wf_def by blast
  show "block_set_wf np (B - {ki})"
    using assms(1) unfolding block_set_wf_def by blast
  show "pages_of (B - {ki}) = pages_of B - block ki"
    using d by (auto simp: pages_of_def)
  show "block ki \<subseteq> pages_of B" using assms(2) by (auto simp: pages_of_def)
qed

lemma block_set_insert:
  assumes "block_set_wf np B" and "inside np (k, i)" and "block (k, i) \<inter> pages_of B = {}"
    and "k < MAX_ORDER \<longrightarrow> (k, i XOR 1) \<notin> B"
  shows "block_set_wf np (insert (k, i) B)"
    and "pages_of (insert (k, i) B) = pages_of B \<union> block (k, i)" and "(k, i) \<notin> B"
proof -
  have ii: "(x XOR 1) XOR 1 = x" for x :: nat by (simp add: xor.assoc)
  have "(k, j XOR 1) \<noteq> (k, i)" if "(k, j) \<in> B" "k < MAX_ORDER" for j
  proof
    assume "(k, j XOR 1) = (k, i)"
    then have "i = j XOR 1" by simp
    then have "j = i XOR 1" using ii [of j] by (simp only:)
    with assms(4) that show False by blast
  qed
  moreover have "block kj \<inter> block (k, i) = {}" if "kj \<in> B" for kj
    using assms(3) that by (auto simp: pages_of_def)
  moreover have "i XOR 1 \<noteq> i" by (cases i rule: buddy_cases) linarith+
  ultimately show "block_set_wf np (insert (k, i) B)"
    using assms(1,2,4) unfolding block_set_wf_def by auto
  show "pages_of (insert (k, i) B) = pages_of B \<union> block (k, i)" by (auto simp: pages_of_def)
  show "(k, i) \<notin> B" using assms(3) block_nonempty [of i k] by (auto simp: pages_of_def)
qed

section \<open>The allocator as a block set\<close>

definition blocks_of :: "BuddyAllocator \<Rightarrow> (nat \<times> nat) set" where
  "blocks_of b = {ki. block_valid ki \<and> block_free b ki}"

definition free_pages :: "BuddyAllocator \<Rightarrow> nat set" where
  "free_pages b = pages_of (blocks_of b)"

definition blocks_ok :: "BuddyAllocator \<Rightarrow> bool" where
  "blocks_ok b \<longleftrightarrow>
     total_pages b \<le> MAX_PAGES \<and> block_set_wf (total_pages b) (blocks_of b) \<and>
     free_count b = card (free_pages b)"

definition buddy_inv :: "BuddyAllocator \<Rightarrow> bool" where
  "buddy_inv b \<longleftrightarrow> blocks_ok b \<and> (\<forall>p \<in> free_pages b. \<not> page_allocated b p)"

lemma set_bit_blocks:
  assumes "block_valid (k, i)"
  shows "\<exists>b'. set_bit k i b = Return b' \<and> blocks_of b' = insert (k, i) (blocks_of b) \<and>
    allocated b' = allocated b \<and> total_pages b' = total_pages b \<and> free_count b' = free_count b"
  using blocks.set_view [OF assms, of b] assms by (auto simp: blocks_of_def)

lemma clear_bit_blocks:
  assumes "block_valid (k, i)"
  shows "\<exists>b'. clear_bit k i b = Return b' \<and> blocks_of b' = blocks_of b - {(k, i)} \<and>
    allocated b' = allocated b \<and> total_pages b' = total_pages b \<and> free_count b' = free_count b"
  using blocks.clear_view [OF assms, of b] assms by (auto simp: blocks_of_def)

lemma blocks_of_cong [simp]:
  "blocks_of (b\<lparr>free_count := n\<rparr>) = blocks_of b" "blocks_of (b\<lparr>allocated := a\<rparr>) = blocks_of b"
  "free_pages (b\<lparr>free_count := n\<rparr>) = free_pages b" "free_pages (b\<lparr>allocated := a\<rparr>) = free_pages b"
  by (simp_all add: blocks_of_def block_free_def free_pages_def)

lemma page_allocated_cong:
  "allocated b' = allocated b \<Longrightarrow> page_allocated b' p = page_allocated b p"
  by (simp add: page_allocated_def)

lemma finite_free_pages: "blocks_ok b \<Longrightarrow> finite (free_pages b)"
  by (auto simp: blocks_ok_def block_set_wf_def free_pages_def intro: finite_inside)

subsection \<open>Scanning\<close>

lemma trailing_zeros_bit:
  assumes "w \<noteq> 0"
  shows "trailing_zeros w < 8 \<and> bit w (trailing_zeros w) \<and> (\<forall>n < trailing_zeros w. \<not> bit w n)"
proof -
  have "\<exists>n. bit w n" using assms by (auto intro!: bit_eqI)
  then obtain n where n: "bit w n" by blast
  with bit_imp_le_length [OF n] have "n < 8" "bit w n" by simp_all
  then have "position (\<lambda>n. bit w n) [0..<8] \<noteq> None" by (auto simp: position_None_iff)
  then obtain m where m: "position (\<lambda>n. bit w n) [0..<8] = Some m" by blast
  then have "trailing_zeros w = m" by (simp add: trailing_zeros_def)
  with position_SomeD [OF m] show ?thesis by auto
qed

lemma scan_bytes_Return:
  assumes "\<forall>j \<in> set js. base + j < BITMAP_TOTAL"
  shows "scan_bytes b base js = Return
    (map_option (\<lambda>j. j * 8 + trailing_zeros (bitmap b (base + j))) (List.find (\<lambda>j. bitmap b (base + j) \<noteq> 0) js))"
  using assms by (induction js) auto

lemma byte_pos: "block_free b (k, j * 8 + n) \<longleftrightarrow> bit (bitmap b (bitmap_offset k + j)) n" if "n < 8"
  using that by (simp add: block_free_def)

text \<open>The byte index of the scan, and the masked last byte.\<close>

lemma scan_bytes_find:
  assumes "\<forall>j < full. bitmap_offset k + j < BITMAP_TOTAL"
  shows "\<exists>r. scan_bytes b (bitmap_offset k) [0..<full] = Return r \<and>
    (case r of
       Some i \<Rightarrow> i < full * 8 \<and> block_free b (k, i)
     | None \<Rightarrow> \<forall>i < full * 8. \<not> block_free b (k, i))"
proof (cases "List.find (\<lambda>j. bitmap b (bitmap_offset k + j) \<noteq> 0) [0..<full]")
  case None
  then have "\<forall>j < full. bitmap b (bitmap_offset k + j) = 0" by (auto simp: find_None_iff)
  then have "\<not> block_free b (k, i)" if "i < full * 8" for i
    using that by (simp add: block_free_def less_mult_imp_div_less)
  with None assms show ?thesis by (subst scan_bytes_Return) auto
next
  case (Some j)
  then have j: "j < full" "bitmap b (bitmap_offset k + j) \<noteq> 0" by (auto simp: find_Some_iff)
  let ?tz = "trailing_zeros (bitmap b (bitmap_offset k + j))"
  note tz = trailing_zeros_bit [OF j(2)]
  then have "block_free b (k, j * 8 + ?tz)" using byte_pos [of ?tz b k j] by simp
  moreover have "j * 8 + ?tz < full * 8" using tz j(1) by linarith
  ultimately show ?thesis using Some assms by (subst scan_bytes_Return) auto
qed

lemma masked_byte:
  fixes w :: u8
  assumes "n < 8"
  shows "bit (w AND (push_bit n 1 - 1)) m \<longleftrightarrow> m < n \<and> bit w m"
proof -
  have "push_bit n 1 - 1 = (mask n :: u8)" by (simp add: mask_eq_exp_minus_1)
  then show ?thesis using assms by (auto simp: bit_and_iff bit_mask_iff dest: bit_imp_le_length)
qed

lemma block_in_last_byte:
  assumes "full * 8 \<le> i" and "i < full * 8 + r" and "r < 8"
  shows "block_free b (k, i) \<longleftrightarrow> bit (bitmap b (bitmap_offset k + full) AND (push_bit r 1 - 1)) (i - full * 8)"
proof -
  have "i - full * 8 < 8" "i = full * 8 + (i - full * 8)" using assms by linarith+
  then show ?thesis using byte_pos [of "i - full * 8" b k full] masked_byte [OF assms(3)] assms by auto
qed

lemma find_free_spec:
  assumes "k \<le> MAX_ORDER" and "mb \<le> drop_bit k MAX_PAGES"
  shows "\<exists>r. find_free b k mb = Return r \<and>
    (case r of
       Some i \<Rightarrow> i < mb \<and> block_free b (k, i)
     | None \<Rightarrow> \<forall>i < mb. \<not> block_free b (k, i))"
proof -
  let ?base = "bitmap_offset k" and ?full = "mb div 8" and ?rem = "mb mod 8"
  let ?m = "bitmap b (?base + ?full) AND (push_bit ?rem 1 - 1)"
  have bound: "?base + i div 8 < BITMAP_TOTAL" if "i < mb" for i
    using assms that by (intro block_byte_bound(2)) (simp add: block_valid_def)
  have full: "\<forall>j < ?full. ?base + j < BITMAP_TOTAL"
  proof (intro allI impI)
    fix j assume "j < ?full"
    with bound [of "j * 8"] show "?base + j < BITMAP_TOTAL" by simp
  qed
  have mb: "mb = ?full * 8 + ?rem" and r8: "?rem < 8" by simp_all
  have rem: "?base + ?full < BITMAP_TOTAL" if "0 < ?rem"
    using bound [of "?full * 8"] that mb by linarith
  obtain r where r: "scan_bytes b ?base [0..<?full] = Return r"
    "case r of Some i \<Rightarrow> i < ?full * 8 \<and> block_free b (k, i) | None \<Rightarrow> \<forall>i < ?full * 8. \<not> block_free b (k, i)"
    using scan_bytes_find [OF full] by blast
  show ?thesis
  proof (cases r)
    case (Some i)
    then have "i < mb" using r(2) mb by (simp, linarith)
    then show ?thesis using Some r by (simp add: find_free_def Let_def)
  next
    case None
    show ?thesis
    proof (cases "0 < ?rem \<and> ?m \<noteq> 0")
      case True
      then have tz: "bit ?m (trailing_zeros ?m)" using trailing_zeros_bit [of ?m] by blast
      then have lt: "trailing_zeros ?m < ?rem" using masked_byte [OF r8] by blast
      then have less: "?full * 8 + trailing_zeros ?m < mb" using mb by linarith
      moreover have "block_free b (k, ?full * 8 + trailing_zeros ?m)"
        using tz lt less block_in_last_byte [OF _ _ r8, of ?full "?full * 8 + trailing_zeros ?m" b k] by simp
      ultimately show ?thesis using True rem None r by (simp add: find_free_def Let_def)
    next
      case False
      have "\<not> block_free b (k, i)" if "i < mb" for i
        using that False r None mb block_in_last_byte [OF _ _ r8, of ?full i b k]
        by (cases "i < ?full * 8") auto
      then show ?thesis using False rem None r by (auto simp: find_free_def Let_def)
    qed
  qed
qed

subsection \<open>Allocation\<close>

lemma blocks_below: "blocks_ok b \<Longrightarrow> (k, i) \<in> blocks_of b \<Longrightarrow> k \<le> MAX_ORDER \<and> i < drop_bit k (total_pages b)"
proof -
  assume "blocks_ok b" "(k, i) \<in> blocks_of b"
  then have "inside (total_pages b) (k, i)" by (auto simp: blocks_ok_def block_set_wf_def)
  then have "k \<le> MAX_ORDER" "Suc i \<le> total_pages b div 2 ^ k"
    by (simp_all add: inside_def less_eq_div_iff_mult_less_eq)
  then show ?thesis by (simp add: drop_bit_eq_div)
qed

lemma card_block_le: "blocks_ok b \<Longrightarrow> (k, i) \<in> blocks_of b \<Longrightarrow> 2 ^ k \<le> free_count b"
  using block_set_remove(3) [of "total_pages b" "blocks_of b" "(k, i)"] finite_free_pages [of b]
    card_mono [of "free_pages b" "block (k, i)"]
  by (simp add: blocks_ok_def free_pages_def block_card)

lemma take_block:
  assumes "blocks_ok b" and "(k, i) \<in> blocks_of b"
  shows "\<exists>b' b''. clear_bit k i b = Return b' \<and> sub_free_count (push_bit k 1) b' = Return b'' \<and>
    blocks_ok b'' \<and> free_pages b'' = free_pages b - block (k, i) \<and> block (k, i) \<subseteq> free_pages b \<and>
    blocks_of b'' = blocks_of b - {(k, i)} \<and>
    allocated b'' = allocated b \<and> total_pages b'' = total_pages b"
proof -
  note wf = assms(1) [unfolded blocks_ok_def]
  have v: "block_valid (k, i)" using assms(2) by (simp add: blocks_of_def)
  obtain b' where b': "clear_bit k i b = Return b'" "blocks_of b' = blocks_of b - {(k, i)}"
    "allocated b' = allocated b" "total_pages b' = total_pages b" "free_count b' = free_count b"
    using clear_bit_blocks [OF v] by blast
  note r = block_set_remove [OF conjunct1 [OF conjunct2 [OF wf]] assms(2)]
  have "card (free_pages b - block (k, i)) = free_count b - 2 ^ k"
    using r(3) wf block_card by (simp add: card_Diff_subset free_pages_def)
  with b' r wf card_block_le [OF assms] show ?thesis
    by (auto simp: sub_free_count_def blocks_ok_def free_pages_def)
qed

lemma alloc_search_spec:
  assumes "blocks_ok b"
  shows "(\<forall>k i. order \<le> k \<longrightarrow> (k, i) \<notin> blocks_of b) \<and> alloc_search b order = Return None \<or>
    (\<exists>k i b'. order \<le> k \<and> (k, i) \<in> blocks_of b \<and>
      alloc_search b order = Return (Some (push_bit k i, k, b')) \<and>
      blocks_ok b' \<and> free_pages b' = free_pages b - block (k, i) \<and> block (k, i) \<subseteq> free_pages b \<and>
      allocated b' = allocated b \<and> total_pages b' = total_pages b)"
proof (induction "MAX_ORDER + 1 - order" arbitrary: order)
  case 0
  then have "MAX_ORDER < order" by simp
  then show ?case
    using blocks_below [OF assms] by (subst alloc_search.simps) fastforce
next
  case (Suc m)
  then have le: "order \<le> MAX_ORDER" by simp
  have mb: "drop_bit order (total_pages b) \<le> drop_bit order MAX_PAGES"
    using assms by (simp add: drop_bit_eq_div div_le_mono blocks_ok_def)
  obtain r where r: "find_free b order (drop_bit order (total_pages b)) = Return r"
    "case r of Some i \<Rightarrow> i < drop_bit order (total_pages b) \<and> block_free b (order, i)
     | None \<Rightarrow> \<forall>i < drop_bit order (total_pages b). \<not> block_free b (order, i)"
    using find_free_spec [OF le mb, of b] by blast
  show ?case
  proof (cases r)
    case None
    have no: "(order, i) \<notin> blocks_of b" for i
      using r(2) None blocks_below [OF assms, of order i] by (auto simp: blocks_of_def)
    have e: "alloc_search b order = alloc_search b (order + 1)"
      using le r(1) None by (subst alloc_search.simps) simp
    have m: "m = MAX_ORDER + 1 - (order + 1)" using Suc.hyps(2) by simp
    have ge: "order \<le> k \<and> (k, i) \<in> blocks_of b \<longleftrightarrow> order + 1 \<le> k \<and> (k, i) \<in> blocks_of b" for k i
      using no [of i] by (cases "k = order") auto
    from Suc.hyps(1) [OF m] show ?thesis unfolding e by (meson ge)
  next
    case (Some i)
    then have i: "(order, i) \<in> blocks_of b"
      using r(2) le mb by (auto simp: blocks_of_def block_valid_def)
    from take_block [OF assms i] obtain b' b'' where t: "clear_bit order i b = Return b'"
      "sub_free_count (push_bit order 1) b' = Return b''" "blocks_ok b''"
      "free_pages b'' = free_pages b - block (order, i)" "block (order, i) \<subseteq> free_pages b"
      "allocated b'' = allocated b" "total_pages b'' = total_pages b"
      by blast
    have "alloc_search b order = Return (Some (push_bit order i, order, b''))"
      using le r(1) Some t(1,2) by (subst alloc_search.simps) simp
    with t i show ?thesis by blast
  qed
qed

lemma put_block:
  assumes "blocks_ok b" and "inside (total_pages b) (k, i)" and "block (k, i) \<inter> free_pages b = {}"
    and "k < MAX_ORDER \<longrightarrow> (k, i XOR 1) \<notin> blocks_of b"
  shows "\<exists>b'. set_bit k i b = Return b' \<and> blocks_ok (add_free_count (push_bit k 1) b') \<and>
    free_pages (add_free_count (push_bit k 1) b') = free_pages b \<union> block (k, i) \<and>
    allocated (add_free_count (push_bit k 1) b') = allocated b \<and>
    total_pages (add_free_count (push_bit k 1) b') = total_pages b"
proof -
  note ok = assms(1) [unfolded blocks_ok_def]
  have v: "block_valid (k, i)" using inside_valid ok assms(2) by blast
  obtain b' where b': "set_bit k i b = Return b'" "blocks_of b' = insert (k, i) (blocks_of b)"
    "allocated b' = allocated b" "total_pages b' = total_pages b" "free_count b' = free_count b"
    using set_bit_blocks [OF v] by blast
  note ins = block_set_insert [OF conjunct1 [OF conjunct2 [OF ok]] assms(2)
      assms(3) [unfolded free_pages_def] assms(4)]
  have fp: "free_pages (add_free_count n b') = free_pages b \<union> block (k, i)" for n
    using ins(2) b'(2) by (simp add: free_pages_def add_free_count_def)
  have "card (free_pages b \<union> block (k, i)) = free_count b + 2 ^ k"
    using ok assms(3) block_card finite_free_pages [OF assms(1)]
    by (subst card_Un_disjoint) auto
  with fp b' ok ins(1) show ?thesis by (simp add: blocks_ok_def add_free_count_def)
qed

lemma block_left_part: "order \<le> k \<Longrightarrow> block (order, j * 2 ^ (k - order)) \<subseteq> block (k, j)"
proof -
  assume le: "order \<le> k"
  have e: "j * 2 ^ (k - order) * 2 ^ order = j * 2 ^ k"
    using le by (simp add: mult.assoc power_add [symmetric])
  have "(2::nat) ^ order \<le> 2 ^ k" using le by (simp add: power_increasing)
  with e show ?thesis unfolding block_interval mult_Suc by (intro ivl_subset [THEN iffD2]) linarith
qed

text \<open>The hole left by the block found is refilled with the right halves of every split.\<close>

lemma alloc_split_spec:
  assumes "blocks_ok b" and "inside (total_pages b) (k, j)" and "block (k, j) \<inter> free_pages b = {}"
    and "order \<le> k"
  shows "\<exists>b'. alloc_split (j * 2 ^ k) order k b = Return b' \<and> blocks_ok b' \<and>
    free_pages b' = free_pages b \<union> (block (k, j) - block (order, j * 2 ^ (k - order))) \<and>
    allocated b' = allocated b \<and> total_pages b' = total_pages b"
  using assms
proof (induction k arbitrary: j b)
  case 0
  then show ?case by simp
next
  case (Suc k)
  show ?case
  proof (cases "order = Suc k")
    case True
    then show ?thesis using Suc.prems by simp
  next
    case False
    then have le: "order \<le> k" using Suc.prems(4) by simp
    note ins = inside_halves [OF Suc.prems(2)]
    have d: "block (k, 2 * j) \<inter> free_pages b = {}" "block (k, Suc (2 * j)) \<inter> free_pages b = {}"
      using Suc.prems(3) by (auto simp: block_halves(1))
    have nb: "k < MAX_ORDER \<longrightarrow> (k, Suc (2 * j) XOR 1) \<notin> blocks_of b"
      using d(1) block_nonempty [of "2 * j" k] by (auto simp: free_pages_def pages_of_def)
    obtain b1 where b1: "set_bit k (Suc (2 * j)) b = Return b1"
      and b2: "blocks_ok (add_free_count (push_bit k 1) b1)"
      "free_pages (add_free_count (push_bit k 1) b1) = free_pages b \<union> block (k, Suc (2 * j))"
      "allocated (add_free_count (push_bit k 1) b1) = allocated b"
      "total_pages (add_free_count (push_bit k 1) b1) = total_pages b"
      using put_block [OF Suc.prems(1) conjunct2 [OF ins] d(2) nb] by blast
    have "block (k, 2 * j) \<inter> free_pages (add_free_count (push_bit k 1) b1) = {}"
      unfolding b2(2) using d(1) block_halves(2) [of k j] by blast
    then obtain b' where b': "alloc_split (2 * j * 2 ^ k) order k (add_free_count (push_bit k 1) b1) = Return b'"
      "blocks_ok b'" "allocated b' = allocated b" "total_pages b' = total_pages b"
      "free_pages b' = free_pages b \<union> block (k, Suc (2 * j)) \<union>
         (block (k, 2 * j) - block (order, 2 * j * 2 ^ (k - order)))"
      using Suc.IH [OF b2(1) _ _ le, of "2 * j"] ins b2(2-4) by auto
    have dj: "drop_bit k (j * 2 ^ Suc k + push_bit k 1) = Suc (2 * j)"
      by (simp add: drop_bit_eq_div push_bit_eq_mult)
    have pw: "j * 2 ^ (Suc k - order) = 2 * j * 2 ^ (k - order)"
      using le by (simp add: Suc_diff_le)
    have "free_pages b' = free_pages b \<union> (block (Suc k, j) - block (order, j * 2 ^ (Suc k - order)))"
      unfolding b'(5) pw block_halves(1)
      using block_left_part [OF le, of "2 * j"] block_halves(2) [of k j] by blast
    moreover have "alloc_split (j * 2 ^ Suc k) order (Suc k) b = Return b'"
      using False Suc.prems(4) b1 b'(1) dj by (simp add: Let_def mult.assoc mult.left_commute)
    ultimately show ?thesis using b' by blast
  qed
qed

lemma mark_allocated_spec:
  assumes "\<forall>p \<in> set ps. p < MAX_PAGES"
  shows "\<exists>b'. mark_allocated ps b = Return b' \<and> bitmap b' = bitmap b \<and> total_pages b' = total_pages b \<and>
    free_count b' = free_count b \<and>
    (\<forall>q < MAX_PAGES. page_allocated b' q \<longleftrightarrow> q \<in> set ps \<or> page_allocated b q)"
  using pages.set_list [of mark_allocated ps b] assms by (auto simp: page_valid_def)

lemma unmark_allocated_spec:
  assumes "\<forall>p \<in> set ps. p < MAX_PAGES" and "distinct ps"
  shows "if \<forall>p \<in> set ps. page_allocated b p
    then \<exists>b'. unmark_allocated ps b = Return b' \<and> bitmap b' = bitmap b \<and> total_pages b' = total_pages b \<and>
      free_count b' = free_count b \<and>
      (\<forall>q < MAX_PAGES. page_allocated b' q \<longleftrightarrow> q \<notin> set ps \<and> page_allocated b q)
    else unmark_allocated ps b = Panic"
  using pages.clear_list [of unmark_allocated ps b] assms by (auto simp: page_valid_def split: if_splits)

lemma same_blocks:
  assumes "bitmap b' = bitmap b" and "total_pages b' = total_pages b" and "free_count b' = free_count b"
  shows "free_pages b' = free_pages b" and "blocks_ok b' = blocks_ok b"
  using assms by (simp_all add: free_pages_def blocks_of_def block_free_def blocks_ok_def)

text \<open>An aligned run of free pages always lies inside one free block of at least its order.\<close>

lemma run_in_block:
  assumes "block_set_wf np B" and "k \<le> MAX_ORDER" and "block (k, i) \<subseteq> pages_of B"
  shows "\<exists>k' i'. k \<le> k' \<and> (k', i') \<in> B \<and> block (k, i) \<inter> block (k', i') \<noteq> {}"
  using assms(2,3)
proof (induction k arbitrary: i)
  case 0
  then obtain ki where "ki \<in> B" "i \<in> block ki"
    using block_nonempty [of i 0] by (auto simp: pages_of_def)
  then show ?case using block_nonempty [of i 0] by (cases ki) auto
next
  case (Suc k)
  have half: "(k, j) \<in> B \<or> ?case" if j: "j = 2 * i \<or> j = Suc (2 * i)" for j
  proof -
    have sub: "block (k, j) \<subseteq> block (Suc k, i)" using j by (auto simp: block_halves)
    then obtain k' i' where k': "k \<le> k'" "(k', i') \<in> B" "block (k, j) \<inter> block (k', i') \<noteq> {}"
      using Suc.IH [of j] Suc.prems by force
    show ?thesis
    proof (cases "k = k'")
      case True
      with k'(3) have "i' = j" by (auto simp: block_def)
      with True k'(2) show ?thesis by simp
    next
      case False
      with k' sub show ?thesis by (metis Suc_leI disjoint_iff le_neq_implies_less subsetD)
    qed
  qed
  have "\<not> ((k, 2 * i) \<in> B \<and> (k, Suc (2 * i)) \<in> B)"
    using assms(1) Suc.prems(1) unfolding block_set_wf_def by (force simp: buddy_index)
  with half [of "2 * i"] half [of "Suc (2 * i)"] show ?case by blast
qed

definition page_run :: "nat \<Rightarrow> nat \<Rightarrow> nat set" where
  "page_run page order = {page ..< page + 2 ^ order}"

lemma page_run_block: "page_run (i * 2 ^ k) k = block (k, i)"
  by (auto simp: page_run_def block_interval)

lemma page_run_list: "set (map (\<lambda>i. page + i) [0..<push_bit order 1]) = page_run page order"
  "distinct (map (\<lambda>i. page + i) [0..<push_bit order 1])"
proof -
  have "push_bit order 1 = (2::nat) ^ order" by (simp add: push_bit_eq_mult)
  then show "set (map (\<lambda>i. page + i) [0..<push_bit order 1]) = page_run page order"
    unfolding page_run_def set_map set_upt by (simp add: image_add_atLeastLessThan add.commute)
  show "distinct (map (\<lambda>i. page + i) [0..<push_bit order 1])" by (simp add: distinct_map)
qed

lemma inside_pages: "blocks_ok b \<Longrightarrow> (k, i) \<in> blocks_of b \<Longrightarrow> inside (total_pages b) (k, i)"
  by (auto simp: blocks_ok_def block_set_wf_def)

lemma free_pages_below: "blocks_ok b \<Longrightarrow> free_pages b \<subseteq> {..<total_pages b}"
  using block_inside inside_pages by (force simp: free_pages_def pages_of_def)

text \<open>What the allocator promises of one allocation.\<close>

definition alloc_gives :: "nat \<Rightarrow> BuddyAllocator \<Rightarrow> nat \<Rightarrow> BuddyAllocator \<Rightarrow> bool" where
  "alloc_gives order b page b' \<longleftrightarrow>
     page mod 2 ^ order = 0 \<and> page_run page order \<subseteq> free_pages b \<and>
     free_pages b' = free_pages b - page_run page order \<and> total_pages b' = total_pages b \<and>
     (\<forall>q < MAX_PAGES. page_allocated b' q \<longleftrightarrow> q \<in> page_run page order \<or> page_allocated b q)"

lemma buddy_alloc_block:
  assumes "buddy_inv b" and "order \<le> MAX_ORDER" and "order \<le> k" and "(k, i) \<in> blocks_of b"
    and "alloc_search b order = Return (Some (push_bit k i, k, b1))"
    and "blocks_ok b1" and "free_pages b1 = free_pages b - block (k, i)" and "block (k, i) \<subseteq> free_pages b"
    and "allocated b1 = allocated b" and "total_pages b1 = total_pages b"
  shows "\<exists>page b'. buddy_alloc order b = Return (Some page, b') \<and> buddy_inv b' \<and> alloc_gives order b page b'"
proof -
  let ?page = "i * 2 ^ k" and ?run = "block (order, i * 2 ^ (k - order))"
  have ok: "blocks_ok b" using assms(1) by (simp add: buddy_inv_def)
  have ins: "inside (total_pages b1) (k, i)" using inside_pages [OF ok assms(4)] assms(10) by simp
  have dis: "block (k, i) \<inter> free_pages b1 = {}" using assms(7) by blast
  obtain b2 where b2: "alloc_split ?page order k b1 = Return b2" "blocks_ok b2"
    "free_pages b2 = free_pages b1 \<union> (block (k, i) - ?run)" "allocated b2 = allocated b1"
    "total_pages b2 = total_pages b1"
    using alloc_split_spec [OF assms(6) ins dis assms(3)] by blast
  have al: "i * 2 ^ (k - order) * 2 ^ order = ?page"
    using assms(3) by (simp add: mult.assoc power_add [symmetric])
  have run: "page_run ?page order = ?run" using page_run_block [of "i * 2 ^ (k - order)" order] al by simp
  have sub: "?run \<subseteq> free_pages b" using block_left_part [OF assms(3), of i] assms(8) by blast
  have max: "free_pages b \<subseteq> {..<MAX_PAGES}"
    using free_pages_below [OF ok] ok by (force simp: blocks_ok_def)
  have "\<forall>p \<in> page_run ?page order. p < MAX_PAGES" unfolding run using sub max by blast
  then obtain b3 where b3: "mark_allocated (map (\<lambda>i. ?page + i) [0..<push_bit order 1]) b2 = Return b3"
    "bitmap b3 = bitmap b2" "total_pages b3 = total_pages b2" "free_count b3 = free_count b2"
    "\<And>q. q < MAX_PAGES \<Longrightarrow> page_allocated b3 q \<longleftrightarrow> q \<in> page_run ?page order \<or> page_allocated b2 q"
    using mark_allocated_spec [of "map (\<lambda>i. ?page + i) [0..<push_bit order 1]" b2]
    unfolding page_run_list(1) by blast
  have fp: "free_pages b3 = free_pages b - page_run ?page order"
    unfolding same_blocks(1) [OF b3(2-4)] b2(3) assms(7) run
    using block_left_part [OF assms(3), of i] assms(8) by blast
  have pa: "page_allocated b2 q = page_allocated b q" for q
    using b2(4) assms(9) by (intro page_allocated_cong) simp
  have "buddy_alloc order b = Return (Some ?page, b3)"
    using assms(2,5) b2(1) b3(1) by (simp add: buddy_alloc_def push_bit_eq_mult)
  moreover have "buddy_inv b3"
    using b2(2) same_blocks(2) [OF b3(2-4)] fp b3(5) pa assms(1) max by (auto simp: buddy_inv_def)
  moreover have "alloc_gives order b ?page b3"
    using al sub run fp b3(3,5) b2(5) assms(10) pa by (auto simp: alloc_gives_def al [symmetric])
  ultimately show ?thesis by blast
qed

lemma buddy_alloc_spec:
  assumes "buddy_inv b" and "order \<le> MAX_ORDER"
  shows "(\<exists>page b'. buddy_alloc order b = Return (Some page, b') \<and> buddy_inv b' \<and> alloc_gives order b page b') \<or>
    buddy_alloc order b = Return (None, b) \<and>
    (\<forall>page. page mod 2 ^ order = 0 \<longrightarrow> \<not> page_run page order \<subseteq> free_pages b)"
proof -
  have ok: "blocks_ok b" using assms(1) by (simp add: buddy_inv_def)
  from alloc_search_spec [OF ok, of order] show ?thesis
  proof (elim disjE exE conjE)
    assume none: "\<forall>k i. order \<le> k \<longrightarrow> (k, i) \<notin> blocks_of b" "alloc_search b order = Return None"
    have "\<not> page_run page order \<subseteq> free_pages b" if "page mod 2 ^ order = 0" for page
    proof
      assume sub: "page_run page order \<subseteq> free_pages b"
      define i where "i = page div 2 ^ order"
      have "page = i * 2 ^ order" using that div_mult_mod_eq [of page "2 ^ order"] by (simp add: i_def)
      then have "block (order, i) \<subseteq> pages_of (blocks_of b)"
        using sub page_run_block [of i order] by (simp add: free_pages_def)
      with none(1) ok assms(2) show False
        using run_in_block [of "total_pages b" "blocks_of b" order i] by (auto simp: blocks_ok_def)
    qed
    with none assms(2) show ?thesis by (simp add: buddy_alloc_def)
  next
    fix k i b1
    assume "order \<le> k" "(k, i) \<in> blocks_of b" "alloc_search b order = Return (Some (push_bit k i, k, b1))"
      "blocks_ok b1" "free_pages b1 = free_pages b - block (k, i)" "block (k, i) \<subseteq> free_pages b"
      "allocated b1 = allocated b" "total_pages b1 = total_pages b"
    from buddy_alloc_block [OF assms this] show ?thesis by blast
  qed
qed

subsection \<open>Freeing\<close>

lemma unset_bit_parent: "unset_bit k (i * 2 ^ k) = i div 2 * 2 ^ Suc k" for i k :: nat
proof -
  have "unset_bit k (push_bit k i) = push_bit (Suc k) (drop_bit 1 i)"
  proof (rule bit_eqI)
    fix n
    have "k < n \<Longrightarrow> n - k = Suc (n - Suc k)" by simp
    then show "bit (unset_bit k (push_bit k i)) n = bit (push_bit (Suc k) (drop_bit 1 i)) n"
      by (auto simp: bit_unset_bit_iff bit_push_bit_iff bit_drop_bit_eq simp del: push_bit_Suc)
  qed
  then show ?thesis by (simp add: push_bit_eq_mult drop_bit_eq_div)
qed

lemma buddy_valid:
  assumes "k \<le> MAX_ORDER" and "push_bit k i < total_pages b" and "blocks_ok b"
  shows "block_valid (k, i)"
proof -
  have e: "MAX_PAGES = 2 ^ (MAX_ORDER - k) * 2 ^ k"
    using assms(1) by (simp add: MAX_PAGES_def MAX_ORDER_def power_add [symmetric])
  have "drop_bit k MAX_PAGES = 2 ^ (MAX_ORDER - k)" unfolding e drop_bit_eq_div by simp
  moreover have "i * 2 ^ k < MAX_PAGES"
    using assms(2,3) by (simp add: push_bit_eq_mult blocks_ok_def)
  then have "i < 2 ^ (MAX_ORDER - k)" unfolding e by simp
  ultimately show ?thesis using assms(1) by (simp add: block_valid_def)
qed

text \<open>The merge test of the loop asks exactly whether the buddy is a free block.\<close>

lemma buddy_test:
  assumes "blocks_ok b" and "k < MAX_ORDER"
  shows "(if push_bit k j < total_pages b then is_free b k j else Return False) =
    Return ((k, j) \<in> blocks_of b)"
proof (cases "push_bit k j < total_pages b")
  case True
  then have v: "block_valid (k, j)" using buddy_valid [of k j b] assms by simp
  with True blocks.get_view [OF v, of b] show ?thesis by (simp add: blocks_of_def)
next
  case False
  have "(k, j) \<notin> blocks_of b"
  proof
    assume "(k, j) \<in> blocks_of b"
    then have "Suc j * 2 ^ k \<le> total_pages b" using inside_pages [OF assms(1)] by (auto simp: inside_def)
    moreover have "j * 2 ^ k < Suc j * 2 ^ k" by simp
    ultimately have "j * 2 ^ k < total_pages b" by linarith
    with False show False by (simp add: push_bit_eq_mult)
  qed
  with False show ?thesis by simp
qed

lemma free_merge_spec:
  assumes "blocks_ok b" and "inside (total_pages b) (k, i)" and "block (k, i) \<inter> free_pages b = {}"
  shows "\<exists>b'. free_merge (i * 2 ^ k) k b = Return b' \<and> blocks_ok b' \<and>
    free_pages b' = free_pages b \<union> block (k, i) \<and>
    allocated b' = allocated b \<and> total_pages b' = total_pages b"
  using assms
proof (induction "MAX_ORDER - k" arbitrary: k i b)
  case 0
  then have k: "k = MAX_ORDER" by (simp add: inside_def)
  obtain b1 where "set_bit k i b = Return b1" "blocks_ok (add_free_count (push_bit k 1) b1)"
    "free_pages (add_free_count (push_bit k 1) b1) = free_pages b \<union> block (k, i)"
    "allocated (add_free_count (push_bit k 1) b1) = allocated b"
    "total_pages (add_free_count (push_bit k 1) b1) = total_pages b"
    using put_block [OF 0(2-4)] k by auto
  then show ?case using k by (subst free_merge.simps) (simp add: drop_bit_eq_div)
next
  case (Suc m)
  then have k: "k < MAX_ORDER" by simp
  have idx: "drop_bit k (i * 2 ^ k) = i" by (simp add: drop_bit_eq_div)
  show ?case
  proof (cases "(k, i XOR 1) \<in> blocks_of b")
    case True
    from take_block [OF Suc.prems(1) True] obtain b1 b2 where t:
      "clear_bit k (i XOR 1) b = Return b1" "sub_free_count (push_bit k 1) b1 = Return b2" "blocks_ok b2"
      "free_pages b2 = free_pages b - block (k, i XOR 1)" "block (k, i XOR 1) \<subseteq> free_pages b"
      "allocated b2 = allocated b" "total_pages b2 = total_pages b"
      by blast
    have "block (Suc k, i div 2) \<inter> free_pages b2 = {}"
      unfolding block_parent t(4) using Suc.prems(3) by blast
    moreover have "inside (total_pages b2) (Suc k, i div 2)"
      unfolding t(7) by (rule inside_parent [OF k Suc.prems(2) inside_pages [OF Suc.prems(1) True]])
    moreover have "m = MAX_ORDER - Suc k" using Suc.hyps(2) by simp
    ultimately obtain b' where b': "free_merge (i div 2 * 2 ^ Suc k) (Suc k) b2 = Return b'" "blocks_ok b'"
      "free_pages b' = free_pages b2 \<union> block (Suc k, i div 2)" "allocated b' = allocated b2"
      "total_pages b' = total_pages b2"
      using Suc.hyps(1) [OF _ t(3)] by blast
    have "free_pages b' = free_pages b \<union> block (k, i)"
      unfolding b'(3) t(4) block_parent using t(5) by blast
    moreover have "free_merge (i * 2 ^ k) k b = Return b'"
      using k True t(1,2) b'(1) unfolding free_merge.simps [of "i * 2 ^ k"] Let_def idx
      buddy_test [OF Suc.prems(1) k] unset_bit_parent by simp
    ultimately show ?thesis using b' t by simp
  next
    case False
    then obtain b1 where b1: "set_bit k i b = Return b1" "blocks_ok (add_free_count (push_bit k 1) b1)"
      "free_pages (add_free_count (push_bit k 1) b1) = free_pages b \<union> block (k, i)"
      "allocated (add_free_count (push_bit k 1) b1) = allocated b"
      "total_pages (add_free_count (push_bit k 1) b1) = total_pages b"
      using put_block [OF Suc.prems] by auto
    have "free_merge (i * 2 ^ k) k b = Return (add_free_count (push_bit k 1) b1)"
      using k False b1(1) unfolding free_merge.simps [of "i * 2 ^ k"] Let_def idx
      buddy_test [OF Suc.prems(1) k] by simp
    with b1 show ?thesis by blast
  qed
qed

text \<open>When a free is accepted, and what it then does.\<close>

definition free_legal :: "nat \<Rightarrow> nat \<Rightarrow> BuddyAllocator \<Rightarrow> bool" where
  "free_legal page order b \<longleftrightarrow>
     order \<le> MAX_ORDER \<and> page + 2 ^ order \<le> total_pages b \<and> page mod 2 ^ order = 0 \<and>
     (\<forall>p \<in> page_run page order. page_allocated b p)"

definition free_gives :: "nat \<Rightarrow> nat \<Rightarrow> BuddyAllocator \<Rightarrow> BuddyAllocator \<Rightarrow> bool" where
  "free_gives page order b b' \<longleftrightarrow>
     free_pages b' = free_pages b \<union> page_run page order \<and> total_pages b' = total_pages b \<and>
     (\<forall>q < MAX_PAGES. page_allocated b' q \<longleftrightarrow> q \<notin> page_run page order \<and> page_allocated b q)"

lemma buddy_free_legal:
  assumes "buddy_inv b" and "free_legal page order b"
  shows "\<exists>b'. buddy_free page order b = Return b' \<and> buddy_inv b' \<and> free_gives page order b b'"
proof -
  note legal = assms(2) [unfolded free_legal_def]
  have ok: "blocks_ok b" using assms(1) by (simp add: buddy_inv_def)
  define i where "i = page div 2 ^ order"
  have page: "page = i * 2 ^ order" using legal div_mult_mod_eq [of page "2 ^ order"] by (simp add: i_def)
  have below: "\<forall>p \<in> page_run page order. p < MAX_PAGES"
    using legal ok by (auto simp: page_run_def blocks_ok_def)
  obtain b1 where b1: "unmark_allocated (map (\<lambda>i. page + i) [0..<push_bit order 1]) b = Return b1"
    "bitmap b1 = bitmap b" "total_pages b1 = total_pages b" "free_count b1 = free_count b"
    "\<And>q. q < MAX_PAGES \<Longrightarrow> page_allocated b1 q \<longleftrightarrow> q \<notin> page_run page order \<and> page_allocated b q"
    using unmark_allocated_spec [OF _ page_run_list(2), of page order b] below legal
    unfolding page_run_list(1) by auto
  note same = same_blocks [OF b1(2-4)]
  have "block (order, i) \<inter> free_pages b1 = {}"
    using legal assms(1) page_run_block [of i order] by (auto simp: same page buddy_inv_def)
  moreover have "inside (total_pages b1) (order, i)"
    using legal b1(3) by (simp add: inside_def page add.commute)
  ultimately obtain b' where b': "free_merge (i * 2 ^ order) order b1 = Return b'" "blocks_ok b'"
    "free_pages b' = free_pages b1 \<union> block (order, i)" "allocated b' = allocated b1"
    "total_pages b' = total_pages b1"
    using free_merge_spec [of b1 order i] ok same by blast
  have pa: "page_allocated b' q = page_allocated b1 q" for q
    using b'(4) by (rule page_allocated_cong)
  have run: "page_run page order = block (order, i)" by (simp add: page page_run_block)
  have "free_pages b \<subseteq> {..<MAX_PAGES}"
    using free_pages_below [OF ok] ok by (force simp: blocks_ok_def)
  then have "buddy_inv b'"
    using b'(2,3) b1(5) pa assms(1) run same(1) below by (auto simp: buddy_inv_def)
  moreover have "free_gives page order b b'"
    using b'(3,5) b1(3,5) pa run same(1) by (simp add: free_gives_def)
  moreover have "buddy_free page order b = Return b'"
    using legal b1(1) b'(1) by (simp add: buddy_free_def push_bit_eq_mult page)
  ultimately show ?thesis by blast
qed

lemma buddy_free_illegal:
  assumes "buddy_inv b" and "\<not> free_legal page order b"
  shows "buddy_free page order b = Panic"
proof (cases "order \<le> MAX_ORDER \<and> page + 2 ^ order \<le> total_pages b \<and> page mod 2 ^ order = 0")
  case True
  then have "\<forall>p \<in> page_run page order. p < MAX_PAGES"
    using assms(1) by (auto simp: page_run_def buddy_inv_def blocks_ok_def)
  moreover have "\<not> (\<forall>p \<in> page_run page order. page_allocated b p)"
    using True assms(2) by (simp add: free_legal_def)
  ultimately have "unmark_allocated (map (\<lambda>i. page + i) [0..<push_bit order 1]) b = Panic"
    using unmark_allocated_spec [OF _ page_run_list(2), of page order b]
    unfolding page_run_list(1) by (simp only: if_False simp_thms)
  with True show ?thesis by (simp add: buddy_free_def push_bit_eq_mult)
next
  case False
  then show ?thesis by (auto simp: buddy_free_def push_bit_eq_mult assert_then_def)
qed

subsection \<open>Adding ranges\<close>

lemma page_run_0 [simp]: "page_run p 0 = {p}"
  by (auto simp: page_run_def)

lemma free_each_spec:
  assumes "buddy_inv b" and "\<forall>p \<in> set ps. p < total_pages b \<and> page_allocated b p" and "distinct ps"
  shows "\<exists>b'. free_each ps b = Return b' \<and> buddy_inv b' \<and> free_pages b' = free_pages b \<union> set ps \<and>
    total_pages b' = total_pages b \<and>
    (\<forall>q < MAX_PAGES. page_allocated b' q \<longleftrightarrow> q \<notin> set ps \<and> page_allocated b q)"
  using assms
proof (induction ps arbitrary: b)
  case Nil
  then show ?case by simp
next
  case (Cons p ps)
  have "free_legal p 0 b" using Cons.prems by (simp add: free_legal_def page_run_0)
  then obtain b1 where b1: "buddy_free p 0 b = Return b1" "buddy_inv b1" "free_gives p 0 b b1"
    using buddy_free_legal [OF Cons.prems(1)] by blast
  note g = b1(3) [unfolded free_gives_def page_run_0]
  have "\<forall>q \<in> set ps. q < total_pages b1 \<and> page_allocated b1 q"
    using Cons.prems g by (auto simp: buddy_inv_def blocks_ok_def)
  with Cons.IH [OF b1(2)] Cons.prems(3) obtain b' where "free_each ps b1 = Return b'" "buddy_inv b'"
    "free_pages b' = free_pages b1 \<union> set ps" "total_pages b' = total_pages b1"
    "\<forall>q < MAX_PAGES. page_allocated b' q \<longleftrightarrow> q \<notin> set ps \<and> page_allocated b1 q"
    by auto
  with b1(1) g show ?case by auto
qed

lemma add_range_spec:
  assumes "buddy_inv b" and "start + n \<le> total_pages b" and "{start ..< start + n} \<inter> free_pages b = {}"
  shows "\<exists>b'. add_range start n b = Return b' \<and> buddy_inv b' \<and>
    free_pages b' = free_pages b \<union> {start ..< start + n} \<and> total_pages b' = total_pages b \<and>
    (\<forall>q < MAX_PAGES. page_allocated b' q \<longleftrightarrow> q \<notin> {start ..< start + n} \<and> page_allocated b q)"
proof -
  let ?ps = "map (\<lambda>i. start + i) [0..<n]"
  have ps: "set ?ps = {start ..< start + n}" "distinct ?ps"
    by (simp_all add: image_add_atLeastLessThan distinct_map add.commute)
  have max: "total_pages b \<le> MAX_PAGES" using assms(1) by (simp add: buddy_inv_def blocks_ok_def)
  obtain b1 where b1: "mark_allocated ?ps b = Return b1" "bitmap b1 = bitmap b"
    "total_pages b1 = total_pages b" "free_count b1 = free_count b"
    "\<And>q. q < MAX_PAGES \<Longrightarrow> page_allocated b1 q \<longleftrightarrow> q \<in> {start ..< start + n} \<or> page_allocated b q"
    using mark_allocated_spec [of ?ps b] assms(2) max unfolding ps by auto
  note same = same_blocks [OF b1(2-4)]
  have below: "free_pages b \<subseteq> {..<MAX_PAGES}"
    using free_pages_below [of b] max assms(1) by (force simp: buddy_inv_def)
  have "\<not> page_allocated b1 q" if "q \<in> free_pages b" for q
    using b1(5) [of q] subsetD [OF below that] assms(1,3) that unfolding buddy_inv_def by blast
  then have "buddy_inv b1" using assms(1) same by (simp add: buddy_inv_def)
  moreover have "\<forall>p \<in> set ?ps. p < total_pages b1 \<and> page_allocated b1 p"
    unfolding ps using assms(2) max b1(3,5) by auto
  ultimately obtain b' where b': "free_each ?ps b1 = Return b'" "buddy_inv b'"
    "free_pages b' = free_pages b1 \<union> {start ..< start + n}" "total_pages b' = total_pages b1"
    "\<forall>q < MAX_PAGES. page_allocated b' q \<longleftrightarrow> q \<notin> {start ..< start + n} \<and> page_allocated b1 q"
    using free_each_spec [OF _ _ ps(2), of b1] unfolding ps(1) by blast
  have "start + n < 2 ^ 64" using assms(2) max by (simp add: MAX_PAGES_def)
  then have "add_range start n b = Return b'" using assms(2) b1(1) b'(1) by (simp add: add_range_def)
  moreover have "page_allocated b' q \<longleftrightarrow> q \<notin> {start ..< start + n} \<and> page_allocated b q" if "q < MAX_PAGES" for q
    using b'(5) b1(5) that by blast
  ultimately show ?thesis using b'(2-4) b1(3) same(1) by simp
qed

lemma buddy_init_spec:
  assumes "n \<le> MAX_PAGES"
  shows "\<exists>b'. buddy_init n b = Return b' \<and> buddy_inv b' \<and> free_pages b' = {} \<and> total_pages b' = n \<and>
    (\<forall>q. \<not> page_allocated b' q)"
  using assms
  by (simp add: buddy_init_def buddy_inv_def blocks_ok_def block_set_wf_def free_pages_def pages_of_def
      blocks_of_def block_free_def page_allocated_def)

section \<open>Runs of the allocator\<close>

text \<open>
  The states a client can reach, with the pages handed to the allocator and the blocks it has out:
  a block is given back with the page and order of its allocation.
\<close>

inductive buddy_run :: "nat set \<Rightarrow> (nat \<times> nat) set \<Rightarrow> BuddyAllocator \<Rightarrow> bool" where
  Init: "buddy_init n buddy_new = Return b \<Longrightarrow> buddy_run {} {} b"
| AddRange: "buddy_run R L b \<Longrightarrow> {start ..< start + n} \<inter> R = {} \<Longrightarrow> add_range start n b = Return b' \<Longrightarrow>
    buddy_run (R \<union> {start ..< start + n}) L b'"
| Alloc: "buddy_run R L b \<Longrightarrow> buddy_alloc order b = Return (Some page, b') \<Longrightarrow>
    buddy_run R (insert (page, order) L) b'"
| AllocNone: "buddy_run R L b \<Longrightarrow> buddy_alloc order b = Return (None, b') \<Longrightarrow> buddy_run R L b'"
| Free: "buddy_run R L b \<Longrightarrow> (page, order) \<in> L \<Longrightarrow> buddy_free page order b = Return b' \<Longrightarrow>
    buddy_run R (L - {(page, order)}) b'"

definition live_pages :: "(nat \<times> nat) set \<Rightarrow> nat set" where
  "live_pages L = (\<Union>(page, order) \<in> L. page_run page order)"

definition live_ok :: "nat set \<Rightarrow> (nat \<times> nat) set \<Rightarrow> BuddyAllocator \<Rightarrow> bool" where
  "live_ok R L b \<longleftrightarrow>
     R \<subseteq> {..<total_pages b} \<and> free_pages b = R - live_pages L \<and> live_pages L \<subseteq> R \<and>
     (\<forall>q < MAX_PAGES. page_allocated b q \<longleftrightarrow> q \<in> live_pages L) \<and>
     (\<forall>(page, order) \<in> L. order \<le> MAX_ORDER \<and> page mod 2 ^ order = 0) \<and>
     (\<forall>a \<in> L. \<forall>c \<in> L. a \<noteq> c \<longrightarrow> page_run (fst a) (snd a) \<inter> page_run (fst c) (snd c) = {})"

lemma live_pages_simps [simp]:
  "live_pages {} = {}" "live_pages (insert (page, order) L) = page_run page order \<union> live_pages L"
  by (auto simp: live_pages_def)

lemma live_pages_remove:
  assumes "\<forall>a \<in> L. \<forall>c \<in> L. a \<noteq> c \<longrightarrow> page_run (fst a) (snd a) \<inter> page_run (fst c) (snd c) = {}"
    and "(page, order) \<in> L"
  shows "live_pages (L - {(page, order)}) = live_pages L - page_run page order"
proof -
  have "page_run p k \<inter> page_run page order = {}" if "(p, k) \<in> L" "(p, k) \<noteq> (page, order)" for p k
    using assms that by fastforce
  then show ?thesis by (auto simp: live_pages_def)
qed

lemma page_run_nonempty: "page \<in> page_run page order"
  by (simp add: page_run_def)

lemma live_member: "(page, order) \<in> L \<Longrightarrow> page_run page order \<subseteq> live_pages L"
  by (auto simp: live_pages_def)

lemma live_free_legal:
  assumes "buddy_inv b" and "live_ok R L b" and "(page, order) \<in> L"
  shows "free_legal page order b"
proof -
  have sub: "page_run page order \<subseteq> live_pages L" using live_member [OF assms(3)] .
  have max: "total_pages b \<le> MAX_PAGES" using assms(1) by (simp add: buddy_inv_def blocks_ok_def)
  have run: "page_run page order \<subseteq> {..<total_pages b}"
    using sub assms(2) unfolding live_ok_def by blast
  have "(0::nat) < 2 ^ order" by simp
  then have "page + (2 ^ order - 1) \<in> page_run page order" 
    unfolding page_run_def atLeastLessThan_iff by (intro conjI) linarith+
  with run have "page + (2 ^ order - 1) < total_pages b" by blast
  then have "page + 2 ^ order \<le> total_pages b" by simp
  moreover have "\<forall>p \<in> page_run page order. page_allocated b p"
    using sub run max assms(2) unfolding live_ok_def by (meson lessThan_iff order_less_le_trans subsetD)
  ultimately show ?thesis using assms(2,3) by (auto simp: free_legal_def live_ok_def)
qed

lemma live_ok_alloc:
  assumes "live_ok R L b" and "alloc_gives order b page b'" and "order \<le> MAX_ORDER"
  shows "live_ok R (insert (page, order) L) b'"
proof -
  note ok = assms(1) [unfolded live_ok_def] and g = assms(2) [unfolded alloc_gives_def]
  have "page_run page order \<inter> live_pages L = {}" using ok g by blast
  then have "page_run page order \<inter> page_run p k = {}" if "(p, k) \<in> L" for p k
    using live_member [OF that] by blast
  then have "\<forall>a \<in> insert (page, order) L. \<forall>c \<in> insert (page, order) L. a \<noteq> c \<longrightarrow>
      page_run (fst a) (snd a) \<inter> page_run (fst c) (snd c) = {}"
    using ok by (auto simp: Int_commute [of _ "page_run page order"])
  moreover have "free_pages b' = R - live_pages (insert (page, order) L)" using ok g by auto
  moreover have "live_pages (insert (page, order) L) \<subseteq> R" using ok g by auto
  ultimately show ?thesis using ok g assms(3) by (auto simp: live_ok_def)
qed

lemma live_ok_free:
  assumes "live_ok R L b" and "free_gives page order b b'" and "(page, order) \<in> L"
  shows "live_ok R (L - {(page, order)}) b'"
proof -
  note ok = assms(1) [unfolded live_ok_def] and g = assms(2) [unfolded free_gives_def]
  have lp: "live_pages (L - {(page, order)}) = live_pages L - page_run page order"
    using ok assms(3) by (intro live_pages_remove) blast+
  have "free_pages b' = R - live_pages (L - {(page, order)})"
    unfolding lp using ok g live_member [OF assms(3)] by blast
  moreover have "live_pages (L - {(page, order)}) \<subseteq> R" unfolding lp using ok by blast
  moreover have "page_allocated b' q \<longleftrightarrow> q \<in> live_pages (L - {(page, order)})" if "q < MAX_PAGES" for q
    unfolding lp using ok g that by blast
  ultimately show ?thesis using ok g by (simp add: live_ok_def)
qed

lemma live_ok_add_range:
  assumes "buddy_inv b" and "live_ok R L b" and "{start ..< start + n} \<inter> R = {}"
    and "add_range start n b = Return b'"
  shows "buddy_inv b' \<and> live_ok (R \<union> {start ..< start + n}) L b'"
proof -
  note ok = assms(2) [unfolded live_ok_def]
  have le: "start + n \<le> total_pages b"
    using assms(4) by (auto simp: add_range_def assert_then_Return_iff)
  have "{start ..< start + n} \<inter> free_pages b = {}" using ok assms(3) by blast
  with add_range_spec [OF assms(1) le] assms(4) have r: "buddy_inv b'"
    "free_pages b' = free_pages b \<union> {start ..< start + n}" "total_pages b' = total_pages b"
    "\<forall>q < MAX_PAGES. page_allocated b' q \<longleftrightarrow> q \<notin> {start ..< start + n} \<and> page_allocated b q"
    by auto
  have dis: "live_pages L \<inter> {start ..< start + n} = {}" using ok assms(3) by blast
  have "free_pages b' = R \<union> {start ..< start + n} - live_pages L" using r(2) ok dis by blast
  moreover have "R \<union> {start ..< start + n} \<subseteq> {..<total_pages b'}" using ok le r(3) by auto
  moreover have "page_allocated b' q \<longleftrightarrow> q \<in> live_pages L" if "q < MAX_PAGES" for q
    using r(4) ok that dis by blast
  ultimately show ?thesis using ok r(1) by (auto simp: live_ok_def)
qed

lemma buddy_run_ok: "buddy_run R L b \<Longrightarrow> buddy_inv b \<and> live_ok R L b"
proof (induction rule: buddy_run.induct)
  case (Init n b)
  then have "n \<le> MAX_PAGES" by (simp add: buddy_init_def assert_then_Return_iff)
  with buddy_init_spec [of n buddy_new] Init show ?case by (auto simp: live_ok_def)
next
  case (AddRange R L b start n b')
  then show ?case using live_ok_add_range by blast
next
  case (Alloc R L b order page b')
  then have "order \<le> MAX_ORDER" by (auto simp: buddy_alloc_def split: if_splits)
  with Alloc buddy_alloc_spec [of b order] live_ok_alloc show ?case by fastforce
next
  case (AllocNone R L b order b')
  then have "b' = b" using buddy_alloc_spec [of b order] by (cases "order \<le> MAX_ORDER") (auto simp: buddy_alloc_def)
  with AllocNone show ?case by simp
next
  case (Free R L b page order b')
  then have "free_legal page order b" using live_free_legal by blast
  with Free buddy_free_legal [of b page order] live_ok_free show ?case by fastforce
qed

lemma live_pages_card:
  assumes "finite L" and "\<forall>a \<in> L. \<forall>c \<in> L. a \<noteq> c \<longrightarrow> page_run (fst a) (snd a) \<inter> page_run (fst c) (snd c) = {}"
  shows "card (live_pages L) = (\<Sum>(page, order) \<in> L. 2 ^ order)"
proof -
  have "card (live_pages L) = (\<Sum>a \<in> L. card (page_run (fst a) (snd a)))"
    unfolding live_pages_def case_prod_beta
    using assms by (intro card_UN_disjoint) (auto simp: page_run_def)
  then show ?thesis by (simp add: page_run_def case_prod_beta)
qed

section \<open>Orders\<close>

lemma order_loop_least:
  assumes "1 < n" and "n \<le> 2 ^ 63" and "\<forall>j < k. 2 ^ j < n" and "k \<le> 63"
  shows "\<exists>r. order_loop n k (2 ^ k) = Return r \<and> n \<le> 2 ^ r \<and> (\<forall>j < r. 2 ^ j < n) \<and> r \<le> 63"
  using assms(3,4)
proof (induction "63 - k" arbitrary: k)
  case 0
  then show ?case using assms(2) by (subst order_loop.simps) simp
next
  case (Suc m)
  show ?case
  proof (cases "2 ^ k < n")
    case True
    have "(2::nat) ^ Suc k \<le> 2 ^ 63" using Suc.hyps(2) by (intro power_increasing) simp_all
    then have "push_bit 1 (2 ^ k :: nat) mod 2 ^ 64 = 2 ^ Suc k" by (simp add: push_bit_eq_mult)
    then have step: "order_loop n k (2 ^ k) = order_loop n (Suc k) (2 ^ Suc k)"
      using True Suc.prems(2) by (subst order_loop.simps) simp
    have "\<forall>j < Suc k. 2 ^ j < n" using True Suc.prems(1) by (simp add: less_Suc_eq)
    moreover have "m = 63 - Suc k" "Suc k \<le> 63" using Suc.hyps(2) by simp_all
    ultimately show ?thesis unfolding step by (intro Suc.hyps(1))
  next
    case False
    then show ?thesis using Suc.prems by (subst order_loop.simps) simp
  qed
qed

text \<open>Once the 64-bit size has been shifted to zero only the overflow of the order ends the loop.\<close>

lemma order_loop_zero: "0 < n \<Longrightarrow> order_loop n k 0 = Panic"
proof (induction "2 ^ 64 - k" arbitrary: k)
  case 0
  then show ?case by (subst order_loop.simps) simp
next
  case (Suc m)
  show ?case
  proof (cases "k + 1 < 2 ^ 64")
    case True
    then have "order_loop n k 0 = order_loop n (k + 1) 0" using Suc.prems by (subst order_loop.simps) simp
    moreover have "m = 2 ^ 64 - (k + 1)" using Suc.hyps(2) by linarith
    ultimately show ?thesis using Suc.hyps(1) [of "k + 1"] Suc.prems by simp
  next
    case False
    then show ?thesis using Suc.prems by (subst order_loop.simps) simp
  qed
qed

lemma order_loop_overflows:
  assumes "2 ^ 63 < n" and "n < 2 ^ 64"
    and "k \<le> 63"
  shows "order_loop n k (2 ^ k) = Panic"
  using assms(3)
proof (induction "63 - k" arbitrary: k)
  case 0
  then have "k = 63" by simp
  then have "order_loop n k (2 ^ k) = order_loop n (Suc k) 0"
    using assms by (subst order_loop.simps) (simp add: push_bit_eq_mult)
  with order_loop_zero assms show ?case by simp
next
  case (Suc m)
  have "(2::nat) ^ Suc k \<le> 2 ^ 63" using Suc.hyps(2) by (intro power_increasing) simp_all
  then have "push_bit 1 (2 ^ k :: nat) mod 2 ^ 64 = 2 ^ Suc k" "2 ^ k < n"
    using assms by (simp_all add: push_bit_eq_mult)
  moreover have "k + 1 < 2 ^ 64" using Suc.prems by simp
  ultimately have "order_loop n k (2 ^ k) = order_loop n (Suc k) (2 ^ Suc k)"
    by (subst order_loop.simps) simp
  moreover have "m = 63 - Suc k" "Suc k \<le> 63" using Suc.hyps(2) by simp_all
  ultimately show ?case using Suc.hyps(1) [of "Suc k"] by simp
qed

section \<open>Properties\<close>

text \<open>C23. An allocation of a legal order returns an aligned block of pages that were all free, marks
  exactly those pages allocated, takes exactly them off the free set and keeps the invariant; it
  returns no block only when no aligned run of that size is free anywhere, and then it changes
  nothing. It never panics.
\<close>
theorem buddy_alloc_correct:
  assumes "buddy_inv b" and "order \<le> MAX_ORDER"
  shows "(\<exists>page b'. buddy_alloc order b = Return (Some page, b') \<and> buddy_inv b' \<and> alloc_gives order b page b') \<or>
    buddy_alloc order b = Return (None, b) \<and>
    (\<forall>page. page mod 2 ^ order = 0 \<longrightarrow> \<not> page_run page order \<subseteq> free_pages b)"
  using assms by (rule buddy_alloc_spec)

lemma small_allocator:
  "\<exists>b. buddy_run {0..<8} {} b \<and> free_pages b = {0..<8} \<and> total_pages b = 8"
proof -
  obtain b0 where b0: "buddy_init 8 buddy_new = Return b0" "buddy_inv b0" "free_pages b0 = {}" "total_pages b0 = 8"
    using buddy_init_spec [of 8 buddy_new] by (auto simp: MAX_PAGES_def)
  then obtain b where b: "add_range 0 8 b0 = Return b" "free_pages b = {0..<8}" "total_pages b = 8"
    using add_range_spec [of b0 0 8] by auto
  have "buddy_run ({} \<union> {0..<0 + 8}) {} b"
    using b0(1) b(1) by (intro buddy_run.AddRange [of _ _ b0] buddy_run.Init [of 8]) simp_all
  with b show ?thesis by auto
qed

theorem buddy_alloc_correct_witness:
  "\<exists>b page b'. buddy_inv b \<and> (2::nat) \<le> MAX_ORDER \<and> buddy_alloc 2 b = Return (Some page, b') \<and>
    card (free_pages b') = 4"
proof -
  obtain b where b: "buddy_run {0..<8} {} b" "free_pages b = {0..<8}" using small_allocator by blast
  have i: "buddy_inv b" and o2: "(2::nat) \<le> MAX_ORDER"
    using buddy_run_ok [OF b(1)] by (simp_all add: MAX_ORDER_def)
  have free: "page_run 0 2 \<subseteq> free_pages b" by (simp add: b(2) page_run_def)
  then obtain page b' where r: "buddy_alloc 2 b = Return (Some page, b')" "alloc_gives 2 b page b'"
    using buddy_alloc_correct [OF i o2] by (metis mod_0)
  have "card (free_pages b') = 8 - card (page_run page 2)"
    using r(2) b(2) by (simp add: alloc_gives_def card_Diff_subset page_run_def)
  then have "card (free_pages b') = 4" by (simp add: page_run_def)
  with i o2 r show ?thesis by blast
qed

text \<open>C25. Freeing a block is accepted exactly when its order and alignment are legal, it lies inside
  memory and each of its pages is allocated; it then returns exactly those pages to the free set,
  whatever merges happen on the way, and keeps the invariant. In every other case, a double free
  included, it panics.
\<close>
theorem buddy_free_correct:
  assumes "buddy_inv b"
  shows "if free_legal page order b
    then \<exists>b'. buddy_free page order b = Return b' \<and> buddy_inv b' \<and> free_gives page order b b'
    else buddy_free page order b = Panic"
  using buddy_free_legal [OF assms] buddy_free_illegal [OF assms] by simp

theorem buddy_free_correct_witness:
  "\<exists>b. buddy_inv b \<and> buddy_free 0 0 b = Panic"
proof -
  obtain b where b: "buddy_run {0..<8} {} b" "free_pages b = {0..<8}" using small_allocator by blast
  have i: "buddy_inv b" using buddy_run_ok [OF b(1)] by simp
  then have "\<not> free_legal 0 0 b" using b(2) by (simp add: buddy_inv_def free_legal_def page_run_0)
  with i buddy_free_correct [OF i, of 0 0] show ?thesis by auto
qed

text \<open>C26. However allocations and frees interleave, the blocks a client has out never overlap, they and
  the free pages together are exactly the pages handed to the allocator, the free counter is exact,
  and giving any of those blocks back succeeds.
\<close>
theorem buddy_partition:
  assumes "buddy_run R L b"
  shows "(\<forall>a \<in> L. \<forall>c \<in> L. a \<noteq> c \<longrightarrow> page_run (fst a) (snd a) \<inter> page_run (fst c) (snd c) = {}) \<and>
    live_pages L \<union> free_pages b = R \<and> live_pages L \<inter> free_pages b = {} \<and>
    free_count b = card R - card (live_pages L) \<and>
    (\<forall>(page, order) \<in> L. \<exists>b'. buddy_free page order b = Return b')"
proof -
  have i: "buddy_inv b" and l: "live_ok R L b" using buddy_run_ok [OF assms] by auto
  note ok = l [unfolded live_ok_def]
  have "finite R" using ok by (meson finite_lessThan finite_subset)
  then have "free_count b = card R - card (live_pages L)"
    using i ok by (auto simp: buddy_inv_def blocks_ok_def card_Diff_subset finite_subset)
  moreover have "\<forall>(page, order) \<in> L. \<exists>b'. buddy_free page order b = Return b'"
    using live_free_legal [OF i l] buddy_free_legal [OF i] by blast
  ultimately show ?thesis using ok by blast
qed

theorem buddy_partition_witness:
  "\<exists>page b. buddy_run {0..<8} {(page, 2)} b \<and> free_count b = 4 \<and>
    (\<exists>b'. buddy_free page 2 b = Return b')"
proof -
  obtain b where b: "buddy_run {0..<8} {} b" "free_pages b = {0..<8}" using small_allocator by blast
  have i: "buddy_inv b" and o2: "(2::nat) \<le> MAX_ORDER"
    using buddy_run_ok [OF b(1)] by (simp_all add: MAX_ORDER_def)
  have free: "page_run 0 2 \<subseteq> free_pages b" by (simp add: b(2) page_run_def)
  then obtain page b' where r: "buddy_alloc 2 b = Return (Some page, b')"
    using buddy_alloc_spec [OF i o2] by (metis mod_0)
  from buddy_run.Alloc [OF b(1) r] have run: "buddy_run {0..<8} {(page, 2)} b'" .
  with buddy_partition [OF run] show ?thesis by (auto simp: page_run_def)
qed

text \<open>C38. \<^verbatim>\<open>order_for_count\<close> returns the least order whose block holds the count for every count
  up to \<open>2 ^ 63\<close>. Above that no power of two that fits in 64 bits is large enough: the size shifts
  to zero, and the loop runs on until the order itself overflows and panics.\<close>

theorem order_for_count_least:
  assumes "n < 2 ^ 64"
  shows "if n \<le> 2 ^ 63
    then \<exists>k. order_for_count n = Return k \<and> n \<le> 2 ^ k \<and> (\<forall>j < k. 2 ^ j < n)
    else order_for_count n = Panic"
proof -
  have "order_for_count n = Panic" if "\<not> n \<le> 2 ^ 63"
    using order_loop_overflows [of n 0] that assms by (simp add: order_for_count_def)
  moreover have "\<exists>k. order_for_count n = Return k \<and> n \<le> 2 ^ k \<and> (\<forall>j < k. 2 ^ j < n)" if le: "n \<le> 2 ^ 63"
  proof (cases "n \<le> 1")
    case True
    then show ?thesis by (simp add: order_for_count_def)
  next
    case False
    then obtain r where "order_loop n 0 1 = Return r" "n \<le> 2 ^ r" "\<forall>j < r. 2 ^ j < n"
      using order_loop_least [of n 0] le by auto
    with False show ?thesis by (simp add: order_for_count_def)
  qed
  ultimately show ?thesis by auto
qed

theorem order_for_count_least_witness:
  "order_for_count 5 = Return 3 \<and> order_for_count (2 ^ 63 + 1) = Panic"
proof -
  have p: "order_for_count (2 ^ 63 + 1) = Panic" using order_for_count_least [of "2 ^ 63 + 1"] by simp
  obtain k where k: "order_for_count 5 = Return k" "5 \<le> (2::nat) ^ k" "\<forall>j < k. 2 ^ j < (5::nat)"
    using order_for_count_least [of 5] by auto
  have "\<not> 3 < k" using k(3) by (auto dest: spec [of _ 3])
  moreover have "\<not> k \<le> 2" using k(2) power_increasing [of k 2 "2::nat"] by auto
  ultimately have "k = 3" by simp
  with k(1) p show ?thesis by (intro conjI) simp_all
qed

end
