(* ===== verification/Dma_Pool.thy ===== *)
theory Dma_Pool
  imports Lockjaw_Prelude
begin

text \<open>
  The DMA pool of \<^verbatim>\<open>lockjaw-types/src/dma_pool.rs\<close>: a bitmap of 64-bit words with a contiguous
  first-fit search. Its bitmap is the second kind of bit store of the development; the lemmas show
  that the search finds the lowest run of free pages whenever there is one, and that the cached
  counter is exact.
\<close>

definition DMA_POOL_PAGES :: nat where "DMA_POOL_PAGES = 512"
definition BITMAP_WORDS :: nat where "BITMAP_WORDS = DMA_POOL_PAGES div 64"

text \<open>The array of words is a function on indices; every access checks the array's size.\<close>

record DmaPool =
  dma_bitmap :: "nat \<Rightarrow> u64"
  allocated_pages :: nat

datatype DmaPoolError = InvalidCount | Exhausted

definition dma_empty :: DmaPool where
  "dma_empty = \<lparr>dma_bitmap = (\<lambda>i. 0), allocated_pages = 0\<rparr>"

definition dma_free_pages :: "DmaPool \<Rightarrow> nat" where
  "dma_free_pages pool = DMA_POOL_PAGES - allocated_pages pool"

definition dma_bit :: "DmaPool \<Rightarrow> nat \<Rightarrow> bool outcome" where
  "dma_bit pool idx =
     assert_then (idx div 64 < BITMAP_WORDS)
       (Return (drop_bit (idx mod 64) (dma_bitmap pool (idx div 64)) AND 1 \<noteq> 0))"

definition dma_set_bit :: "nat \<Rightarrow> bool \<Rightarrow> DmaPool \<Rightarrow> DmaPool outcome" where
  "dma_set_bit idx value pool =
     (let msk = push_bit (idx mod 64) 1 :: u64;
          w = dma_bitmap pool (idx div 64)
      in assert_then (idx div 64 < BITMAP_WORDS)
           (Return (pool\<lparr>dma_bitmap := (dma_bitmap pool)
              (idx div 64 := if value then w OR msk else w AND NOT msk)\<rparr>)))"

fun dma_set_each :: "nat list \<Rightarrow> DmaPool \<Rightarrow> DmaPool outcome" where
  "dma_set_each [] pool = Return pool"
| "dma_set_each (i # is) pool = bind_outcome (dma_set_bit i True pool) (dma_set_each is)"

text \<open>The linear scan of \<^verbatim>\<open>alloc\<close> with its two loop variables.\<close>

fun dma_scan ::
  "nat \<Rightarrow> nat list \<Rightarrow> nat option \<Rightarrow> nat \<Rightarrow> DmaPool \<Rightarrow> ((nat, DmaPoolError) result \<times> DmaPool) outcome" where
  "dma_scan n [] run_start run_len pool = Return (Err Exhausted, pool)"
| "dma_scan n (i # rest) run_start run_len pool =
     bind_outcome (dma_bit pool i) (\<lambda>used.
       if used then dma_scan n rest None 0 pool
       else
         let run_start = (if run_start = None then Some i else run_start);
             run_len = run_len + 1
         in if run_len = n
            then case run_start of
                   None \<Rightarrow> Panic
                 | Some start \<Rightarrow>
                     bind_outcome (dma_set_each (map (\<lambda>j. start + j) [0..<n]) pool) (\<lambda>pool.
                       Return (Ok start, pool\<lparr>allocated_pages := allocated_pages pool + n\<rparr>))
            else dma_scan n rest run_start run_len pool)"

definition dma_alloc :: "nat \<Rightarrow> DmaPool \<Rightarrow> ((nat, DmaPoolError) result \<times> DmaPool) outcome" where
  "dma_alloc n pool =
     (if n = 0 \<or> DMA_POOL_PAGES < n then Return (Err InvalidCount, pool)
      else dma_scan n [0..<DMA_POOL_PAGES] None 0 pool)"

fun dma_clear_each :: "nat list \<Rightarrow> DmaPool \<Rightarrow> DmaPool outcome" where
  "dma_clear_each [] pool = Return pool"
| "dma_clear_each (i # is) pool =
     bind_outcome (dma_bit pool i) (\<lambda>used.
       assert_then used (bind_outcome (dma_set_bit i False pool) (dma_clear_each is)))"

definition dma_free :: "nat \<Rightarrow> nat \<Rightarrow> DmaPool \<Rightarrow> DmaPool outcome" where
  "dma_free start_idx n pool =
     assert_then (start_idx + n \<le> DMA_POOL_PAGES)
       (bind_outcome (dma_clear_each [start_idx..<start_idx + n] pool) (\<lambda>pool.
          assert_then (n \<le> allocated_pages pool)
            (Return (pool\<lparr>allocated_pages := allocated_pages pool - n\<rparr>))))"

definition dma_contains :: "nat \<Rightarrow> bool" where
  "dma_contains page_idx \<longleftrightarrow> page_idx < DMA_POOL_PAGES"

section \<open>The bitmap\<close>

definition dma_used :: "DmaPool \<Rightarrow> nat \<Rightarrow> bool" where
  "dma_used pool i \<longleftrightarrow> bit (dma_bitmap pool (i div 64)) (i mod 64)"

lemma word64_set: "n < 64 \<Longrightarrow> bit (w OR push_bit n 1) m \<longleftrightarrow> m = n \<or> bit w m" for w :: u64
  by (auto simp: bit_or_iff bit_exp_iff)

lemma word64_clear: "n < 64 \<Longrightarrow> bit (w AND NOT (push_bit n 1)) m \<longleftrightarrow> m \<noteq> n \<and> bit w m" for w :: u64
  by (auto simp: bit_and_iff bit_not_iff bit_exp_iff dest: bit_imp_le_length)

lemma div_mod_64_eq: "p div 64 = q div 64 \<Longrightarrow> p mod 64 = q mod 64 \<Longrightarrow> p = q" for p q :: nat
  by (metis div_mult_mod_eq)

lemma dma_word_bound: "dma_contains i \<Longrightarrow> i div 64 < BITMAP_WORDS"
  by (simp add: dma_contains_def BITMAP_WORDS_def DMA_POOL_PAGES_def)

interpretation dma: bit_store dma_contains dma_bit "\<lambda>i. dma_set_bit i True" "\<lambda>i. dma_set_bit i False"
  dma_used allocated_pages
proof
  fix i pool assume v: "dma_contains i"
  note bd = dma_word_bound [OF v]
  have m: "i mod 64 < 64" by simp
  show "dma_bit pool i = Return (dma_used pool i)"
    using bd by (simp add: dma_bit_def dma_used_def bit_iff_odd_drop_bit and_one_eq odd_iff_mod_2_eq_one)
  show "\<exists>pool'. dma_set_bit i True pool = Return pool' \<and> allocated_pages pool' = allocated_pages pool \<and>
      (\<forall>j. dma_contains j \<longrightarrow> dma_used pool' j = (j = i \<or> dma_used pool j))"
    using bd word64_set [OF m] div_mod_64_eq [of _ i]
    by (auto simp: dma_set_bit_def dma_used_def Let_def)
  show "\<exists>pool'. dma_set_bit i False pool = Return pool' \<and> allocated_pages pool' = allocated_pages pool \<and>
      (\<forall>j. dma_contains j \<longrightarrow> dma_used pool' j = (j \<noteq> i \<and> dma_used pool j))"
    using bd word64_clear [OF m] div_mod_64_eq [of _ i]
    by (auto simp: dma_set_bit_def dma_used_def Let_def)
qed

definition used_pages :: "DmaPool \<Rightarrow> nat set" where
  "used_pages pool = {i. dma_contains i \<and> dma_used pool i}"

definition dma_inv :: "DmaPool \<Rightarrow> bool" where
  "dma_inv pool \<longleftrightarrow> allocated_pages pool = card (used_pages pool)"

definition free_run :: "DmaPool \<Rightarrow> nat \<Rightarrow> nat \<Rightarrow> bool" where
  "free_run pool start n \<longleftrightarrow> start + n \<le> DMA_POOL_PAGES \<and> {start ..< start + n} \<inter> used_pages pool = {}"

lemma finite_used_pages [simp]: "finite (used_pages pool)"
  by (rule finite_subset [of _ "{..<DMA_POOL_PAGES}"]) (auto simp: used_pages_def dma_contains_def)

lemma used_pages_update [simp]: "used_pages (pool\<lparr>allocated_pages := n\<rparr>) = used_pages pool"
  by (simp add: used_pages_def dma_used_def)

lemma dma_set_run:
  assumes "start + n \<le> DMA_POOL_PAGES"
  shows "\<exists>pool'. dma_set_each (map (\<lambda>j. start + j) [0..<n]) pool = Return pool' \<and>
    allocated_pages pool' = allocated_pages pool \<and>
    used_pages pool' = used_pages pool \<union> {start ..< start + n}"
proof -
  have s: "set (map (\<lambda>j. start + j) [0..<n]) = {start ..< start + n}"
    by (simp add: image_add_atLeastLessThan add.commute)
  show ?thesis
    using dma.set_list [of dma_set_each "map (\<lambda>j. start + j) [0..<n]" pool] assms
    unfolding s by (auto simp: used_pages_def dma_contains_def)
qed

section \<open>First fit\<close>

text \<open>The loop variables of the scan at index \<open>i\<close>: the free run that ends there.\<close>

definition scan_at :: "DmaPool \<Rightarrow> nat \<Rightarrow> nat \<Rightarrow> nat option \<Rightarrow> nat \<Rightarrow> bool" where
  "scan_at pool n i run_start run_len \<longleftrightarrow>
     run_start = (if run_len = 0 then None else Some (i - run_len)) \<and> run_len < n \<and> run_len \<le> i \<and>
     {i - run_len ..< i} \<inter> used_pages pool = {} \<and> (run_len < i \<longrightarrow> i - run_len - 1 \<in> used_pages pool) \<and>
     (\<forall>start. start + n \<le> i \<longrightarrow> \<not> free_run pool start n)"

lemma scan_at_used:
  assumes "scan_at pool n i rs rl" and "i \<in> used_pages pool"
  shows "scan_at pool n (Suc i) None 0"
proof -
  have "\<not> free_run pool start n" if "start + n \<le> Suc i" for start
  proof (cases "start + n \<le> i")
    case False
    then have "i \<in> {start ..< start + n}" using that assms(1) by (auto simp: scan_at_def)
    with assms(2) show ?thesis by (auto simp: free_run_def)
  qed (use assms(1) in \<open>auto simp: scan_at_def\<close>)
  with assms show ?thesis by (auto simp: scan_at_def)
qed

lemma scan_at_free:
  assumes "scan_at pool n i rs rl" and "i \<notin> used_pages pool" and "rl + 1 \<noteq> n"
  shows "scan_at pool n (Suc i) (if rs = None then Some i else rs) (rl + 1)"
proof -
  note sc = assms(1) [unfolded scan_at_def]
  have "\<not> free_run pool start n" if "start + n \<le> Suc i" for start
  proof (cases "start + n \<le> i")
    case False
    then have "start + n = Suc i" using that by simp
    then have "rl < i" "i - rl - 1 \<in> {start ..< start + n}" using sc assms(3) by auto
    with sc show ?thesis unfolding free_run_def by blast
  qed (use sc in \<open>auto simp: free_run_def\<close>)
  moreover have "{Suc i - (rl + 1) ..< Suc i} = insert i {i - rl ..< i}" using sc by auto
  ultimately show ?thesis using assms sc by (auto simp: scan_at_def)
qed

lemma dma_scan_spec:
  assumes "scan_at pool n i rs rl" and "i \<le> DMA_POOL_PAGES"
  shows "(\<exists>start pool'. dma_scan n [i..<DMA_POOL_PAGES] rs rl pool = Return (Ok start, pool') \<and>
      free_run pool start n \<and> (\<forall>s < start. \<not> free_run pool s n) \<and>
      used_pages pool' = used_pages pool \<union> {start ..< start + n} \<and>
      allocated_pages pool' = allocated_pages pool + n) \<or>
    dma_scan n [i..<DMA_POOL_PAGES] rs rl pool = Return (Err Exhausted, pool) \<and>
    (\<forall>s. \<not> free_run pool s n)"
  using assms
proof (induction "DMA_POOL_PAGES - i" arbitrary: i rs rl)
  case 0
  then have "\<forall>s. \<not> free_run pool s n" by (auto simp: scan_at_def free_run_def)
  with 0 show ?case by simp
next
  case (Suc m)
  note sc = Suc.prems(1) [unfolded scan_at_def]
  have i: "i < DMA_POOL_PAGES" "m = DMA_POOL_PAGES - Suc i" "Suc i \<le> DMA_POOL_PAGES"
    using Suc.hyps(2) by simp_all
  then have get: "dma_bit pool i = Return (i \<in> used_pages pool)"
    using dma.get_view [of i pool] by (simp add: dma_contains_def used_pages_def)
  have run: "dma_scan n [i..<DMA_POOL_PAGES] rs rl pool = dma_scan n (i # [Suc i..<DMA_POOL_PAGES]) rs rl pool"
    using i(1) by (simp add: upt_conv_Cons)
  consider (used) "i \<in> used_pages pool" | (found) "i \<notin> used_pages pool" "rl + 1 = n"
    | (grow) "i \<notin> used_pages pool" "rl + 1 \<noteq> n" by blast
  then show ?case
  proof cases
    case used
    from Suc.hyps(1) [OF i(2) scan_at_used [OF Suc.prems(1) used] i(3)] show ?thesis
      unfolding run using used get by simp
  next
    case found
    let ?start = "i - rl"
    have e: "(if rs = None then Some i else rs) = Some ?start" using sc by auto
    have le: "?start + n \<le> DMA_POOL_PAGES" using sc found i(1) by simp
    have "{?start ..< ?start + n} = insert i {i - rl ..< i}" using sc found by auto
    then have fr: "free_run pool ?start n" using sc found le by (auto simp: free_run_def)
    have lo: "\<not> free_run pool s n" if "s < ?start" for s using sc found that by auto
    obtain pool' where p: "dma_set_each (map (\<lambda>j. ?start + j) [0..<n]) pool = Return pool'"
      "allocated_pages pool' = allocated_pages pool" "used_pages pool' = used_pages pool \<union> {?start ..< ?start + n}"
      using dma_set_run [OF le] by blast
    have "dma_scan n (i # [Suc i..<DMA_POOL_PAGES]) rs rl pool =
        Return (Ok ?start, pool'\<lparr>allocated_pages := allocated_pages pool' + n\<rparr>)"
      using found get e p(1) by (simp add: Let_def)
    with fr lo p show ?thesis unfolding run by auto
  next
    case grow
    from Suc.hyps(1) [OF i(2) scan_at_free [OF Suc.prems(1) grow] i(3)] show ?thesis
      unfolding run using grow get by (simp add: Let_def)
  qed
qed

lemma scan_at_0: "0 < n \<Longrightarrow> scan_at pool n 0 None 0"
  by (simp add: scan_at_def)

lemma dma_inv_grow:
  assumes "dma_inv pool" and "free_run pool start n"
    and "used_pages pool' = used_pages pool \<union> {start ..< start + n}"
    and "allocated_pages pool' = allocated_pages pool + n"
  shows "dma_inv pool'"
proof -
  have "card (used_pages pool \<union> {start ..< start + n}) = card (used_pages pool) + n"
    using assms(2) by (subst card_Un_disjoint) (auto simp: free_run_def)
  with assms show ?thesis by (simp add: dma_inv_def)
qed

lemma dma_free_legal:
  assumes "dma_inv pool" and "start + n \<le> DMA_POOL_PAGES" and "{start ..< start + n} \<subseteq> used_pages pool"
  shows "\<exists>pool'. dma_free start n pool = Return pool' \<and> dma_inv pool' \<and>
    used_pages pool' = used_pages pool - {start ..< start + n}"
proof -
  have all: "\<forall>i \<in> set [start..<start + n]. dma_contains i" using assms(2) by (simp add: dma_contains_def)
  have used: "\<forall>i \<in> set [start..<start + n]. dma_used pool i" using assms(3) by (auto simp: used_pages_def)
  obtain p1 where p1: "dma_clear_each [start..<start + n] pool = Return p1"
    "allocated_pages p1 = allocated_pages pool"
    "\<And>j. dma_contains j \<Longrightarrow> dma_used p1 j = (j \<notin> set [start..<start + n] \<and> dma_used pool j)"
    using dma.clear_list [of dma_clear_each "[start..<start + n]" pool] all used by auto
  then have u: "used_pages p1 = used_pages pool - {start ..< start + n}" by (auto simp: used_pages_def)
  have c: "card (used_pages pool - {start ..< start + n}) = card (used_pages pool) - n" "n \<le> card (used_pages pool)"
    using assms(3) card_mono [OF finite_used_pages assms(3)] by (simp_all add: card_Diff_subset)
  with assms p1 u show ?thesis by (simp add: dma_free_def dma_inv_def)
qed

lemma dma_free_illegal:
  assumes "\<not> (start + n \<le> DMA_POOL_PAGES \<and> {start ..< start + n} \<subseteq> used_pages pool)"
  shows "dma_free start n pool = Panic"
proof (cases "start + n \<le> DMA_POOL_PAGES")
  case True
  then have "\<forall>i \<in> set [start..<start + n]. dma_contains i" by (simp add: dma_contains_def)
  moreover have "\<not> (\<forall>i \<in> set [start..<start + n]. dma_used pool i)"
    using assms True by (auto simp: used_pages_def dma_contains_def)
  ultimately have "dma_clear_each [start..<start + n] pool = Panic"
    using dma.clear_list [of dma_clear_each "[start..<start + n]" pool] by (simp only: if_False simp_thms distinct_upt dma_clear_each.simps)
  with True show ?thesis by (simp add: dma_free_def)
qed (simp add: dma_free_def)

lemma dma_alloc_cases:
  assumes "dma_inv pool" and "0 < n" and "n \<le> DMA_POOL_PAGES"
  shows "(\<exists>start pool'. dma_alloc n pool = Return (Ok start, pool') \<and> dma_inv pool' \<and>
      free_run pool start n \<and> (\<forall>s < start. \<not> free_run pool s n) \<and>
      used_pages pool' = used_pages pool \<union> {start ..< start + n}) \<or>
    dma_alloc n pool = Return (Err Exhausted, pool) \<and> (\<forall>s. \<not> free_run pool s n)"
proof (cases "\<forall>s. \<not> free_run pool s n")
  case True
  with dma_scan_spec [OF scan_at_0 [OF assms(2)], of pool] assms(2,3) show ?thesis
    by (auto simp: dma_alloc_def)
next
  case False
  with dma_scan_spec [OF scan_at_0 [OF assms(2)], of pool] assms(2,3) obtain start pool' where
    a: "dma_alloc n pool = Return (Ok start, pool')" "free_run pool start n" "\<forall>s < start. \<not> free_run pool s n"
    "used_pages pool' = used_pages pool \<union> {start ..< start + n}" "allocated_pages pool' = allocated_pages pool + n"
    by (auto simp: dma_alloc_def)
  with dma_inv_grow [OF assms(1) a(2) a(4,5)] show ?thesis by blast
qed

text \<open>C36. The DMA pool allocates first fit: a request of a legal size returns the lowest run of that
  many free pages and marks exactly it, keeps the cached counter exact, and fails only when the pool
  has no such run, changing nothing; freeing what was allocated gives exactly the run back, and
  freeing it twice panics.\<close>

theorem dma_alloc_first_fit:
  assumes "dma_inv pool" and "0 < n" and "n \<le> DMA_POOL_PAGES"
  shows "(\<exists>start pool'. dma_alloc n pool = Return (Ok start, pool') \<and> dma_inv pool' \<and>
      free_run pool start n \<and> (\<forall>s < start. \<not> free_run pool s n) \<and>
      used_pages pool' = used_pages pool \<union> {start ..< start + n} \<and>
      (\<exists>pool''. dma_free start n pool' = Return pool'' \<and> dma_inv pool'' \<and>
        used_pages pool'' = used_pages pool \<and> dma_free start n pool'' = Panic)) \<or>
    dma_alloc n pool = Return (Err Exhausted, pool) \<and> (\<forall>s. \<not> free_run pool s n)"
proof (rule disjE [OF dma_alloc_cases [OF assms]])
  assume "\<exists>start pool'. dma_alloc n pool = Return (Ok start, pool') \<and> dma_inv pool' \<and> free_run pool start n \<and>
      (\<forall>s < start. \<not> free_run pool s n) \<and> used_pages pool' = used_pages pool \<union> {start ..< start + n}"
  then obtain start pool' where a: "dma_alloc n pool = Return (Ok start, pool')" "free_run pool start n"
    "\<forall>s < start. \<not> free_run pool s n" "used_pages pool' = used_pages pool \<union> {start ..< start + n}" and i: "dma_inv pool'"
    by blast
  have fr: "start + n \<le> DMA_POOL_PAGES" "{start ..< start + n} \<inter> used_pages pool = {}"
    using a(2) by (auto simp: free_run_def)
  obtain pool'' where f: "dma_free start n pool' = Return pool''" "dma_inv pool''"
    "used_pages pool'' = used_pages pool' - {start ..< start + n}"
    using dma_free_legal [OF i fr(1)] a(4) by blast
  have same: "used_pages pool'' = used_pages pool" unfolding f(3) a(4) using fr(2) by blast
  have "start \<in> {start ..< start + n}" using assms(2) by simp
  then have "dma_free start n pool'' = Panic"
    using fr(2) unfolding same [symmetric] by (intro dma_free_illegal) blast
  with a i f same show ?thesis by blast
qed (rule disjI2)

theorem dma_alloc_first_fit_witness:
  "\<exists>pool'. dma_inv dma_empty \<and> dma_alloc 3 dma_empty = Return (Ok 0, pool') \<and> used_pages pool' = {0, 1, 2}"
proof -
  have u: "used_pages dma_empty = {}" by (simp add: used_pages_def dma_used_def dma_empty_def)
  then have i: "dma_inv dma_empty" by (simp add: dma_inv_def dma_empty_def)
  have z: "free_run dma_empty 0 3" by (simp add: free_run_def u DMA_POOL_PAGES_def)
  have n: "(0::nat) < 3" "3 \<le> DMA_POOL_PAGES" by (simp_all add: DMA_POOL_PAGES_def)
  obtain start pool' where a: "dma_alloc 3 dma_empty = Return (Ok start, pool')"
    "\<forall>s < start. \<not> free_run dma_empty s 3" "used_pages pool' = {} \<union> {start ..< start + 3}"
    using dma_alloc_first_fit [OF i n] z unfolding u by blast
  have "start = 0" using a(2) z by blast
  moreover have "{} \<union> {0 ..< 0 + 3} = {0, 1, 2 :: nat}" by auto
  ultimately show ?thesis using a i by metis
qed

end
