(* ===== verification/Page_Alloc.thy ===== *)
theory Page_Alloc
  imports Addr Buddy Dma_Pool
begin

text \<open>
  Physical memory of the running kernel: the frame allocator of \<^verbatim>\<open>src/mm/page_alloc.rs\<close> over the
  buddy allocator, the DMA pool singleton of \<^verbatim>\<open>src/cap/dma_pool.rs\<close> and the boot sequence that
  divides RAM between them. The platform's RAM description is the parameter the functions of
  \<^verbatim>\<open>src/mm/addr.rs\<close> read. The lemmas show that boot hands the buddy allocator exactly the pages that
  touch neither the kernel image, the stacks nor the pool, and that both allocators give back
  what they handed out. Checked arithmetic (overflow panics) is written out.
\<close>

record Platform =
  ram_base :: u64
  ram_size :: u64

definition ram_start :: "Platform \<Rightarrow> PhysAddr" where
  "ram_start p = PhysAddr (ram_base p)"

definition ram_end :: "Platform \<Rightarrow> PhysAddr outcome" where
  "ram_end p =
     assert_then (unat (ram_base p) + unat (ram_size p) < 2 ^ 64) (Return (PhysAddr (ram_base p + ram_size p)))"

definition ram_pages :: "Platform \<Rightarrow> nat" where
  "ram_pages p = unat (ram_size p div PAGE_SIZE)"

definition page_index :: "Platform \<Rightarrow> PhysAddr \<Rightarrow> nat outcome" where
  "page_index p addr =
     assert_then (phys_u64 (ram_start p) \<le> phys_u64 addr)
       (Return (unat ((phys_u64 addr - phys_u64 (ram_start p)) div PAGE_SIZE)))"

definition round_up_page :: "Platform \<Rightarrow> PhysAddr \<Rightarrow> nat outcome" where
  "round_up_page p addr =
     bind_outcome (page_index p addr) (\<lambda>idx.
       Return (if phys_u64 addr AND (PAGE_SIZE - 1) \<noteq> 0 then idx + 1 else idx))"

definition index_to_page :: "Platform \<Rightarrow> nat \<Rightarrow> PhysPage outcome" where
  "index_to_page p idx =
     assert_then (idx * unat PAGE_SIZE < 2 ^ 64 \<and> unat (ram_base p) + idx * unat PAGE_SIZE < 2 ^ 64)
       (Return (containing_page (PhysAddr (phys_u64 (ram_start p) + of_nat idx * PAGE_SIZE))))"

text \<open>The two static allocators and the pool's base address, zero until it is initialised.\<close>

record PhysMem =
  frames :: BuddyAllocator
  pool :: DmaPool
  pool_base :: u64

definition phys_mem_new :: PhysMem where
  "phys_mem_new = \<lparr>frames = buddy_new, pool = dma_empty, pool_base = 0\<rparr>"

definition dma_pool_init :: "u64 \<Rightarrow> PhysMem \<Rightarrow> PhysMem outcome" where
  "dma_pool_init base_phys m =
     assert_then (base_phys AND (PAGE_SIZE - 1) = 0) (Return (m\<lparr>pool_base := base_phys\<rparr>))"

definition dma_alloc_pages :: "nat \<Rightarrow> PhysMem \<Rightarrow> ((PhysAddr, DmaPoolError) result \<times> PhysMem) outcome" where
  "dma_alloc_pages n m =
     (if pool_base m = 0 then Return (Err Exhausted, m)
      else bind_outcome (dma_alloc n (pool m)) (\<lambda>(r, d).
        case r of
          Err e \<Rightarrow> Return (Err e, m\<lparr>pool := d\<rparr>)
        | Ok idx \<Rightarrow>
            assert_then (unat (pool_base m) + idx * unat PAGE_SIZE < 2 ^ 64)
              (Return (Ok (PhysAddr (pool_base m + of_nat idx * PAGE_SIZE)), m\<lparr>pool := d\<rparr>))))"

definition dma_free_pages_at :: "PhysAddr \<Rightarrow> nat \<Rightarrow> PhysMem \<Rightarrow> PhysMem outcome" where
  "dma_free_pages_at first_phys n m =
     assert_then (pool_base m \<noteq> 0)
       (assert_then (pool_base m \<le> phys_u64 first_phys)
         (let offset = phys_u64 first_phys - pool_base m in
          assert_then (offset AND (PAGE_SIZE - 1) = 0)
            (bind_outcome (dma_free (unat (offset div PAGE_SIZE)) n (pool m)) (\<lambda>d.
               Return (m\<lparr>pool := d\<rparr>)))))"

section \<open>Boot\<close>

text \<open>An \<^verbatim>\<open>if\<close> around a call of \<^verbatim>\<open>add_range\<close>.\<close>

definition add_range_if :: "bool \<Rightarrow> nat \<Rightarrow> nat \<Rightarrow> PhysMem \<Rightarrow> PhysMem outcome" where
  "add_range_if c start n m =
     (if c then bind_outcome (add_range start n (frames m)) (\<lambda>b. Return (m\<lparr>frames := b\<rparr>)) else Return m)"

text \<open>
  Region 2 of \<^verbatim>\<open>init_with_gap\<close>, the memory after the stacks: the pool is carved off its tail when
  it fits, and the buddy allocator gets the pages before and after it.
\<close>

definition carve_pool :: "Platform \<Rightarrow> nat \<Rightarrow> nat \<Rightarrow> u64 \<Rightarrow> PhysMem \<Rightarrow> PhysMem outcome" where
  "carve_pool p stacks_end_page pool_first_page pool_base_phys m =
     (let pool_last_page = pool_first_page + DMA_POOL_PAGES in
      if stacks_end_page \<le> pool_first_page \<and> pool_last_page \<le> ram_pages p
      then
        let pre_pool_count = pool_first_page - stacks_end_page;
            post_pool_count = ram_pages p - pool_last_page
        in bind_outcome (add_range_if (0 < pre_pool_count) stacks_end_page pre_pool_count m) (\<lambda>m.
           bind_outcome (add_range_if (0 < post_pool_count) pool_last_page post_pool_count m) (\<lambda>m.
             dma_pool_init pool_base_phys m))
      else add_range_if True stacks_end_page (ram_pages p - stacks_end_page) m)"

definition add_after_stacks :: "Platform \<Rightarrow> nat \<Rightarrow> PhysMem \<Rightarrow> PhysMem outcome" where
  "add_after_stacks p stacks_end_page m =
     bind_outcome (ram_end p) (\<lambda>ram_end_phys.
       let ram_start_phys = phys_u64 (ram_start p);
           l2_size_bytes = of_nat DMA_POOL_PAGES * PAGE_SIZE;
           pool_end_aligned = phys_u64 ram_end_phys AND NOT (l2_size_bytes - 1);
           pool_base_phys = (if l2_size_bytes \<le> pool_end_aligned then pool_end_aligned - l2_size_bytes else 0)
       in assert_then (ram_start_phys \<le> pool_base_phys)
            (carve_pool p stacks_end_page (unat ((pool_base_phys - ram_start_phys) div PAGE_SIZE)) pool_base_phys m))"

definition init_with_gap :: "Platform \<Rightarrow> PhysAddr \<Rightarrow> PhysAddr \<Rightarrow> PhysAddr \<Rightarrow> PhysMem \<Rightarrow> PhysMem outcome" where
  "init_with_gap p kernel_end stacks_start stacks_end m =
     bind_outcome (buddy_init (ram_pages p) (frames m)) (\<lambda>b.
     bind_outcome (round_up_page p kernel_end) (\<lambda>kernel_end_page.
     bind_outcome (page_index p stacks_start) (\<lambda>stacks_start_page.
     bind_outcome (round_up_page p stacks_end) (\<lambda>stacks_end_page.
     bind_outcome (add_range_if (kernel_end_page < stacks_start_page)
         kernel_end_page (stacks_start_page - kernel_end_page) (m\<lparr>frames := b\<rparr>)) (\<lambda>m.
     bind_outcome (if stacks_end_page < ram_pages p then add_after_stacks p stacks_end_page m else Return m) (\<lambda>m.
       assert_then (free_count (frames m) \<le> ram_pages p) (Return m)))))))"

section \<open>Allocating frames\<close>

definition alloc_order :: "Platform \<Rightarrow> nat \<Rightarrow> PhysMem \<Rightarrow> (PhysPage option \<times> PhysMem) outcome" where
  "alloc_order p order m =
     bind_outcome (buddy_alloc order (frames m)) (\<lambda>(r, b).
       case r of
         None \<Rightarrow> Return (None, m\<lparr>frames := b\<rparr>)
       | Some idx \<Rightarrow>
           bind_outcome (index_to_page p idx) (\<lambda>pg. Return (Some pg, m\<lparr>frames := b\<rparr>)))"

definition alloc_page :: "Platform \<Rightarrow> PhysMem \<Rightarrow> (PhysPage option \<times> PhysMem) outcome" where
  "alloc_page p m = alloc_order p 0 m"

definition alloc_pages_contiguous :: "Platform \<Rightarrow> nat \<Rightarrow> PhysMem \<Rightarrow> (PhysPage option \<times> PhysMem) outcome" where
  "alloc_pages_contiguous p n m =
     (if n = 0 then Return (None, m)
      else bind_outcome (order_for_count n) (\<lambda>order. alloc_order p order m))"

definition dealloc_order :: "Platform \<Rightarrow> PhysPage \<Rightarrow> nat \<Rightarrow> PhysMem \<Rightarrow> PhysMem outcome" where
  "dealloc_order p page order m =
     bind_outcome (page_index p (start_addr page)) (\<lambda>idx.
     bind_outcome (buddy_free idx order (frames m)) (\<lambda>b. Return (m\<lparr>frames := b\<rparr>)))"

definition dealloc_page :: "Platform \<Rightarrow> PhysPage \<Rightarrow> PhysMem \<Rightarrow> PhysMem outcome" where
  "dealloc_page p page m = dealloc_order p page 0 m"

definition dealloc_pages_contiguous :: "Platform \<Rightarrow> PhysPage \<Rightarrow> nat \<Rightarrow> PhysMem \<Rightarrow> PhysMem outcome" where
  "dealloc_pages_contiguous p first_page n m =
     (if n = 0 then Return m
      else bind_outcome (order_for_count n) (\<lambda>order. dealloc_order p first_page order m))"

section \<open>Addresses as numbers\<close>

text \<open>Start and size of RAM as numbers, and the bytes of a page.\<close>

definition base_of :: "Platform \<Rightarrow> nat" where "base_of p = unat (ram_base p)"

definition page_bytes :: "Platform \<Rightarrow> nat \<Rightarrow> nat set" where
  "page_bytes p i = {base_of p + i * 4096 ..< base_of p + Suc i * 4096}"

definition platform_ok :: "Platform \<Rightarrow> bool" where
  "platform_ok p \<longleftrightarrow>
     base_of p mod 4096 = 0 \<and> base_of p + unat (ram_size p) < 2 ^ 64 \<and>
     2 ^ 22 \<le> unat (ram_size p) \<and> ram_pages p \<le> MAX_PAGES"

lemma page_size_unat [simp]: "unat PAGE_SIZE = 4096"
  by (simp add: PAGE_SIZE_def)

lemma ram_pages_nat: "ram_pages p = unat (ram_size p) div 4096"
  by (simp add: ram_pages_def unat_div)

lemma unat_offset: "y \<le> x \<Longrightarrow> unat (x - y) = unat x - unat y" for x y :: u64
  by (simp add: unat_sub)

lemma page_index_nat:
  "page_index p a =
     (if base_of p \<le> unat (phys_u64 a) then Return ((unat (phys_u64 a) - base_of p) div 4096) else Panic)"
  by (auto simp: page_index_def ram_start_def base_of_def unat_div unat_offset word_le_nat_alt assert_then_def)

lemma page_offset_zero: "a AND (PAGE_SIZE - 1) = 0 \<longleftrightarrow> unat a mod 4096 = 0" for a :: u64
proof -
  have "a AND (PAGE_SIZE - 1) = 0 \<longleftrightarrow> unat (take_bit PAGE_SHIFT a) = 0"
    by (simp add: page_offset unat_eq_0)
  also have "\<dots> \<longleftrightarrow> unat a mod 4096 = 0"
    by (simp add: take_bit_eq_mod PAGE_SHIFT_def unat_mod)
  finally show ?thesis .
qed

lemma ceil_4096: "(d + 4095) div 4096 = (if d mod 4096 \<noteq> 0 then d div 4096 + 1 else d div 4096)" for d :: nat
proof -
  define q r where "q = d div 4096" and "r = d mod 4096"
  then have d: "d = q * 4096 + r" "r < 4096" by simp_all
  have "(d + 4095) div 4096 = (if r \<noteq> 0 then q + 1 else q)"
    using d by (intro div_nat_eqI) auto
  then show ?thesis by (simp add: q_def r_def)
qed

lemma round_up_page_nat:
  assumes "base_of p mod 4096 = 0" and "base_of p \<le> unat (phys_u64 a)"
  shows "round_up_page p a = Return ((unat (phys_u64 a) - base_of p + 4095) div 4096)"
proof -
  let ?d = "unat (phys_u64 a) - base_of p"
  have "unat (phys_u64 a) mod 4096 = ?d mod 4096"
    using mod_add_right_eq [of ?d "base_of p" 4096] assms by simp
  then show ?thesis
    unfolding ceil_4096 using assms(2) by (simp add: round_up_page_def page_index_nat page_offset_zero)
qed

lemma unat_mask_out: "unat (x AND NOT (of_nat DMA_POOL_PAGES * PAGE_SIZE - 1)) = unat x div 2 ^ 21 * 2 ^ 21"
  for x :: u64
proof -
  have m: "of_nat DMA_POOL_PAGES * PAGE_SIZE - 1 = (mask 21 :: u64)"
    by (simp add: DMA_POOL_PAGES_def PAGE_SIZE_def mask_eq_exp_minus_1)
  have "x AND NOT (mask 21) = push_bit 21 (drop_bit 21 x)"
    by (rule bit_eqI) (auto simp: bit_and_iff bit_not_iff bit_mask_iff bit_push_bit_iff bit_drop_bit_eq)
  moreover have "unat x div 2 ^ 21 * 2 ^ 21 < 2 ^ 64"
    using unat_u64_less [of x] div_times_less_eq_dividend [of "unat x" "2 ^ 21"] by linarith
  ultimately show ?thesis
    unfolding m by (simp add: push_bit_eq_mult unat_word_ariths unat_drop_bit)
qed

lemma l2_size_unat: "unat (of_nat DMA_POOL_PAGES * PAGE_SIZE :: u64) = 2 ^ 21"
  by (simp add: DMA_POOL_PAGES_def PAGE_SIZE_def)

section \<open>Boot hands out the unreserved pages\<close>

lemma add_range_if_run:
  assumes "buddy_run R {} (frames m)" and "total_pages (frames m) = np" and "c \<longrightarrow> start + n \<le> np"
    and "\<not> c \<longrightarrow> n = 0" and "{start ..< start + n} \<inter> R = {}"
  shows "\<exists>m'. add_range_if c start n m = Return m' \<and> buddy_run (R \<union> {start ..< start + n}) {} (frames m') \<and>
    total_pages (frames m') = np \<and> pool_base m' = pool_base m \<and> pool m' = pool m"
proof (cases c)
  case True
  have i: "buddy_inv (frames m)" and l: "live_ok R {} (frames m)" using buddy_run_ok [OF assms(1)] by auto
  have "{start ..< start + n} \<inter> free_pages (frames m) = {}"
    using l assms(5) by (simp add: live_ok_def)
  then obtain b where b: "add_range start n (frames m) = Return b" "total_pages b = total_pages (frames m)"
    using add_range_spec [OF i] True assms(2,3) by blast
  from buddy_run.AddRange [OF assms(1,5) b(1)] True b assms(2) show ?thesis
    by (simp add: add_range_if_def)
next
  case False
  with assms show ?thesis by (simp add: add_range_if_def)
qed

definition pool_pages :: "PhysMem \<Rightarrow> Platform \<Rightarrow> nat set" where
  "pool_pages m p =
     (if pool_base m = 0 then {}
      else {(unat (pool_base m) - base_of p) div 4096 ..< (unat (pool_base m) - base_of p) div 4096 + DMA_POOL_PAGES})"

text \<open>The aligned pool base: at least two pool sizes below the end, and page aligned.\<close>

lemma pool_base_numbers:
  fixes e pb :: nat
  assumes "base + 4194304 \<le> e" and "pb = e div 2097152 * 2097152 - 2097152"
  shows "2097152 \<le> e div 2097152 * 2097152" and "base < pb" and "pb mod 4096 = 0" and "pb + 2097152 \<le> e"
proof -
  have d: "e = e div 2097152 * 2097152 + e mod 2097152" "e mod 2097152 < 2097152" by simp_all
  then show "2097152 \<le> e div 2097152 * 2097152" "base < pb" "pb + 2097152 \<le> e"
    using assms by linarith+
  have "pb = 4096 * ((e div 2097152 - 1) * 512)"
    unfolding assms(2) by (simp add: diff_mult_distrib)
  then show "pb mod 4096 = 0" by simp
qed

lemma add_after_stacks_eq:
  assumes "platform_ok p"
  shows "\<exists>pb. add_after_stacks p sep m = carve_pool p sep ((unat pb - base_of p) div 4096) pb m \<and>
    base_of p < unat pb \<and> unat pb mod 4096 = 0"
proof -
  let ?e = "base_of p + unat (ram_size p)"
  let ?align = "(ram_base p + ram_size p) AND NOT (of_nat DMA_POOL_PAGES * PAGE_SIZE - 1)"
  let ?l2 = "of_nat DMA_POOL_PAGES * PAGE_SIZE :: u64"
  define pb where "pb = (if ?l2 \<le> ?align then ?align - ?l2 else 0)"
  have re: "ram_end p = Return (PhysAddr (ram_base p + ram_size p))" "unat (ram_base p + ram_size p) = ?e"
    using assms by (simp_all add: platform_ok_def base_of_def ram_end_def unat_word_ariths)
  have big: "base_of p + 4194304 \<le> ?e" using assms by (simp add: platform_ok_def)
  have al: "unat ?align = ?e div 2097152 * 2097152" using unat_mask_out re(2) by simp
  note num = pool_base_numbers [OF big refl]
  have le: "?l2 \<le> ?align" unfolding word_le_nat_alt l2_size_unat al using num(1) by simp
  then have pb: "unat pb = ?e div 2097152 * 2097152 - 2097152"
    by (simp add: pb_def unat_offset al l2_size_unat)
  have ge: "ram_base p \<le> pb" using num(2) pb by (simp add: word_le_nat_alt base_of_def)
  have first: "unat ((pb - ram_base p) div PAGE_SIZE) = (unat pb - base_of p) div 4096"
    by (simp only: unat_div unat_offset [OF ge] page_size_unat base_of_def)
  have "add_after_stacks p sep m = carve_pool p sep ((unat pb - base_of p) div 4096) pb m"
    unfolding add_after_stacks_def re(1) ram_start_def Let_def bind_outcome.simps PhysAddr.sel
      pb_def [symmetric] first using ge by (simp only: assert_then_simps)
  moreover have "base_of p < unat pb" "unat pb mod 4096 = 0" unfolding pb using num(2,3) .
  ultimately show ?thesis by (intro exI conjI)
qed

lemma carve_pool_run:
  assumes "buddy_run R {} (frames m)" and "total_pages (frames m) = ram_pages p"
    and "sep < ram_pages p" and "R \<inter> {sep ..< ram_pages p} = {}" and "pool_base m = 0"
    and "first = (unat pb - base_of p) div 4096" and "base_of p < unat pb" and "unat pb mod 4096 = 0"
  shows "\<exists>m'. carve_pool p sep first pb m = Return m' \<and>
    buddy_run (R \<union> ({sep ..< ram_pages p} - pool_pages m' p)) {} (frames m') \<and>
    total_pages (frames m') = ram_pages p \<and> pool_pages m' p \<subseteq> {sep ..< ram_pages p} \<and>
    (pool_base m' = 0 \<or> pool_base m' = pb)"
proof (cases "sep \<le> first \<and> first + DMA_POOL_PAGES \<le> ram_pages p")
  case True
  let ?last = "first + DMA_POOL_PAGES"
  have e: "sep + (first - sep) = first" "?last + (ram_pages p - ?last) = ram_pages p" using True by simp_all
  have "{sep ..< sep + (first - sep)} \<inter> R = {}" unfolding e using assms(4) True by auto
  then obtain m1 where m1: "add_range_if (0 < first - sep) sep (first - sep) m = Return m1"
    "buddy_run (R \<union> {sep ..< first}) {} (frames m1)" "total_pages (frames m1) = ram_pages p"
    using add_range_if_run [OF assms(1,2), of "0 < first - sep" sep "first - sep"] True unfolding e by auto
  have "{?last ..< ?last + (ram_pages p - ?last)} \<inter> (R \<union> {sep ..< first}) = {}"
    unfolding e using assms(4) True by auto
  then obtain m2 where m2: "add_range_if (0 < ram_pages p - ?last) ?last (ram_pages p - ?last) m1 = Return m2"
    "buddy_run (R \<union> {sep ..< first} \<union> {?last ..< ram_pages p}) {} (frames m2)"
    "total_pages (frames m2) = ram_pages p"
    using add_range_if_run [OF m1(2,3), of "0 < ram_pages p - ?last" ?last "ram_pages p - ?last"] True
    unfolding e by auto
  have nz: "pb \<noteq> 0" using assms(7) by auto
  have pp: "pool_pages (m2\<lparr>pool_base := pb\<rparr>) p = {first ..< ?last}"
    using nz by (simp add: pool_pages_def assms(6))
  have "R \<union> {sep ..< first} \<union> {?last ..< ram_pages p} = R \<union> ({sep ..< ram_pages p} - {first ..< ?last})"
    using True by auto
  then show ?thesis
    using True m1(1) m2 pp assms(8)
    by (intro exI [of _ "m2\<lparr>pool_base := pb\<rparr>"])
      (auto simp: carve_pool_def Let_def dma_pool_init_def page_offset_zero)
next
  case False
  have e: "sep + (ram_pages p - sep) = ram_pages p" using assms(3) by simp
  have "{sep ..< sep + (ram_pages p - sep)} \<inter> R = {}" unfolding e using assms(4) by auto
  then obtain m1 where "add_range_if True sep (ram_pages p - sep) m = Return m1"
    "buddy_run (R \<union> {sep ..< ram_pages p}) {} (frames m1)" "total_pages (frames m1) = ram_pages p"
    "pool_base m1 = 0"
    using add_range_if_run [OF assms(1,2), of True sep "ram_pages p - sep"] assms(5) unfolding e by auto
  with False show ?thesis by (auto simp: carve_pool_def Let_def pool_pages_def)
qed

lemma intervals_disjoint:
  "x < y \<Longrightarrow> u < v \<Longrightarrow> {x ..< y} \<inter> {u ..< v} = {} \<longleftrightarrow> y \<le> u \<or> v \<le> x" for x y u v :: nat
  by (auto simp: max_def min_def)

lemma page_clear_of:
  assumes "a < b"
  shows "page_bytes p i \<inter> {base_of p + a ..< base_of p + b} = {} \<longleftrightarrow> i < a div 4096 \<or> (b + 4095) div 4096 \<le> i"
proof -
  have "i < a div 4096 \<longleftrightarrow> Suc i * 4096 \<le> a"
    by (simp add: less_eq_Suc_le less_eq_div_iff_mult_less_eq)
  moreover have "(b + 4095) div 4096 \<le> i \<longleftrightarrow> b \<le> i * 4096"
    unfolding less_Suc_eq_le [symmetric] by (subst div_less_iff_less_mult) auto
  ultimately show ?thesis
    unfolding page_bytes_def using assms by (subst intervals_disjoint) auto
qed

definition boot_ok :: "Platform \<Rightarrow> PhysAddr \<Rightarrow> PhysAddr \<Rightarrow> PhysAddr \<Rightarrow> bool" where
  "boot_ok p kernel_end stacks_start stacks_end \<longleftrightarrow>
     platform_ok p \<and> base_of p \<le> unat (phys_u64 kernel_end) \<and> phys_u64 kernel_end \<le> phys_u64 stacks_start \<and>
     phys_u64 stacks_start < phys_u64 stacks_end \<and>
     unat (phys_u64 stacks_end) \<le> base_of p + unat (ram_size p)"

definition reserved_bytes :: "Platform \<Rightarrow> PhysAddr \<Rightarrow> PhysAddr \<Rightarrow> PhysAddr \<Rightarrow> PhysMem \<Rightarrow> nat set" where
  "reserved_bytes p kernel_end stacks_start stacks_end m =
     {base_of p ..< unat (phys_u64 kernel_end)} \<union>
     {unat (phys_u64 stacks_start) ..< unat (phys_u64 stacks_end)} \<union>
     (if pool_base m = 0 then {} else {unat (pool_base m) ..< unat (pool_base m) + DMA_POOL_PAGES * 4096})"

lemma page_clear_pool:
  assumes "pool_base m \<noteq> 0" and "base_of p \<le> unat (pool_base m)" and "unat (pool_base m) mod 4096 = 0"
    and "base_of p mod 4096 = 0"
  shows "page_bytes p i \<inter> {unat (pool_base m) ..< unat (pool_base m) + DMA_POOL_PAGES * 4096} = {} \<longleftrightarrow>
    i \<notin> pool_pages m p"
proof -
  define d where "d = unat (pool_base m) - base_of p"
  have e: "unat (pool_base m) = base_of p + d" using assms(2) by (simp add: d_def)
  have "d mod 4096 = 0" using assms(3,4) mod_add_left_eq [of "base_of p" 4096 d] unfolding e by simp
  then obtain k where k: "d = k * 4096" by (metis dvdE mod_0_imp_dvd mult.commute)
  have "page_bytes p i \<inter> {unat (pool_base m) ..< unat (pool_base m) + DMA_POOL_PAGES * 4096} = {} \<longleftrightarrow>
      i < k \<or> k + DMA_POOL_PAGES \<le> i"
    using page_clear_of [of d "d + DMA_POOL_PAGES * 4096" p i]
    by (simp add: e k DMA_POOL_PAGES_def add.assoc)
  then show ?thesis using assms(1) by (auto simp: pool_pages_def e k)
qed

lemma boot_pages:
  assumes "boot_ok p ke ss se" and "pool_pages m p \<subseteq> {(unat (phys_u64 se) - base_of p + 4095) div 4096 ..< ram_pages p}"
    and "pool_base m = 0 \<or> base_of p < unat (pool_base m) \<and> unat (pool_base m) mod 4096 = 0"
  shows "{i. i < ram_pages p \<and> page_bytes p i \<inter> reserved_bytes p ke ss se m = {}} =
    {(unat (phys_u64 ke) - base_of p + 4095) div 4096 ..< (unat (phys_u64 ss) - base_of p) div 4096} \<union>
    ({(unat (phys_u64 se) - base_of p + 4095) div 4096 ..< ram_pages p} - pool_pages m p)"
proof -
  define k s e where "k = unat (phys_u64 ke) - base_of p" and "s = unat (phys_u64 ss) - base_of p"
    and "e = unat (phys_u64 se) - base_of p"
  have u: "unat (phys_u64 ke) = base_of p + k" "unat (phys_u64 ss) = base_of p + s"
    "unat (phys_u64 se) = base_of p + e" and o: "k \<le> s" "s < e" "e \<le> unat (ram_size p)"
    using assms(1) by (auto simp: boot_ok_def k_def s_def e_def word_le_nat_alt word_less_nat_alt)
  have al: "base_of p mod 4096 = 0" using assms(1) by (simp add: boot_ok_def platform_ok_def)
  have kern: "page_bytes p i \<inter> {base_of p ..< base_of p + k} = {} \<longleftrightarrow> (k + 4095) div 4096 \<le> i" for i
    using page_clear_of [of 0 k p i] by (cases "k = 0") simp_all
  note stk = page_clear_of [OF o(2), of p]
  have pl: "page_bytes p i \<inter> (if pool_base m = 0 then {} else
      {unat (pool_base m) ..< unat (pool_base m) + DMA_POOL_PAGES * 4096}) = {} \<longleftrightarrow> i \<notin> pool_pages m p" for i
  proof (cases "pool_base m = 0")
    case False
    then show ?thesis using page_clear_pool [OF False _ _ al, of i] assms(3) by simp
  qed (simp add: pool_pages_def)
  have mono: "s div 4096 \<le> ram_pages p" "(k + 4095) div 4096 \<le> (e + 4095) div 4096"
    "s div 4096 \<le> (e + 4095) div 4096"
    using o by (auto simp: ram_pages_nat intro!: div_le_mono)
  have "i < ram_pages p \<and> page_bytes p i \<inter> reserved_bytes p ke ss se m = {} \<longleftrightarrow>
      i < ram_pages p \<and> (k + 4095) div 4096 \<le> i \<and> (i < s div 4096 \<or> (e + 4095) div 4096 \<le> i) \<and> i \<notin> pool_pages m p" for i
    unfolding reserved_bytes_def Int_Un_distrib Un_empty u kern stk pl by blast
  moreover have "pool_pages m p \<subseteq> {(e + 4095) div 4096 ..< ram_pages p}" using assms(2) by (simp add: e_def)
  ultimately show ?thesis unfolding k_def [symmetric] s_def [symmetric] e_def [symmetric]
    using mono by auto
qed

lemma free_count_bound: "buddy_inv b \<Longrightarrow> free_count b \<le> total_pages b"
  using free_pages_below [of b] card_mono [of "{..<total_pages b}" "free_pages b"]
  by (simp add: buddy_inv_def blocks_ok_def)

lemma after_stacks_run:
  assumes "platform_ok p" and "buddy_run R {} (frames m)" and "total_pages (frames m) = ram_pages p"
    and "pool_base m = 0" and "R \<inter> {ep ..< ram_pages p} = {}"
  shows "\<exists>m'. (if ep < ram_pages p then add_after_stacks p ep m else Return m) = Return m' \<and>
    buddy_run (R \<union> ({ep ..< ram_pages p} - pool_pages m' p)) {} (frames m') \<and>
    total_pages (frames m') = ram_pages p \<and> pool_pages m' p \<subseteq> {ep ..< ram_pages p} \<and>
    (pool_base m' = 0 \<or> base_of p < unat (pool_base m') \<and> unat (pool_base m') mod 4096 = 0)"
proof (cases "ep < ram_pages p")
  case True
  obtain pb where pb: "add_after_stacks p ep m = carve_pool p ep ((unat pb - base_of p) div 4096) pb m"
    "base_of p < unat pb" "unat pb mod 4096 = 0"
    using add_after_stacks_eq [OF assms(1), of ep m] by (elim exE conjE)
  from carve_pool_run [OF assms(2,3) True assms(5,4) refl pb(2,3)] pb True show ?thesis by auto
next
  case False
  then show ?thesis using assms by (simp add: pool_pages_def)
qed

lemma init_with_gap_run:
  assumes "boot_ok p ke ss se"
  shows "\<exists>m'. init_with_gap p ke ss se phys_mem_new = Return m' \<and>
    buddy_run {i. i < ram_pages p \<and> page_bytes p i \<inter> reserved_bytes p ke ss se m' = {}} {} (frames m') \<and>
    total_pages (frames m') = ram_pages p \<and> pool_pages m' p \<subseteq> {..<ram_pages p} \<and>
    (pool_base m' = 0 \<or> base_of p < unat (pool_base m') \<and> unat (pool_base m') mod 4096 = 0)"
proof -
  define kp sp ep where "kp = (unat (phys_u64 ke) - base_of p + 4095) div 4096"
    and "sp = (unat (phys_u64 ss) - base_of p) div 4096"
    and "ep = (unat (phys_u64 se) - base_of p + 4095) div 4096"
  have pl: "platform_ok p" using assms by (simp add: boot_ok_def)
  then have al: "base_of p mod 4096 = 0" and np: "ram_pages p \<le> MAX_PAGES" by (simp_all add: platform_ok_def)
  have ge: "base_of p \<le> unat (phys_u64 ke)" "base_of p \<le> unat (phys_u64 ss)" "base_of p \<le> unat (phys_u64 se)"
    "unat (phys_u64 ss) \<le> base_of p + unat (ram_size p)" "unat (phys_u64 ss) \<le> unat (phys_u64 se)"
    using assms by (auto simp: boot_ok_def word_le_nat_alt word_less_nat_alt)
  have idx: "round_up_page p ke = Return kp" "page_index p ss = Return sp" "round_up_page p se = Return ep"
    using ge al by (simp_all add: round_up_page_nat page_index_nat kp_def sp_def ep_def)
  have le: "sp \<le> ram_pages p" "sp \<le> ep"
    using ge by (auto simp: sp_def ep_def ram_pages_nat intro!: div_le_mono)
  obtain b where b: "buddy_init (ram_pages p) buddy_new = Return b" "total_pages b = ram_pages p"
    using buddy_init_spec [OF np] by blast
  let ?m0 = "phys_mem_new\<lparr>frames := b\<rparr>"
  have "buddy_run {} {} (frames ?m0)" using buddy_run.Init [OF b(1)] by simp
  then obtain m1 where m1: "add_range_if (kp < sp) kp (sp - kp) ?m0 = Return m1"
    "buddy_run {kp ..< kp + (sp - kp)} {} (frames m1)" "total_pages (frames m1) = ram_pages p" "pool_base m1 = 0"
    using add_range_if_run [of "{}" ?m0 "ram_pages p" "kp < sp" kp "sp - kp"] b(2) le
    by (auto simp: phys_mem_new_def)
  have R1: "{kp ..< kp + (sp - kp)} = {kp ..< sp}" by auto
  have dis: "{kp ..< sp} \<inter> {ep ..< ram_pages p} = {}" using le(2) by auto
  obtain m2 where m2: "(if ep < ram_pages p then add_after_stacks p ep m1 else Return m1) = Return m2"
    "buddy_run ({kp ..< sp} \<union> ({ep ..< ram_pages p} - pool_pages m2 p)) {} (frames m2)"
    "total_pages (frames m2) = ram_pages p" "pool_pages m2 p \<subseteq> {ep ..< ram_pages p}"
    "pool_base m2 = 0 \<or> base_of p < unat (pool_base m2) \<and> unat (pool_base m2) mod 4096 = 0"
    using after_stacks_run [OF pl m1(2-4) [unfolded R1] dis] by (elim exE conjE)
  have "free_count (frames m2) \<le> ram_pages p"
    using free_count_bound buddy_run_ok [OF m2(2)] m2(3) by fastforce
  then have "init_with_gap p ke ss se phys_mem_new = Return m2"
    using b(1) m1(1) m2(1) by (simp add: init_with_gap_def idx phys_mem_new_def)
  moreover have "buddy_run {i. i < ram_pages p \<and> page_bytes p i \<inter> reserved_bytes p ke ss se m2 = {}} {} (frames m2)"
    unfolding boot_pages [OF assms m2(4) [unfolded ep_def] m2(5)] using m2(2) by (simp add: kp_def sp_def ep_def)
  moreover have "pool_pages m2 p \<subseteq> {..<ram_pages p}" using m2(4) by auto
  ultimately show ?thesis using m2(3,5) by (intro exI [of _ m2] conjI)
qed

text \<open>Boot fixes where the pool lies and hands none of it out.\<close>

lemma add_range_if_pool: "add_range_if c a n m = Return m' \<Longrightarrow> pool m' = pool m"
  by (auto simp: add_range_if_def bind_outcome_Return_iff split: if_splits)

lemma carve_pool_pool: "carve_pool p a b c m = Return m' \<Longrightarrow> pool m' = pool m"
  by (auto simp: carve_pool_def Let_def dma_pool_init_def bind_outcome_Return_iff assert_then_Return_iff
      dest!: add_range_if_pool split: if_splits)

lemma init_with_gap_pool: "init_with_gap p ke ss se m = Return m' \<Longrightarrow> pool m' = pool m"
  by (auto simp: init_with_gap_def add_after_stacks_def Let_def bind_outcome_Return_iff assert_then_Return_iff
      dest!: add_range_if_pool carve_pool_pool split: if_splits)

section \<open>Frames\<close>

lemma index_to_page_nat:
  assumes "platform_ok p" and "idx < ram_pages p"
  shows "\<exists>pg. index_to_page p idx = Return pg \<and> unat (phys_u64 (start_addr pg)) = base_of p + idx * 4096 \<and>
    page_index p (start_addr pg) = Return idx"
proof -
  have "idx < unat (ram_size p) div 4096" using assms(2) by (simp add: ram_pages_nat)
  then have "idx * 4096 \<le> unat (ram_size p)"
    by (metis div_times_less_eq_dividend less_imp_le_nat mult_le_mono1 order_trans)
  then have b: "base_of p + idx * 4096 < 2 ^ 64" using assms(1) by (simp add: platform_ok_def)
  let ?a = "ram_base p + of_nat idx * PAGE_SIZE"
  have w: "unat (of_nat idx * PAGE_SIZE :: u64) = idx * 4096"
    using b by (simp add: PAGE_SIZE_def unat_word_ariths unat_of_nat mod_simps)
  have a: "unat ?a = base_of p + idx * 4096" using b by (simp add: unat_word_ariths(1) w base_of_def)
  have "(base_of p + idx * 4096) mod 4096 = 0" using assms(1) by (simp add: platform_ok_def)
  then have "?a AND (PAGE_SIZE - 1) = 0" unfolding page_offset_zero a .
  then have st: "start_addr (containing_page (PhysAddr ?a)) = PhysAddr ?a"
    by (simp add: start_addr_containing page_offset)
  have i: "index_to_page p idx = Return (containing_page (PhysAddr ?a))"
    using b by (simp add: index_to_page_def ram_start_def base_of_def)
  then show ?thesis
    using a by (intro exI [of _ "containing_page (PhysAddr ?a)"]) (simp add: st page_index_nat)
qed

lemma order_fits:
  assumes "0 < n" and "n \<le> 2 ^ 63"
  shows "\<exists>k. order_for_count n = Return k \<and> n \<le> 2 ^ k \<and> (\<forall>j < k. 2 ^ j < n)"
proof (cases "n \<le> 1")
  case False
  then show ?thesis using order_loop_least [of n 0] assms by (auto simp: order_for_count_def)
qed (simp add: order_for_count_def)

lemma order_unique:
  assumes "0 < n" and "n \<le> 2 ^ 63" and "n \<le> 2 ^ k" and "\<forall>j < k. 2 ^ j < n"
  shows "order_for_count n = Return k"
proof -
  obtain r where r: "order_for_count n = Return r" "n \<le> 2 ^ r" "\<forall>j < r. 2 ^ j < n"
    using order_fits [OF assms(1,2)] by blast
  have "\<not> r < k" using assms(4) r(2) by (auto simp: not_less dest: spec [of _ r])
  moreover have "\<not> k < r" using assms(3) r(3) by (auto simp: not_less dest: spec [of _ k])
  ultimately show ?thesis using r(1) by simp
qed

lemma oversized_run:
  assumes "buddy_inv b" and "\<not> k \<le> MAX_ORDER"
  shows "\<not> page_run idx k \<subseteq> free_pages b"
proof
  assume sub: "page_run idx k \<subseteq> free_pages b"
  have "(2::nat) ^ Suc MAX_ORDER \<le> 2 ^ k" using assms(2) by (intro power_increasing) simp_all
  then have big: "MAX_PAGES < 2 ^ k" by (simp add: MAX_ORDER_def MAX_PAGES_def)
  then have "idx + (2 ^ k - 1) \<in> free_pages b" using sub by (auto simp: page_run_def)
  then have "idx + (2 ^ k - 1) < total_pages b" "total_pages b \<le> MAX_PAGES"
    using assms(1) free_pages_below [of b] by (auto simp: buddy_inv_def blocks_ok_def)
  with big show False by linarith
qed

lemma alloc_order_spec:
  assumes "platform_ok p" and "buddy_run R L (frames m)" and "total_pages (frames m) = ram_pages p"
  shows "(\<exists>idx pg m'. alloc_order p k m = Return (Some pg, m') \<and> alloc_gives k (frames m) idx (frames m') \<and>
      buddy_run R (insert (idx, k) L) (frames m') \<and> (idx, k) \<notin> L \<and>
      unat (phys_u64 (start_addr pg)) = base_of p + idx * 4096 \<and> page_index p (start_addr pg) = Return idx) \<or>
    alloc_order p k m = Return (None, m) \<and>
    (\<forall>idx. idx mod 2 ^ k = 0 \<longrightarrow> \<not> page_run idx k \<subseteq> free_pages (frames m))"
proof (cases "k \<le> MAX_ORDER")
  case False
  have "buddy_inv (frames m)" using buddy_run_ok [OF assms(2)] by blast
  from False oversized_run [OF this] show ?thesis by (simp add: alloc_order_def buddy_alloc_def)
next
  case True
  have i: "buddy_inv (frames m)" and l: "live_ok R L (frames m)" using buddy_run_ok [OF assms(2)] by auto
  show ?thesis
  proof (rule disjE [OF buddy_alloc_spec [OF i True]])
    assume "\<exists>idx b'. buddy_alloc k (frames m) = Return (Some idx, b') \<and> buddy_inv b' \<and> alloc_gives k (frames m) idx b'"
    then obtain idx b' where a: "buddy_alloc k (frames m) = Return (Some idx, b')" "alloc_gives k (frames m) idx b'"
      by blast
    have free: "page_run idx k \<subseteq> free_pages (frames m)" using a(2) by (simp add: alloc_gives_def)
    then have "idx \<in> free_pages (frames m)" using page_run_nonempty by blast
    then have "idx < ram_pages p" using free_pages_below [of "frames m"] i assms(3) by (auto simp: buddy_inv_def)
    then obtain pg where pg: "index_to_page p idx = Return pg"
      "unat (phys_u64 (start_addr pg)) = base_of p + idx * 4096" "page_index p (start_addr pg) = Return idx"
      using index_to_page_nat [OF assms(1)] by blast
    have "(idx, k) \<notin> L"
      using live_member [of idx k L] l free page_run_nonempty [of idx k] by (auto simp: live_ok_def)
    with a pg buddy_run.Alloc [OF assms(2) a(1)] show ?thesis
      by (intro disjI1 exI [of _ idx] exI [of _ pg] exI [of _ "m\<lparr>frames := b'\<rparr>"]) (simp add: alloc_order_def)
  qed (simp add: alloc_order_def)
qed

lemma dealloc_order_live:
  assumes "buddy_run R L (frames m)" and "(idx, k) \<in> L" and "page_index p (start_addr pg) = Return idx"
  shows "\<exists>m'. dealloc_order p pg k m = Return m' \<and> free_gives idx k (frames m) (frames m') \<and> buddy_inv (frames m')"
proof -
  have i: "buddy_inv (frames m)" and l: "live_ok R L (frames m)" using buddy_run_ok [OF assms(1)] by auto
  from buddy_free_legal [OF i live_free_legal [OF i l assms(2)]] assms(3) show ?thesis
    by (auto simp: dealloc_order_def)
qed

lemma dealloc_order_twice:
  assumes "buddy_inv (frames m)" and "page_run idx k \<subseteq> free_pages (frames m)"
    and "page_index p (start_addr pg) = Return idx"
  shows "dealloc_order p pg k m = Panic"
proof -
  have "\<not> free_legal idx k (frames m)"
    using assms(1,2) page_run_nonempty [of idx k] by (auto simp: free_legal_def buddy_inv_def)
  from buddy_free_illegal [OF assms(1) this] assms(3) show ?thesis by (simp add: dealloc_order_def)
qed

text \<open>
  The frame allocator as its clients see it: \<open>frame_at\<close> is the frame with a given index, and the
  frames free and handed out are those of the buddy allocator's pages.
\<close>

definition frame_at :: "Platform \<Rightarrow> nat \<Rightarrow> PhysPage" where
  "frame_at p i = containing_page (PhysAddr (ram_base p + of_nat i * PAGE_SIZE))"

definition frames_ok :: "Platform \<Rightarrow> PhysMem \<Rightarrow> bool" where
  "frames_ok p m \<longleftrightarrow> platform_ok p \<and> buddy_inv (frames m) \<and> total_pages (frames m) = ram_pages p"

definition free_frames :: "Platform \<Rightarrow> PhysMem \<Rightarrow> PhysPage set" where
  "free_frames p m = frame_at p ` free_pages (frames m)"

definition taken_frames :: "Platform \<Rightarrow> PhysMem \<Rightarrow> PhysPage set" where
  "taken_frames p m = frame_at p ` {i. i < ram_pages p \<and> page_allocated (frames m) i}"

lemma frame_at_index:
  assumes "platform_ok p" and "i < ram_pages p"
  shows "index_to_page p i = Return (frame_at p i)" and "page_index p (start_addr (frame_at p i)) = Return i"
    and "unat (phys_u64 (start_addr (frame_at p i))) = base_of p + i * 4096"
proof -
  obtain pg where pg: "index_to_page p i = Return pg" "unat (phys_u64 (start_addr pg)) = base_of p + i * 4096"
    "page_index p (start_addr pg) = Return i"
    using index_to_page_nat [OF assms] by blast
  then have "pg = frame_at p i"
    by (simp add: index_to_page_def frame_at_def ram_start_def assert_then_Return_iff)
  with pg show "index_to_page p i = Return (frame_at p i)" "page_index p (start_addr (frame_at p i)) = Return i"
    "unat (phys_u64 (start_addr (frame_at p i))) = base_of p + i * 4096" by simp_all
qed

lemma frame_at_eq_iff:
  "platform_ok p \<Longrightarrow> i < ram_pages p \<Longrightarrow> j < ram_pages p \<Longrightarrow> frame_at p i = frame_at p j \<longleftrightarrow> i = j"
  by (metis frame_at_index(2) outcome.inject)

lemma frame_containing: "containing_page (start_addr (frame_at p i)) = frame_at p i"
  by (auto simp: frame_at_def containing_page_def start_addr_def PAGE_SHIFT_def bit_eq_iff bit_simps dest: bit_imp_le_length)

lemma frames_below:
  "frames_ok p m \<Longrightarrow> i \<in> free_pages (frames m) \<Longrightarrow> i < ram_pages p"
  using free_pages_below [of "frames m"] by (auto simp: frames_ok_def buddy_inv_def)

lemma frame_image_diff:
  "frames_ok p m \<Longrightarrow> i < ram_pages p \<Longrightarrow> A \<subseteq> {..<ram_pages p} \<Longrightarrow>
    frame_at p ` (A - {i}) = frame_at p ` A - {frame_at p i}"
  by (auto simp: frames_ok_def frame_at_eq_iff subset_iff)

lemma taken_after_alloc:
  assumes "frames_ok p m" and "i < ram_pages p"
    and "\<forall>q < MAX_PAGES. page_allocated (frames m') q \<longleftrightarrow> q = i \<or> page_allocated (frames m) q"
  shows "taken_frames p m' = insert (frame_at p i) (taken_frames p m)"
proof -
  have "q < MAX_PAGES" if "q < ram_pages p" for q using that assms(1) by (simp add: frames_ok_def platform_ok_def)
  then have "{q. q < ram_pages p \<and> page_allocated (frames m') q} = insert i {q. q < ram_pages p \<and> page_allocated (frames m) q}"
    using assms(2,3) by auto
  then show ?thesis by (simp add: taken_frames_def)
qed

lemma taken_after_free:
  assumes "frames_ok p m" and "i < ram_pages p"
    and "\<forall>q < MAX_PAGES. page_allocated (frames m') q \<longleftrightarrow> q \<noteq> i \<and> page_allocated (frames m) q"
  shows "taken_frames p m' = taken_frames p m - {frame_at p i}"
proof -
  have "q < MAX_PAGES" if "q < ram_pages p" for q using that assms(1) by (simp add: frames_ok_def platform_ok_def)
  then have "{q. q < ram_pages p \<and> page_allocated (frames m') q} = {q. q < ram_pages p \<and> page_allocated (frames m) q} - {i}"
    using assms(3) by auto
  then show ?thesis using frame_image_diff [OF assms(1,2)] by (auto simp: taken_frames_def)
qed

lemma alloc_page_cases:
  assumes "frames_ok p m"
  shows "(\<exists>f m'. alloc_page p m = Return (Some f, m') \<and> frames_ok p m' \<and> f \<in> free_frames p m \<and>
      free_frames p m' = free_frames p m - {f} \<and> taken_frames p m' = insert f (taken_frames p m) \<and>
      (pool m', pool_base m') = (pool m, pool_base m)) \<or>
    alloc_page p m = Return (None, m) \<and> free_frames p m = {}"
proof -
  have i: "buddy_inv (frames m)" and pl: "platform_ok p" and t: "total_pages (frames m) = ram_pages p"
    using assms by (simp_all add: frames_ok_def)
  have "0 \<le> MAX_ORDER" by simp
  show ?thesis
  proof (rule disjE [OF buddy_alloc_spec [OF i \<open>0 \<le> MAX_ORDER\<close>]])
    assume "\<exists>idx b'. buddy_alloc 0 (frames m) = Return (Some idx, b') \<and> buddy_inv b' \<and> alloc_gives 0 (frames m) idx b'"
    then obtain idx b' where a: "buddy_alloc 0 (frames m) = Return (Some idx, b')" "buddy_inv b'"
      "alloc_gives 0 (frames m) idx b'" by blast
    let ?m = "m\<lparr>frames := b'\<rparr>"
    have g: "idx \<in> free_pages (frames m)" "free_pages b' = free_pages (frames m) - {idx}" "total_pages b' = ram_pages p"
      "\<forall>q < MAX_PAGES. page_allocated b' q \<longleftrightarrow> q = idx \<or> page_allocated (frames m) q"
      using a(3) t by (simp_all add: alloc_gives_def)
    have lt: "idx < ram_pages p" using frames_below [OF assms g(1)] .
    have "alloc_page p m = Return (Some (frame_at p idx), ?m)"
      by (simp add: alloc_page_def alloc_order_def a(1) frame_at_index(1) [OF pl lt])
    moreover have "frames_ok p ?m" using pl a(2) g(3) by (simp add: frames_ok_def)
    moreover have "free_pages (frames m) \<subseteq> {..<ram_pages p}" using frames_below [OF assms] by auto
    then have "free_frames p ?m = free_frames p m - {frame_at p idx}"
      using frame_image_diff [OF assms lt] g(2) by (simp add: free_frames_def)
    moreover have "taken_frames p ?m = insert (frame_at p idx) (taken_frames p m)"
      using taken_after_alloc [OF assms lt, of ?m] g(4) by simp
    ultimately show ?thesis using g(1) by (auto simp: free_frames_def)
  next
    assume n: "buddy_alloc 0 (frames m) = Return (None, frames m) \<and>
      (\<forall>page. page mod 2 ^ 0 = 0 \<longrightarrow> \<not> page_run page 0 \<subseteq> free_pages (frames m))"
    then have "free_pages (frames m) = {}" by auto
    with n show ?thesis by (simp add: alloc_page_def alloc_order_def free_frames_def)
  qed
qed

lemma dealloc_page_taken:
  assumes "frames_ok p m" and "f \<in> taken_frames p m"
  shows "\<exists>m'. dealloc_page p f m = Return m' \<and> frames_ok p m' \<and> free_frames p m' = insert f (free_frames p m) \<and>
    taken_frames p m' = taken_frames p m - {f} \<and> (pool m', pool_base m') = (pool m, pool_base m)"
proof -
  have i: "buddy_inv (frames m)" and pl: "platform_ok p" and t: "total_pages (frames m) = ram_pages p"
    using assms by (simp_all add: frames_ok_def)
  obtain idx where idx: "f = frame_at p idx" "idx < ram_pages p" "page_allocated (frames m) idx"
    using assms(2) by (auto simp: taken_frames_def)
  then have "free_legal idx 0 (frames m)" using t by (simp add: free_legal_def)
  then obtain b' where b: "buddy_free idx 0 (frames m) = Return b'" "buddy_inv b'" "free_gives idx 0 (frames m) b'"
    using buddy_free_legal [OF i] by blast
  let ?m = "m\<lparr>frames := b'\<rparr>"
  have g: "free_pages b' = insert idx (free_pages (frames m))" "total_pages b' = ram_pages p"
    "\<forall>q < MAX_PAGES. page_allocated b' q \<longleftrightarrow> q \<noteq> idx \<and> page_allocated (frames m) q"
    using b(3) t by (simp_all add: free_gives_def)
  have "dealloc_page p f m = Return ?m"
    by (simp add: dealloc_page_def dealloc_order_def idx(1) frame_at_index(2) [OF pl idx(2)] b(1))
  moreover have "frames_ok p ?m" using pl b(2) g(2) by (simp add: frames_ok_def)
  moreover have "taken_frames p ?m = taken_frames p m - {f}"
    unfolding idx(1) using taken_after_free [OF assms(1) idx(2), of ?m] g(3) by simp
  ultimately show ?thesis by (simp add: free_frames_def g(1) idx(1))
qed

lemma dealloc_page_free:
  assumes "frames_ok p m" and "f \<in> free_frames p m"
  shows "dealloc_page p f m = Panic"
proof -
  obtain idx where idx: "f = frame_at p idx" "idx \<in> free_pages (frames m)" using assms(2) by (auto simp: free_frames_def)
  with dealloc_order_twice [of m idx 0 p f] frame_at_index(2) frames_below [OF assms(1) idx(2)] assms(1) show ?thesis
    by (simp add: dealloc_page_def frames_ok_def)
qed

lemma free_not_taken_frames:
  assumes "frames_ok p m"
  shows "free_frames p m \<inter> taken_frames p m = {}"
proof -
  have "\<not> page_allocated (frames m) i" if "i \<in> free_pages (frames m)" for i
    using that assms by (simp add: frames_ok_def buddy_inv_def)
  then show ?thesis
    using frames_below [OF assms] assms by (auto simp: free_frames_def taken_frames_def frame_at_eq_iff frames_ok_def)
qed

interpretation frame_pool: frame_source "frames_ok p" "free_frames p" "taken_frames p"
  "\<lambda>m. (pool m, pool_base m)" "alloc_page p" "dealloc_page p" for p
  by unfold_locales (rule alloc_page_cases dealloc_page_taken dealloc_page_free free_not_taken_frames; assumption)+

section \<open>Properties\<close>

text \<open>C12. Booting divides physical memory without overlap and without waste: for every legal layout the
  boot sequence returns, and the pages it gives the buddy allocator are exactly the pages of RAM
  that touch neither the firmware and kernel image, nor the stacks, nor the DMA pool. Nothing the
  allocator hands out later can lie in a reserved region.\<close>

theorem boot_reserves:
  assumes "boot_ok p kernel_end stacks_start stacks_end"
  shows "\<exists>m. init_with_gap p kernel_end stacks_start stacks_end phys_mem_new = Return m \<and>
    buddy_run {i. i < ram_pages p \<and> page_bytes p i \<inter> reserved_bytes p kernel_end stacks_start stacks_end m = {}}
      {} (frames m) \<and>
    free_pages (frames m) =
      {i. i < ram_pages p \<and> page_bytes p i \<inter> reserved_bytes p kernel_end stacks_start stacks_end m = {}}"
proof -
  obtain m where m: "init_with_gap p kernel_end stacks_start stacks_end phys_mem_new = Return m"
    "buddy_run {i. i < ram_pages p \<and> page_bytes p i \<inter> reserved_bytes p kernel_end stacks_start stacks_end m = {}}
      {} (frames m)"
    using init_with_gap_run [OF assms] by blast
  from buddy_run_ok [OF m(2)] have "free_pages (frames m) =
      {i. i < ram_pages p \<and> page_bytes p i \<inter> reserved_bytes p kernel_end stacks_start stacks_end m = {}}"
    by (simp add: live_ok_def)
  with m show ?thesis by blast
qed

text \<open>The memory map of the QEMU virt board with 64 MiB: the kernel at its load address, the stacks
  at a 2 MiB boundary.\<close>

definition virt_board :: Platform where
  "virt_board = \<lparr>ram_base = 0x40000000, ram_size = 0x4000000\<rparr>"

lemma virt_board_boot: "boot_ok virt_board (PhysAddr 0x40180000) (PhysAddr 0x40200000) (PhysAddr 0x40220000)"
  by (simp add: boot_ok_def platform_ok_def virt_board_def base_of_def ram_pages_nat MAX_PAGES_def)

theorem boot_reserves_witness:
  "\<exists>m. init_with_gap virt_board (PhysAddr 0x40180000) (PhysAddr 0x40200000) (PhysAddr 0x40220000) phys_mem_new =
      Return m \<and> 0 \<notin> free_pages (frames m)"
proof -
  obtain m where m: "init_with_gap virt_board (PhysAddr 0x40180000) (PhysAddr 0x40200000) (PhysAddr 0x40220000)
      phys_mem_new = Return m"
    "free_pages (frames m) = {i. i < ram_pages virt_board \<and> page_bytes virt_board i \<inter>
      reserved_bytes virt_board (PhysAddr 0x40180000) (PhysAddr 0x40200000) (PhysAddr 0x40220000) m = {}}"
    using boot_reserves [OF virt_board_boot] by blast
  have "0x40000000 \<in> page_bytes virt_board 0 \<inter>
      reserved_bytes virt_board (PhysAddr 0x40180000) (PhysAddr 0x40200000) (PhysAddr 0x40220000) m"
    by (simp add: page_bytes_def reserved_bytes_def base_of_def virt_board_def)
  then have "0 \<notin> free_pages (frames m)" unfolding m(2) by blast
  with m(1) show ?thesis by blast
qed

text \<open>C29. Contiguous frame allocation is exact and round trips: in any state the client can reach, a
  request for up to \<open>2 ^ 63\<close> pages is rounded up to the least sufficient power of two \<open>2 ^ k\<close>, and it
  succeeds exactly when the free pages contain an aligned run of that many. It then returns the
  address of such a run, overlapping no live block, and takes exactly that run off the free set;
  returning it with the same count restores the free set exactly, and returning it again panics.
  Where there is no such run it returns no block and changes nothing.\<close>

theorem frames_roundtrip:
  assumes "platform_ok p" and "buddy_run R L (frames m)" and "total_pages (frames m) = ram_pages p"
    and "0 < n" and "n \<le> 2 ^ 63" and "n \<le> 2 ^ k" and "\<forall>j < k. 2 ^ j < n"
  shows "if \<exists>idx. idx mod 2 ^ k = 0 \<and> {idx ..< idx + 2 ^ k} \<subseteq> free_pages (frames m)
     then \<exists>pg m' m'' idx. alloc_pages_contiguous p n m = Return (Some pg, m') \<and>
        unat (phys_u64 (start_addr pg)) = base_of p + idx * 4096 \<and> idx mod 2 ^ k = 0 \<and>
        {idx ..< idx + 2 ^ k} \<subseteq> free_pages (frames m) \<and> {idx ..< idx + 2 ^ k} \<inter> live_pages L = {} \<and>
        free_pages (frames m') = free_pages (frames m) - {idx ..< idx + 2 ^ k} \<and>
        dealloc_pages_contiguous p pg n m' = Return m'' \<and> free_pages (frames m'') = free_pages (frames m) \<and>
        dealloc_pages_contiguous p pg n m'' = Panic
     else alloc_pages_contiguous p n m = Return (None, m)"
proof -
  have k: "order_for_count n = Return k" by (rule order_unique [OF assms(4-7)])
  have eq: "alloc_pages_contiguous p n m = alloc_order p k m"
    "\<And>pg m. dealloc_pages_contiguous p pg n m = dealloc_order p pg k m"
    using assms(4) k by (simp_all add: alloc_pages_contiguous_def dealloc_pages_contiguous_def)
  have l: "live_ok R L (frames m)" using buddy_run_ok [OF assms(2)] by blast
  show ?thesis
  proof (rule disjE [OF alloc_order_spec [OF assms(1-3), of k]])
    assume "\<exists>idx pg m'. alloc_order p k m = Return (Some pg, m') \<and> alloc_gives k (frames m) idx (frames m') \<and>
      buddy_run R (insert (idx, k) L) (frames m') \<and> (idx, k) \<notin> L \<and>
      unat (phys_u64 (start_addr pg)) = base_of p + idx * 4096 \<and> page_index p (start_addr pg) = Return idx"
    then obtain idx pg m' where a: "alloc_order p k m = Return (Some pg, m')"
      "alloc_gives k (frames m) idx (frames m')" "buddy_run R (insert (idx, k) L) (frames m')"
      "unat (phys_u64 (start_addr pg)) = base_of p + idx * 4096" "page_index p (start_addr pg) = Return idx"
      by blast
    obtain m'' where d: "dealloc_order p pg k m' = Return m''" "free_gives idx k (frames m') (frames m'')"
      "buddy_inv (frames m'')"
      using dealloc_order_live [OF a(3) insertI1 a(5)] by blast
    have run: "page_run idx k \<subseteq> free_pages (frames m)" and al: "idx mod 2 ^ k = 0"
      and left: "free_pages (frames m') = free_pages (frames m) - page_run idx k"
      using a(2) by (simp_all add: alloc_gives_def)
    have same: "free_pages (frames m'') = free_pages (frames m)"
      using a(2) d(2) by (auto simp: alloc_gives_def free_gives_def)
    have twice: "dealloc_order p pg k m'' = Panic"
      by (rule dealloc_order_twice [OF d(3) run [folded same] a(5)])
    have "page_run idx k \<inter> live_pages L = {}" using run l by (auto simp: live_ok_def)
    with a(1,4) d(1) same twice run al left have ok: "\<exists>pg m' m'' idx. alloc_order p k m = Return (Some pg, m') \<and>
        unat (phys_u64 (start_addr pg)) = base_of p + idx * 4096 \<and> idx mod 2 ^ k = 0 \<and>
        page_run idx k \<subseteq> free_pages (frames m) \<and> page_run idx k \<inter> live_pages L = {} \<and>
        free_pages (frames m') = free_pages (frames m) - page_run idx k \<and>
        dealloc_order p pg k m' = Return m'' \<and> free_pages (frames m'') = free_pages (frames m) \<and>
        dealloc_order p pg k m'' = Panic"
      by (intro exI [of _ pg] exI [of _ m'] exI [of _ m''] exI [of _ idx] conjI)
    have c: "\<exists>idx. idx mod 2 ^ k = 0 \<and> page_run idx k \<subseteq> free_pages (frames m)" using run al
      by (intro exI [of _ idx] conjI)
    show ?thesis unfolding eq page_run_def [symmetric] using c ok by simp
  qed (use eq in \<open>auto simp: page_run_def\<close>)
qed

lemma board_allocator:
  "\<exists>b. buddy_run {0..<8} {} b \<and> free_pages b = {0..<8} \<and> total_pages b = ram_pages virt_board"
proof -
  let ?n = "ram_pages virt_board"
  have n: "?n \<le> MAX_PAGES" "8 \<le> ?n" by (simp_all add: virt_board_def ram_pages_nat MAX_PAGES_def)
  obtain b0 where b0: "buddy_init ?n buddy_new = Return b0" "buddy_inv b0" "free_pages b0 = {}" "total_pages b0 = ?n"
    using buddy_init_spec [OF n(1), of buddy_new] by auto
  then obtain b where b: "add_range 0 8 b0 = Return b" "free_pages b = {0..<8}" "total_pages b = ?n"
    using add_range_spec [of b0 0 8] n by auto
  have "buddy_run ({} \<union> {0..<0 + 8}) {} b"
    using b0(1) b(1) by (intro buddy_run.AddRange [of _ _ b0] buddy_run.Init [of ?n]) simp_all
  with b show ?thesis by auto
qed

theorem frames_roundtrip_witness:
  "\<exists>m pg m' m''. buddy_run {0..<8} {} (frames m) \<and>
    alloc_pages_contiguous virt_board 3 m = Return (Some pg, m') \<and> card (free_pages (frames m')) = 4 \<and>
    dealloc_pages_contiguous virt_board pg 3 m' = Return m'' \<and> free_pages (frames m'') = {0..<8} \<and>
    dealloc_pages_contiguous virt_board pg 3 m'' = Panic"
proof -
  have pl: "platform_ok virt_board" using virt_board_boot by (simp add: boot_ok_def)
  obtain b where b: "buddy_run {0..<8} {} b" "free_pages b = {0..<8}" "total_pages b = ram_pages virt_board"
    using board_allocator by blast
  let ?m = "phys_mem_new\<lparr>frames := b\<rparr>"
  have m: "buddy_run {0..<8} {} (frames ?m)" "total_pages (frames ?m) = ram_pages virt_board" using b by simp_all
  have "2 ^ j < (3::nat)" if "j < 2" for j using that by (cases j) simp_all
  then have n: "(0::nat) < 3" "(3::nat) \<le> 2 ^ 63" "(3::nat) \<le> 2 ^ 2" "\<forall>j < 2. 2 ^ j < (3::nat)"
    by simp_all
  have ex: "\<exists>idx::nat. idx mod 2 ^ 2 = 0 \<and> {idx ..< idx + 2 ^ 2} \<subseteq> free_pages (frames ?m)"
    by (rule exI [of _ 0]) (simp add: b(2))
  obtain pg m' m'' and idx :: nat where r: "alloc_pages_contiguous virt_board 3 ?m = Return (Some pg, m')"
    "{idx ..< idx + 2 ^ 2} \<subseteq> free_pages (frames ?m)"
    "free_pages (frames m') = free_pages (frames ?m) - {idx ..< idx + 2 ^ 2}"
    "dealloc_pages_contiguous virt_board pg 3 m' = Return m''" "free_pages (frames m'') = free_pages (frames ?m)"
    "dealloc_pages_contiguous virt_board pg 3 m'' = Panic"
    using frames_roundtrip [OF pl m n] unfolding if_P [OF ex] by (elim exE conjE) (rule that)
  have "card (free_pages (frames m')) = 4" using r(2,3) b(2) by (simp add: card_Diff_subset)
  with m(1) r b(2) show ?thesis by (intro exI [of _ ?m] exI [of _ pg] exI [of _ m'] exI [of _ m'']) simp
qed

lemma pool_below_ram:
  assumes "0 < base_of p" and "base_of p + unat (ram_size p) < 2 ^ 64"
    and "(base_of p + unat (ram_size p)) div 2 ^ 21 * 2 ^ 21 < base_of p + 2 ^ 21"
  shows "add_after_stacks p ep m = Panic"
proof -
  let ?align = "(ram_base p + ram_size p) AND NOT (of_nat DMA_POOL_PAGES * PAGE_SIZE - 1)"
  let ?l2 = "of_nat DMA_POOL_PAGES * PAGE_SIZE :: u64"
  define pb where "pb = (if ?l2 \<le> ?align then ?align - ?l2 else 0)"
  have re: "ram_end p = Return (PhysAddr (ram_base p + ram_size p))"
    "unat (ram_base p + ram_size p) = base_of p + unat (ram_size p)"
    using assms(2) by (simp_all add: base_of_def ram_end_def unat_word_ariths)
  have al: "unat ?align < base_of p + 2 ^ 21" unfolding unat_mask_out re(2) using assms(3) .
  have "unat pb < base_of p"
  proof (cases "?l2 \<le> ?align")
    case True
    then have "unat pb = unat ?align - 2 ^ 21" "2 ^ 21 \<le> unat ?align"
      using l2_size_unat by (simp_all add: pb_def unat_offset word_le_nat_alt)
    with al show ?thesis by linarith
  qed (use assms(1) in \<open>simp add: pb_def\<close>)
  then have "\<not> ram_base p \<le> pb" by (simp add: word_le_nat_alt base_of_def)
  then show ?thesis
    unfolding add_after_stacks_def re(1) ram_start_def Let_def bind_outcome.simps PhysAddr.sel pb_def [symmetric]
    by (simp only: assert_then_simps)
qed

text \<open>C39. The fallback for tight memory cannot be reached when RAM is so small that the aligned pool
  would start below it: the boot sequence panics on the subtraction instead of giving the memory
  after the stacks to the buddy allocator.\<close>

theorem tight_ram_panics:
  assumes "base_of p mod 4096 = 0" and "0 < base_of p" and "base_of p + unat (ram_size p) < 2 ^ 64"
    and "ram_pages p \<le> MAX_PAGES"
    and "base_of p \<le> unat (phys_u64 ke)" and "phys_u64 ke \<le> phys_u64 ss" and "phys_u64 ss \<le> phys_u64 se"
    and "(unat (phys_u64 se) - base_of p + 4095) div 4096 < ram_pages p"
    and "(base_of p + unat (ram_size p)) div 2 ^ 21 * 2 ^ 21 < base_of p + 2 ^ 21"
  shows "init_with_gap p ke ss se phys_mem_new = Panic"
proof -
  let ?kp = "(unat (phys_u64 ke) - base_of p + 4095) div 4096" and ?sp = "(unat (phys_u64 ss) - base_of p) div 4096"
  let ?ep = "(unat (phys_u64 se) - base_of p + 4095) div 4096"
  have ge: "base_of p \<le> unat (phys_u64 ss)" "base_of p \<le> unat (phys_u64 se)"
    "unat (phys_u64 ss) \<le> unat (phys_u64 se)" using assms by (auto simp: word_le_nat_alt)
  have idx: "round_up_page p ke = Return ?kp" "page_index p ss = Return ?sp" "round_up_page p se = Return ?ep"
    using ge assms(1,5) by (simp_all add: round_up_page_nat page_index_nat)
  have "?sp \<le> ?ep" using ge by (intro div_le_mono) simp
  then have le: "?sp \<le> ram_pages p" using assms(8) by simp
  obtain b where b: "buddy_init (ram_pages p) buddy_new = Return b" "total_pages b = ram_pages p"
    using buddy_init_spec [OF assms(4)] by blast
  have "buddy_run {} {} (frames (phys_mem_new\<lparr>frames := b\<rparr>))" using buddy_run.Init [OF b(1)] by simp
  then obtain m1 where m1: "add_range_if (?kp < ?sp) ?kp (?sp - ?kp) (phys_mem_new\<lparr>frames := b\<rparr>) = Return m1"
    using add_range_if_run [of "{}" "phys_mem_new\<lparr>frames := b\<rparr>" "ram_pages p" "?kp < ?sp" ?kp "?sp - ?kp"] b(2) le
    by (auto simp: phys_mem_new_def)
  have "add_after_stacks p ?ep m1 = Panic" by (rule pool_below_ram [OF assms(2,3,9)])
  with m1 b(1) assms(8) show ?thesis by (simp add: init_with_gap_def idx phys_mem_new_def)
qed

theorem tight_ram_panics_witness:
  "init_with_gap \<lparr>ram_base = 0x40000000, ram_size = 0x100000\<rparr> (PhysAddr 0x40010000) (PhysAddr 0x40020000)
    (PhysAddr 0x40040000) phys_mem_new = Panic"
  by (rule tight_ram_panics) (simp_all add: base_of_def ram_pages_nat MAX_PAGES_def)

end
