(* ===== verification/Page_Set.thy ===== *)
theory Page_Set
  imports Page_Alloc
begin

text \<open>
  PageSets: the header layout and the tracking table of \<^verbatim>\<open>lockjaw-types/src/pageset_table.rs\<close>, the
  header pool of \<^verbatim>\<open>lockjaw-types/src/pageset_header_pool.rs\<close>, and the kernel operations over both
  and the frame allocator in \<^verbatim>\<open>src/cap/pageset_header_pool.rs\<close> and \<^verbatim>\<open>src/cap/pageset_table.rs\<close>.

  A header is a record whose \<open>page_words\<close> are the words that follow the 24 bytes of metadata. The
  header memory of the pool is a function from kernel addresses to headers: a slot has 33 pages, which
  the lemma \<open>header_pages_bound\<close> shows to be enough for every header, so slots never overlap. The
  contents of data pages are not modelled, so \<^verbatim>\<open>zero_page\<close> has no effect here.
\<close>

section \<open>Headers\<close>

definition MAX_PAGESETS :: nat where "MAX_PAGESETS = 128"
definition MAX_PRACTICAL_PAGES_PER_SET :: nat where "MAX_PRACTICAL_PAGES_PER_SET = 16384"

datatype PageSetOrigin = OriginBuddy | OriginDmaPool | OriginExternallyOwned

fun origin_raw_of :: "PageSetOrigin \<Rightarrow> u64" where
  "origin_raw_of OriginBuddy = 1"
| "origin_raw_of OriginDmaPool = 2"
| "origin_raw_of OriginExternallyOwned = 3"

definition origin_from_raw :: "u64 \<Rightarrow> PageSetOrigin option" where
  "origin_from_raw raw =
     (if raw = 1 then Some OriginBuddy else if raw = 2 then Some OriginDmaPool
      else if raw = 3 then Some OriginExternallyOwned else None)"

record PageSetHeader =
  hdr_count :: u32
  hdr_pages :: u32
  refcount :: u32
  map_count :: u32
  origin_raw :: u64
  page_words :: "nat \<Rightarrow> u64"

definition HEADER_SIZE :: nat where "HEADER_SIZE = 24"

definition header_pages_for :: "nat \<Rightarrow> nat" where
  "header_pages_for n = (HEADER_SIZE + n * 8 + unat PAGE_SIZE - 1) div unat PAGE_SIZE"

definition MAX_HEADER_PAGES_PER_PAGESET :: nat where
  "MAX_HEADER_PAGES_PER_PAGESET = header_pages_for MAX_PRACTICAL_PAGES_PER_SET"

definition origin :: "PageSetHeader \<Rightarrow> PageSetOrigin option" where
  "origin h = origin_from_raw (origin_raw h)"

definition inc_map_count :: "PageSetHeader \<Rightarrow> PageSetHeader outcome" where
  "inc_map_count h =
     (case checked_add (map_count h) 1 of None \<Rightarrow> Panic | Some c \<Rightarrow> Return (h\<lparr>map_count := c\<rparr>))"

definition dec_map_count :: "PageSetHeader \<Rightarrow> (bool \<times> PageSetHeader) outcome" where
  "dec_map_count h =
     assert_then (0 < map_count h)
       (let h = h\<lparr>map_count := map_count h - 1\<rparr> in Return (map_count h = 0 \<and> refcount h = 0, h))"

definition inc_refcount :: "PageSetHeader \<Rightarrow> PageSetHeader outcome" where
  "inc_refcount h =
     (case checked_add (refcount h) 1 of None \<Rightarrow> Panic | Some c \<Rightarrow> Return (h\<lparr>refcount := c\<rparr>))"

definition dec_refcount :: "PageSetHeader \<Rightarrow> (bool \<times> PageSetHeader) outcome" where
  "dec_refcount h =
     assert_then (0 < refcount h)
       (let h = h\<lparr>refcount := refcount h - 1\<rparr> in Return (refcount h = 0 \<and> map_count h = 0, h))"

text \<open>
  \<^verbatim>\<open>BackedHeader\<close> and \<^verbatim>\<open>BackedHeaderMut\<close>: a header with the trusted count and the pages backing it.
  The \<^verbatim>\<open>debug_assert!\<close> of the accessors is a panic.
\<close>

record BackedHeader =
  bh_header :: PageSetHeader
  bh_count :: nat
  backing_pages :: nat

definition backed :: "PageSetHeader \<Rightarrow> nat \<Rightarrow> BackedHeader" where
  "backed h n = \<lparr>bh_header = h, bh_count = n, backing_pages = header_pages_for n\<rparr>"

definition get_page :: "nat \<Rightarrow> BackedHeader \<Rightarrow> u64 option outcome" where
  "get_page index b =
     (if bh_count b \<le> index then Return None
      else assert_then (HEADER_SIZE + index * 8 + 8 \<le> backing_pages b * unat PAGE_SIZE)
        (Return (Some (page_words (bh_header b) index))))"

definition set_count :: "nat \<Rightarrow> PageSetOrigin \<Rightarrow> BackedHeader \<Rightarrow> BackedHeader outcome" where
  "set_count n org b =
     (let needed = header_pages_for n in
      assert_then (needed \<le> backing_pages b)
        (Return (b\<lparr>bh_header := (bh_header b)\<lparr>hdr_count := of_nat n, hdr_pages := of_nat needed,
            origin_raw := origin_raw_of org\<rparr>, bh_count := n\<rparr>)))"

definition set_page :: "nat \<Rightarrow> u64 \<Rightarrow> BackedHeader \<Rightarrow> BackedHeader outcome" where
  "set_page index addr b =
     assert_then (index < bh_count b)
       (assert_then (HEADER_SIZE + index * 8 + 8 \<le> backing_pages b * unat PAGE_SIZE)
         (Return (b\<lparr>bh_header := (bh_header b)\<lparr>page_words := (page_words (bh_header b))(index := addr)\<rparr>\<rparr>)))"

fun set_pages_from :: "nat \<Rightarrow> u64 list \<Rightarrow> BackedHeader \<Rightarrow> BackedHeader outcome" where
  "set_pages_from i [] b = Return b"
| "set_pages_from i (a # as) b = bind_outcome (set_page i a b) (set_pages_from (i + 1) as)"

definition header_init :: "u64 list \<Rightarrow> PageSetOrigin \<Rightarrow> BackedHeader \<Rightarrow> BackedHeader outcome" where
  "header_init page_addrs org b =
     bind_outcome (set_count (length page_addrs) org b) (\<lambda>b.
       set_pages_from 0 page_addrs (b\<lparr>bh_header := (bh_header b)\<lparr>refcount := 0, map_count := 0\<rparr>\<rparr>))"

section \<open>The table\<close>

record PageSetEntry =
  entry_count :: nat
  header_kva :: KernelVa
  entry_origin :: PageSetOrigin

datatype PageSetError = TableFull | InvalidPageCount | InvalidId | SlotEmpty

type_synonym PageSetTable = "PageSetEntry option list"

definition table_new :: PageSetTable where
  "table_new = replicate MAX_PAGESETS None"

definition table_insert :: "PageSetEntry \<Rightarrow> PageSetTable \<Rightarrow> (nat, PageSetError) result \<times> PageSetTable" where
  "table_insert e slots =
     (if entry_count e = 0 \<or> MAX_PRACTICAL_PAGES_PER_SET < entry_count e then (Err InvalidPageCount, slots)
      else case position (\<lambda>s. s = None) slots of
        None \<Rightarrow> (Err TableFull, slots)
      | Some slot \<Rightarrow> (Ok slot, slots[slot := Some e]))"

definition table_get :: "nat \<Rightarrow> PageSetTable \<Rightarrow> (PageSetEntry, PageSetError) result" where
  "table_get i slots = (if MAX_PAGESETS \<le> i then Err InvalidId else ok_or SlotEmpty (slots ! i))"

definition table_remove :: "nat \<Rightarrow> PageSetTable \<Rightarrow> (PageSetEntry, PageSetError) result \<times> PageSetTable" where
  "table_remove i slots =
     (if MAX_PAGESETS \<le> i then (Err InvalidId, slots)
      else (ok_or SlotEmpty (slots ! i), slots[i := None]))"

definition table_count :: "PageSetTable \<Rightarrow> nat" where
  "table_count slots = length (filter (\<lambda>s. s \<noteq> None) slots)"

definition find_by_header_kva :: "KernelVa \<Rightarrow> PageSetTable \<Rightarrow> nat option" where
  "find_by_header_kva kva slots =
     position (\<lambda>s. case s of Some e \<Rightarrow> header_kva e = kva | None \<Rightarrow> False) slots"

section \<open>The header pool\<close>

definition POOL_BITMAP_WORDS :: nat where "POOL_BITMAP_WORDS = (MAX_PAGESETS + 63) div 64"

record PageSetHeaderPoolState =
  free_bits :: "u64 list"
  claimed_pages :: "u8 list"

definition hpool_new :: PageSetHeaderPoolState where
  "hpool_new = \<lparr>free_bits = replicate POOL_BITMAP_WORDS 0, claimed_pages = replicate MAX_PAGESETS 0\<rparr>"

definition trailing_ones :: "u64 \<Rightarrow> nat" where
  "trailing_ones w = length (takeWhile (bit w) [0..<64])"

fun claim_words :: "nat \<Rightarrow> u64 list \<Rightarrow> (nat \<times> u64 list) option" where
  "claim_words word_idx [] = None"
| "claim_words word_idx (w # ws) =
     (let pos = trailing_ones w; slot = word_idx * 64 + pos in
      if pos < 64 \<and> slot < MAX_PAGESETS then Some (slot, (w OR push_bit pos 1) # ws)
      else map_option (\<lambda>(slot, ws). (slot, w # ws)) (claim_words (word_idx + 1) ws))"

definition hpool_claim :: "nat \<Rightarrow> PageSetHeaderPoolState \<Rightarrow> nat option \<times> PageSetHeaderPoolState" where
  "hpool_claim header_pages st =
     (if header_pages = 0 \<or> MAX_HEADER_PAGES_PER_PAGESET < header_pages then (None, st)
      else case claim_words 0 (free_bits st) of
        None \<Rightarrow> (None, st)
      | Some (slot, words) \<Rightarrow>
          (Some slot, st\<lparr>free_bits := words, claimed_pages := (claimed_pages st)[slot := of_nat header_pages]\<rparr>))"

definition hpool_release :: "nat \<Rightarrow> PageSetHeaderPoolState \<Rightarrow> (u8 \<times> PageSetHeaderPoolState) outcome" where
  "hpool_release slot st =
     assert_then (slot < MAX_PAGESETS)
       (let w = slot div 64; b = push_bit (slot mod 64) 1 in
        assert_then (free_bits st ! w AND b \<noteq> 0)
          (Return (claimed_pages st ! slot,
             st\<lparr>free_bits := (free_bits st)[w := free_bits st ! w AND NOT b],
                claimed_pages := (claimed_pages st)[slot := 0]\<rparr>)))"

definition hpool_is_used :: "PageSetHeaderPoolState \<Rightarrow> nat \<Rightarrow> bool" where
  "hpool_is_used st slot \<longleftrightarrow>
     slot < MAX_PAGESETS \<and> free_bits st ! (slot div 64) AND push_bit (slot mod 64) 1 \<noteq> 0"

definition count_ones :: "u64 \<Rightarrow> nat" where
  "count_ones w = length (filter (bit w) [0..<64])"

definition hpool_used_count :: "PageSetHeaderPoolState \<Rightarrow> nat" where
  "hpool_used_count st = sum_list (map count_ones (free_bits st))"

definition hpool_free_count :: "PageSetHeaderPoolState \<Rightarrow> nat outcome" where
  "hpool_free_count st =
     assert_then (hpool_used_count st \<le> MAX_PAGESETS) (Return (MAX_PAGESETS - hpool_used_count st))"

section \<open>The kernel's singletons\<close>

text \<open>
  The global table, the pool with its base address, the header memory and physical memory. Adding a
  slot offset to the base is checked arithmetic.
\<close>

record PageSets =
  ps_table :: PageSetTable
  hpool :: PageSetHeaderPoolState
  hpool_base :: u64
  hpool_initialized :: bool
  headers :: "u64 \<Rightarrow> PageSetHeader"
  phys :: PhysMem

definition SLOT_STRIDE :: u64 where "SLOT_STRIDE = of_nat MAX_HEADER_PAGES_PER_PAGESET * PAGE_SIZE"
definition POOL_TOTAL_PAGES :: nat where "POOL_TOTAL_PAGES = MAX_PAGESETS * MAX_HEADER_PAGES_PER_PAGESET"

text \<open>\<open>kva_range\<close> is what \<^verbatim>\<open>kvm::alloc_kernel_pages(POOL_TOTAL_PAGES)\<close> returned.\<close>

definition hpool_init :: "KernelVa option \<Rightarrow> PageSets \<Rightarrow> PageSets outcome" where
  "hpool_init kva_range s =
     (if hpool_initialized s then Panic
      else case kva_range of
        None \<Rightarrow> Panic
      | Some kva \<Rightarrow> Return (s\<lparr>hpool_base := kva_u64 kva, hpool_initialized := True\<rparr>))"

definition slot_kva :: "nat \<Rightarrow> PageSets \<Rightarrow> KernelVa outcome" where
  "slot_kva slot s =
     assert_then (unat (hpool_base s) + slot * unat SLOT_STRIDE < 2 ^ 64)
       (Return (KernelVa (hpool_base s + of_nat slot * SLOT_STRIDE)))"

definition kva_to_slot :: "KernelVa \<Rightarrow> PageSets \<Rightarrow> nat outcome" where
  "kva_to_slot kva s =
     assert_then (hpool_base s \<le> kva_u64 kva)
       (let offset = kva_u64 kva - hpool_base s in
        assert_then (offset mod SLOT_STRIDE = 0)
          (let slot = unat (offset div SLOT_STRIDE) in
           assert_then (slot < MAX_PAGESETS) (Return slot)))"

text \<open>The words of the first pages of a slot, metadata included, are cleared by a claim.\<close>

definition zero_prefix :: "nat \<Rightarrow> PageSetHeader \<Rightarrow> PageSetHeader" where
  "zero_prefix header_pages h =
     \<lparr>hdr_count = 0, hdr_pages = 0, refcount = 0, map_count = 0, origin_raw = 0,
      page_words = (\<lambda>i. if HEADER_SIZE + i * 8 + 8 \<le> header_pages * unat PAGE_SIZE then 0 else page_words h i)\<rparr>"

definition pool_claim :: "nat \<Rightarrow> PageSets \<Rightarrow> (KernelVa option \<times> PageSets) outcome" where
  "pool_claim header_pages s =
     assert_then (hpool_initialized s)
       (case hpool_claim header_pages (hpool s) of
          (None, st) \<Rightarrow> Return (None, s\<lparr>hpool := st\<rparr>)
        | (Some slot, st) \<Rightarrow>
            bind_outcome (slot_kva slot s) (\<lambda>kva.
              Return (Some kva, s\<lparr>hpool := st,
                headers := (headers s)(kva_u64 kva := zero_prefix header_pages (headers s (kva_u64 kva)))\<rparr>)))"

definition pool_release :: "KernelVa \<Rightarrow> PageSets \<Rightarrow> PageSets outcome" where
  "pool_release kva s =
     assert_then (hpool_initialized s)
       (bind_outcome (kva_to_slot kva s) (\<lambda>slot.
        bind_outcome (hpool_release slot (hpool s)) (\<lambda>(pages, st). Return (s\<lparr>hpool := st\<rparr>))))"

section \<open>Creating page sets\<close>

datatype AllocError = InvalidCountErr | HeaderPoolExhausted | PageSetTableFull | BuddyExhausted | DmaPoolExhausted

definition insert_into_table :: "nat \<Rightarrow> KernelVa \<Rightarrow> PageSetOrigin \<Rightarrow> PageSets \<Rightarrow> nat option \<times> PageSets" where
  "insert_into_table n kva org s =
     (case table_insert \<lparr>entry_count = n, header_kva = kva, entry_origin = org\<rparr> (ps_table s) of
        (Ok i, t) \<Rightarrow> (Some i, s\<lparr>ps_table := t\<rparr>)
      | (Err e, t) \<Rightarrow> (None, s\<lparr>ps_table := t\<rparr>))"

text \<open>The end of a creation: insert into the table, or release the slot and undo the data pages.\<close>

definition store_header :: "KernelVa \<Rightarrow> BackedHeader \<Rightarrow> PageSets \<Rightarrow> PageSets" where
  "store_header kva b s = s\<lparr>headers := (headers s)(kva_u64 kva := bh_header b)\<rparr>"

definition alloc_and_insert_header ::
  "u64 list \<Rightarrow> nat \<Rightarrow> PageSetOrigin \<Rightarrow> PageSets \<Rightarrow> ((nat, AllocError) result \<times> PageSets) outcome" where
  "alloc_and_insert_header page_addrs n org s =
     bind_outcome (pool_claim (header_pages_for n) s) (\<lambda>(r, s).
       case r of
         None \<Rightarrow> Return (Err HeaderPoolExhausted, s)
       | Some kva \<Rightarrow>
           bind_outcome (header_init page_addrs org (backed (headers s (kva_u64 kva)) n)) (\<lambda>b.
             case insert_into_table n kva org (store_header kva b s) of
               (None, s) \<Rightarrow> bind_outcome (pool_release kva s) (\<lambda>s. Return (Err PageSetTableFull, s))
             | (Some i, s) \<Rightarrow> Return (Ok i, s)))"

fun roll_back :: "Platform \<Rightarrow> BackedHeader \<Rightarrow> nat list \<Rightarrow> PhysMem \<Rightarrow> PhysMem outcome" where
  "roll_back p b [] m = Return m"
| "roll_back p b (j # js) m =
     bind_outcome (get_page j b) (\<lambda>r.
       case r of
         None \<Rightarrow> Panic
       | Some paddr \<Rightarrow> bind_outcome (dealloc_page p (containing_page (PhysAddr paddr)) m) (roll_back p b js))"

fun alloc_data :: "Platform \<Rightarrow> nat list \<Rightarrow> BackedHeader \<Rightarrow> PhysMem \<Rightarrow> (bool \<times> BackedHeader \<times> PhysMem) outcome" where
  "alloc_data p [] b m = Return (True, b, m)"
| "alloc_data p (i # is) b m =
     bind_outcome (alloc_page p m) (\<lambda>(r, m).
       case r of
         Some page \<Rightarrow>
           bind_outcome (set_page i (phys_u64 (start_addr page)) b) (\<lambda>b. alloc_data p is b m)
       | None \<Rightarrow> bind_outcome (roll_back p b [0..<i] m) (\<lambda>m. Return (False, b, m)))"

definition ps_alloc_pages :: "Platform \<Rightarrow> nat \<Rightarrow> PageSets \<Rightarrow> ((nat, AllocError) result \<times> PageSets) outcome" where
  "ps_alloc_pages p n s =
     (if n = 0 \<or> MAX_PRACTICAL_PAGES_PER_SET < n then Return (Err InvalidCountErr, s)
      else
        bind_outcome (pool_claim (header_pages_for n) s) (\<lambda>(r, s).
          case r of
            None \<Rightarrow> Return (Err HeaderPoolExhausted, s)
          | Some kva \<Rightarrow>
              bind_outcome (set_count n OriginBuddy (backed (headers s (kva_u64 kva)) n)) (\<lambda>b.
              bind_outcome (alloc_data p [0..<n] b (phys s)) (\<lambda>(ok, b, m).
                let s = (store_header kva b s)\<lparr>phys := m\<rparr> in
                if \<not> ok then bind_outcome (pool_release kva s) (\<lambda>s. Return (Err BuddyExhausted, s))
                else case insert_into_table n kva OriginBuddy s of
                  (None, s) \<Rightarrow> bind_outcome (pool_release kva s) (\<lambda>s. Return (Err PageSetTableFull, s))
                | (Some i, s) \<Rightarrow> Return (Ok i, s)))))"

text \<open>The loop that writes the addresses of a contiguous run. The sum is checked arithmetic.\<close>

fun set_run :: "u64 \<Rightarrow> nat list \<Rightarrow> BackedHeader \<Rightarrow> BackedHeader outcome" where
  "set_run base [] b = Return b"
| "set_run base (i # is) b =
     assert_then (unat base + i * unat PAGE_SIZE < 2 ^ 64)
       (bind_outcome (set_page i (base + of_nat i * PAGE_SIZE) b) (set_run base is))"

definition ps_alloc_pages_contiguous ::
  "Platform \<Rightarrow> nat \<Rightarrow> PageSets \<Rightarrow> ((nat, AllocError) result \<times> PageSets) outcome" where
  "ps_alloc_pages_contiguous p n s =
     (if n = 0 \<or> MAX_PRACTICAL_PAGES_PER_SET < n then Return (Err InvalidCountErr, s)
      else
        bind_outcome (order_for_count n) (\<lambda>order.
          let actual_count = push_bit order 1 in
          if MAX_PRACTICAL_PAGES_PER_SET < actual_count then Return (Err InvalidCountErr, s)
          else
            bind_outcome (pool_claim (header_pages_for actual_count) s) (\<lambda>(r, s).
              case r of
                None \<Rightarrow> Return (Err HeaderPoolExhausted, s)
              | Some kva \<Rightarrow>
                  bind_outcome (alloc_pages_contiguous p n (phys s)) (\<lambda>(r, m).
                    let s = s\<lparr>phys := m\<rparr> in
                    case r of
                      None \<Rightarrow> bind_outcome (pool_release kva s) (\<lambda>s. Return (Err BuddyExhausted, s))
                    | Some first_data \<Rightarrow>
                        bind_outcome (set_count actual_count OriginBuddy (backed (headers s (kva_u64 kva)) actual_count)) (\<lambda>b.
                        bind_outcome (set_run (phys_u64 (start_addr first_data)) [0..<actual_count] b) (\<lambda>b.
                          case insert_into_table actual_count kva OriginBuddy (store_header kva b s) of
                            (Some i, s) \<Rightarrow> Return (Ok i, s)
                          | (None, s) \<Rightarrow>
                              bind_outcome (dealloc_pages_contiguous p first_data n (phys s)) (\<lambda>m.
                              bind_outcome (pool_release kva (s\<lparr>phys := m\<rparr>)) (\<lambda>s.
                                Return (Err PageSetTableFull, s)))))))))"

definition alloc_dma_pages :: "nat \<Rightarrow> PageSets \<Rightarrow> ((nat, AllocError) result \<times> PageSets) outcome" where
  "alloc_dma_pages n s =
     (if n = 0 \<or> MAX_PRACTICAL_PAGES_PER_SET < n then Return (Err InvalidCountErr, s)
      else
        bind_outcome (pool_claim (header_pages_for n) s) (\<lambda>(r, s).
          case r of
            None \<Rightarrow> Return (Err HeaderPoolExhausted, s)
          | Some kva \<Rightarrow>
              bind_outcome (dma_alloc_pages n (phys s)) (\<lambda>(r, m).
                let s = s\<lparr>phys := m\<rparr> in
                case r of
                  Err e \<Rightarrow> bind_outcome (pool_release kva s) (\<lambda>s.
                    Return (Err (case e of InvalidCount \<Rightarrow> InvalidCountErr | Exhausted \<Rightarrow> DmaPoolExhausted), s))
                | Ok first_data \<Rightarrow>
                    bind_outcome (set_count n OriginDmaPool (backed (headers s (kva_u64 kva)) n)) (\<lambda>b.
                    bind_outcome (set_run (phys_u64 first_data) [0..<n] b) (\<lambda>b.
                      case insert_into_table n kva OriginDmaPool (store_header kva b s) of
                        (Some i, s) \<Rightarrow> Return (Ok i, s)
                      | (None, s) \<Rightarrow>
                          bind_outcome (dma_free_pages_at first_data n (phys s)) (\<lambda>m.
                          bind_outcome (pool_release kva (s\<lparr>phys := m\<rparr>)) (\<lambda>s.
                            Return (Err PageSetTableFull, s))))))))"

definition MAX_REGISTER_EXISTING_PAGES :: nat where "MAX_REGISTER_EXISTING_PAGES = 64"

definition register_existing :: "nat \<Rightarrow> PhysPage list \<Rightarrow> PageSets \<Rightarrow> ((nat, AllocError) result \<times> PageSets) outcome" where
  "register_existing n pages s =
     (if n = 0 \<or> MAX_REGISTER_EXISTING_PAGES < n \<or> length pages < n then Return (Err InvalidCountErr, s)
      else alloc_and_insert_header (map (\<lambda>pg. phys_u64 (start_addr pg)) (take n pages)) n OriginExternallyOwned s)"

definition register_device_page :: "u64 \<Rightarrow> PageSets \<Rightarrow> ((nat, AllocError) result \<times> PageSets) outcome" where
  "register_device_page phys_addr s = alloc_and_insert_header [phys_addr] 1 OriginExternallyOwned s"

section \<open>Looking up and freeing page sets\<close>

definition get_pageset :: "nat \<Rightarrow> PageSets \<Rightarrow> (nat \<times> KernelVa) option" where
  "get_pageset i s =
     (case table_get i (ps_table s) of Ok e \<Rightarrow> Some (entry_count e, header_kva e) | Err _ \<Rightarrow> None)"

definition trusted_layout :: "KernelVa \<Rightarrow> PageSets \<Rightarrow> (nat \<times> nat) option" where
  "trusted_layout kva s =
     (case find_by_header_kva kva (ps_table s) of
        None \<Rightarrow> None
      | Some i \<Rightarrow>
          (case table_get i (ps_table s) of
             Ok e \<Rightarrow> Some (entry_count e, header_pages_for (entry_count e))
           | Err _ \<Rightarrow> None))"

definition trusted_layout_or_panic :: "KernelVa \<Rightarrow> PageSets \<Rightarrow> (nat \<times> nat) outcome" where
  "trusted_layout_or_panic kva s = (case trusted_layout kva s of None \<Rightarrow> Panic | Some l \<Rightarrow> Return l)"

definition read_header_backed :: "KernelVa \<Rightarrow> PageSets \<Rightarrow> BackedHeader outcome" where
  "read_header_backed kva s =
     bind_outcome (trusted_layout_or_panic kva s) (\<lambda>(trusted_count, trusted_backing).
       Return (backed (headers s (kva_u64 kva)) trusted_count))"

definition page_set_page :: "KernelVa \<Rightarrow> nat \<Rightarrow> PageSets \<Rightarrow> PhysAddr option outcome" where
  "page_set_page kva index s =
     bind_outcome (read_header_backed kva s) (\<lambda>b.
     bind_outcome (get_page index b) (\<lambda>r. Return (map_option PhysAddr r)))"

definition page_set_origin :: "KernelVa \<Rightarrow> PageSets \<Rightarrow> PageSetOrigin option outcome" where
  "page_set_origin kva s = bind_outcome (read_header_backed kva s) (\<lambda>b. Return (origin (bh_header b)))"

definition consume_by_header_kva :: "KernelVa \<Rightarrow> PageSets \<Rightarrow> bool \<times> PageSets" where
  "consume_by_header_kva kva s =
     (case find_by_header_kva kva (ps_table s) of
        None \<Rightarrow> (False, s)
      | Some i \<Rightarrow>
          (case table_remove i (ps_table s) of
             (Ok e, t) \<Rightarrow> (True, s\<lparr>ps_table := t\<rparr>)
           | (Err e, t) \<Rightarrow> (False, s\<lparr>ps_table := t\<rparr>)))"

definition free_header_page :: "KernelVa \<Rightarrow> PageSets \<Rightarrow> PageSets outcome" where
  "free_header_page kva s = pool_release kva (snd (consume_by_header_kva kva s))"

fun free_data :: "Platform \<Rightarrow> BackedHeader \<Rightarrow> nat list \<Rightarrow> PhysMem \<Rightarrow> PhysMem outcome" where
  "free_data p b [] m = Return m"
| "free_data p b (i # is) m =
     bind_outcome (get_page i b) (\<lambda>r.
       case r of
         None \<Rightarrow> free_data p b is m
       | Some paddr \<Rightarrow> bind_outcome (dealloc_page p (containing_page (PhysAddr paddr)) m) (free_data p b is))"

definition free_dma_data :: "BackedHeader \<Rightarrow> nat \<Rightarrow> PhysMem \<Rightarrow> PhysMem outcome" where
  "free_dma_data b n m =
     (if 0 < n then
        bind_outcome (get_page 0 b) (\<lambda>r.
          case r of
            None \<Rightarrow> Return m
          | Some first \<Rightarrow> dma_free_pages_at (PhysAddr first) n m)
      else Return m)"

definition free_by_header_kva :: "Platform \<Rightarrow> KernelVa \<Rightarrow> PageSets \<Rightarrow> PageSets outcome" where
  "free_by_header_kva p kva s =
     bind_outcome (trusted_layout_or_panic kva s) (\<lambda>(n, header_pages).
     bind_outcome (read_header_backed kva s) (\<lambda>b.
       case origin (bh_header b) of
         None \<Rightarrow> Panic
       | Some org \<Rightarrow>
           bind_outcome
             (case org of
                OriginBuddy \<Rightarrow> free_data p b [0..<n] (phys s)
              | OriginDmaPool \<Rightarrow> free_dma_data b n (phys s)
              | OriginExternallyOwned \<Rightarrow> Return (phys s)) (\<lambda>m.
             pool_release kva (snd (consume_by_header_kva kva (s\<lparr>phys := m\<rparr>))))))"

definition dec_refcount_and_maybe_free :: "Platform \<Rightarrow> KernelVa \<Rightarrow> PageSets \<Rightarrow> PageSets outcome" where
  "dec_refcount_and_maybe_free p kva s =
     bind_outcome (dec_refcount (headers s (kva_u64 kva))) (\<lambda>(should_free, h).
       let s = s\<lparr>headers := (headers s)(kva_u64 kva := h)\<rparr> in
       if should_free then free_by_header_kva p kva s else Return s)"

definition dec_both_and_maybe_free :: "Platform \<Rightarrow> KernelVa \<Rightarrow> PageSets \<Rightarrow> PageSets outcome" where
  "dec_both_and_maybe_free p kva s =
     bind_outcome (dec_map_count (headers s (kva_u64 kva))) (\<lambda>(_, h).
       dec_refcount_and_maybe_free p kva (s\<lparr>headers := (headers s)(kva_u64 kva := h)\<rparr>))"

section \<open>Header layout\<close>

lemma header_fits: "24 + n * 8 \<le> header_pages_for n * 4096"
  unfolding header_pages_for_def HEADER_SIZE_def page_size_unat
  using div_mult_mod_eq [of "24 + n * 8 + 4096 - 1" 4096] mod_less_divisor [of 4096 "24 + n * 8 + 4096 - 1"] by linarith

lemma header_pages_mono: "n \<le> k \<Longrightarrow> header_pages_for n \<le> header_pages_for k"
  by (simp add: header_pages_for_def div_le_mono)

lemma header_pages_max [simp]: "MAX_HEADER_PAGES_PER_PAGESET = 33"
  by (simp add: MAX_HEADER_PAGES_PER_PAGESET_def header_pages_for_def HEADER_SIZE_def MAX_PRACTICAL_PAGES_PER_SET_def)

lemma header_pages_bound:
  "n \<le> MAX_PRACTICAL_PAGES_PER_SET \<Longrightarrow> 0 < header_pages_for n \<and> header_pages_for n \<le> MAX_HEADER_PAGES_PER_PAGESET"
  using header_pages_mono [of n MAX_PRACTICAL_PAGES_PER_SET] header_fits [of n]
  unfolding MAX_HEADER_PAGES_PER_PAGESET_def by (cases "header_pages_for n") auto

lemma origin_roundtrip [simp]: "origin_from_raw (origin_raw_of org) = Some org"
  by (cases org) (simp_all add: origin_from_raw_def)

lemma origin_set: "origin (h\<lparr>hdr_count := c, hdr_pages := d, origin_raw := origin_raw_of org\<rparr>) = Some org"
  by (simp add: origin_def)

text \<open>A wrapper whose backing covers its count never trips over the accessors' assertions.\<close>

definition covered :: "BackedHeader \<Rightarrow> bool" where
  "covered b \<longleftrightarrow> 24 + bh_count b * 8 \<le> backing_pages b * 4096"

lemma covered_backed [simp]: "covered (backed h n)"
  by (simp add: covered_def backed_def header_fits)

lemma get_page_covered:
  "covered b \<Longrightarrow> get_page i b = Return (if i < bh_count b then Some (page_words (bh_header b) i) else None)"
  by (simp add: get_page_def covered_def HEADER_SIZE_def)

lemma set_page_covered:
  "covered b \<Longrightarrow> i < bh_count b \<Longrightarrow>
    set_page i a b = Return (b\<lparr>bh_header := (bh_header b)\<lparr>page_words := (page_words (bh_header b))(i := a)\<rparr>\<rparr>)"
  by (simp add: set_page_def covered_def HEADER_SIZE_def)

lemma covered_update [simp]: "covered (b\<lparr>bh_header := h\<rparr>) = covered b"
  by (simp add: covered_def)

lemma set_count_backed:
  "set_count n org (backed h n) =
     Return (backed (h\<lparr>hdr_count := of_nat n, hdr_pages := of_nat (header_pages_for n), origin_raw := origin_raw_of org\<rparr>) n)"
  by (simp add: set_count_def backed_def Let_def)

text \<open>The metadata of a header, which writing page addresses leaves alone.\<close>

definition same_meta :: "PageSetHeader \<Rightarrow> PageSetHeader \<Rightarrow> bool" where
  "same_meta h h' \<longleftrightarrow> (\<exists>ws. h' = h\<lparr>page_words := ws\<rparr>)"

lemma same_meta_simps:
  "same_meta h h' \<Longrightarrow> origin h' = origin h" "same_meta h h' \<Longrightarrow> refcount h' = refcount h"
  "same_meta h h' \<Longrightarrow> map_count h' = map_count h" "same_meta h h"
  "same_meta h h' \<Longrightarrow> same_meta h' h'' \<Longrightarrow> same_meta h h''" "same_meta h (h\<lparr>page_words := ws\<rparr>)"
  by (auto simp: same_meta_def origin_def intro: exI [of _ "page_words h"])

lemma set_pages_from_spec:
  "covered b \<Longrightarrow> i + length as \<le> bh_count b \<Longrightarrow>
    \<exists>h. set_pages_from i as b = Return (b\<lparr>bh_header := h\<rparr>) \<and> same_meta (bh_header b) h \<and>
      (\<forall>j. page_words h j = (if i \<le> j \<and> j < i + length as then as ! (j - i) else page_words (bh_header b) j))"
proof (induction "as" arbitrary: i b)
  case Nil
  then show ?case by (intro exI [of _ "bh_header b"]) (auto simp: same_meta_simps)
next
  case (Cons a as)
  let ?b = "b\<lparr>bh_header := (bh_header b)\<lparr>page_words := (page_words (bh_header b))(i := a)\<rparr>\<rparr>"
  obtain h where h: "set_pages_from (i + 1) as ?b = Return (?b\<lparr>bh_header := h\<rparr>)" "same_meta (bh_header ?b) h"
    "\<And>j. page_words h j = (if i + 1 \<le> j \<and> j < i + 1 + length as then as ! (j - (i + 1)) else page_words (bh_header ?b) j)"
    using Cons.IH [of ?b "i + 1"] Cons.prems by auto
  have "same_meta (bh_header b) h" using h(2) by (auto simp: same_meta_def)
  moreover have "page_words h j = (if i \<le> j \<and> j < i + length (a # as) then (a # as) ! (j - i) else page_words (bh_header b) j)" for j
    unfolding h(3) by (cases "j = i"; cases "i < j") (simp_all add: nth_Cons')
  ultimately show ?case using h(1) Cons.prems by (auto simp: set_page_covered)
qed

lemma set_run_spec:
  assumes "unat base + n * 4096 \<le> 2 ^ 64"
  shows "covered b \<Longrightarrow> n \<le> bh_count b \<Longrightarrow> i \<le> n \<Longrightarrow>
    \<exists>h. set_run base [i..<n] b = Return (b\<lparr>bh_header := h\<rparr>) \<and> same_meta (bh_header b) h \<and>
      (\<forall>j. page_words h j = (if i \<le> j \<and> j < n then base + of_nat j * PAGE_SIZE else page_words (bh_header b) j))"
proof (induction "n - i" arbitrary: i b)
  case 0
  then show ?case by (intro exI [of _ "bh_header b"]) (auto simp: same_meta_simps)
next
  case (Suc k)
  then have i: "i < n" and k: "k = n - Suc i" by simp_all
  let ?b = "b\<lparr>bh_header := (bh_header b)\<lparr>page_words := (page_words (bh_header b))(i := base + of_nat i * PAGE_SIZE)\<rparr>\<rparr>"
  obtain h where h: "set_run base [Suc i..<n] ?b = Return (?b\<lparr>bh_header := h\<rparr>)" "same_meta (bh_header ?b) h"
    "\<And>j. page_words h j = (if Suc i \<le> j \<and> j < n then base + of_nat j * PAGE_SIZE else page_words (bh_header ?b) j)"
    using Suc.hyps(1) [OF k, of ?b] Suc.prems i by auto
  have "same_meta (bh_header b) h" using h(2) by (auto simp: same_meta_def)
  moreover have "page_words h j = (if i \<le> j \<and> j < n then base + of_nat j * PAGE_SIZE else page_words (bh_header b) j)" for j
    unfolding h(3) using i by auto
  moreover have "unat base + i * 4096 < 2 ^ 64" using assms i by linarith
  ultimately show ?case using h(1) Suc.prems i by (auto simp: set_page_covered upt_conv_Cons)
qed

section \<open>The header pool's slots\<close>

definition hpool_ok :: "PageSetHeaderPoolState \<Rightarrow> bool" where
  "hpool_ok st \<longleftrightarrow> length (free_bits st) = 2 \<and> length (claimed_pages st) = MAX_PAGESETS"

definition used_slots :: "PageSetHeaderPoolState \<Rightarrow> nat set" where
  "used_slots st = {i. hpool_is_used st i}"

lemmas power_bits = single_bit_test [unfolded push_bit_of_1] word64_set [unfolded push_bit_of_1] word64_clear [unfolded push_bit_of_1]

lemma used_slots_bit: "i \<in> used_slots st \<longleftrightarrow> i < 128 \<and> bit (free_bits st ! (i div 64)) (i mod 64)"
  by (simp add: used_slots_def hpool_is_used_def power_bits MAX_PAGESETS_def)

lemma slot_word: "i < 128 \<Longrightarrow> i div 64 < 2" for i :: nat
  by (simp add: div_less_iff_less_mult)

lemma trailing_ones_le: "trailing_ones w \<le> 64"
  using length_takeWhile_le [of "bit w" "[0..<64]"] by (simp add: trailing_ones_def)

lemma trailing_ones_bit: "trailing_ones w < 64 \<Longrightarrow> \<not> bit w (trailing_ones w)"
  using nth_length_takeWhile [of "bit w" "[0..<64]"] by (simp add: trailing_ones_def)

lemma trailing_ones_below: "i < trailing_ones w \<Longrightarrow> bit w i"
proof -
  assume i: "i < trailing_ones w"
  then have "takeWhile (bit w) [0..<64] ! i = [0..<64] ! i" by (intro takeWhile_nth) (simp add: trailing_ones_def)
  moreover have "takeWhile (bit w) [0..<64] ! i \<in> set (takeWhile (bit w) [0..<64])"
    using i by (intro nth_mem) (simp add: trailing_ones_def)
  ultimately show "bit w i" using set_takeWhileD i trailing_ones_le [of w] by fastforce
qed

lemma claim_words_two:
  "claim_words 0 [w0, w1] =
    (if trailing_ones w0 < 64 then Some (trailing_ones w0, [w0 OR push_bit (trailing_ones w0) 1, w1])
     else if trailing_ones w1 < 64 then Some (64 + trailing_ones w1, [w0, w1 OR push_bit (trailing_ones w1) 1])
     else None)"
  by (simp add: Let_def MAX_PAGESETS_def)

lemma hpool_claim_cases:
  assumes "hpool_ok st" and "0 < hp" and "hp \<le> MAX_HEADER_PAGES_PER_PAGESET"
  shows "(\<exists>slot st'. hpool_claim hp st = (Some slot, st') \<and> hpool_ok st' \<and> slot < 128 \<and> slot \<notin> used_slots st \<and>
      used_slots st' = insert slot (used_slots st)) \<or>
    hpool_claim hp st = (None, st) \<and> used_slots st = {..<128}"
proof -
  obtain w0 w1 where w: "free_bits st = [w0, w1]"
    using assms(1) by (auto simp: hpool_ok_def length_Suc_conv numeral_2_eq_2)
  consider (first) "trailing_ones w0 < 64" | (second) "\<not> trailing_ones w0 < 64" "trailing_ones w1 < 64"
    | (full) "trailing_ones w0 = 64" "trailing_ones w1 = 64"
    using trailing_ones_le [of w0] trailing_ones_le [of w1] by linarith
  then show ?thesis
  proof cases
    case first
    let ?st = "st\<lparr>free_bits := [w0 OR push_bit (trailing_ones w0) 1, w1],
      claimed_pages := (claimed_pages st)[trailing_ones w0 := of_nat hp]\<rparr>"
    have "i \<in> used_slots ?st \<longleftrightarrow> i = trailing_ones w0 \<or> i \<in> used_slots st" for i
    proof (cases "i < 128")
      case True
      then consider "i < 64" | "i div 64 = 1" "64 \<le> i" by linarith
      then show ?thesis using first True by cases (auto simp: used_slots_bit w power_bits)
    qed (use first in \<open>auto simp: used_slots_bit\<close>)
    moreover have "trailing_ones w0 \<notin> used_slots st"
      using first trailing_ones_bit [OF first] by (simp add: used_slots_bit w)
    ultimately show ?thesis using first assms
      by (intro disjI1 exI [of _ "trailing_ones w0"] exI [of _ ?st])
        (auto simp: hpool_claim_def w claim_words_two hpool_ok_def simp del: claim_words.simps)
  next
    case second
    let ?t = "trailing_ones w1"
    let ?st = "st\<lparr>free_bits := [w0, w1 OR push_bit ?t 1], claimed_pages := (claimed_pages st)[64 + ?t := of_nat hp]\<rparr>"
    have "i \<in> used_slots ?st \<longleftrightarrow> i = 64 + ?t \<or> i \<in> used_slots st" for i
    proof (cases "i < 128")
      case True
      then consider "i < 64" | "i div 64 = 1" "64 \<le> i" "i mod 64 = i - 64" by (cases "i < 64") (auto simp: mod_if)
      then show ?thesis using second True by cases (auto simp: used_slots_bit w power_bits)
    qed (use second in \<open>auto simp: used_slots_bit\<close>)
    moreover have "64 + ?t \<notin> used_slots st"
      using second trailing_ones_bit [OF second(2)] by (simp add: used_slots_bit w)
    ultimately show ?thesis using second assms
      by (intro disjI1 exI [of _ "64 + ?t"] exI [of _ ?st])
        (auto simp: hpool_claim_def w claim_words_two hpool_ok_def simp del: claim_words.simps)
  next
    case full
    have "i \<in> used_slots st" if i: "i < 128" for i
    proof -
      have m: "i mod 64 < 64" by simp
      consider "i div 64 = 0" | "i div 64 = 1" using slot_word [OF i] by linarith
      then show ?thesis
        using i full trailing_ones_below [of "i mod 64" w0] trailing_ones_below [of "i mod 64" w1] m
        by cases (simp_all add: used_slots_bit w)
    qed
    then have "used_slots st = {..<128}" by (auto simp: used_slots_bit)
    with full assms show ?thesis
      by (simp add: hpool_claim_def w claim_words_two del: claim_words.simps)
  qed
qed

lemma hpool_release_used:
  assumes "hpool_ok st" and "slot \<in> used_slots st"
  shows "\<exists>pages st'. hpool_release slot st = Return (pages, st') \<and> hpool_ok st' \<and> used_slots st' = used_slots st - {slot}"
proof -
  let ?w = "free_bits st ! (slot div 64)" and ?b = "push_bit (slot mod 64) 1 :: u64"
  let ?st = "st\<lparr>free_bits := (free_bits st)[slot div 64 := ?w AND NOT ?b], claimed_pages := (claimed_pages st)[slot := 0]\<rparr>"
  have s: "slot < 128" "bit ?w (slot mod 64)" using assms(2) by (simp_all add: used_slots_bit)
  then have r: "hpool_release slot st = Return (claimed_pages st ! slot, ?st)"
    by (simp add: hpool_release_def MAX_PAGESETS_def Let_def power_bits)
  have "i \<in> used_slots ?st \<longleftrightarrow> i \<in> used_slots st - {slot}" for i
  proof (cases "i div 64 = slot div 64")
    case True
    then have "i mod 64 = slot mod 64 \<longleftrightarrow> i = slot" using div_mod_64_eq by blast
    with True s slot_word [OF s(1)] assms(1) show ?thesis
      by (auto simp: used_slots_bit hpool_ok_def power_bits nth_list_update)
  next
    case False
    then show ?thesis using assms(1) by (auto simp: used_slots_bit nth_list_update)
  qed
  then have "used_slots ?st = used_slots st - {slot}" by blast
  then show ?thesis using r assms(1) by (auto simp: hpool_ok_def)
qed

lemma hpool_release_unused:
  "slot \<notin> used_slots st \<Longrightarrow> hpool_release slot st = Panic"
  by (auto simp: hpool_release_def used_slots_bit MAX_PAGESETS_def Let_def power_bits assert_then_def)

definition slot_addr :: "u64 \<Rightarrow> nat \<Rightarrow> u64" where
  "slot_addr base i = base + of_nat i * SLOT_STRIDE"

lemma stride_unat [simp]: "unat SLOT_STRIDE = 135168"
  by (simp add: SLOT_STRIDE_def PAGE_SIZE_def)

lemma unat_slot_addr:
  assumes "unat base + 128 * 135168 \<le> 2 ^ 64" and "i < 128"
  shows "unat (slot_addr base i) = unat base + i * 135168"
proof -
  have b: "unat base + i * 135168 < 2 ^ 64" using assms by linarith
  have "unat (of_nat i * SLOT_STRIDE :: u64) = i * 135168"
    using b by (simp add: SLOT_STRIDE_def PAGE_SIZE_def unat_word_ariths unat_of_nat mod_simps)
  then show ?thesis using b by (simp add: slot_addr_def unat_word_ariths(1))
qed

lemma slot_addr_eq_iff:
  "unat base + 128 * 135168 \<le> 2 ^ 64 \<Longrightarrow> i < 128 \<Longrightarrow> j < 128 \<Longrightarrow> slot_addr base i = slot_addr base j \<longleftrightarrow> i = j"
  by (simp add: word_unat_eq_iff unat_slot_addr)

lemma slot_kva_eq:
  "unat (hpool_base s) + 128 * 135168 \<le> 2 ^ 64 \<Longrightarrow> i < 128 \<Longrightarrow>
    slot_kva i s = Return (KernelVa (slot_addr (hpool_base s) i))"
  by (simp add: slot_kva_def slot_addr_def)

lemma kva_to_slot_eq:
  assumes "unat (hpool_base s) + 128 * 135168 \<le> 2 ^ 64" and "i < 128"
  shows "kva_to_slot (KernelVa (slot_addr (hpool_base s) i)) s = Return i"
proof -
  let ?a = "slot_addr (hpool_base s) i"
  note u = unat_slot_addr [OF assms]
  have le: "hpool_base s \<le> ?a" by (simp add: word_le_nat_alt u)
  then have o: "unat (?a - hpool_base s) = i * 135168" by (simp add: unat_offset u)
  have "(?a - hpool_base s) mod SLOT_STRIDE = 0" by (simp add: word_unat_eq_iff unat_mod o)
  moreover have "unat ((?a - hpool_base s) div SLOT_STRIDE) = i" by (simp add: unat_div o)
  ultimately show ?thesis using le assms(2) by (simp add: kva_to_slot_def Let_def MAX_PAGESETS_def)
qed

section \<open>The invariant\<close>

text \<open>
  What a page set owns: frames of the buddy allocator, pages of the DMA pool, or nothing. \<open>res\<close> reads
  it off a header, given the address of the DMA pool.
\<close>

type_synonym resource = "PhysPage + nat"

definition frame_of_word :: "u64 \<Rightarrow> PhysPage" where
  "frame_of_word w = containing_page (PhysAddr w)"

definition dma_index :: "u64 \<Rightarrow> u64 \<Rightarrow> nat" where
  "dma_index pb w = (unat w - unat pb) div 4096"

fun res :: "u64 \<Rightarrow> PageSetHeader \<Rightarrow> nat \<Rightarrow> PageSetOrigin \<Rightarrow> resource set" where
  "res pb h n OriginBuddy = Inl ` (\<lambda>i. frame_of_word (page_words h i)) ` {..<n}"
| "res pb h n OriginDmaPool = Inr ` {dma_index pb (page_words h 0) ..< dma_index pb (page_words h 0) + n}"
| "res pb h n OriginExternallyOwned = {}"

fun shaped :: "u64 \<Rightarrow> PageSetHeader \<Rightarrow> nat \<Rightarrow> PageSetOrigin \<Rightarrow> bool" where
  "shaped pb h n OriginBuddy \<longleftrightarrow> inj_on (\<lambda>i. frame_of_word (page_words h i)) {..<n} \<and>
     (\<forall>i < n. page_words h i = phys_u64 (start_addr (frame_of_word (page_words h i))))"
| "shaped pb h n OriginDmaPool \<longleftrightarrow>
     pb \<noteq> 0 \<and> dma_index pb (page_words h 0) + n \<le> DMA_POOL_PAGES \<and>
     (\<forall>i < n. unat (page_words h i) = unat pb + (dma_index pb (page_words h 0) + i) * 4096)"
| "shaped pb h n OriginExternallyOwned \<longleftrightarrow> True"

definition handed_out :: "Platform \<Rightarrow> PhysMem \<Rightarrow> resource set" where
  "handed_out p m = Inl ` taken_frames p m \<union> Inr ` used_pages (pool m)"

text \<open>The buddy allocator never manages a page of the DMA pool.\<close>

definition pool_apart :: "Platform \<Rightarrow> PhysMem \<Rightarrow> bool" where
  "pool_apart p m \<longleftrightarrow> pool_base m \<noteq> 0 \<longrightarrow> (\<forall>f \<in> free_frames p m \<union> taken_frames p m. \<forall>q < DMA_POOL_PAGES.
     unat (phys_u64 (start_addr f)) \<noteq> unat (pool_base m) + q * 4096)"

lemma pool_apart_mono:
  assumes "pool_apart p m" and "pool_base m' = pool_base m"
    and "free_frames p m' \<union> taken_frames p m' \<subseteq> free_frames p m \<union> taken_frames p m"
  shows "pool_apart p m'"
  using assms(1,3) unfolding pool_apart_def assms(2) by blast

definition mem_ok :: "Platform \<Rightarrow> PhysMem \<Rightarrow> bool" where
  "mem_ok p m \<longleftrightarrow> frames_ok p m \<and> dma_inv (pool m) \<and> pool_apart p m \<and>
     unat (pool_base m) mod 4096 = 0 \<and> unat (pool_base m) + DMA_POOL_PAGES * 4096 \<le> 2 ^ 64"

definition entry_header :: "PageSets \<Rightarrow> PageSetEntry \<Rightarrow> PageSetHeader" where
  "entry_header s e = headers s (kva_u64 (header_kva e))"

definition entry_res :: "PageSets \<Rightarrow> PageSetEntry \<Rightarrow> resource set" where
  "entry_res s e = res (pool_base (phys s)) (entry_header s e) (entry_count e) (entry_origin e)"

definition entry_ok :: "Platform \<Rightarrow> PageSets \<Rightarrow> PageSetEntry \<Rightarrow> bool" where
  "entry_ok p s e \<longleftrightarrow>
     (\<exists>slot \<in> used_slots (hpool s). header_kva e = KernelVa (slot_addr (hpool_base s) slot)) \<and>
     0 < entry_count e \<and> entry_count e \<le> MAX_PRACTICAL_PAGES_PER_SET \<and>
     origin (entry_header s e) = Some (entry_origin e) \<and>
     shaped (pool_base (phys s)) (entry_header s e) (entry_count e) (entry_origin e) \<and>
     entry_res s e \<subseteq> handed_out p (phys s)"

definition live_entry :: "PageSets \<Rightarrow> nat \<Rightarrow> PageSetEntry \<Rightarrow> bool" where
  "live_entry s i e \<longleftrightarrow> i < MAX_PAGESETS \<and> ps_table s ! i = Some e"

definition ps_inv :: "Platform \<Rightarrow> PageSets \<Rightarrow> bool" where
  "ps_inv p s \<longleftrightarrow>
     mem_ok p (phys s) \<and> hpool_ok (hpool s) \<and> hpool_initialized s \<and>
     unat (hpool_base s) + 128 * 135168 \<le> 2 ^ 64 \<and> length (ps_table s) = MAX_PAGESETS \<and>
     (\<forall>i e. live_entry s i e \<longrightarrow> entry_ok p s e) \<and>
     (\<forall>i j e f. live_entry s i e \<longrightarrow> live_entry s j f \<longrightarrow> i \<noteq> j \<longrightarrow>
        header_kva e \<noteq> header_kva f \<and> entry_res s e \<inter> entry_res s f = {}) \<and>
     (\<forall>slot \<in> used_slots (hpool s). \<exists>i e. live_entry s i e \<and> header_kva e = KernelVa (slot_addr (hpool_base s) slot))"

lemma ps_invD:
  assumes "ps_inv p s"
  shows "mem_ok p (phys s)" "hpool_ok (hpool s)" "hpool_initialized s" "unat (hpool_base s) + 128 * 135168 \<le> 2 ^ 64"
    "length (ps_table s) = MAX_PAGESETS"
    and "live_entry s i e \<Longrightarrow> entry_ok p s e"
    and "live_entry s i e \<Longrightarrow> live_entry s j f \<Longrightarrow> i \<noteq> j \<Longrightarrow> header_kva e \<noteq> header_kva f \<and> entry_res s e \<inter> entry_res s f = {}"
    and "slot \<in> used_slots (hpool s) \<Longrightarrow> \<exists>i e. live_entry s i e \<and> header_kva e = KernelVa (slot_addr (hpool_base s) slot)"
  using assms unfolding ps_inv_def by blast+

text \<open>A free slot of the pool means a free entry of the table: live entries have distinct used slots.\<close>

lemma table_has_room:
  assumes "ps_inv p s" and "slot < 128" and "slot \<notin> used_slots (hpool s)"
  shows "\<exists>i. position (\<lambda>e. e = None) (ps_table s) = Some i \<and> i < MAX_PAGESETS \<and> ps_table s ! i = None"
proof (cases "position (\<lambda>e. e = None) (ps_table s)")
  case (Some i)
  then show ?thesis using position_SomeD [OF Some] ps_invD(5) [OF assms(1)] by auto
next
  case None
  have "\<exists>e. live_entry s i e" if "i < 128" for i
    using None that ps_invD(5) [OF assms(1)] by (auto simp: position_None_iff live_entry_def MAX_PAGESETS_def in_set_conv_nth)
  then obtain e where e: "\<And>i. i < 128 \<Longrightarrow> live_entry s i (e i)" by metis
  have "\<exists>sl \<in> used_slots (hpool s). header_kva (e i) = KernelVa (slot_addr (hpool_base s) sl)" if "i < 128" for i
    using ps_invD(6) [OF assms(1) e [OF that]] by (simp add: entry_ok_def)
  then obtain f where f: "\<And>i. i < 128 \<Longrightarrow> f i \<in> used_slots (hpool s) \<and> header_kva (e i) = KernelVa (slot_addr (hpool_base s) (f i))"
    by metis
  have "inj_on f {..<128}"
    using f ps_invD(7) [OF assms(1) e e] by (auto simp: inj_on_def) metis
  moreover have "f ` {..<128} \<subseteq> {..<128} - {slot}" using f assms(3) by (auto simp: used_slots_bit)
  ultimately have "card {..<128::nat} \<le> card ({..<128::nat} - {slot})"
    by (metis card_inj_on_le finite_Diff finite_lessThan)
  then show ?thesis using assms(2) by (simp add: card_Diff_singleton)
qed

section \<open>Creating and removing an entry\<close>

text \<open>The header of another entry is not at the address of a slot that is free.\<close>

lemma other_header:
  assumes "ps_inv p s" and "slot < 128" and "slot \<notin> used_slots (hpool s)" and "live_entry s j f"
  shows "kva_u64 (header_kva f) \<noteq> slot_addr (hpool_base s) slot"
proof -
  obtain k where "k \<in> used_slots (hpool s)" "header_kva f = KernelVa (slot_addr (hpool_base s) k)"
    using ps_invD(6) [OF assms(1,4)] by (auto simp: entry_ok_def)
  then show ?thesis
    using slot_addr_eq_iff [OF ps_invD(4) [OF assms(1)] assms(2), of k] assms(3) by (auto simp: used_slots_bit)
qed

text \<open>
  A creation first claims a slot of the pool. \<open>with_slot\<close> is the state in which the slot is claimed,
  its header written and memory changed, and nothing else.
\<close>

definition claimed :: "PageSets \<Rightarrow> nat \<Rightarrow> PageSetHeaderPoolState \<Rightarrow> bool" where
  "claimed s slot st \<longleftrightarrow> slot < 128 \<and> slot \<notin> used_slots (hpool s) \<and> hpool_ok st \<and>
     used_slots st = insert slot (used_slots (hpool s))"

definition with_slot :: "PageSets \<Rightarrow> nat \<Rightarrow> PageSetHeaderPoolState \<Rightarrow> PageSetHeader \<Rightarrow> PhysMem \<Rightarrow> PageSets" where
  "with_slot s slot st h m =
     s\<lparr>hpool := st, headers := (headers s)(slot_addr (hpool_base s) slot := h), phys := m\<rparr>"

lemma with_slot_simps [simp]:
  "ps_table (with_slot s slot st h m) = ps_table s" "hpool (with_slot s slot st h m) = st"
  "hpool_base (with_slot s slot st h m) = hpool_base s" "hpool_initialized (with_slot s slot st h m) = hpool_initialized s"
  "phys (with_slot s slot st h m) = m" "(with_slot s slot st h m)\<lparr>phys := m'\<rparr> = with_slot s slot st h m'"
  "headers (with_slot s slot st h m) = (headers s)(slot_addr (hpool_base s) slot := h)"
  "store_header (KernelVa (slot_addr (hpool_base s) slot)) b (with_slot s slot st h m) = with_slot s slot st (bh_header b) m"
  by (simp_all add: with_slot_def store_header_def)

text \<open>An entry elsewhere is unaffected by a change to one header, to the pool and to memory.\<close>

lemma keep_entry:
  assumes "ps_inv p s" and "live_entry s j f" and "kva_u64 (header_kva f) \<noteq> a"
    and "headers s' = (headers s)(a := h)" and "pool_base (phys s') = pool_base (phys s)"
    and "hpool_base s' = hpool_base s"
  shows "entry_header s' f = entry_header s f" and "entry_res s' f = entry_res s f"
    and "used_slots (hpool s) - {b} \<subseteq> used_slots (hpool s') \<Longrightarrow> header_kva f \<noteq> KernelVa (slot_addr (hpool_base s) b) \<Longrightarrow>
      entry_res s f \<subseteq> handed_out p (phys s') \<Longrightarrow> entry_ok p s' f"
proof -
  show h: "entry_header s' f = entry_header s f" using assms(3) by (simp add: entry_header_def assms(4))
  show r: "entry_res s' f = entry_res s f" by (simp add: entry_res_def h assms(5))
  assume a: "used_slots (hpool s) - {b} \<subseteq> used_slots (hpool s')" "header_kva f \<noteq> KernelVa (slot_addr (hpool_base s) b)"
    "entry_res s f \<subseteq> handed_out p (phys s')"
  have ok: "entry_ok p s f" using ps_invD(6) [OF assms(1,2)] .
  then obtain k where "k \<in> used_slots (hpool s)" "header_kva f = KernelVa (slot_addr (hpool_base s) k)"
    by (auto simp: entry_ok_def)
  with a(1,2) have "\<exists>slot \<in> used_slots (hpool s'). header_kva f = KernelVa (slot_addr (hpool_base s') slot)"
    using assms(6) by (intro bexI [of _ k]) auto
  with ok a(3) show "entry_ok p s' f" unfolding entry_ok_def h r assms(5) by simp
qed

lemma live_entry_sub: "ps_inv p s \<Longrightarrow> live_entry s j f \<Longrightarrow> entry_res s f \<subseteq> handed_out p (phys s)"
  using ps_invD(6) by (simp add: entry_ok_def)

lemma live_entry_upd:
  "ps_inv p s \<Longrightarrow> i < MAX_PAGESETS \<Longrightarrow> ps_table s' = (ps_table s)[i := x] \<Longrightarrow>
    live_entry s' j f \<longleftrightarrow> (if j = i then x = Some f else live_entry s j f)"
  using ps_invD(5) by (auto simp: live_entry_def)

lemma create_inv:
  assumes inv: "ps_inv p s" and cl: "claimed s slot st" and m: "mem_ok p m" "pool_base m = pool_base (phys s)"
    and R: "handed_out p (phys s) \<subseteq> handed_out p m" "entry_res s' e \<inter> handed_out p (phys s) = {}"
    and i: "i < MAX_PAGESETS" "ps_table s ! i = None"
    and s': "s' = (with_slot s slot st h m)\<lparr>ps_table := (ps_table s)[i := Some e]\<rparr>"
    and e: "header_kva e = KernelVa (slot_addr (hpool_base s) slot)" "entry_ok p s' e"
  shows "ps_inv p s'"
proof -
  have slot: "slot < 128" "slot \<notin> used_slots (hpool s)" and st: "hpool_ok st" "used_slots st = insert slot (used_slots (hpool s))"
    using cl by (simp_all add: claimed_def)
  have live: "live_entry s' j f \<longleftrightarrow> (if j = i then e = f else live_entry s j f)" for j f
    using live_entry_upd [OF inv i(1), of s' "Some e"] by (simp add: s')
  have far: "kva_u64 (header_kva f) \<noteq> slot_addr (hpool_base s) slot" if "live_entry s j f" for j f
    using other_header [OF inv slot that] .
  have f: "headers s' = (headers s)(slot_addr (hpool_base s) slot := h)" "pool_base (phys s') = pool_base (phys s)"
    "hpool_base s' = hpool_base s" by (simp_all add: s' m(2))
  note res = keep_entry(2) [OF inv _ far f]
  have ok: "entry_ok p s' f" if "live_entry s j f" for j f
    by (rule keep_entry(3) [OF inv that far [OF that] f, of slot])
      (use far [OF that] live_entry_sub [OF inv that] R(1) st(2) in \<open>auto simp: s'\<close>)
  have new: "header_kva f \<noteq> header_kva e \<and> entry_res s' f \<inter> entry_res s' e = {}" if "live_entry s j f" for j f
    using far [OF that] unfolding res [OF that that] e(1) using live_entry_sub [OF inv that] R(2) by auto
  show ?thesis unfolding ps_inv_def
  proof (intro conjI allI impI ballI)
    fix j f assume "live_entry s' j f"
    then show "entry_ok p s' f" using e(2) ok by (auto simp: live split: if_splits)
  next
    fix j k f g assume jk: "live_entry s' j f" "live_entry s' k g" "j \<noteq> k"
    consider "f = e" "live_entry s k g" | "g = e" "live_entry s j f" | "live_entry s j f" "live_entry s k g"
      using jk unfolding live by (cases "j = i"; cases "k = i") simp_all
    then have "header_kva f \<noteq> header_kva g \<and> entry_res s' f \<inter> entry_res s' g = {}"
    proof cases
      case 1
      with new [OF 1(2)] show ?thesis by auto
    next
      case 2
      with new [OF 2(2)] show ?thesis by auto
    next
      case 3
      show ?thesis unfolding res [OF 3(1) 3(1)] res [OF 3(2) 3(2)] by (rule ps_invD(7) [OF inv 3 jk(3)])
    qed
    then show "header_kva f \<noteq> header_kva g" "entry_res s' f \<inter> entry_res s' g = {}" by blast+
  next
    fix sl assume "sl \<in> used_slots (hpool s')"
    then consider "sl = slot" | "sl \<in> used_slots (hpool s)" using st(2) by (auto simp: s')
    then show "\<exists>j f. live_entry s' j f \<and> header_kva f = KernelVa (slot_addr (hpool_base s') sl)"
    proof cases
      case 2
      then obtain j f where j: "live_entry s j f" "header_kva f = KernelVa (slot_addr (hpool_base s) sl)"
        using ps_invD(8) [OF inv] by blast
      then have "j \<noteq> i" using i(2) by (auto simp: live_entry_def)
      with j show ?thesis unfolding live by (auto simp: s')
    qed (use e(1) live [of i e] in \<open>auto simp: s'\<close>)
  qed (use ps_invD [OF inv] st m in \<open>simp_all add: s'\<close>)
qed

definition created :: "Platform \<Rightarrow> PageSets \<Rightarrow> nat \<Rightarrow> PageSetEntry \<Rightarrow> PageSetHeader \<Rightarrow> PhysMem \<Rightarrow> PageSets \<Rightarrow> bool" where
  "created p s i e h m s' \<longleftrightarrow>
     (\<exists>slot st. s' = (with_slot s slot st h m)\<lparr>ps_table := (ps_table s)[i := Some e]\<rparr> \<and> claimed s slot st \<and>
        header_kva e = KernelVa (slot_addr (hpool_base s) slot)) \<and>
     i < MAX_PAGESETS \<and> ps_table s ! i = None \<and> ps_inv p s'"

lemma create_entry:
  assumes inv: "ps_inv p s" and cl: "claimed s slot st" and m: "mem_ok p m" "pool_base m = pool_base (phys s)"
    and n: "0 < n" "n \<le> MAX_PRACTICAL_PAGES_PER_SET"
    and h: "origin h = Some org" "shaped (pool_base m) h n org"
    and R: "handed_out p m = handed_out p (phys s) \<union> res (pool_base m) h n org"
      "res (pool_base m) h n org \<inter> handed_out p (phys s) = {}"
    and kva: "kva = KernelVa (slot_addr (hpool_base s) slot)"
    and e: "e = \<lparr>entry_count = n, header_kva = kva, entry_origin = org\<rparr>"
  shows "\<exists>i s'. insert_into_table n kva org (with_slot s slot st h m) = (Some i, s') \<and> created p s i e h m s'"
proof -
  obtain i where i: "position (\<lambda>e. e = None) (ps_table s) = Some i" "i < MAX_PAGESETS" "ps_table s ! i = None"
    using table_has_room [OF inv] cl by (auto simp: claimed_def)
  let ?s = "(with_slot s slot st h m)\<lparr>ps_table := (ps_table s)[i := Some e]\<rparr>"
  have here: "entry_header ?s e = h" by (simp add: entry_header_def e kva)
  then have er: "entry_res ?s e = res (pool_base m) h n org" by (simp add: entry_res_def) (simp add: e)
  have "entry_ok p ?s e"
    unfolding entry_ok_def here using er h n R(1) cl by (auto simp: e kva claimed_def)
  then have "ps_inv p ?s"
    using R er by (intro create_inv [OF inv cl m _ _ i(2,3) refl]) (auto simp: e kva)
  moreover have "insert_into_table n kva org (with_slot s slot st h m) = (Some i, ?s)"
    using n i(1) by (simp add: insert_into_table_def table_insert_def e not_less)
  moreover have "header_kva e = KernelVa (slot_addr (hpool_base s) slot)" by (simp add: e kva)
  ultimately show ?thesis using i cl unfolding created_def by blast
qed

text \<open>What a failed creation leaves behind: the same sets, the same frames and pages handed out.\<close>

definition same_sets :: "Platform \<Rightarrow> PageSets \<Rightarrow> PageSets \<Rightarrow> bool" where
  "same_sets p s s' \<longleftrightarrow>
     ps_table s' = ps_table s \<and> used_slots (hpool s') = used_slots (hpool s) \<and> hpool_base s' = hpool_base s \<and>
     (\<forall>i e. live_entry s i e \<longrightarrow> entry_header s' e = entry_header s e) \<and>
     free_frames p (phys s') = free_frames p (phys s) \<and> handed_out p (phys s') = handed_out p (phys s)"

lemma same_sets_refl [simp]: "same_sets p s s"
  by (simp add: same_sets_def)

lemma abandon_slot:
  assumes inv: "ps_inv p s" and cl: "claimed s slot st" and m: "mem_ok p m" "pool_base m = pool_base (phys s)"
    and same: "handed_out p m = handed_out p (phys s)" "free_frames p m = free_frames p (phys s)"
  shows "\<exists>s'. pool_release (KernelVa (slot_addr (hpool_base s) slot)) (with_slot s slot st h m) = Return s' \<and>
    ps_inv p s' \<and> same_sets p s s'"
proof -
  have slot: "slot < 128" "slot \<notin> used_slots (hpool s)" and st: "hpool_ok st" "used_slots st = insert slot (used_slots (hpool s))"
    using cl by (simp_all add: claimed_def)
  obtain pages st' where r: "hpool_release slot st = Return (pages, st')" "hpool_ok st'" "used_slots st' = used_slots (hpool s)"
    using hpool_release_used [OF st(1), of slot] st(2) slot(2) by auto
  let ?s = "with_slot s slot st' h m"
  have rel: "pool_release (KernelVa (slot_addr (hpool_base s) slot)) (with_slot s slot st h m) = Return ?s"
    using r(1) kva_to_slot_eq [of "with_slot s slot st h m" slot] ps_invD(3,4) [OF inv] slot(1)
    by (simp add: pool_release_def with_slot_def)
  have far: "kva_u64 (header_kva f) \<noteq> slot_addr (hpool_base s) slot" if "live_entry s j f" for j f
    using other_header [OF inv slot that] .
  have f: "headers ?s = (headers s)(slot_addr (hpool_base s) slot := h)" "pool_base (phys ?s) = pool_base (phys s)"
    "hpool_base ?s = hpool_base s" by (simp_all add: m(2))
  note hd = keep_entry(1) [OF inv _ far f] and res = keep_entry(2) [OF inv _ far f]
  have ok: "entry_ok p ?s e" if "live_entry s j e" for j e
    by (rule keep_entry(3) [OF inv that far [OF that] f, of slot])
      (use far [OF that] live_entry_sub [OF inv that] same r(3) in auto)
  have live: "live_entry ?s = live_entry s" by (intro ext) (simp add: live_entry_def)
  have pw: "header_kva e \<noteq> header_kva g \<and> entry_res ?s e \<inter> entry_res ?s g = {}"
    if "live_entry s i e" "live_entry s j g" "i \<noteq> j" for i j e g
    unfolding res [OF that(1,1)] res [OF that(2,2)] by (rule ps_invD(7) [OF inv that])
  have "ps_inv p ?s" unfolding ps_inv_def live
    using ok pw ps_invD(3-5,8) [OF inv] r(2,3) m(1) by simp
  moreover have "same_sets p s ?s" using hd same r(3) by (auto simp: same_sets_def)
  ultimately show ?thesis using rel by blast
qed

lemma pool_full:
  assumes "ps_inv p s" and "used_slots (hpool s) = {..<128}" and "i < MAX_PAGESETS"
  shows "ps_table s ! i \<noteq> None"
proof -
  have "\<exists>j e. live_entry s j e \<and> header_kva e = KernelVa (slot_addr (hpool_base s) sl)" if "sl < 128" for sl
    using ps_invD(8) [OF assms(1), of sl] that assms(2) by blast
  then obtain j e where je: "\<And>sl. sl < 128 \<Longrightarrow> live_entry s (j sl) (e sl) \<and> header_kva (e sl) = KernelVa (slot_addr (hpool_base s) sl)"
    by metis
  have "inj_on j {..<128}"
  proof (rule inj_onI)
    fix a b assume ab: "a \<in> {..<128::nat}" "b \<in> {..<128}" "j a = j b"
    then have "e a = e b" using je [of a] je [of b] by (simp add: live_entry_def)
    then have "slot_addr (hpool_base s) a = slot_addr (hpool_base s) b" using je [of a] je [of b] ab by simp
    then show "a = b" using slot_addr_eq_iff [OF ps_invD(4) [OF assms(1)]] ab by simp
  qed
  then have "card (j ` {..<128}) = 128" by (simp add: card_image)
  moreover have sub: "j ` {..<128} \<subseteq> {..<128}" using je by (auto simp: live_entry_def MAX_PAGESETS_def)
  ultimately have "j ` {..<128} = {..<128}" by (intro card_subset_eq) auto
  then have "i \<in> j ` {..<128}" using assms(3) by (simp add: MAX_PAGESETS_def)
  then obtain sl where "sl < 128" "j sl = i" by auto
  with je [of sl] show ?thesis by (auto simp: live_entry_def)
qed

lemma pool_claim_cases:
  assumes "ps_inv p s" and "n \<le> MAX_PRACTICAL_PAGES_PER_SET"
  obtains (claim) slot st h where "claimed s slot st" "h = zero_prefix (header_pages_for n) (headers s (slot_addr (hpool_base s) slot))"
      "pool_claim (header_pages_for n) s = Return (Some (KernelVa (slot_addr (hpool_base s) slot)), with_slot s slot st h (phys s))"
    | (full) "pool_claim (header_pages_for n) s = Return (None, s)" "\<forall>i < MAX_PAGESETS. ps_table s ! i \<noteq> None"
proof -
  have hp: "0 < header_pages_for n" "header_pages_for n \<le> MAX_HEADER_PAGES_PER_PAGESET"
    using header_pages_bound [OF assms(2)] by simp_all
  show thesis
  proof (rule disjE [OF hpool_claim_cases [OF ps_invD(2) [OF assms(1)] hp]])
    assume "\<exists>slot st'. hpool_claim (header_pages_for n) (hpool s) = (Some slot, st') \<and> hpool_ok st' \<and> slot < 128 \<and>
      slot \<notin> used_slots (hpool s) \<and> used_slots st' = insert slot (used_slots (hpool s))"
    then obtain slot st where c: "hpool_claim (header_pages_for n) (hpool s) = (Some slot, st)" "claimed s slot st"
      by (auto simp: claimed_def)
    show thesis
      by (rule claim [OF c(2) refl])
        (use c slot_kva_eq [OF ps_invD(4) [OF assms(1)], of slot] ps_invD(3) [OF assms(1)] in
          \<open>simp add: pool_claim_def with_slot_def claimed_def\<close>)
  next
    assume f: "hpool_claim (header_pages_for n) (hpool s) = (None, hpool s) \<and> used_slots (hpool s) = {..<128}"
    show thesis
      by (rule full) (use f pool_full [OF assms(1)] ps_invD(3) [OF assms(1)] in \<open>simp_all add: pool_claim_def\<close>)
  qed
qed

section \<open>Data pages from the frame allocator\<close>

definition lists_frames :: "PageSetHeader \<Rightarrow> PhysPage list \<Rightarrow> bool" where
  "lists_frames h fs \<longleftrightarrow> (\<forall>i < length fs. page_words h i = phys_u64 (start_addr (fs ! i)))"

lemma free_frames_finite [simp]: "finite (free_frames p m)" if "frames_ok p m"
  using frames_below [OF that] finite_subset [of "free_pages (frames m)" "{..<ram_pages p}"] by (auto simp: free_frames_def)

lemma handed_out_frame:
  "f \<in> taken_frames p m \<or> f \<in> free_frames p m \<Longrightarrow> frame_of_word (phys_u64 (start_addr f)) = f"
  by (auto simp: taken_frames_def free_frames_def frame_of_word_def frame_containing)

lemma data_loop:
  assumes "\<And>m. loop [] m = Return m"
    and "\<And>j js m. j < length fs \<Longrightarrow> loop (j # js) m = bind_outcome (dealloc_page p (frame_of_word (page_words h j)) m) (loop js)"
    and "\<And>j. j < length fs \<Longrightarrow> frame_of_word (page_words h j) = fs ! j"
    and "frames_ok p m" and "distinct fs" and "set fs \<subseteq> taken_frames p m"
  shows "\<exists>m'. loop [0..<length fs] m = Return m' \<and> frames_ok p m' \<and> free_frames p m' = free_frames p m \<union> set fs \<and>
    taken_frames p m' = taken_frames p m - set fs \<and> (pool m', pool_base m') = (pool m, pool_base m)"
proof -
  have eq: "loop (j # js) m = bind_outcome (dealloc_page p (fs ! j) m) (loop js)" if "j \<in> {..<length fs}" for j js m
    using that assms(2,3) by simp
  have img: "(!) fs ` set [0..<length fs] = set fs" "map ((!) fs) [0..<length fs] = fs"
    by (auto simp: in_set_conv_nth map_nth)
  have "set [0..<length fs] \<subseteq> {..<length fs}" "distinct (map ((!) fs) [0..<length fs])"
    "(!) fs ` set [0..<length fs] \<subseteq> taken_frames p m" unfolding img using assms(5,6) by auto
  from frame_pool.dealloc_loop [of loop "{..<length fs}" p "(!) fs", OF assms(1) eq assms(4) this] show ?thesis
    unfolding img by simp
qed

lemma lists_frames_word:
  assumes "lists_frames h fs" and "set fs \<subseteq> taken_frames p m \<union> free_frames p m" and "j < length fs"
  shows "frame_of_word (page_words h j) = fs ! j"
proof -
  have "fs ! j \<in> taken_frames p m \<union> free_frames p m" using assms(2) nth_mem [OF assms(3)] by blast
  then show ?thesis using assms(1,3) handed_out_frame [of "fs ! j" p m] by (simp add: lists_frames_def)
qed

lemma roll_back_spec:
  assumes "covered b" and "length fs \<le> bh_count b" and "lists_frames (bh_header b) fs" and "frames_ok p m"
    and "distinct fs" and "set fs \<subseteq> taken_frames p m"
  shows "\<exists>m'. roll_back p b [0..<length fs] m = Return m' \<and> frames_ok p m' \<and>
    free_frames p m' = free_frames p m \<union> set fs \<and> taken_frames p m' = taken_frames p m - set fs \<and>
    (pool m', pool_base m') = (pool m, pool_base m)"
  by (rule data_loop [OF _ _ lists_frames_word [OF assms(3)] assms(4-6)])
    (use assms in \<open>auto simp: get_page_covered frame_of_word_def\<close>)

lemma free_data_spec:
  assumes "covered b" and "length fs \<le> bh_count b" and "\<And>j. j < length fs \<Longrightarrow> frame_of_word (page_words (bh_header b) j) = fs ! j"
    and "frames_ok p m" and "distinct fs" and "set fs \<subseteq> taken_frames p m"
  shows "\<exists>m'. free_data p b [0..<length fs] m = Return m' \<and> frames_ok p m' \<and>
    free_frames p m' = free_frames p m \<union> set fs \<and> taken_frames p m' = taken_frames p m - set fs \<and>
    (pool m', pool_base m') = (pool m, pool_base m)"
  by (rule data_loop [OF _ _ assms(3-6)]) (use assms(1,2) in \<open>simp_all add: get_page_covered frame_of_word_def\<close>)

definition data_granted :: "Platform \<Rightarrow> PhysMem \<Rightarrow> PhysMem \<Rightarrow> PhysPage list \<Rightarrow> bool" where
  "data_granted p m m' fs \<longleftrightarrow> frames_ok p m' \<and> distinct fs \<and> set fs \<subseteq> free_frames p m \<and>
     free_frames p m' = free_frames p m - set fs \<and> taken_frames p m' = taken_frames p m \<union> set fs \<and>
     (pool m', pool_base m') = (pool m, pool_base m)"

lemma alloc_data_step:
  assumes "frames_ok p m" and "covered b" and "length fs < bh_count b" and "lists_frames (bh_header b) fs"
  obtains (page) f m' b' where "alloc_page p m = Return (Some f, m')" "frames_ok p m'" "f \<in> free_frames p m"
      "free_frames p m' = free_frames p m - {f}" "taken_frames p m' = insert f (taken_frames p m)"
      "(pool m', pool_base m') = (pool m, pool_base m)"
      "set_page (length fs) (phys_u64 (start_addr f)) b = Return b'" "covered b'" "bh_count b' = bh_count b"
      "backing_pages b' = backing_pages b" "same_meta (bh_header b) (bh_header b')" "lists_frames (bh_header b') (fs @ [f])"
    | (none) "alloc_page p m = Return (None, m)" "free_frames p m = {}"
proof (rule disjE [OF alloc_page_cases [OF assms(1)]])
  assume "\<exists>f m'. alloc_page p m = Return (Some f, m') \<and> frames_ok p m' \<and> f \<in> free_frames p m \<and>
      free_frames p m' = free_frames p m - {f} \<and> taken_frames p m' = insert f (taken_frames p m) \<and>
      (pool m', pool_base m') = (pool m, pool_base m)"
  then obtain f m' where f: "alloc_page p m = Return (Some f, m')" "frames_ok p m'" "f \<in> free_frames p m"
      "free_frames p m' = free_frames p m - {f}" "taken_frames p m' = insert f (taken_frames p m)"
      "(pool m', pool_base m') = (pool m, pool_base m)" by blast
  show thesis
    by (rule page [OF f set_page_covered [OF assms(2,3)]])
      (use assms in \<open>auto simp: same_meta_simps lists_frames_def nth_append less_Suc_eq\<close>)
qed (use none in blast)

lemma alloc_data_spec:
  "frames_ok p m \<Longrightarrow> covered b \<Longrightarrow> bh_count b = n \<Longrightarrow> length fs \<le> n \<Longrightarrow> lists_frames (bh_header b) fs \<Longrightarrow>
    distinct fs \<Longrightarrow> set fs \<subseteq> taken_frames p m \<Longrightarrow>
    (\<exists>gs b' m'. alloc_data p [length fs..<n] b m = Return (True, b', m') \<and> data_granted p m m' gs \<and>
      length (fs @ gs) = n \<and> same_meta (bh_header b) (bh_header b') \<and> lists_frames (bh_header b') (fs @ gs)) \<or>
    (\<exists>b' m'. alloc_data p [length fs..<n] b m = Return (False, b', m') \<and> frames_ok p m' \<and>
      free_frames p m' = free_frames p m \<union> set fs \<and> taken_frames p m' = taken_frames p m - set fs \<and>
      (pool m', pool_base m') = (pool m, pool_base m) \<and> card (free_frames p m) < n - length fs)"
proof (induction "n - length fs" arbitrary: fs b m)
  case 0
  then show ?case by (auto simp: data_granted_def same_meta_simps)
next
  case (Suc k)
  then have lt: "length fs < n" and k: "k = n - length (fs @ [f])" for f by simp_all
  from Suc.prems(1,2) lt [folded Suc.prems(3)] Suc.prems(5) show ?case
  proof (cases rule: alloc_data_step)
    case (page f m1 b1)
    have fresh: "f \<notin> set fs" "f \<notin> taken_frames p m"
      using page(3) Suc.prems(7) free_not_taken_frames [OF Suc.prems(1)] by blast+
    have run: "alloc_data p [length fs..<n] b m = alloc_data p [length (fs @ [f])..<n] b1 m1"
      using page(1,7) lt by (simp add: upt_conv_Cons)
    have c: "Suc (card (free_frames p m1)) = card (free_frames p m)"
      unfolding page(4) by (rule card_Suc_Diff1 [OF free_frames_finite [OF Suc.prems(1)] page(3)])
    have fs1: "distinct (fs @ [f])" "set (fs @ [f]) \<subseteq> taken_frames p m1" "length (fs @ [f]) \<le> n"
      using fresh Suc.prems(6,7) page(5) lt by auto
    have cnt: "bh_count b1 = n" using page(9) Suc.prems(3) by simp
    from Suc.hyps(1) [OF k page(2,8) cnt fs1(3) page(12) fs1(1,2)] show ?thesis
    proof (elim disjE exE conjE)
      fix gs b' m'
      assume a: "alloc_data p [length (fs @ [f])..<n] b1 m1 = Return (True, b', m')" "data_granted p m1 m' gs"
        "length ((fs @ [f]) @ gs) = n" "same_meta (bh_header b1) (bh_header b')" "lists_frames (bh_header b') ((fs @ [f]) @ gs)"
      have "data_granted p m m' (f # gs)" using a(2) page(3-6) by (auto simp: data_granted_def)
      moreover have "same_meta (bh_header b) (bh_header b')" using page(11) a(4) by (rule same_meta_simps(5))
      ultimately show ?thesis using a(1,3,5) unfolding run by (intro disjI1 exI [of _ "f # gs"] exI [of _ b'] exI [of _ m']) simp
    next
      fix b' m'
      assume a: "alloc_data p [length (fs @ [f])..<n] b1 m1 = Return (False, b', m')" "frames_ok p m'"
        "free_frames p m' = free_frames p m1 \<union> set (fs @ [f])" "taken_frames p m' = taken_frames p m1 - set (fs @ [f])"
        "(pool m', pool_base m') = (pool m1, pool_base m1)" "card (free_frames p m1) < n - length (fs @ [f])"
      have "free_frames p m' = free_frames p m \<union> set fs" "taken_frames p m' = taken_frames p m - set fs"
        using a(3,4) page(3-5) fresh by auto
      with a page(6) c show ?thesis unfolding run by (intro disjI2 exI [of _ b'] exI [of _ m']) auto
    qed
  next
    case none
    obtain m' where "roll_back p b [0..<length fs] m = Return m'" "frames_ok p m'"
      "free_frames p m' = free_frames p m \<union> set fs" "taken_frames p m' = taken_frames p m - set fs"
      "(pool m', pool_base m') = (pool m, pool_base m)"
      using roll_back_spec [OF Suc.prems(2) _ Suc.prems(5,1,6,7)] Suc.prems(3,4) by blast
    then show ?thesis using none lt by (intro disjI2 exI [of _ b] exI [of _ m']) (simp add: upt_conv_Cons)
  qed
qed

lemma data_granted_memory:
  assumes "mem_ok p m" and "data_granted p m m' fs"
  shows "mem_ok p m'" "pool_base m' = pool_base m" "handed_out p m' = handed_out p m \<union> Inl ` set fs"
    "Inl ` set fs \<inter> handed_out p m = {}"
proof -
  have "free_frames p m \<inter> taken_frames p m = {}"
    using assms(1) by (simp add: mem_ok_def free_not_taken_frames)
  then show "pool_base m' = pool_base m" "handed_out p m' = handed_out p m \<union> Inl ` set fs"
    "Inl ` set fs \<inter> handed_out p m = {}"
    using assms(2) by (auto simp: data_granted_def handed_out_def)
  have "free_frames p m' \<union> taken_frames p m' \<subseteq> free_frames p m \<union> taken_frames p m"
    using assms(2) by (auto simp: data_granted_def)
  then have "pool_apart p m'"
    using assms pool_apart_mono [of p m m'] by (simp add: mem_ok_def data_granted_def)
  then show "mem_ok p m'" using assms by (simp add: mem_ok_def data_granted_def)
qed

lemma lists_frames_res:
  assumes "lists_frames h fs" and "distinct fs" and "\<forall>f \<in> set fs. frame_of_word (phys_u64 (start_addr f)) = f"
  shows "res pb h (length fs) OriginBuddy = Inl ` set fs" and "shaped pb h (length fs) OriginBuddy"
proof -
  have w: "frame_of_word (page_words h j) = fs ! j" if "j < length fs" for j
    using that assms(1,3) by (simp add: lists_frames_def)
  then have "(\<lambda>i. frame_of_word (page_words h i)) ` {..<length fs} = set fs"
    by (auto simp: set_conv_nth image_iff)
  then show "res pb h (length fs) OriginBuddy = Inl ` set fs" by simp
  show "shaped pb h (length fs) OriginBuddy"
    using w assms(1,2) by (auto simp: inj_on_def nth_eq_iff_index_eq lists_frames_def)
qed

section \<open>Looking up a live set\<close>

lemma find_live:
  assumes "ps_inv p s" and "live_entry s i e"
  shows "find_by_header_kva (header_kva e) (ps_table s) = Some i"
  unfolding find_by_header_kva_def position_Some_iff
proof (intro conjI allI impI)
  show "i < length (ps_table s)" "case ps_table s ! i of None \<Rightarrow> False | Some f \<Rightarrow> header_kva f = header_kva e"
    using assms(2) ps_invD(5) [OF assms(1)] by (simp_all add: live_entry_def)
  fix j assume j: "j < i"
  show "\<not> (case ps_table s ! j of None \<Rightarrow> False | Some f \<Rightarrow> header_kva f = header_kva e)"
  proof (cases "ps_table s ! j")
    case (Some f)
    then have "live_entry s j f" using j assms(2) by (simp add: live_entry_def)
    from ps_invD(7) [OF assms(1) this assms(2)] j Some show ?thesis by simp
  qed simp
qed

lemma live_get: "live_entry s i e \<Longrightarrow> table_get i (ps_table s) = Ok e"
  by (simp add: live_entry_def table_get_def)

lemma read_live:
  assumes "ps_inv p s" and "live_entry s i e"
  shows "trusted_layout_or_panic (header_kva e) s = Return (entry_count e, header_pages_for (entry_count e))"
    and "read_header_backed (header_kva e) s = Return (backed (entry_header s e) (entry_count e))"
  using find_live [OF assms] live_get [OF assms(2)]
  by (simp_all add: read_header_backed_def trusted_layout_or_panic_def trusted_layout_def entry_header_def)

lemma page_live:
  assumes "ps_inv p s" and "live_entry s i e"
  shows "page_set_page (header_kva e) j s =
      Return (if j < entry_count e then Some (PhysAddr (page_words (entry_header s e) j)) else None)"
    and "page_set_origin (header_kva e) s = Return (origin (entry_header s e))"
    and "get_pageset i s = Some (entry_count e, header_kva e)"
  using read_live(2) [OF assms] live_get [OF assms(2)]
  by (simp_all add: page_set_page_def page_set_origin_def get_page_covered get_pageset_def) (simp_all add: backed_def)

lemma get_pageset_other: "j \<noteq> i \<Longrightarrow> get_pageset j (s\<lparr>ps_table := (ps_table s)[i := x]\<rparr>) = get_pageset j s"
  by (simp add: get_pageset_def table_get_def)

section \<open>Freeing a set\<close>

lemma remove_inv:
  assumes inv: "ps_inv p s" and le: "live_entry s i e"
    and slot: "slot \<in> used_slots (hpool s)" "header_kva e = KernelVa (slot_addr (hpool_base s) slot)"
    and st: "hpool_ok st" "used_slots st = used_slots (hpool s) - {slot}"
    and m: "mem_ok p m" "pool_base m = pool_base (phys s)" "handed_out p (phys s) - entry_res s e \<subseteq> handed_out p m"
    and s': "s' = s\<lparr>ps_table := (ps_table s)[i := None], hpool := st, phys := m\<rparr>"
  shows "ps_inv p s'"
proof -
  have i: "i < MAX_PAGESETS" using le by (simp add: live_entry_def)
  have live: "live_entry s' j f \<longleftrightarrow> j \<noteq> i \<and> live_entry s j f" for j f
    using live_entry_upd [OF inv i, of s' None] by (simp add: s')
  have kva: "header_kva f \<noteq> header_kva e" "entry_res s f \<inter> entry_res s e = {}" if "live_entry s j f" "j \<noteq> i" for j f
    using ps_invD(7) [OF inv that(1) le that(2)] by simp_all
  have far: "kva_u64 (header_kva f) \<noteq> kva_u64 (header_kva e)" if "live_entry s j f" "j \<noteq> i" for j f
    using kva(1) [OF that] by (metis KernelVa.exhaust_sel)
  have f: "headers s' = (headers s)(kva_u64 (header_kva e) := headers s (kva_u64 (header_kva e)))"
    "pool_base (phys s') = pool_base (phys s)" "hpool_base s' = hpool_base s" by (simp_all add: s' m(2))
  note res = keep_entry(2) [OF inv _ far f]
  have ok: "entry_ok p s' f" if "live_entry s j f" "j \<noteq> i" for j f
    by (rule keep_entry(3) [OF inv that(1) far [OF that] f, of slot])
      (use kva [OF that] slot live_entry_sub [OF inv that(1)] m(3) st(2) in \<open>auto simp: s'\<close>)
  show ?thesis unfolding ps_inv_def live
  proof (intro conjI allI impI ballI)
    fix j k f g assume jk: "j \<noteq> i \<and> live_entry s j f" "k \<noteq> i \<and> live_entry s k g" "j \<noteq> k"
    note r = res [of j f j] res [of k g k]
    show "header_kva f \<noteq> header_kva g" "entry_res s' f \<inter> entry_res s' g = {}"
      using ps_invD(7) [OF inv _ _ jk(3)] jk(1,2) r by auto
  next
    fix sl assume "sl \<in> used_slots (hpool s')"
    then have sl: "sl \<in> used_slots (hpool s)" "sl \<noteq> slot" using st(2) by (simp_all add: s')
    then obtain j f where j: "live_entry s j f" "header_kva f = KernelVa (slot_addr (hpool_base s) sl)"
      using ps_invD(8) [OF inv] by blast
    have "j \<noteq> i"
    proof
      assume "j = i"
      with j le have "slot_addr (hpool_base s) sl = slot_addr (hpool_base s) slot" using slot(2) by (simp add: live_entry_def)
      with sl slot(1) show False using slot_addr_eq_iff [OF ps_invD(4) [OF inv]] by (simp add: used_slots_bit)
    qed
    with j show "\<exists>j f. (j \<noteq> i \<and> live_entry s j f) \<and> header_kva f = KernelVa (slot_addr (hpool_base s') sl)" by (auto simp: s')
  qed (use ok ps_invD [OF inv] st m in \<open>auto simp: s'\<close>)
qed

text \<open>Giving back what a set owns, by origin.\<close>

definition free_owned :: "Platform \<Rightarrow> PageSetEntry \<Rightarrow> PageSetHeader \<Rightarrow> PhysMem \<Rightarrow> PhysMem outcome" where
  "free_owned p e h m =
     (case entry_origin e of
        OriginBuddy \<Rightarrow> free_data p (backed h (entry_count e)) [0..<entry_count e] m
      | OriginDmaPool \<Rightarrow> free_dma_data (backed h (entry_count e)) (entry_count e) m
      | OriginExternallyOwned \<Rightarrow> Return m)"

lemma free_owned_buddy:
  assumes "mem_ok p m" and "shaped pb h n OriginBuddy" and "res pb h n OriginBuddy \<subseteq> handed_out p m"
  shows "\<exists>m'. free_data p (backed h n) [0..<n] m = Return m' \<and> mem_ok p m' \<and> pool_base m' = pool_base m \<and>
    handed_out p m' = handed_out p m - res pb h n OriginBuddy \<and>
    free_frames p m' = free_frames p m \<union> {f. Inl f \<in> res pb h n OriginBuddy}"
proof -
  define fs where "fs = map (\<lambda>i. frame_of_word (page_words h i)) [0..<n]"
  have fs: "length fs = n" "distinct fs" "res pb h n OriginBuddy = Inl ` set fs"
    using assms(2) by (simp_all add: fs_def distinct_map lessThan_atLeast0)
  have "set fs \<subseteq> taken_frames p m" using assms(3) unfolding fs(3) by (auto simp: handed_out_def)
  moreover have "frames_ok p m" using assms(1) by (simp add: mem_ok_def)
  ultimately obtain m' where m': "free_data p (backed h n) [0..<n] m = Return m'" "frames_ok p m'"
    "free_frames p m' = free_frames p m \<union> set fs" "taken_frames p m' = taken_frames p m - set fs"
    "(pool m', pool_base m') = (pool m, pool_base m)"
    using free_data_spec [OF covered_backed, of fs h n p m] fs(1,2) by (auto simp: fs_def backed_def)
  have "set fs \<subseteq> taken_frames p m" using assms(3) unfolding fs(3) by (auto simp: handed_out_def)
  then have "free_frames p m' \<union> taken_frames p m' \<subseteq> free_frames p m \<union> taken_frames p m" using m'(3,4) by blast
  then have "pool_apart p m'" using m'(5) assms(1) pool_apart_mono [of p m m'] by (simp add: mem_ok_def)
  then have "mem_ok p m'" using m'(2,5) assms(1) by (simp add: mem_ok_def)
  with m' show ?thesis unfolding fs(3) by (auto simp: handed_out_def)
qed

lemma free_owned_dma:
  assumes "mem_ok p m" and "shaped (pool_base m) h n OriginDmaPool" and "res (pool_base m) h n OriginDmaPool \<subseteq> handed_out p m"
    and "0 < n"
  shows "\<exists>m'. free_dma_data (backed h n) n m = Return m' \<and> mem_ok p m' \<and> pool_base m' = pool_base m \<and>
    handed_out p m' = handed_out p m - res (pool_base m) h n OriginDmaPool \<and> free_frames p m' = free_frames p m"
proof -
  let ?w = "page_words h 0" let ?d = "dma_index (pool_base m) ?w"
  have w: "pool_base m \<noteq> 0" "?d + n \<le> DMA_POOL_PAGES" "unat ?w = unat (pool_base m) + ?d * 4096"
    using assms(2,4) by simp_all
  then have le: "pool_base m \<le> ?w" by (simp add: word_le_nat_alt)
  have off: "unat (?w - pool_base m) = ?d * 4096" using w(3) by (simp add: unat_offset [OF le])
  have sub: "{?d ..< ?d + n} \<subseteq> used_pages (pool m)" and di: "dma_inv (pool m)"
    using assms(1,3) by (auto simp: handed_out_def mem_ok_def)
  obtain d where d: "dma_free ?d n (pool m) = Return d" "dma_inv d" "used_pages d = used_pages (pool m) - {?d ..< ?d + n}"
    using dma_free_legal [OF di w(2) sub] by blast
  have "dma_free_pages_at (PhysAddr ?w) n m = Return (m\<lparr>pool := d\<rparr>)"
    using w(1) le d(1) by (simp add: dma_free_pages_at_def Let_def page_offset_zero off unat_div)
  then have "free_dma_data (backed h n) n m = Return (m\<lparr>pool := d\<rparr>)"
    using assms(4) by (simp add: free_dma_data_def get_page_covered) (simp add: backed_def)
  moreover have "mem_ok p (m\<lparr>pool := d\<rparr>)" using assms(1) d(2)
    by (simp add: mem_ok_def frames_ok_def pool_apart_def free_frames_def taken_frames_def)
  ultimately show ?thesis using d(3) by (auto simp: handed_out_def free_frames_def taken_frames_def)
qed

lemma free_owned_spec:
  assumes "ps_inv p s" and "live_entry s i e"
  shows "\<exists>m. free_owned p e (entry_header s e) (phys s) = Return m \<and> mem_ok p m \<and> pool_base m = pool_base (phys s) \<and>
    handed_out p m = handed_out p (phys s) - entry_res s e \<and>
    free_frames p m = free_frames p (phys s) \<union> {f. Inl f \<in> entry_res s e}"
proof -
  have ok: "mem_ok p (phys s)" "shaped (pool_base (phys s)) (entry_header s e) (entry_count e) (entry_origin e)"
    "res (pool_base (phys s)) (entry_header s e) (entry_count e) (entry_origin e) \<subseteq> handed_out p (phys s)" "0 < entry_count e"
    using ps_invD(1,6) [OF assms(1)] assms(2) by (auto simp: entry_ok_def entry_res_def)
  show ?thesis
  proof (cases "entry_origin e")
    case OriginBuddy
    with free_owned_buddy [OF ok(1) ok(2,3) [unfolded OriginBuddy]] show ?thesis by (simp add: free_owned_def entry_res_def)
  next
    case OriginDmaPool
    with free_owned_dma [OF ok(1) ok(2,3) [unfolded OriginDmaPool] ok(4)] show ?thesis by (auto simp: free_owned_def entry_res_def)
  qed (use ok(1) in \<open>simp add: free_owned_def entry_res_def\<close>)
qed

text \<open>Unlinking a live set and releasing its slot, after memory has become \<open>m\<close>.\<close>

lemma unlink_live:
  assumes inv: "ps_inv p s" and le: "live_entry s i e"
    and m: "mem_ok p m" "pool_base m = pool_base (phys s)" "handed_out p (phys s) - entry_res s e \<subseteq> handed_out p m"
  shows "\<exists>s'. pool_release (header_kva e) (snd (consume_by_header_kva (header_kva e) (s\<lparr>phys := m\<rparr>))) = Return s' \<and>
    ps_inv p s' \<and> ps_table s' = (ps_table s)[i := None] \<and> headers s' = headers s \<and> phys s' = m"
proof -
  obtain slot where slot: "slot \<in> used_slots (hpool s)" "header_kva e = KernelVa (slot_addr (hpool_base s) slot)"
    using ps_invD(6) [OF inv le] by (auto simp: entry_ok_def)
  obtain pages st where st: "hpool_release slot (hpool s) = Return (pages, st)" "hpool_ok st" "used_slots st = used_slots (hpool s) - {slot}"
    using hpool_release_used [OF ps_invD(2) [OF inv] slot(1)] by blast
  let ?s = "s\<lparr>ps_table := (ps_table s)[i := None], hpool := st, phys := m\<rparr>"
  let ?u = "s\<lparr>phys := m, ps_table := (ps_table s)[i := None]\<rparr>"
  have "consume_by_header_kva (header_kva e) (s\<lparr>phys := m\<rparr>) = (True, ?u)"
    using find_live [OF inv le] le by (simp add: consume_by_header_kva_def table_remove_def live_entry_def)
  moreover have "kva_to_slot (header_kva e) ?u = Return slot"
    using kva_to_slot_eq [of ?u slot] ps_invD(4) [OF inv] slot by (simp add: used_slots_bit)
  ultimately have "pool_release (header_kva e) (snd (consume_by_header_kva (header_kva e) (s\<lparr>phys := m\<rparr>))) = Return ?s"
    using st(1) ps_invD(3) [OF inv] by (simp add: pool_release_def)
  moreover have "ps_inv p ?s" by (rule remove_inv [OF inv le slot st(2,3) m refl])
  ultimately show ?thesis by simp
qed

definition set_freed :: "Platform \<Rightarrow> PageSets \<Rightarrow> nat \<Rightarrow> PageSetEntry \<Rightarrow> PageSets \<Rightarrow> bool" where
  "set_freed p s i e s' \<longleftrightarrow> ps_inv p s' \<and> ps_table s' = (ps_table s)[i := None] \<and> headers s' = headers s \<and>
     handed_out p (phys s') = handed_out p (phys s) - entry_res s e \<and>
     free_frames p (phys s') = free_frames p (phys s) \<union> {f. Inl f \<in> entry_res s e}"

lemma free_by_header_spec:
  assumes inv: "ps_inv p s" and le: "live_entry s i e"
  shows "\<exists>s'. free_by_header_kva p (header_kva e) s = Return s' \<and> set_freed p s i e s'"
proof -
  obtain m where m: "free_owned p e (entry_header s e) (phys s) = Return m" "mem_ok p m" "pool_base m = pool_base (phys s)"
    "handed_out p m = handed_out p (phys s) - entry_res s e" "free_frames p m = free_frames p (phys s) \<union> {f. Inl f \<in> entry_res s e}"
    using free_owned_spec [OF assms] by blast
  obtain s' where s': "pool_release (header_kva e) (snd (consume_by_header_kva (header_kva e) (s\<lparr>phys := m\<rparr>))) = Return s'"
    "ps_inv p s'" "ps_table s' = (ps_table s)[i := None]" "headers s' = headers s" "phys s' = m"
    using unlink_live [OF inv le m(2,3)] m(4) by auto
  have "origin (entry_header s e) = Some (entry_origin e)" using ps_invD(6) [OF assms] by (simp add: entry_ok_def)
  then have "free_by_header_kva p (header_kva e) s =
      bind_outcome (free_owned p e (entry_header s e) (phys s)) (\<lambda>m.
        pool_release (header_kva e) (snd (consume_by_header_kva (header_kva e) (s\<lparr>phys := m\<rparr>))))"
    unfolding free_by_header_kva_def free_owned_def by (simp add: read_live [OF assms]) (simp add: backed_def)
  then show ?thesis using m s' by (simp add: set_freed_def)
qed

lemma res_words:
  assumes "page_words h' = page_words h"
  shows "res pb h' n org = res pb h n org" "shaped pb h' n org = shaped pb h n org"
  by (cases org; simp add: assms)+

text \<open>Updating the counters of a header.\<close>

definition with_counts :: "KernelVa \<Rightarrow> u32 \<Rightarrow> u32 \<Rightarrow> PageSets \<Rightarrow> PageSets" where
  "with_counts kva r c s =
     s\<lparr>headers := (headers s)(kva_u64 kva := (headers s (kva_u64 kva))\<lparr>refcount := r, map_count := c\<rparr>)\<rparr>"

lemma with_counts_simps [simp]:
  "ps_table (with_counts kva r c s) = ps_table s" "phys (with_counts kva r c s) = phys s"
  "hpool (with_counts kva r c s) = hpool s" "hpool_base (with_counts kva r c s) = hpool_base s"
  "hpool_initialized (with_counts kva r c s) = hpool_initialized s"
  "live_entry (with_counts kva r c s) = live_entry s"
  by (simp_all add: with_counts_def live_entry_def fun_eq_iff)

lemma with_counts_entry:
  "page_words (entry_header (with_counts kva r c s) e) = page_words (entry_header s e)"
  "origin (entry_header (with_counts kva r c s) e) = origin (entry_header s e)"
  by (simp_all add: with_counts_def entry_header_def origin_def)

lemma with_counts_inv:
  assumes "ps_inv p s"
  shows "ps_inv p (with_counts kva r c s)" and "entry_res (with_counts kva r c s) e = entry_res s e"
proof -
  have w: "entry_res (with_counts kva r c s) e = entry_res s e" for e
    by (simp add: entry_res_def res_words [OF with_counts_entry(1)])
  have "entry_ok p (with_counts kva r c s) e = entry_ok p s e" for e
    by (simp add: entry_ok_def w with_counts_entry(2) res_words [OF with_counts_entry(1)])
  with assms w show "ps_inv p (with_counts kva r c s)" by (simp add: ps_inv_def)
  show "entry_res (with_counts kva r c s) e = entry_res s e" by (rule w)
qed

lemma dec_refcount_run:
  "dec_refcount_and_maybe_free p kva s =
    (let h = headers s (kva_u64 kva); s' = with_counts kva (refcount h - 1) (map_count h) s in
     if refcount h = 0 then Panic
     else if refcount h = 1 \<and> map_count h = 0 then free_by_header_kva p kva s' else Return s')"
proof -
  have u: "h\<lparr>refcount := r, map_count := map_count h\<rparr> = h\<lparr>refcount := r\<rparr>" for h r by (cases h) simp
  show ?thesis
    unfolding dec_refcount_and_maybe_free_def dec_refcount_def Let_def with_counts_def u
    by (simp add: assert_then_def word_gt_0)
qed

section \<open>Properties\<close>

lemma createdD:
  assumes "ps_inv p s" and "created p s i e h m s'"
  shows "ps_inv p s'" "live_entry s' i e" "entry_header s' e = h" "phys s' = m" "get_pageset i s = None"
    and "j \<noteq> i \<Longrightarrow> get_pageset j s' = get_pageset j s"
proof -
  obtain slot st where s': "s' = (with_slot s slot st h m)\<lparr>ps_table := (ps_table s)[i := Some e]\<rparr>"
    "header_kva e = KernelVa (slot_addr (hpool_base s) slot)" "i < MAX_PAGESETS" "ps_table s ! i = None" "ps_inv p s'"
    using assms(2) by (auto simp: created_def)
  then show "ps_inv p s'" "live_entry s' i e" "entry_header s' e = h" "phys s' = m" "get_pageset i s = None"
    using ps_invD(5) [OF assms(1)] by (auto simp: live_entry_def entry_header_def get_pageset_def table_get_def)
  show "j \<noteq> i \<Longrightarrow> get_pageset j s' = get_pageset j s"
    by (simp add: s'(1) get_pageset_def table_get_def)
qed

definition buddy_set_made :: "Platform \<Rightarrow> nat \<Rightarrow> PageSets \<Rightarrow> nat \<Rightarrow> PhysPage list \<Rightarrow> PageSets \<Rightarrow> bool" where
  "buddy_set_made p n s i fs s' \<longleftrightarrow>
     (\<exists>e h m. created p s i e h m s' \<and> entry_count e = n \<and> origin h = Some OriginBuddy \<and> length fs = n \<and>
        lists_frames h fs \<and> data_granted p (phys s) m fs)"

lemma make_buddy_set:
  assumes inv: "ps_inv p s" and cl: "claimed s slot st" and n: "0 < n" "n \<le> MAX_PRACTICAL_PAGES_PER_SET"
    and h: "origin h = Some OriginBuddy" "length fs = n" "lists_frames h fs" and g: "data_granted p (phys s) m fs"
  shows "\<exists>i s'. insert_into_table n (KernelVa (slot_addr (hpool_base s) slot)) OriginBuddy (with_slot s slot st h m) =
    (Some i, s') \<and> buddy_set_made p n s i fs s'"
proof -
  note gm = data_granted_memory [OF ps_invD(1) [OF inv] g]
  have fr: "\<forall>f \<in> set fs. frame_of_word (phys_u64 (start_addr f)) = f" and dist: "distinct fs"
    using g handed_out_frame by (auto simp: data_granted_def)
  note lr = lists_frames_res [OF h(3) dist fr, of "pool_base m", unfolded h(2)]
  obtain i s' where "insert_into_table n (KernelVa (slot_addr (hpool_base s) slot)) OriginBuddy (with_slot s slot st h m) = (Some i, s')"
    "created p s i \<lparr>entry_count = n, header_kva = KernelVa (slot_addr (hpool_base s) slot), entry_origin = OriginBuddy\<rparr> h m s'"
    using create_entry [OF inv cl gm(1,2) n h(1) lr(2) _ _ refl refl, unfolded lr(1), OF gm(3,4)] by blast
  then show ?thesis using h g unfolding buddy_set_made_def
    by (intro exI conjI) (assumption | simp)+
qed

lemma ps_alloc_pages_cases:
  assumes inv: "ps_inv p s" and n: "0 < n" "n \<le> MAX_PRACTICAL_PAGES_PER_SET"
  shows "(\<exists>e s'. ps_alloc_pages p n s = Return (Err e, s') \<and> ps_inv p s' \<and> same_sets p s s' \<and>
      (e = HeaderPoolExhausted \<and> (\<forall>i < MAX_PAGESETS. ps_table s ! i \<noteq> None) \<or>
       e = BuddyExhausted \<and> card (free_frames p (phys s)) < n)) \<or>
    (\<exists>i fs s'. ps_alloc_pages p n s = Return (Ok i, s') \<and> buddy_set_made p n s i fs s')"
  using inv n(2)
proof (cases rule: pool_claim_cases)
  case full
  then show ?thesis using n inv by (auto simp: ps_alloc_pages_def)
next
  case (claim slot st h0)
  let ?kva = "KernelVa (slot_addr (hpool_base s) slot)"
  define h1 where "h1 = h0\<lparr>hdr_count := of_nat n, hdr_pages := of_nat (header_pages_for n), origin_raw := origin_raw_of OriginBuddy\<rparr>"
  have mem: "mem_ok p (phys s)" "frames_ok p (phys s)" using ps_invD(1) [OF inv] by (simp_all add: mem_ok_def)
  have run: "ps_alloc_pages p n s = bind_outcome (alloc_data p [0..<n] (backed h1 n) (phys s)) (\<lambda>(ok, b, m).
      let s = with_slot s slot st (bh_header b) m in
      if \<not> ok then bind_outcome (pool_release ?kva s) (\<lambda>s. Return (Err BuddyExhausted, s))
      else case insert_into_table n ?kva OriginBuddy s of
        (None, s) \<Rightarrow> bind_outcome (pool_release ?kva s) (\<lambda>s. Return (Err PageSetTableFull, s))
      | (Some i, s) \<Rightarrow> Return (Ok i, s))"
    using n claim(3) set_count_backed [of n OriginBuddy h0] by (simp add: ps_alloc_pages_def h1_def)
  have b: "bh_count (backed h1 n) = n" "lists_frames (bh_header (backed h1 n)) []"
    by (simp_all add: backed_def lists_frames_def)
  from alloc_data_spec [OF mem(2) covered_backed b(1) _ b(2), simplified] show ?thesis
  proof (elim disjE exE conjE)
    fix gs b' m'
    assume a: "alloc_data p [0..<n] (backed h1 n) (phys s) = Return (True, b', m')" "data_granted p (phys s) m' gs"
      "length gs = n" "same_meta (bh_header (backed h1 n)) (bh_header b')" "lists_frames (bh_header b') gs"
    have org: "origin (bh_header b') = Some OriginBuddy"
      using same_meta_simps(1) [OF a(4)] by (simp only: backed_def h1_def origin_set BackedHeader.select_convs)
    from make_buddy_set [OF inv claim(1) n org a(3,5,2)] show ?thesis
      unfolding run a(1) by (elim exE conjE) (intro disjI2, auto simp: Let_def)
  next
    fix b' m'
    assume a: "alloc_data p [0..<n] (backed h1 n) (phys s) = Return (False, b', m')" "frames_ok p m'"
      "free_frames p m' = free_frames p (phys s)" "taken_frames p m' = taken_frames p (phys s)"
      "pool m' = pool (phys s)" "pool_base m' = pool_base (phys s)" "card (free_frames p (phys s)) < n"
    then have "mem_ok p m'" "pool_base m' = pool_base (phys s)" "handed_out p m' = handed_out p (phys s)"
      using mem(1) by (simp_all add: mem_ok_def handed_out_def pool_apart_def)
    then obtain s' where "pool_release ?kva (with_slot s slot st (bh_header b') m') = Return s'" "ps_inv p s'" "same_sets p s s'"
      using abandon_slot [OF inv claim(1)] a(3) by blast
    with a(1,7) show ?thesis unfolding run by (intro disjI1) (auto simp: Let_def)
  qed
qed

text \<open>What every creation does: it fails and leaves the sets as they were, or adds one set.\<close>

definition creates :: "Platform \<Rightarrow> PageSets \<Rightarrow> ((nat, AllocError) result \<times> PageSets) outcome \<Rightarrow> bool" where
  "creates p s r \<longleftrightarrow>
     (\<exists>e s'. r = Return (Err e, s') \<and> ps_inv p s' \<and> same_sets p s s') \<or>
     (\<exists>i s' e h m. r = Return (Ok i, s') \<and> created p s i e h m s')"

lemma creates_Err [intro]: "ps_inv p s' \<Longrightarrow> same_sets p s s' \<Longrightarrow> creates p s (Return (Err e, s'))"
  by (auto simp: creates_def)

lemma ps_alloc_pages_creates:
  assumes "ps_inv p s"
  shows "creates p s (ps_alloc_pages p n s)"
proof (cases "n = 0 \<or> MAX_PRACTICAL_PAGES_PER_SET < n")
  case True
  with assms show ?thesis by (auto simp: ps_alloc_pages_def)
next
  case False
  then show ?thesis
    using ps_alloc_pages_cases [OF assms, of n] unfolding creates_def buddy_set_made_def by (simp add: not_less) blast
qed

lemma header_init_spec:
  assumes "length as = n"
  shows "\<exists>h'. header_init as org (backed h n) = Return (backed h' n) \<and> origin h' = Some org \<and> refcount h' = 0 \<and>
    map_count h' = 0 \<and> (\<forall>i < n. page_words h' i = as ! i)"
proof -
  let ?h = "h\<lparr>hdr_count := of_nat n, hdr_pages := of_nat (header_pages_for n), origin_raw := origin_raw_of org, refcount := 0, map_count := 0\<rparr>"
  obtain h' where h': "set_pages_from 0 as (backed ?h n) = Return ((backed ?h n)\<lparr>bh_header := h'\<rparr>)" "same_meta ?h h'"
    "\<forall>j. page_words h' j = (if 0 \<le> j \<and> j < 0 + length as then as ! (j - 0) else page_words ?h j)"
    using set_pages_from_spec [OF covered_backed, of 0 as ?h n] assms by (auto simp: backed_def)
  have "header_init as org (backed h n) = set_pages_from 0 as (backed ?h n)"
    by (simp add: header_init_def assms set_count_backed) (simp add: backed_def)
  moreover have "origin ?h = Some org" by (simp add: origin_def)
  ultimately show ?thesis using h' assms same_meta_simps(1-3) [OF h'(2)] by (intro exI [of _ h']) (simp add: backed_def)
qed

lemma register_creates:
  assumes inv: "ps_inv p s" and n: "0 < n" "n \<le> MAX_PRACTICAL_PAGES_PER_SET" and as: "length as = n"
  shows "creates p s (alloc_and_insert_header as n OriginExternallyOwned s)"
  using inv n(2)
proof (cases rule: pool_claim_cases)
  case full
  then show ?thesis using inv by (auto simp: alloc_and_insert_header_def)
next
  case (claim slot st h0)
  obtain h where h: "header_init as OriginExternallyOwned (backed h0 n) = Return (backed h n)" "origin h = Some OriginExternallyOwned"
    using header_init_spec [OF as] by blast
  have m: "mem_ok p (phys s)" using ps_invD(1) [OF inv] .
  obtain i s' e where i: "insert_into_table n (KernelVa (slot_addr (hpool_base s) slot)) OriginExternallyOwned (with_slot s slot st h (phys s)) = (Some i, s')"
    "created p s i e h (phys s) s'"
    using create_entry [OF inv claim(1) m refl n h(2) _ _ _ refl refl] by auto
  have "alloc_and_insert_header as n OriginExternallyOwned s = Return (Ok i, s')"
    using claim(3) h(1) i(1) by (simp add: alloc_and_insert_header_def) (simp add: backed_def)
  with i(2) show ?thesis by (auto simp: creates_def)
qed

lemma register_existing_creates: "ps_inv p s \<Longrightarrow> creates p s (register_existing n pages s)"
  by (auto simp: register_existing_def not_less MAX_REGISTER_EXISTING_PAGES_def MAX_PRACTICAL_PAGES_PER_SET_def
      intro!: register_creates)

lemma register_device_creates: "ps_inv p s \<Longrightarrow> creates p s (register_device_page a s)"
  unfolding register_device_page_def by (rule register_creates) (simp_all add: MAX_PRACTICAL_PAGES_PER_SET_def)

text \<open>A contiguous block is a list of consecutive frames.\<close>

lemma frame_inj: "frames_ok p m \<Longrightarrow> inj_on (frame_at p) {..<ram_pages p}"
  by (auto simp: inj_on_def frame_at_eq_iff frames_ok_def)

lemma run_granted:
  assumes "frames_ok p m" and "buddy_inv b" and "alloc_gives k (frames m) idx b"
  shows "idx + 2 ^ k \<le> ram_pages p" and "data_granted p m (m\<lparr>frames := b\<rparr>) (map (frame_at p) [idx..<idx + 2 ^ k])"
proof -
  let ?r = "page_run idx k" let ?m = "m\<lparr>frames := b\<rparr>"
  have g: "?r \<subseteq> free_pages (frames m)" "free_pages b = free_pages (frames m) - ?r" "total_pages b = ram_pages p"
    "\<forall>q < MAX_PAGES. page_allocated b q \<longleftrightarrow> q \<in> ?r \<or> page_allocated (frames m) q"
    using assms(1,3) by (simp_all add: alloc_gives_def frames_ok_def)
  have below: "free_pages (frames m) \<subseteq> {..<ram_pages p}" using frames_below [OF assms(1)] by auto
  have "0 < (2 :: nat) ^ k" by simp
  then have "idx + 2 ^ k - 1 \<in> ?r" unfolding page_run_def atLeastLessThan_iff by linarith
  then have "idx + 2 ^ k - 1 < ram_pages p" using g(1) below by blast
  then show "idx + 2 ^ k \<le> ram_pages p" by linarith
  have s: "set (map (frame_at p) [idx..<idx + 2 ^ k]) = frame_at p ` ?r" by (simp add: page_run_def)
  note inj = frame_inj [OF assms(1)]
  have d: "distinct (map (frame_at p) [idx..<idx + 2 ^ k])"
    using inj_on_subset [OF inj, of ?r] g(1) below by (auto simp: distinct_map page_run_def)
  have f: "free_frames p ?m = free_frames p m - frame_at p ` ?r"
    using inj_on_image_set_diff [OF inj, of "free_pages (frames m)" ?r] below g(1,2) by (auto simp: free_frames_def)
  have "q < MAX_PAGES" if "q < ram_pages p" for q using that assms(1) by (simp add: frames_ok_def platform_ok_def)
  then have "{q. q < ram_pages p \<and> page_allocated b q} = {q. q < ram_pages p \<and> page_allocated (frames m) q} \<union> ?r"
    using g(1,4) below by auto
  then have t: "taken_frames p ?m = taken_frames p m \<union> frame_at p ` ?r" by (simp add: taken_frames_def image_Un)
  have "frames_ok p ?m" using assms(1,2) g(3) by (simp add: frames_ok_def)
  then show "data_granted p m ?m (map (frame_at p) [idx..<idx + 2 ^ k])"
    unfolding data_granted_def s using d f t g(1) by (auto simp: free_frames_def)
qed

lemma alloc_contiguous_cases:
  assumes "frames_ok p m" and "0 < n" and "order_for_count n = Return k"
  shows "(\<exists>idx m'. alloc_pages_contiguous p n m = Return (Some (frame_at p idx), m') \<and> idx + 2 ^ k \<le> ram_pages p \<and>
      data_granted p m m' (map (frame_at p) [idx..<idx + 2 ^ k])) \<or>
    alloc_pages_contiguous p n m = Return (None, m)"
proof -
  have run: "alloc_pages_contiguous p n m = alloc_order p k m" using assms(2,3) by (simp add: alloc_pages_contiguous_def)
  have i: "buddy_inv (frames m)" and pl: "platform_ok p" using assms(1) by (simp_all add: frames_ok_def)
  show ?thesis
  proof (cases "k \<le> MAX_ORDER")
    case True
    show ?thesis
    proof (rule disjE [OF buddy_alloc_spec [OF i True]])
      assume "\<exists>idx b. buddy_alloc k (frames m) = Return (Some idx, b) \<and> buddy_inv b \<and> alloc_gives k (frames m) idx b"
      then obtain idx b where a: "buddy_alloc k (frames m) = Return (Some idx, b)" "buddy_inv b" "alloc_gives k (frames m) idx b"
        by blast
      note g = run_granted [OF assms(1) a(2,3)]
      have "idx < idx + 2 ^ k" by simp
      then have "index_to_page p idx = Return (frame_at p idx)" using frame_at_index(1) [OF pl] g(1) by (meson less_le_trans)
      with a(1) g show ?thesis unfolding run alloc_order_def by (intro disjI1 exI conjI) (simp, assumption, assumption)
    qed (simp add: run alloc_order_def)
  qed (simp add: run alloc_order_def buddy_alloc_def)
qed

lemma contiguous_lists_frames:
  assumes "platform_ok p" and "idx + n \<le> ram_pages p" and "0 < n"
  shows "unat (phys_u64 (start_addr (frame_at p idx))) + n * 4096 \<le> 2 ^ 64"
    and "\<forall>j. page_words h j = (if 0 \<le> j \<and> j < n then phys_u64 (start_addr (frame_at p idx)) + of_nat j * PAGE_SIZE else w j) \<Longrightarrow>
      lists_frames h (map (frame_at p) [idx..<idx + n])"
proof -
  have u: "unat (phys_u64 (start_addr (frame_at p i))) = base_of p + i * 4096" if "i < idx + n" for i
    using frame_at_index(3) [OF assms(1)] that assms(2) by simp
  have "ram_pages p * 4096 \<le> unat (ram_size p)" unfolding ram_pages_nat by (rule div_times_less_eq_dividend)
  then have top: "base_of p + (idx + n) * 4096 < 2 ^ 64"
    using assms(1,2) mult_le_mono1 [OF assms(2), of 4096] by (simp only: platform_ok_def) linarith
  then show "unat (phys_u64 (start_addr (frame_at p idx))) + n * 4096 \<le> 2 ^ 64"
    using u [of idx] assms(3) unfolding add_mult_distrib by simp
  assume w: "\<forall>j. page_words h j = (if 0 \<le> j \<and> j < n then phys_u64 (start_addr (frame_at p idx)) + of_nat j * PAGE_SIZE else w j)"
  have "phys_u64 (start_addr (frame_at p idx)) + of_nat j * PAGE_SIZE = phys_u64 (start_addr (frame_at p (idx + j)))" if "j < n" for j
  proof -
    have b: "base_of p + idx * 4096 + j * 4096 < 2 ^ 64" using top that unfolding add_mult_distrib by linarith
    then have "unat (of_nat j * PAGE_SIZE :: u64) = j * 4096"
      by (simp add: PAGE_SIZE_def unat_word_ariths unat_of_nat mod_simps)
    then have "unat (phys_u64 (start_addr (frame_at p idx)) + of_nat j * PAGE_SIZE) = base_of p + idx * 4096 + j * 4096"
      using b u [of idx] assms(3) by (simp add: unat_word_ariths(1))
    also have "\<dots> = unat (phys_u64 (start_addr (frame_at p (idx + j))))" using u [of "idx + j"] that by (simp add: add_mult_distrib)
    finally show ?thesis by (simp add: word_unat_eq_iff)
  qed
  with w show "lists_frames h (map (frame_at p) [idx..<idx + n])" by (simp add: lists_frames_def)
qed

lemma contiguous_granted:
  assumes inv: "ps_inv p s" and cl: "claimed s slot st" and c: "0 < c" "c \<le> MAX_PRACTICAL_PAGES_PER_SET"
    and idx: "idx + c \<le> ram_pages p" and g: "data_granted p (phys s) m (map (frame_at p) [idx..<idx + c])"
    and h1: "origin h1 = Some OriginBuddy"
  shows "\<exists>b i s'. set_run (phys_u64 (start_addr (frame_at p idx))) [0..<c] (backed h1 c) = Return b \<and>
    insert_into_table c (KernelVa (slot_addr (hpool_base s) slot)) OriginBuddy (with_slot s slot st (bh_header b) m) = (Some i, s') \<and>
    buddy_set_made p c s i (map (frame_at p) [idx..<idx + c]) s'"
proof -
  have "platform_ok p" using ps_invD(1) [OF inv] by (simp add: mem_ok_def frames_ok_def)
  note lf = contiguous_lists_frames [OF this idx c(1)]
  obtain h where h: "set_run (phys_u64 (start_addr (frame_at p idx))) [0..<c] (backed h1 c) = Return ((backed h1 c)\<lparr>bh_header := h\<rparr>)"
    "same_meta h1 h" "\<forall>j. page_words h j = (if 0 \<le> j \<and> j < c then phys_u64 (start_addr (frame_at p idx)) + of_nat j * PAGE_SIZE else page_words h1 j)"
    using set_run_spec [OF lf(1) covered_backed, of h1 c 0] by (auto simp: backed_def)
  have "origin h = Some OriginBuddy" using same_meta_simps(1) [OF h(2)] h1 by simp
  from make_buddy_set [OF inv cl c this _ lf(2) [OF h(3)] g] h(1) show ?thesis by auto
qed

lemma contiguous_run:
  assumes "0 < n" and "n \<le> MAX_PRACTICAL_PAGES_PER_SET" and "order_for_count n = Return k"
  shows "ps_alloc_pages_contiguous p n s =
    (if MAX_PRACTICAL_PAGES_PER_SET < 2 ^ k then Return (Err InvalidCountErr, s)
     else bind_outcome (pool_claim (header_pages_for (2 ^ k)) s) (\<lambda>(r, s).
       case r of
         None \<Rightarrow> Return (Err HeaderPoolExhausted, s)
       | Some kva \<Rightarrow>
           bind_outcome (alloc_pages_contiguous p n (phys s)) (\<lambda>(r, m).
             case r of
               None \<Rightarrow> bind_outcome (pool_release kva (s\<lparr>phys := m\<rparr>)) (\<lambda>s. Return (Err BuddyExhausted, s))
             | Some first_data \<Rightarrow>
                 bind_outcome (set_run (phys_u64 (start_addr first_data)) [0..<2 ^ k]
                     (backed ((headers s (kva_u64 kva))\<lparr>hdr_count := of_nat (2 ^ k), hdr_pages := of_nat (header_pages_for (2 ^ k)),
                        origin_raw := origin_raw_of OriginBuddy\<rparr>) (2 ^ k))) (\<lambda>b.
                   case insert_into_table (2 ^ k) kva OriginBuddy (store_header kva b (s\<lparr>phys := m\<rparr>)) of
                     (Some i, s) \<Rightarrow> Return (Ok i, s)
                   | (None, s) \<Rightarrow>
                       bind_outcome (dealloc_pages_contiguous p first_data n (phys s)) (\<lambda>m.
                       bind_outcome (pool_release kva (s\<lparr>phys := m\<rparr>)) (\<lambda>s.
                         Return (Err PageSetTableFull, s)))))))"
  using assms
  by (simp add: ps_alloc_pages_contiguous_def Let_def push_bit_of_1 not_less set_count_backed
      cong: option.case_cong)

lemma ps_alloc_contiguous_creates:
  assumes inv: "ps_inv p s"
  shows "creates p s (ps_alloc_pages_contiguous p n s)"
proof (cases "0 < n \<and> n \<le> MAX_PRACTICAL_PAGES_PER_SET")
  case False
  with inv show ?thesis by (auto simp: ps_alloc_pages_contiguous_def)
next
  case True
  then have n: "0 < n" "n \<le> MAX_PRACTICAL_PAGES_PER_SET" "n \<le> 2 ^ 63" by (simp_all add: MAX_PRACTICAL_PAGES_PER_SET_def)
  obtain k where k: "order_for_count n = Return k" using order_fits [OF n(1,3)] by blast
  note run = contiguous_run [OF n(1,2) k]
  show ?thesis
  proof (cases "MAX_PRACTICAL_PAGES_PER_SET < 2 ^ k")
    case True
    with inv show ?thesis by (auto simp: run)
  next
    case small: False
    then have c: "0 < (2::nat) ^ k" "(2::nat) ^ k \<le> MAX_PRACTICAL_PAGES_PER_SET" by simp_all
    from inv c(2) show ?thesis
    proof (cases rule: pool_claim_cases)
      case full
      with small inv show ?thesis by (auto simp: run)
    next
      case (claim slot st h0)
      have mem: "mem_ok p (phys s)" "frames_ok p (phys s)" using ps_invD(1) [OF inv] by (simp_all add: mem_ok_def)
      show ?thesis
      proof (rule disjE [OF alloc_contiguous_cases [OF mem(2) n(1) k]])
        assume none: "alloc_pages_contiguous p n (phys s) = Return (None, phys s)"
        obtain s' where "pool_release (KernelVa (slot_addr (hpool_base s) slot)) (with_slot s slot st h0 (phys s)) = Return s'"
          "ps_inv p s'" "same_sets p s s'" using abandon_slot [OF inv claim(1) mem(1) refl refl refl] by blast
        with none claim(3) small show ?thesis by (auto simp: run)
      next
        assume "\<exists>idx m'. alloc_pages_contiguous p n (phys s) = Return (Some (frame_at p idx), m') \<and> idx + 2 ^ k \<le> ram_pages p \<and>
          data_granted p (phys s) m' (map (frame_at p) [idx..<idx + 2 ^ k])"
        then obtain idx m' where a: "alloc_pages_contiguous p n (phys s) = Return (Some (frame_at p idx), m')"
          "idx + 2 ^ k \<le> ram_pages p" "data_granted p (phys s) m' (map (frame_at p) [idx..<idx + 2 ^ k])" by blast
        obtain b i s' where b: "set_run (phys_u64 (start_addr (frame_at p idx))) [0..<2 ^ k]
            (backed (h0\<lparr>hdr_count := of_nat (2 ^ k), hdr_pages := of_nat (header_pages_for (2 ^ k)), origin_raw := origin_raw_of OriginBuddy\<rparr>) (2 ^ k)) = Return b"
          "insert_into_table (2 ^ k) (KernelVa (slot_addr (hpool_base s) slot)) OriginBuddy (with_slot s slot st (bh_header b) m') = (Some i, s')"
          and made: "buddy_set_made p (2 ^ k) s i (map (frame_at p) [idx..<idx + 2 ^ k]) s'"
          using contiguous_granted [OF inv claim(1) c a(2,3) origin_set] by blast
        have "ps_alloc_pages_contiguous p n s = Return (Ok i, s')"
          using small a(1) claim(3) b by (simp add: run del: origin_raw_of.simps)
        with made show ?thesis by (auto simp: creates_def buddy_set_made_def)
      qed
    qed
  qed
qed

text \<open>A run of the DMA pool.\<close>

lemma dma_alloc_pages_cases:
  assumes "mem_ok p m" and "0 < n"
  shows "(\<exists>a d start. dma_alloc_pages n m = Return (Ok (PhysAddr a), m\<lparr>pool := d\<rparr>) \<and> pool_base m \<noteq> 0 \<and> dma_inv d \<and>
      free_run (pool m) start n \<and> used_pages d = used_pages (pool m) \<union> {start ..< start + n} \<and>
      unat a = unat (pool_base m) + start * 4096) \<or>
    (\<exists>e. dma_alloc_pages n m = Return (Err e, m))"
proof (cases "pool_base m = 0 \<or> DMA_POOL_PAGES < n")
  case True
  then show ?thesis by (auto simp: dma_alloc_pages_def dma_alloc_def)
next
  case False
  then have n: "n \<le> DMA_POOL_PAGES" and di: "dma_inv (pool m)" using assms(1) by (simp_all add: mem_ok_def)
  show ?thesis
  proof (rule disjE [OF dma_alloc_cases [OF di assms(2) n]])
    assume "\<exists>start d. dma_alloc n (pool m) = Return (Ok start, d) \<and> dma_inv d \<and> free_run (pool m) start n \<and>
      (\<forall>s < start. \<not> free_run (pool m) s n) \<and> used_pages d = used_pages (pool m) \<union> {start ..< start + n}"
    then obtain start d where a: "dma_alloc n (pool m) = Return (Ok start, d)" "dma_inv d" "free_run (pool m) start n"
      "used_pages d = used_pages (pool m) \<union> {start ..< start + n}" by blast
    have "start < DMA_POOL_PAGES" using a(3) assms(2) by (simp add: free_run_def)
    then have b: "unat (pool_base m) + start * 4096 < 2 ^ 64" using assms(1) by (simp add: mem_ok_def)
    then have "unat (of_nat start * PAGE_SIZE :: u64) = start * 4096"
      by (simp add: PAGE_SIZE_def unat_word_ariths unat_of_nat mod_simps)
    then have "unat (pool_base m + of_nat start * PAGE_SIZE) = unat (pool_base m) + start * 4096"
      using b by (simp add: unat_word_ariths(1))
    moreover have "dma_alloc_pages n m = Return (Ok (PhysAddr (pool_base m + of_nat start * PAGE_SIZE)), m\<lparr>pool := d\<rparr>)"
      using False a(1) b by (simp add: dma_alloc_pages_def)
    ultimately show ?thesis using False a by blast
  qed (use False in \<open>simp add: dma_alloc_pages_def\<close>)
qed

lemma dma_granted:
  assumes inv: "ps_inv p s" and cl: "claimed s slot st" and n: "0 < n" "n \<le> MAX_PRACTICAL_PAGES_PER_SET"
    and d: "dma_inv d" "free_run (pool (phys s)) start n" "used_pages d = used_pages (pool (phys s)) \<union> {start ..< start + n}"
    and a: "unat a = unat (pool_base (phys s)) + start * 4096" "pool_base (phys s) \<noteq> 0"
    and h1: "origin h1 = Some OriginDmaPool"
  shows "\<exists>b i s' e. set_run a [0..<n] (backed h1 n) = Return b \<and>
    insert_into_table n (KernelVa (slot_addr (hpool_base s) slot)) OriginDmaPool
      (with_slot s slot st (bh_header b) ((phys s)\<lparr>pool := d\<rparr>)) = (Some i, s') \<and>
    created p s i e (bh_header b) ((phys s)\<lparr>pool := d\<rparr>) s'"
proof -
  let ?m = "(phys s)\<lparr>pool := d\<rparr>"
  have m: "mem_ok p ?m" "pool_base ?m = pool_base (phys s)"
    using ps_invD(1) [OF inv] d(1)
    by (simp_all add: mem_ok_def frames_ok_def pool_apart_def free_frames_def taken_frames_def)
  have fr: "start + n \<le> DMA_POOL_PAGES" "{start ..< start + n} \<inter> used_pages (pool (phys s)) = {}"
    using d(2) by (simp_all add: free_run_def)
  have "unat (pool_base (phys s)) + DMA_POOL_PAGES * 4096 \<le> 2 ^ 64" using ps_invD(1) [OF inv] by (simp add: mem_ok_def)
  moreover have "(start + n) * 4096 \<le> DMA_POOL_PAGES * 4096" using fr(1) by (rule mult_le_mono1)
  ultimately have fit: "unat a + n * 4096 \<le> 2 ^ 64" unfolding a(1) add_mult_distrib by linarith
  from set_run_spec [OF fit covered_backed, of h1 n 0] obtain h where
    h: "set_run a [0..<n] (backed h1 n) = Return ((backed h1 n)\<lparr>bh_header := h\<rparr>)" "same_meta h1 h"
      "\<forall>j. page_words h j = (if 0 \<le> j \<and> j < n then a + of_nat j * PAGE_SIZE else page_words h1 j)"
    by (auto simp: backed_def)
  have org: "origin h = Some OriginDmaPool" using same_meta_simps(1) [OF h(2)] h1 by simp
  have w: "page_words h 0 = a" "dma_index (pool_base ?m) a = start" using h(3) n(1) a(1) by (simp_all add: dma_index_def)
  moreover have "unat (page_words h j) = unat (pool_base ?m) + (start + j) * 4096" if "j < n" for j
  proof -
    have b: "unat a + j * 4096 < 2 ^ 64" using fit that by linarith
    then have "unat (of_nat j * PAGE_SIZE :: u64) = j * 4096"
      by (simp add: PAGE_SIZE_def unat_word_ariths unat_of_nat mod_simps)
    then have "unat (a + of_nat j * PAGE_SIZE) = unat a + j * 4096" using b by (simp add: unat_word_ariths(1))
    then show ?thesis using h(3) that a(1) by (simp add: add_mult_distrib)
  qed
  ultimately have r: "res (pool_base ?m) h n OriginDmaPool = Inr ` {start ..< start + n}" "shaped (pool_base ?m) h n OriginDmaPool"
    using fr(1) a(2) by simp_all
  have "handed_out p ?m = handed_out p (phys s) \<union> Inr ` {start ..< start + n}"
    "Inr ` {start ..< start + n} \<inter> handed_out p (phys s) = {}"
    using d(3) fr(2) by (auto simp: handed_out_def taken_frames_def)
  from create_entry [OF inv cl m n org r(2) _ _ refl refl, unfolded r(1), OF this] h(1) show ?thesis by auto
qed

lemma alloc_dma_creates:
  assumes inv: "ps_inv p s"
  shows "creates p s (alloc_dma_pages n s)"
proof (cases "0 < n \<and> n \<le> MAX_PRACTICAL_PAGES_PER_SET")
  case False
  with inv show ?thesis by (auto simp: alloc_dma_pages_def)
next
  case True
  then have n: "0 < n" "n \<le> MAX_PRACTICAL_PAGES_PER_SET" by simp_all
  have mem: "mem_ok p (phys s)" using ps_invD(1) [OF inv] .
  from inv n(2) show ?thesis
  proof (cases rule: pool_claim_cases)
    case full
    with n inv show ?thesis by (auto simp: alloc_dma_pages_def)
  next
    case (claim slot st h0)
    from dma_alloc_pages_cases [OF mem n(1)] show ?thesis
    proof (elim disjE exE conjE)
      fix e assume e: "dma_alloc_pages n (phys s) = Return (Err e, phys s)"
      obtain s' where "pool_release (KernelVa (slot_addr (hpool_base s) slot)) (with_slot s slot st h0 (phys s)) = Return s'"
        "ps_inv p s'" "same_sets p s s'" using abandon_slot [OF inv claim(1) mem refl refl refl] by blast
      with e n claim(3) show ?thesis by (auto simp: alloc_dma_pages_def)
    next
      fix a d start
      assume a: "dma_alloc_pages n (phys s) = Return (Ok (PhysAddr a), (phys s)\<lparr>pool := d\<rparr>)" "pool_base (phys s) \<noteq> 0"
        "dma_inv d" "free_run (pool (phys s)) start n" "used_pages d = used_pages (pool (phys s)) \<union> {start ..< start + n}"
        "unat a = unat (pool_base (phys s)) + start * 4096"
      obtain b i s' e where b: "set_run a [0..<n] (backed (h0\<lparr>hdr_count := of_nat n, hdr_pages := of_nat (header_pages_for n),
            origin_raw := origin_raw_of OriginDmaPool\<rparr>) n) = Return b"
          "insert_into_table n (KernelVa (slot_addr (hpool_base s) slot)) OriginDmaPool
            (with_slot s slot st (bh_header b) ((phys s)\<lparr>pool := d\<rparr>)) = (Some i, s')"
        and made: "created p s i e (bh_header b) ((phys s)\<lparr>pool := d\<rparr>) s'"
        using dma_granted [OF inv claim(1) n a(3-6,2) origin_set] by blast
      have "alloc_dma_pages n s = Return (Ok i, s')"
        using n a(1) claim(3) b by (simp add: alloc_dma_pages_def Let_def set_count_backed del: origin_raw_of.simps)
      with made show ?thesis by (auto simp: creates_def)
    qed
  qed
qed

section \<open>Runs\<close>

text \<open>
  Everything the kernel does to its page sets after the pool is initialised: creations of every kind,
  counter updates on the header of a live set, dropping references, and unlinking a set whose data
  pages change hands.
\<close>

definition put_header :: "KernelVa \<Rightarrow> PageSetHeader \<Rightarrow> PageSets \<Rightarrow> PageSets" where
  "put_header kva h s = s\<lparr>headers := (headers s)(kva_u64 kva := h)\<rparr>"

definition no_page_sets :: "(u64 \<Rightarrow> PageSetHeader) \<Rightarrow> PhysMem \<Rightarrow> PageSets" where
  "no_page_sets hs m =
     \<lparr>ps_table = table_new, hpool = hpool_new, hpool_base = 0, hpool_initialized = False, headers = hs, phys = m\<rparr>"

inductive ps_run :: "Platform \<Rightarrow> PageSets \<Rightarrow> bool" for p where
  Boot: "mem_ok p m \<Longrightarrow> unat (kva_u64 kva) + 128 * 135168 \<le> 2 ^ 64 \<Longrightarrow>
    hpool_init (Some kva) (no_page_sets hs m) = Return s \<Longrightarrow> ps_run p s"
| Alloc: "ps_run p s \<Longrightarrow> ps_alloc_pages p n s = Return (r, s') \<Longrightarrow> ps_run p s'"
| Contiguous: "ps_run p s \<Longrightarrow> ps_alloc_pages_contiguous p n s = Return (r, s') \<Longrightarrow> ps_run p s'"
| Dma: "ps_run p s \<Longrightarrow> alloc_dma_pages n s = Return (r, s') \<Longrightarrow> ps_run p s'"
| Existing: "ps_run p s \<Longrightarrow> register_existing n pages s = Return (r, s') \<Longrightarrow> ps_run p s'"
| Device: "ps_run p s \<Longrightarrow> register_device_page a s = Return (r, s') \<Longrightarrow> ps_run p s'"
| IncRef: "ps_run p s \<Longrightarrow> live_entry s i e \<Longrightarrow> inc_refcount (entry_header s e) = Return h \<Longrightarrow>
    ps_run p (put_header (header_kva e) h s)"
| IncMap: "ps_run p s \<Longrightarrow> live_entry s i e \<Longrightarrow> inc_map_count (entry_header s e) = Return h \<Longrightarrow>
    ps_run p (put_header (header_kva e) h s)"
| DecMap: "ps_run p s \<Longrightarrow> live_entry s i e \<Longrightarrow> dec_map_count (entry_header s e) = Return (b, h) \<Longrightarrow>
    ps_run p (put_header (header_kva e) h s)"
| DropRef: "ps_run p s \<Longrightarrow> live_entry s i e \<Longrightarrow> dec_refcount_and_maybe_free p (header_kva e) s = Return s' \<Longrightarrow>
    ps_run p s'"
| DropBoth: "ps_run p s \<Longrightarrow> live_entry s i e \<Longrightarrow> dec_both_and_maybe_free p (header_kva e) s = Return s' \<Longrightarrow>
    ps_run p s'"
| Unlink: "ps_run p s \<Longrightarrow> live_entry s i e \<Longrightarrow> free_header_page (header_kva e) s = Return s' \<Longrightarrow> ps_run p s'"

lemma put_header_counts:
  assumes "h = (entry_header s e)\<lparr>refcount := r, map_count := c\<rparr>"
  shows "put_header (header_kva e) h s = with_counts (header_kva e) r c s"
  by (simp add: put_header_def with_counts_def assms entry_header_def)

lemma counts_same: "h\<lparr>refcount := r\<rparr> = h\<lparr>refcount := r, map_count := map_count h\<rparr>"
  "h\<lparr>map_count := c\<rparr> = h\<lparr>refcount := refcount h, map_count := c\<rparr>" for h :: PageSetHeader
  by (cases h; simp)+

lemma count_ops:
  "inc_refcount h = Return h' \<Longrightarrow> \<exists>r c. h' = h\<lparr>refcount := r, map_count := c\<rparr>"
  "inc_map_count h = Return h' \<Longrightarrow> \<exists>r c. h' = h\<lparr>refcount := r, map_count := c\<rparr>"
  "dec_map_count h = Return (b, h') \<Longrightarrow> \<exists>r c. h' = h\<lparr>refcount := r, map_count := c\<rparr>"
  by (auto simp: inc_refcount_def inc_map_count_def dec_map_count_def Let_def assert_then_Return_iff split: option.splits)
    (metis counts_same)+

lemma creates_inv: "ps_inv p s \<Longrightarrow> creates p s r \<Longrightarrow> r = Return (x, s') \<Longrightarrow> ps_inv p s'"
  by (auto simp: creates_def dest: createdD)

lemma drop_ref_inv:
  assumes "ps_inv p s" and "live_entry s i e" and "dec_refcount_and_maybe_free p (header_kva e) s = Return s'"
  shows "ps_inv p s'"
proof -
  let ?h = "headers s (kva_u64 (header_kva e))"
  let ?s = "with_counts (header_kva e) (refcount ?h - 1) (map_count ?h) s"
  have "ps_inv p ?s" "live_entry ?s i e" using with_counts_inv [OF assms(1)] assms(2) by simp_all
  with free_by_header_spec [of p ?s i e] assms(3) show ?thesis
    by (auto simp: dec_refcount_run Let_def set_freed_def split: if_splits)
qed

lemma ps_run_inv: "ps_run p s \<Longrightarrow> ps_inv p s"
proof (induction rule: ps_run.induct)
  case (Boot m kva hs s)
  then have s: "s = (no_page_sets hs m)\<lparr>hpool_base := kva_u64 kva, hpool_initialized := True\<rparr>"
    by (simp add: hpool_init_def no_page_sets_def)
  have "used_slots hpool_new = {}"
    by (auto simp: used_slots_bit hpool_new_def POOL_BITMAP_WORDS_def MAX_PAGESETS_def div_less_iff_less_mult)
  with Boot show ?case
    by (auto simp: s no_page_sets_def ps_inv_def live_entry_def table_new_def hpool_ok_def hpool_new_def
        POOL_BITMAP_WORDS_def MAX_PAGESETS_def)
next
  case (DropBoth s i e s')
  then obtain b h where h: "dec_map_count (entry_header s e) = Return (b, h)"
    "dec_refcount_and_maybe_free p (header_kva e) (put_header (header_kva e) h s) = Return s'"
    by (auto simp: dec_both_and_maybe_free_def put_header_def entry_header_def returned)
  obtain r c where "put_header (header_kva e) h s = with_counts (header_kva e) r c s"
    using count_ops(3) [OF h(1)] put_header_counts by blast
  with h(2) drop_ref_inv [of p "with_counts (header_kva e) r c s" i e s'] with_counts_inv(1) [OF DropBoth.IH] DropBoth.hyps show ?case
    by simp
next
  case (Unlink s i e s')
  have "mem_ok p (phys s)" using ps_invD(1) [OF Unlink.IH] .
  from unlink_live [OF Unlink.IH Unlink.hyps(2) this refl] Unlink.hyps show ?case by (auto simp: free_header_page_def)
qed (use creates_inv ps_alloc_pages_creates ps_alloc_contiguous_creates alloc_dma_creates register_existing_creates
      register_device_creates drop_ref_inv put_header_counts count_ops with_counts_inv(1) in metis)+

text \<open>Memory as the boot sequence leaves it is a start of such a run.\<close>

lemma pool_inside:
  assumes "platform_ok p" and "pool_pages m p \<subseteq> {..<ram_pages p}"
    and "pool_base m = 0 \<or> base_of p < unat (pool_base m) \<and> unat (pool_base m) mod 4096 = 0"
  shows "unat (pool_base m) + DMA_POOL_PAGES * 4096 \<le> 2 ^ 64"
proof (cases "pool_base m = 0")
  case False
  define d where "d = unat (pool_base m) - base_of p"
  have e: "unat (pool_base m) = base_of p + d" using assms(3) False by (simp add: d_def)
  have al: "base_of p mod 4096 = 0" "base_of p + unat (ram_size p) < 2 ^ 64" using assms(1) by (simp_all add: platform_ok_def)
  have "d mod 4096 = 0" using assms(3) False al(1) mod_add_left_eq [of "base_of p" 4096 d] unfolding e by simp
  then have d: "d = d div 4096 * 4096" by auto
  have "d div 4096 + 511 \<in> pool_pages m p" using False by (simp add: pool_pages_def d_def DMA_POOL_PAGES_def)
  then have "d div 4096 + 511 < unat (ram_size p) div 4096" using assms(2) by (auto simp: ram_pages_nat)
  then have "d div 4096 + 512 \<le> unat (ram_size p) div 4096" by simp
  then have "(d div 4096 + 512) * 4096 \<le> unat (ram_size p) div 4096 * 4096" by (rule mult_le_mono1)
  also have "\<dots> \<le> unat (ram_size p)" by (rule div_times_less_eq_dividend)
  finally have "(d div 4096 + 512) * 4096 \<le> unat (ram_size p)" .
  then have "d + DMA_POOL_PAGES * 4096 \<le> unat (ram_size p)" using d by (simp add: DMA_POOL_PAGES_def)
  then show ?thesis using al(2) unfolding e by linarith
qed (simp add: DMA_POOL_PAGES_def)

lemma dma_empty_inv: "dma_inv dma_empty"
  by (simp add: dma_inv_def dma_empty_def used_pages_def dma_used_def)

lemma boot_mem_ok:
  assumes "boot_ok p ke ss se"
  shows "\<exists>m. init_with_gap p ke ss se phys_mem_new = Return m \<and> mem_ok p m"
proof -
  let ?R = "\<lambda>m. {i. i < ram_pages p \<and> page_bytes p i \<inter> reserved_bytes p ke ss se m = {}}"
  obtain m where m: "init_with_gap p ke ss se phys_mem_new = Return m" "buddy_run (?R m) {} (frames m)"
    "total_pages (frames m) = ram_pages p" "pool_pages m p \<subseteq> {..<ram_pages p}"
    "pool_base m = 0 \<or> base_of p < unat (pool_base m) \<and> unat (pool_base m) mod 4096 = 0"
    using init_with_gap_run [OF assms] by (elim exE conjE)
  have pl: "platform_ok p" using assms by (simp add: boot_ok_def)
  then have np: "ram_pages p \<le> MAX_PAGES" by (simp add: platform_ok_def)
  have inv: "buddy_inv (frames m)" and live: "live_ok (?R m) {} (frames m)" using buddy_run_ok [OF m(2)] by auto
  have fr: "frames_ok p m" using pl inv m(3) by (simp add: frames_ok_def)
  have taken: "taken_frames p m = {}" using live np by (auto simp: taken_frames_def live_ok_def)
  have free: "free_pages (frames m) = ?R m" using live by (simp add: live_ok_def)
  have "pool_apart p m"
    unfolding pool_apart_def
  proof (intro impI ballI allI)
    fix f q assume nz: "pool_base m \<noteq> 0" and f: "f \<in> free_frames p m \<union> taken_frames p m" and q: "q < DMA_POOL_PAGES"
    obtain i where i: "f = frame_at p i" "i < ram_pages p" "page_bytes p i \<inter> reserved_bytes p ke ss se m = {}"
      using f by (auto simp: taken free_frames_def free)
    have "unat (pool_base m) + q * 4096 \<in> reserved_bytes p ke ss se m" using nz q by (simp add: reserved_bytes_def)
    moreover have "base_of p + i * 4096 \<in> page_bytes p i" by (simp add: page_bytes_def)
    ultimately show "unat (phys_u64 (start_addr f)) \<noteq> unat (pool_base m) + q * 4096"
      unfolding i(1) frame_at_index(3) [OF pl i(2)] using i(3) by auto
  qed
  moreover have "pool m = dma_empty" using init_with_gap_pool [OF m(1)] by (simp add: phys_mem_new_def)
  moreover have "unat (pool_base m) + DMA_POOL_PAGES * 4096 \<le> 2 ^ 64"
    by (rule pool_inside [OF pl m(4,5)])
  ultimately show ?thesis using m(1,5) fr dma_empty_inv by (intro exI [of _ m]) (auto simp: mem_ok_def)
qed

section \<open>A small machine\<close>

text \<open>Memory with sixteen free frames and an empty DMA pool, and the kernel's state after boot.\<close>

lemma demo_mem: "\<exists>m. mem_ok virt_board m \<and> card (free_frames virt_board m) = 16 \<and> pool m = dma_empty \<and> pool_base m = 0x42000000"
proof -
  have pl: "platform_ok virt_board" using virt_board_boot by (simp add: boot_ok_def)
  then have np: "ram_pages virt_board \<le> MAX_PAGES" by (simp add: platform_ok_def)
  have r: "ram_pages virt_board = 16384" "base_of virt_board = 0x40000000"
    by (simp_all add: ram_pages_nat virt_board_def base_of_def)
  obtain b where b: "buddy_init (ram_pages virt_board) buddy_new = Return b" "buddy_inv b" "free_pages b = {}"
    "total_pages b = ram_pages virt_board" using buddy_init_spec [OF np] by blast
  have "0 + 16 \<le> total_pages b" "{0 ..< 0 + 16} \<inter> free_pages b = {}" by (simp_all add: b r)
  from add_range_spec [OF b(2) this] obtain b' where b': "add_range 0 16 b = Return b'" "buddy_inv b'"
    "free_pages b' = {0 ..< 16}" "total_pages b' = ram_pages virt_board" by (auto simp: b)
  have "buddy_run ({} \<union> {0 ..< 0 + 16}) {} b'"
    using b(1) b'(1) by (intro buddy_run.AddRange [of _ _ b] buddy_run.Init [of "ram_pages virt_board"]) simp_all
  then have "\<forall>q < MAX_PAGES. \<not> page_allocated b' q" using buddy_run_ok by (fastforce simp: live_ok_def)
  then have none: "{i. i < ram_pages virt_board \<and> page_allocated b' i} = {}" using np by auto
  let ?m = "\<lparr>frames = b', pool = dma_empty, pool_base = 0x42000000\<rparr>"
  have ok: "frames_ok virt_board ?m" using b' pl by (simp add: frames_ok_def)
  have "unat (phys_u64 (start_addr (frame_at virt_board i))) < 0x42000000" if "i < 16" for i
    using frame_at_index(3) [OF pl, of i] that by (simp add: r)
  then have "pool_apart virt_board ?m"
    by (auto simp: pool_apart_def free_frames_def taken_frames_def none b'(3)) (metis not_add_less1)
  then have "mem_ok virt_board ?m" using ok dma_empty_inv by (simp add: mem_ok_def DMA_POOL_PAGES_def)
  moreover have "inj_on (frame_at virt_board) {0 ..< 16}" by (rule inj_on_subset [OF frame_inj [OF ok]]) (simp add: r subset_iff)
  then have "card (free_frames virt_board ?m) = 16" by (simp add: free_frames_def b'(3) card_image)
  ultimately show ?thesis by (intro exI [of _ ?m] conjI) simp_all
qed

lemma demo_state:
  "\<exists>s. ps_run virt_board s \<and> ps_table s ! 0 = None \<and> ps_table s ! 1 = None \<and> card (free_frames virt_board (phys s)) = 16"
proof -
  obtain m where m: "mem_ok virt_board m" "card (free_frames virt_board m) = 16" using demo_mem by blast
  let ?s = "(no_page_sets (\<lambda>_. zero_prefix 0 \<lparr>hdr_count = 0, hdr_pages = 0, refcount = 0, map_count = 0, origin_raw = 0, page_words = (\<lambda>_. 0)\<rparr>) m)
    \<lparr>hpool_base := 0xFFFF000100000000, hpool_initialized := True\<rparr>"
  have "ps_run virt_board ?s"
    by (rule ps_run.Boot [OF m(1), of "KernelVa 0xFFFF000100000000"]) (simp_all add: hpool_init_def no_page_sets_def)
  then show ?thesis using m(2) by (intro exI [of _ ?s]) (simp add: no_page_sets_def table_new_def MAX_PAGESETS_def)
qed

lemma demo_set:
  "\<exists>s i fs s'. ps_run virt_board s \<and> ps_table s ! 0 = None \<and> ps_table s ! 1 = None \<and>
     card (free_frames virt_board (phys s)) = 16 \<and> ps_alloc_pages virt_board 3 s = Return (Ok i, s') \<and> buddy_set_made virt_board 3 s i fs s'"
proof -
  obtain s where s: "ps_run virt_board s" "ps_table s ! 0 = None" "card (free_frames virt_board (phys s)) = 16"
    "ps_table s ! 1 = None" using demo_state by blast
  have "(3::nat) \<le> MAX_PRACTICAL_PAGES_PER_SET" "0 < MAX_PAGESETS" by (simp_all add: MAX_PRACTICAL_PAGES_PER_SET_def MAX_PAGESETS_def)
  with ps_alloc_pages_cases [OF ps_run_inv [OF s(1)], of 3] s(2,3) show ?thesis using s(1,4) by auto
qed

section \<open>Main results\<close>

lemma buddy_set_visible:
  assumes "ps_inv p s" and "buddy_set_made p n s i fs s'"
  shows "\<exists>kva. ps_inv p s' \<and> get_pageset i s = None \<and> get_pageset i s' = Some (n, kva) \<and>
    (\<forall>j. j \<noteq> i \<longrightarrow> get_pageset j s' = get_pageset j s) \<and> length fs = n \<and> distinct fs \<and>
    set fs \<subseteq> free_frames p (phys s) \<and> free_frames p (phys s') = free_frames p (phys s) - set fs \<and>
    page_set_origin kva s' = Return (Some OriginBuddy) \<and>
    (\<forall>j < n. page_set_page kva j s' = Return (Some (start_addr (fs ! j))))"
proof -
  obtain e h m where e: "created p s i e h m s'" "entry_count e = n" "origin h = Some OriginBuddy" "length fs = n"
    "lists_frames h fs" "data_granted p (phys s) m fs" using assms(2) by (auto simp: buddy_set_made_def)
  note c = createdD [OF assms(1) e(1)]
  note v = page_live [OF c(1,2)]
  have "page_set_page (header_kva e) j s' = Return (Some (start_addr (fs ! j)))" if "j < n" for j
    using that v(1) [of j] e(2,4,5) c(3) by (simp add: lists_frames_def)
  then show ?thesis using c v(2,3) e by (intro exI [of _ "header_kva e"]) (simp add: data_granted_def)
qed

text \<open>C17. Creating a page set is exact: from any good state it returns without a panic. It fails with
  an invalid count for an illegal size, with pool exhaustion exactly when all 128 sets are live, and
  with memory exhaustion when fewer frames than asked for are free; then the sets, their headers and
  the free frames are as before. The table-full error never occurs, although the code that handles it
  would lose the data pages. Otherwise a new identifier is bound to a set of that many distinct,
  formerly free frames, readable through the header, and every other set is unchanged.\<close>

theorem page_set_alloc_exact:
  assumes "ps_inv p s"
  shows "(\<exists>e s'. ps_alloc_pages p n s = Return (Err e, s') \<and> ps_inv p s' \<and> same_sets p s s' \<and>
      (e = InvalidCountErr \<and> (n = 0 \<or> MAX_PRACTICAL_PAGES_PER_SET < n) \<or>
       e = HeaderPoolExhausted \<and> (\<forall>i < MAX_PAGESETS. ps_table s ! i \<noteq> None) \<or>
       e = BuddyExhausted \<and> card (free_frames p (phys s)) < n)) \<or>
    (\<exists>i s' kva fs. ps_alloc_pages p n s = Return (Ok i, s') \<and> ps_inv p s' \<and> get_pageset i s = None \<and>
      get_pageset i s' = Some (n, kva) \<and> (\<forall>j. j \<noteq> i \<longrightarrow> get_pageset j s' = get_pageset j s) \<and>
      length fs = n \<and> distinct fs \<and> set fs \<subseteq> free_frames p (phys s) \<and>
      free_frames p (phys s') = free_frames p (phys s) - set fs \<and> page_set_origin kva s' = Return (Some OriginBuddy) \<and>
      (\<forall>j < n. page_set_page kva j s' = Return (Some (start_addr (fs ! j)))))"
proof (cases "0 < n \<and> n \<le> MAX_PRACTICAL_PAGES_PER_SET")
  case True
  then have n: "0 < n" "n \<le> MAX_PRACTICAL_PAGES_PER_SET" by simp_all
  from ps_alloc_pages_cases [OF assms n] show ?thesis
  proof (elim disjE exE conjE)
    fix i fs s' assume "ps_alloc_pages p n s = Return (Ok i, s')" "buddy_set_made p n s i fs s'"
    with buddy_set_visible [OF assms this(2)] show ?thesis by blast
  qed blast+
next
  case False
  with assms show ?thesis by (intro disjI1) (auto simp: ps_alloc_pages_def)
qed

theorem page_set_alloc_exact_witness:
  "\<exists>s i s' kva. ps_inv virt_board s \<and> ps_alloc_pages virt_board 3 s = Return (Ok i, s') \<and> get_pageset i s' = Some (3, kva)"
proof -
  obtain s i s' where s: "ps_run virt_board s" "ps_alloc_pages virt_board 3 s = Return (Ok i, s')" using demo_set by blast
  from page_set_alloc_exact [OF ps_run_inv [OF s(1)], of 3] s ps_run_inv [OF s(1)] show ?thesis by auto
qed

text \<open>C19. A page set lives exactly as long as it is referenced: dropping a handle reference of a live
  set panics if there is none, only counts down while other handles or mappings remain, and on the
  last one removes the set, returns exactly its frames and pool pages to the allocator they came
  from, and leaves every other set alone.\<close>

theorem page_set_lifetime:
  assumes "ps_inv p s" and "live_entry s i e"
  shows "(if refcount (entry_header s e) = 0 then dec_refcount_and_maybe_free p (header_kva e) s = Panic
     else if refcount (entry_header s e) = 1 \<and> map_count (entry_header s e) = 0
     then \<exists>s'. dec_refcount_and_maybe_free p (header_kva e) s = Return s' \<and> ps_inv p s' \<and>
       get_pageset i s' = None \<and> (\<forall>j. j \<noteq> i \<longrightarrow> get_pageset j s' = get_pageset j s) \<and>
       handed_out p (phys s') = handed_out p (phys s) - entry_res s e \<and>
       free_frames p (phys s') = free_frames p (phys s) \<union> {f. Inl f \<in> entry_res s e}
     else dec_refcount_and_maybe_free p (header_kva e) s =
       Return (with_counts (header_kva e) (refcount (entry_header s e) - 1) (map_count (entry_header s e)) s))"
proof -
  let ?h = "entry_header s e"
  let ?s = "with_counts (header_kva e) (refcount ?h - 1) (map_count ?h) s"
  have w: "ps_inv p ?s" "entry_res ?s e = entry_res s e" "live_entry ?s i e"
    using with_counts_inv [OF assms(1)] assms(2) by simp_all
  obtain s' where s': "free_by_header_kva p (header_kva e) ?s = Return s'" "set_freed p ?s i e s'"
    using free_by_header_spec [OF w(1,3)] by blast
  have i: "i < MAX_PAGESETS" "length (ps_table s) = MAX_PAGESETS" using assms ps_invD(5) by (auto simp: live_entry_def)
  have t: "ps_table s' = (ps_table s)[i := None]" using s'(2) by (simp add: set_freed_def)
  have "get_pageset i s' = None" "get_pageset j s' = get_pageset j s" if "j \<noteq> i" for j
    using i that by (simp_all add: get_pageset_def table_get_def t)
  moreover have "get_pageset i s' = None" using i by (simp add: get_pageset_def table_get_def t)
  moreover have "dec_refcount_and_maybe_free p (header_kva e) s =
      (if refcount ?h = 0 then Panic else if refcount ?h = 1 \<and> map_count ?h = 0 then Return s' else Return ?s)"
    unfolding dec_refcount_run Let_def entry_header_def [symmetric] s'(1) by (rule refl)
  ultimately show ?thesis using s'(2) w(2) by (auto simp: set_freed_def)
qed

lemma frame_words:
  assumes "ps_inv p s" and "live_entry s i e" and "entry_origin e = OriginBuddy" and "k < entry_count e"
  shows "\<exists>f. f = frame_of_word (page_words (entry_header s e) k) \<and> Inl f \<in> entry_res s e \<and> f \<in> taken_frames p (phys s) \<and>
    page_words (entry_header s e) k = phys_u64 (start_addr f)"
proof -
  let ?f = "frame_of_word (page_words (entry_header s e) k)"
  have sh: "shaped (pool_base (phys s)) (entry_header s e) (entry_count e) OriginBuddy"
    using ps_invD(6) [OF assms(1,2)] assms(3) by (simp add: entry_ok_def)
  have r: "Inl ?f \<in> entry_res s e" using assms(3,4) by (simp add: entry_res_def)
  then have "?f \<in> taken_frames p (phys s)"
    using live_entry_sub [OF assms(1,2)] by (auto simp: handed_out_def)
  moreover have "page_words (entry_header s e) k = phys_u64 (start_addr ?f)" using sh assms(4) by simp
  ultimately show ?thesis using r by blast
qed

lemma dma_words:
  assumes "ps_inv p s" and "live_entry s i e" and "entry_origin e = OriginDmaPool" and "k < entry_count e"
  shows "\<exists>q. Inr q \<in> entry_res s e \<and> q \<in> used_pages (pool (phys s)) \<and> q < DMA_POOL_PAGES \<and> pool_base (phys s) \<noteq> 0 \<and>
    unat (page_words (entry_header s e) k) = unat (pool_base (phys s)) + q * 4096"
proof -
  let ?q = "dma_index (pool_base (phys s)) (page_words (entry_header s e) 0) + k"
  have sh: "shaped (pool_base (phys s)) (entry_header s e) (entry_count e) OriginDmaPool"
    using ps_invD(6) [OF assms(1,2)] assms(3) by (simp add: entry_ok_def)
  have r: "Inr ?q \<in> entry_res s e" using assms(3,4) by (simp add: entry_res_def image_iff)
  then have "?q \<in> used_pages (pool (phys s))"
    using live_entry_sub [OF assms(1,2)] by (auto simp: handed_out_def)
  moreover have "?q < DMA_POOL_PAGES" using sh assms(4) by simp
  ultimately show ?thesis using r sh assms(4) by (intro exI [of _ ?q]) simp
qed

text \<open>Owned sets list different words, whatever the two allocators they come from.\<close>

lemma words_apart:
  assumes "ps_inv p s" and "live_entry s i e" and "live_entry s j f" and "i \<noteq> j"
    and "entry_origin e \<noteq> OriginExternallyOwned" and "entry_origin f \<noteq> OriginExternallyOwned"
    and "a < entry_count e" and "b < entry_count f"
  shows "page_words (entry_header s e) a \<noteq> page_words (entry_header s f) b"
proof
  assume eq: "page_words (entry_header s e) a = page_words (entry_header s f) b"
  have dis: "entry_res s e \<inter> entry_res s f = {}" using ps_invD(7) [OF assms(1-4)] by blast
  have apart: "unat (phys_u64 (start_addr x)) \<noteq> unat (pool_base (phys s)) + q * 4096"
    if "x \<in> taken_frames p (phys s)" "q < DMA_POOL_PAGES" "pool_base (phys s) \<noteq> 0" for x q
    using ps_invD(1) [OF assms(1)] that by (simp add: mem_ok_def pool_apart_def)
  note be = frame_words [OF assms(1,2) _ assms(7)] and bf = frame_words [OF assms(1,3) _ assms(8)]
  note de = dma_words [OF assms(1,2) _ assms(7)] and df = dma_words [OF assms(1,3) _ assms(8)]
  show False
  proof (cases "entry_origin e"; cases "entry_origin f")
    assume o: "entry_origin e = OriginBuddy" "entry_origin f = OriginBuddy"
    from be [OF o(1)] bf [OF o(2)] dis show False unfolding eq by blast
  next
    assume o: "entry_origin e = OriginDmaPool" "entry_origin f = OriginDmaPool"
    from de [OF o(1)] df [OF o(2)] dis eq show False by force
  next
    assume o: "entry_origin e = OriginBuddy" "entry_origin f = OriginDmaPool"
    from be [OF o(1)] df [OF o(2)] eq apart show False by metis
  next
    assume o: "entry_origin e = OriginDmaPool" "entry_origin f = OriginBuddy"
    from de [OF o(1)] bf [OF o(2)] eq apart show False by metis
  qed (use assms(5,6) in simp_all)
qed

lemma words_distinct:
  assumes "ps_inv p s" and "live_entry s i e" and "entry_origin e \<noteq> OriginExternallyOwned"
  shows "inj_on (page_words (entry_header s e)) {..<entry_count e}"
proof -
  have sh: "shaped (pool_base (phys s)) (entry_header s e) (entry_count e) (entry_origin e)"
    using ps_invD(6) [OF assms(1,2)] by (simp add: entry_ok_def)
  show ?thesis
  proof (cases "entry_origin e")
    case OriginBuddy
    then show ?thesis using sh by (auto simp: inj_on_def)
  next
    case OriginDmaPool
    show ?thesis
    proof (rule inj_onI)
      fix a b assume ab: "a \<in> {..<entry_count e}" "b \<in> {..<entry_count e}"
        "page_words (entry_header s e) a = page_words (entry_header s e) b"
      define d where "d = dma_index (pool_base (phys s)) (page_words (entry_header s e) 0)"
      have w: "unat (page_words (entry_header s e) a) = unat (pool_base (phys s)) + (d + a) * 4096"
        "unat (page_words (entry_header s e) b) = unat (pool_base (phys s)) + (d + b) * 4096"
        using sh OriginDmaPool ab(1,2) by (simp_all add: d_def)
      have "unat (pool_base (phys s)) + (d + a) * 4096 = unat (pool_base (phys s)) + (d + b) * 4096"
        using w(2) unfolding w(1) [unfolded ab(3)] .
      then show "a = b" by simp
    qed
  qed (use assms(3) in simp)
qed

text \<open>C6. Page sets never share memory. In every state the kernel can reach by creating, referencing,
  mapping, dropping and unlinking sets, take a live set. If it was filled from the buddy allocator,
  each physical address its header lists is that of a frame that is handed out and not free; if it
  came from the DMA pool, each is that of a pool page marked used. Either way the addresses listed
  are pairwise different, and two live sets that own their memory list no address in common, even
  when one came from the buddy allocator and the other from the DMA pool. No two live sets of any
  kind share a header. Sets of externally owned memory, such as device pages, own nothing and may
  list the same page twice; only their headers are covered.\<close>

theorem page_sets_disjoint:
  assumes "ps_run p s" and "live_entry s i e"
  shows "(\<forall>k < entry_count e.
      case entry_origin e of
        OriginBuddy \<Rightarrow> \<exists>f \<in> taken_frames p (phys s) - free_frames p (phys s).
          page_words (entry_header s e) k = phys_u64 (start_addr f)
      | OriginDmaPool \<Rightarrow> \<exists>q \<in> used_pages (pool (phys s)).
          unat (page_words (entry_header s e) k) = unat (pool_base (phys s)) + q * 4096
      | OriginExternallyOwned \<Rightarrow> True) \<and>
    (entry_origin e \<noteq> OriginExternallyOwned \<longrightarrow> inj_on (page_words (entry_header s e)) {..<entry_count e}) \<and>
    (\<forall>j f. live_entry s j f \<and> i \<noteq> j \<longrightarrow> header_kva e \<noteq> header_kva f \<and>
      (entry_origin e \<noteq> OriginExternallyOwned \<and> entry_origin f \<noteq> OriginExternallyOwned \<longrightarrow>
        page_words (entry_header s e) ` {..<entry_count e} \<inter> page_words (entry_header s f) ` {..<entry_count f} = {}))"
    (is "?own \<and> ?inj \<and> ?apart")
proof (intro conjI)
  note inv = ps_run_inv [OF assms(1)]
  have "frames_ok p (phys s)" using ps_invD(1) [OF inv] by (simp add: mem_ok_def)
  then have nt: "free_frames p (phys s) \<inter> taken_frames p (phys s) = {}" by (rule free_not_taken_frames)
  show ?own
    using frame_words [OF inv assms(2)] dma_words [OF inv assms(2)] nt
    by (cases "entry_origin e") (simp_all, blast+)
  show ?inj using words_distinct [OF inv assms(2)] by blast
  show ?apart using ps_invD(7) [OF inv assms(2)] words_apart [OF inv assms(2)] by (intro allI impI conjI) (blast, force)
qed

lemma demo_live: "\<exists>s i e. ps_run virt_board s \<and> live_entry s i e \<and> entry_count e = 3"
proof -
  obtain s i fs s' where s: "ps_run virt_board s" "ps_alloc_pages virt_board 3 s = Return (Ok i, s')"
    "buddy_set_made virt_board 3 s i fs s'" using demo_set by blast
  from s(3) obtain e h m where "created virt_board s i e h m s'" "entry_count e = 3" by (auto simp: buddy_set_made_def)
  with createdD(2) [OF ps_run_inv [OF s(1)]] ps_run.Alloc [OF s(1,2)] show ?thesis by blast
qed

lemma buddy_set_live:
  assumes "ps_inv p s" and "buddy_set_made p n s i fs s'"
  shows "\<exists>e. live_entry s' i e \<and> entry_count e = n \<and> entry_origin e = OriginBuddy \<and> i < MAX_PAGESETS \<and>
    ps_table s ! i = None \<and> ps_table s' = (ps_table s)[i := Some e] \<and>
    free_frames p (phys s') = free_frames p (phys s) - set fs \<and> card (set fs) = n \<and> set fs \<subseteq> free_frames p (phys s)"
proof -
  obtain e h m where e: "created p s i e h m s'" "entry_count e = n" "origin h = Some OriginBuddy" "length fs = n"
    "data_granted p (phys s) m fs" using assms(2) by (auto simp: buddy_set_made_def)
  note c = createdD [OF assms(1) e(1)]
  have "origin (entry_header s' e) = Some (entry_origin e)" using ps_invD(6) [OF c(1,2)] by (simp add: entry_ok_def)
  then have "entry_origin e = OriginBuddy" using c(3) e(3) by simp
  moreover have "i < MAX_PAGESETS" "ps_table s ! i = None" "ps_table s' = (ps_table s)[i := Some e]"
    using e(1) by (auto simp: created_def)
  ultimately show ?thesis using c(2,4) e(2,4,5) by (auto simp: data_granted_def distinct_card)
qed

lemma demo_two_sets:
  "\<exists>s i j e f. ps_run virt_board s \<and> live_entry s i e \<and> live_entry s j f \<and> i \<noteq> j \<and> entry_count e = 3 \<and> entry_count f = 3 \<and>
     entry_origin e = OriginBuddy \<and> entry_origin f = OriginBuddy"
proof -
  obtain s i fs s' where s: "ps_run virt_board s" "ps_table s ! 0 = None" "ps_table s ! 1 = None"
    "card (free_frames virt_board (phys s)) = 16" "ps_alloc_pages virt_board 3 s = Return (Ok i, s')"
    "buddy_set_made virt_board 3 s i fs s'" using demo_set by blast
  note inv = ps_run_inv [OF s(1)] and run = ps_run.Alloc [OF s(1,5)]
  obtain e where e: "live_entry s' i e" "entry_count e = 3" "entry_origin e = OriginBuddy" "i < MAX_PAGESETS"
    "ps_table s' = (ps_table s)[i := Some e]" "free_frames virt_board (phys s') = free_frames virt_board (phys s) - set fs"
    "card (set fs) = 3" "set fs \<subseteq> free_frames virt_board (phys s)"
    using buddy_set_live [OF inv s(6)] by blast
  have "card (free_frames virt_board (phys s')) = 13" using e(6-8) s(4) by (simp add: card_Diff_subset)
  moreover have "ps_table s' ! (if i = 0 then 1 else 0) = None" using s(2,3) e(5) by simp
  moreover have "(3::nat) \<le> MAX_PRACTICAL_PAGES_PER_SET" "(if i = 0 then 1 else 0) < MAX_PAGESETS"
    by (simp_all add: MAX_PRACTICAL_PAGES_PER_SET_def MAX_PAGESETS_def)
  ultimately obtain j gs s2 where a: "ps_alloc_pages virt_board 3 s' = Return (Ok j, s2)"
    "buddy_set_made virt_board 3 s' j gs s2"
    using ps_alloc_pages_cases [OF ps_run_inv [OF run], of 3] by auto
  obtain f where f: "live_entry s2 j f" "entry_count f = 3" "entry_origin f = OriginBuddy" "ps_table s' ! j = None"
    "ps_table s2 = (ps_table s')[j := Some f]" using buddy_set_live [OF ps_run_inv [OF run] a(2)] by blast
  have "i \<noteq> j" using f(4) e(1) by (auto simp: live_entry_def)
  moreover from this have "live_entry s2 i e" using e(1) f(5) by (simp add: live_entry_def)
  ultimately show ?thesis using ps_run.Alloc [OF run a(1)] e(2,3) f(1-3) by blast
qed

theorem page_sets_disjoint_witness:
  "\<exists>s i j e f. ps_run virt_board s \<and> live_entry s i e \<and> live_entry s j f \<and> i \<noteq> j \<and> entry_count e = 3 \<and> entry_count f = 3 \<and>
     header_kva e \<noteq> header_kva f \<and> card (page_words (entry_header s e) ` {..<3}) = 3 \<and>
     page_words (entry_header s e) ` {..<3} \<inter> page_words (entry_header s f) ` {..<3} = {}"
proof -
  obtain s i j e f where s: "ps_run virt_board s" "live_entry s i e" "live_entry s j f" "i \<noteq> j" "entry_count e = 3"
    "entry_count f = 3" "entry_origin e = OriginBuddy" "entry_origin f = OriginBuddy" using demo_two_sets by blast
  note d = page_sets_disjoint [OF s(1,2), THEN conjunct2]
  have "inj_on (page_words (entry_header s e)) {..<3}" using d s(5,7) by simp
  then have "card (page_words (entry_header s e) ` {..<3}) = 3" by (simp add: card_image)
  moreover have "header_kva e \<noteq> header_kva f"
    "page_words (entry_header s e) ` {..<3} \<inter> page_words (entry_header s f) ` {..<3} = {}"
    using d [THEN conjunct2, rule_format, of j f] s by simp_all
  ultimately show ?thesis using s by (intro exI [of _ s] exI [of _ i] exI [of _ j] exI [of _ e] exI [of _ f]) simp
qed

theorem page_set_lifetime_witness:
  "\<exists>s i e s'. ps_inv virt_board s \<and> live_entry s i e \<and> refcount (entry_header s e) = 1 \<and> map_count (entry_header s e) = 0 \<and>
    dec_refcount_and_maybe_free virt_board (header_kva e) s = Return s' \<and> get_pageset i s' = None"
proof -
  obtain s i e where s: "ps_run virt_board s" "live_entry s i e" using demo_live by blast
  let ?s = "with_counts (header_kva e) 1 0 s"
  have w: "ps_inv virt_board ?s" "live_entry ?s i e" using with_counts_inv(1) [OF ps_run_inv [OF s(1)]] s(2) by simp_all
  have c: "refcount (entry_header ?s e) = 1" "map_count (entry_header ?s e) = 0"
    by (simp_all add: with_counts_def entry_header_def)
  from page_set_lifetime [OF w] obtain s' where
    "dec_refcount_and_maybe_free virt_board (header_kva e) ?s = Return s'" "get_pageset i s' = None" by (auto simp: c)
  with w c show ?thesis by blast
qed

end
