(* ===== verification/Page_Table.thy ===== *)
theory Page_Table
  imports Addr
begin

text \<open>
  AArch64 page tables as \<^verbatim>\<open>lockjaw-types/src/page_table.rs\<close> treats them: the 64-bit entry with its
  fields, the walk state machine, the query for a run of equally mapped pages, and the two-phase
  unmapping. The closures that read and write entries become a memory, a function from physical
  addresses to 64-bit words. Table addresses are below \<open>2 ^ 48\<close> and user addresses below 1 GiB in
  every use, so the address sums of the source never overflow; they are word sums here.

  The lemmas describe a walk by its leaf, show that the loops that drive it end, that the run query
  agrees with looking at one page at a time, and that unmapping is all or nothing.
\<close>

type_synonym pte_memory = "u64 \<Rightarrow> u64"

section \<open>Attributes and entries\<close>

definition MAIR_DEVICE :: u8 where "MAIR_DEVICE = 0"
definition MAIR_NORMAL :: u8 where "MAIR_NORMAL = 1"
definition MAIR_NORMAL_NC :: u8 where "MAIR_NORMAL_NC = 2"
definition MAIR_EL1_VALUE :: u64 where
  "MAIR_EL1_VALUE = push_bit 0 0 OR push_bit 8 0xFF OR push_bit 16 0x44"

definition AP_RW_EL1 :: u8 where "AP_RW_EL1 = 0"
definition AP_RW_ALL :: u8 where "AP_RW_ALL = 1"
definition SH_NON :: u8 where "SH_NON = 0"
definition SH_OUTER :: u8 where "SH_OUTER = 2"
definition SH_INNER :: u8 where "SH_INNER = 3"

definition PTE_VALID :: u64 where "PTE_VALID = push_bit 0 1"
definition PTE_TABLE :: u64 where "PTE_TABLE = push_bit 1 1"
definition PTE_AF :: u64 where "PTE_AF = push_bit 10 1"
definition PTE_PXN :: u64 where "PTE_PXN = push_bit 53 1"
definition PTE_UXN :: u64 where "PTE_UXN = push_bit 54 1"
definition PTE_ATTR_SHIFT :: nat where "PTE_ATTR_SHIFT = 2"
definition PTE_AP_SHIFT :: nat where "PTE_AP_SHIFT = 6"
definition PTE_SH_SHIFT :: nat where "PTE_SH_SHIFT = 8"
definition PTE_ADDR_MASK :: u64 where "PTE_ADDR_MASK = 0x0000FFFFFFFFF000"

datatype PageTableEntry = PageTableEntry (pte_raw: u64)

definition pte_empty :: PageTableEntry where "pte_empty = PageTableEntry 0"

definition pte_is_valid :: "PageTableEntry \<Rightarrow> bool" where
  "pte_is_valid e \<longleftrightarrow> pte_raw e AND PTE_VALID \<noteq> 0"

definition pte_is_table :: "PageTableEntry \<Rightarrow> bool" where
  "pte_is_table e \<longleftrightarrow> pte_raw e AND (PTE_VALID OR PTE_TABLE) = PTE_VALID OR PTE_TABLE"

definition pte_is_block :: "PageTableEntry \<Rightarrow> bool" where
  "pte_is_block e \<longleftrightarrow> pte_raw e AND (PTE_VALID OR PTE_TABLE) = PTE_VALID"

definition attr_index :: "PageTableEntry \<Rightarrow> u8" where
  "attr_index e = ucast (drop_bit PTE_ATTR_SHIFT (pte_raw e) AND 7)"

definition pte_ap :: "PageTableEntry \<Rightarrow> u8" where
  "pte_ap e = ucast (drop_bit PTE_AP_SHIFT (pte_raw e) AND 3)"

definition pte_sh :: "PageTableEntry \<Rightarrow> u8" where
  "pte_sh e = ucast (drop_bit PTE_SH_SHIFT (pte_raw e) AND 3)"

definition pte_af :: "PageTableEntry \<Rightarrow> bool" where
  "pte_af e \<longleftrightarrow> pte_raw e AND PTE_AF \<noteq> 0"

definition output_addr :: "PageTableEntry \<Rightarrow> PhysAddr" where
  "output_addr e = PhysAddr (pte_raw e AND PTE_ADDR_MASK)"

definition new_table :: "PhysAddr \<Rightarrow> PageTableEntry" where
  "new_table next_table_phys = PageTableEntry (PTE_VALID OR PTE_TABLE OR (phys_u64 next_table_phys AND PTE_ADDR_MASK))"

definition attr_bits :: "u8 \<Rightarrow> u8 \<Rightarrow> u8 \<Rightarrow> u64" where
  "attr_bits attr ap sh =
     push_bit PTE_ATTR_SHIFT (ucast attr AND 7) OR push_bit PTE_AP_SHIFT (ucast ap AND 3) OR
     push_bit PTE_SH_SHIFT (ucast sh AND 3)"

definition new_block :: "PhysAddr \<Rightarrow> u8 \<Rightarrow> u8 \<Rightarrow> u8 \<Rightarrow> PageTableEntry" where
  "new_block phys attr ap sh =
     PageTableEntry (PTE_VALID OR attr_bits attr ap sh OR PTE_AF OR (phys_u64 phys AND PTE_ADDR_MASK))"

definition new_page :: "PhysAddr \<Rightarrow> u8 \<Rightarrow> u8 \<Rightarrow> u8 \<Rightarrow> PageTableEntry" where
  "new_page phys attr ap sh =
     PageTableEntry (PTE_VALID OR PTE_TABLE OR attr_bits attr ap sh OR PTE_AF OR (phys_u64 phys AND PTE_ADDR_MASK))"

definition with_pxn :: "PageTableEntry \<Rightarrow> PageTableEntry" where
  "with_pxn e = PageTableEntry (pte_raw e OR PTE_PXN)"

definition with_uxn :: "PageTableEntry \<Rightarrow> PageTableEntry" where
  "with_uxn e = PageTableEntry (pte_raw e OR PTE_UXN)"

definition is_pxn :: "PageTableEntry \<Rightarrow> bool" where
  "is_pxn e \<longleftrightarrow> pte_raw e AND PTE_PXN \<noteq> 0"

definition is_uxn :: "PageTableEntry \<Rightarrow> bool" where
  "is_uxn e \<longleftrightarrow> pte_raw e AND PTE_UXN \<noteq> 0"

section \<open>The walk\<close>

definition page_table_indices :: "u64 \<Rightarrow> nat \<times> nat \<times> nat \<times> nat" where
  "page_table_indices va =
     (unat (drop_bit 39 va AND 0x1FF), unat (drop_bit 30 va AND 0x1FF),
      unat (drop_bit 21 va AND 0x1FF), unat (drop_bit 12 va AND 0x1FF))"

datatype WalkResult = Continue u64 | Done u64 | Fault

record PageTableWalk =
  walk_level :: nat
  walk_va :: u64
  walk_indices :: "nat list"

definition walk_start :: "u64 \<Rightarrow> u64 \<Rightarrow> PageTableWalk \<times> WalkResult" where
  "walk_start ttbr0_paddr va =
     (let (l0, l1, l2, l3) = page_table_indices va in
      (\<lparr>walk_level = 0, walk_va = va, walk_indices = [l0, l1, l2, l3]\<rparr>,
       Continue (ttbr0_paddr + of_nat l0 * 8)))"

definition walk_step :: "PageTableWalk \<Rightarrow> u64 \<Rightarrow> PageTableWalk \<times> WalkResult" where
  "walk_step w raw =
     (let pte = PageTableEntry raw;
          next_table = phys_u64 (output_addr pte)
      in
      if walk_level w = 0 then
        (if \<not> pte_is_table pte then (w, Fault)
         else (w\<lparr>walk_level := 1\<rparr>, Continue (next_table + of_nat (walk_indices w ! 1) * 8)))
      else if walk_level w = 1 then
        (if pte_is_block pte then (w, Done (next_table + (walk_va w AND 0x3FFFFFFF)))
         else if \<not> pte_is_table pte then (w, Fault)
         else (w\<lparr>walk_level := 2\<rparr>, Continue (next_table + of_nat (walk_indices w ! 2) * 8)))
      else if walk_level w = 2 then
        (if pte_is_block pte then (w, Done (next_table + (walk_va w AND 0x1FFFFF)))
         else if \<not> pte_is_table pte then (w, Fault)
         else (w\<lparr>walk_level := 3\<rparr>, Continue (next_table + of_nat (walk_indices w ! 3) * 8)))
      else if walk_level w = 3 then
        (if \<not> pte_is_valid pte then (w, Fault)
         else (w, Done (next_table + (walk_va w AND 0xFFF))))
      else (w, Fault))"

text \<open>
  The loops that feed a walk. Each step that continues goes one level down, so they end: the
  measure is the number of levels left while the last result asks for another entry.
\<close>

definition walk_measure :: "PageTableWalk \<times> WalkResult \<Rightarrow> nat" where
  "walk_measure wr = (case snd wr of Continue a \<Rightarrow> Suc (4 - walk_level (fst wr)) | _ \<Rightarrow> 0)"

lemma walk_step_level:
  "walk_measure (walk_step w raw) < walk_measure (w, Continue a)"
  by (auto simp: walk_step_def walk_measure_def Let_def split: if_splits)

text \<open>The loop of the kernel's \<^verbatim>\<open>translate_user_va\<close>, up to the direct-map offset.\<close>

function translate_loop :: "pte_memory \<Rightarrow> PageTableWalk \<times> WalkResult \<Rightarrow> u64 option" where
  "translate_loop mem (w, Continue pte_paddr) = translate_loop mem (walk_step w (mem pte_paddr))"
| "translate_loop mem (w, Done phys_addr) = Some phys_addr"
| "translate_loop mem (w, Fault) = None"
  by pat_completeness auto
termination by (relation "measure (\<lambda>(m, wr). walk_measure wr)") (auto intro: walk_step_level)

definition walk_translate :: "pte_memory \<Rightarrow> u64 \<Rightarrow> u64 \<Rightarrow> u64 option" where
  "walk_translate mem ttbr0_paddr va = translate_loop mem (walk_start ttbr0_paddr va)"

section \<open>Validated unmapping\<close>

text \<open>The loop of \<^verbatim>\<open>validate_pte_match\<close> for one page: does it resolve at level 3 to the expected page?\<close>

function validate_loop :: "pte_memory \<Rightarrow> u64 \<Rightarrow> PageTableWalk \<times> WalkResult \<Rightarrow> bool" where
  "validate_loop mem expected (w, Continue pte_paddr) =
     (case walk_step w (mem pte_paddr) of
        (w', Done phys_addr) \<Rightarrow> walk_level w' = 3 \<and> phys_addr AND NOT 0xFFF = expected
      | (w', r) \<Rightarrow> validate_loop mem expected (w', r))"
| "validate_loop mem expected (w, Done phys_addr) = False"
| "validate_loop mem expected (w, Fault) = False"
  by pat_completeness auto
termination
  by (relation "measure (\<lambda>(m, e, wr). walk_measure wr)") (auto, (metis walk_step_level)+)

fun validate_from :: "pte_memory \<Rightarrow> u64 \<Rightarrow> u64 \<Rightarrow> nat \<Rightarrow> u64 list \<Rightarrow> (unit, nat) result" where
  "validate_from mem ttbr0_paddr va i [] = Ok ()"
| "validate_from mem ttbr0_paddr va i (e # es) =
     (if validate_loop mem e (walk_start ttbr0_paddr (va + of_nat i * 4096))
      then validate_from mem ttbr0_paddr va (i + 1) es
      else Err i)"

definition validate_pte_match :: "pte_memory \<Rightarrow> u64 \<Rightarrow> u64 \<Rightarrow> u64 list \<Rightarrow> (unit, nat) result" where
  "validate_pte_match mem ttbr0_paddr va expected_pages = validate_from mem ttbr0_paddr va 0 expected_pages"

text \<open>The loop of \<^verbatim>\<open>clear_validated_pte\<close> for one page: any other outcome than a level-3 entry panics.\<close>

function clear_loop :: "pte_memory \<Rightarrow> PageTableWalk \<times> WalkResult \<Rightarrow> pte_memory outcome" where
  "clear_loop mem (w, Continue pte_paddr) =
     (case walk_step w (mem pte_paddr) of
        (w', Done phys_addr) \<Rightarrow> if walk_level w' \<noteq> 3 then Panic else Return (mem(pte_paddr := 0))
      | (w', Continue a) \<Rightarrow> clear_loop mem (w', Continue a)
      | (w', Fault) \<Rightarrow> Panic)"
| "clear_loop mem (w, Done phys_addr) = Panic"
| "clear_loop mem (w, Fault) = Panic"
  by pat_completeness auto
termination
  by (relation "measure (\<lambda>(m, wr). walk_measure wr)") (auto, metis walk_step_level)

fun clear_from :: "u64 \<Rightarrow> u64 \<Rightarrow> nat list \<Rightarrow> pte_memory \<Rightarrow> pte_memory outcome" where
  "clear_from ttbr0_paddr va [] mem = Return mem"
| "clear_from ttbr0_paddr va (i # rest) mem =
     bind_outcome (clear_loop mem (walk_start ttbr0_paddr (va + of_nat i * 4096))) (clear_from ttbr0_paddr va rest)"

definition clear_validated_pte :: "u64 \<Rightarrow> u64 \<Rightarrow> nat \<Rightarrow> pte_memory \<Rightarrow> pte_memory outcome" where
  "clear_validated_pte ttbr0_paddr va n mem = clear_from ttbr0_paddr va [0..<n] mem"

definition unmap_validated ::
  "u64 \<Rightarrow> u64 \<Rightarrow> u64 list \<Rightarrow> pte_memory \<Rightarrow> ((unit, nat) result \<times> pte_memory) outcome" where
  "unmap_validated ttbr0_paddr va expected_pages mem =
     (case validate_pte_match mem ttbr0_paddr va expected_pages of
        Err i \<Rightarrow> Return (Err i, mem)
      | Ok u \<Rightarrow>
          bind_outcome (clear_validated_pte ttbr0_paddr va (length expected_pages) mem) (\<lambda>mem.
            Return (Ok (), mem)))"

section \<open>Runs of equally mapped pages\<close>

text \<open>The scan of one level-3 table: it stops at a page of the other state or at the end of the
  table, with the address and count reached.\<close>

datatype scan_result = Stopped nat | Advanced u64 nat

fun scan_l3 :: "pte_memory \<Rightarrow> bool \<Rightarrow> u64 \<Rightarrow> nat list \<Rightarrow> u64 \<Rightarrow> nat \<Rightarrow> scan_result" where
  "scan_l3 mem first_mapped l3_table [] va n = Advanced va n"
| "scan_l3 mem first_mapped l3_table (l3_idx # rest) va n =
     (if USER_VA_END \<le> va then Advanced va n
      else if pte_is_valid (PageTableEntry (mem (l3_table + of_nat l3_idx * 8))) \<noteq> first_mapped then Stopped n
      else scan_l3 mem first_mapped l3_table rest (va + 4096) (n + 1))"

text \<open>The outer loop over level-2 entries. Its fuel bounds the number of regions visited.\<close>

fun scan_l2 :: "nat \<Rightarrow> pte_memory \<Rightarrow> bool \<Rightarrow> u64 \<Rightarrow> u64 \<Rightarrow> nat \<Rightarrow> nat outcome" where
  "scan_l2 0 mem first_mapped l2_table va n = Diverge"
| "scan_l2 (Suc fuel) mem first_mapped l2_table va n =
     (if \<not> va < USER_VA_END then Return n
      else
        let l2_idx = drop_bit 21 va AND 0x1FF;
            l2 = PageTableEntry (mem (l2_table + l2_idx * 8));
            end_va = min (push_bit 21 (drop_bit 21 va + 1)) USER_VA_END
        in if 512 \<le> l2_idx then Return n
           else if \<not> pte_is_valid l2 then
             (if first_mapped then Return n
              else scan_l2 fuel mem first_mapped l2_table end_va (n + unat ((end_va - va) div 4096)))
           else if pte_is_block l2 then
             (if \<not> first_mapped then Return n
              else scan_l2 fuel mem first_mapped l2_table end_va (n + unat ((end_va - va) div 4096)))
           else
             case scan_l3 mem first_mapped (phys_u64 (output_addr l2))
                    [unat (drop_bit 12 va AND 0x1FF)..<512] va n of
               Stopped n \<Rightarrow> Return n
             | Advanced va n \<Rightarrow> scan_l2 fuel mem first_mapped l2_table va n)"

definition first_state :: "pte_memory \<Rightarrow> u64 \<Rightarrow> u64 \<Rightarrow> bool" where
  "first_state mem l2_table va =
     (let l2 = PageTableEntry (mem (l2_table + (drop_bit 21 va AND 0x1FF) * 8)) in
      if \<not> pte_is_valid l2 then False
      else if pte_is_block l2 then True
      else pte_is_valid (PageTableEntry
             (mem (phys_u64 (output_addr l2) + (drop_bit 12 va AND 0x1FF) * 8))))"

definition query_mapping_run :: "u64 \<Rightarrow> u64 \<Rightarrow> pte_memory \<Rightarrow> (bool \<times> nat) outcome" where
  "query_mapping_run ttbr0_paddr start_va mem =
     (if USER_VA_END \<le> start_va then Return (False, 0)
      else
        let l0 = PageTableEntry (mem ttbr0_paddr) in
        if \<not> pte_is_valid l0 \<or> \<not> pte_is_table l0
        then Return (False, unat ((USER_VA_END - start_va) div 4096))
        else
          let l1_idx = drop_bit 30 start_va AND 0x1FF;
              l1 = PageTableEntry (mem (phys_u64 (output_addr l0) + l1_idx * 8));
              end_va = min (push_bit 30 (l1_idx + 1)) USER_VA_END
          in if \<not> pte_is_valid l1 then Return (False, unat ((end_va - start_va) div 4096))
             else if pte_is_block l1 then Return (True, unat ((end_va - start_va) div 4096))
             else
               let l2_table = phys_u64 (output_addr l1);
                   first_mapped = first_state mem l2_table start_va
               in bind_outcome (scan_l2 513 mem first_mapped l2_table start_va 0) (\<lambda>n.
                    Return (first_mapped, n)))"

declare translate_loop.simps(1) [simp del] validate_loop.simps(1) [simp del] clear_loop.simps(1) [simp del]
  scan_l2.simps(2) [simp del]

section \<open>Entries as bits\<close>

lemma pte_is_valid_bit: "pte_is_valid e \<longleftrightarrow> bit (pte_raw e) 0"
  unfolding pte_is_valid_def PTE_VALID_def by (rule single_bit_test)

lemma kind_mask: "PTE_VALID OR PTE_TABLE = mask 2"
  by (simp add: PTE_VALID_def PTE_TABLE_def mask_eq_exp_minus_1)

lemma kind_bits_word: "x AND (PTE_VALID OR PTE_TABLE) = y \<longleftrightarrow> (\<forall>n. bit y n = (n < 2 \<and> bit x n))"
proof -
  have "bit (x AND (PTE_VALID OR PTE_TABLE)) n = (n < 2 \<and> bit x n)" for n
    by (auto simp: kind_mask take_bit_eq_mask [symmetric] bit_take_bit_iff)
  then show ?thesis by (metis bit_eqI)
qed

lemma all_below_2: "(\<forall>n. P n = (n < 2 \<and> Q n)) \<longleftrightarrow> P 0 = Q 0 \<and> P 1 = Q 1 \<and> (\<forall>n \<ge> 2. \<not> P n)" for P Q :: "nat \<Rightarrow> bool"
  by (metis less_2_cases_iff not_less One_nat_def zero_less_numeral one_less_numeral_iff semiring_norm(76))

lemma kind_word_bits:
  "bit (PTE_VALID OR PTE_TABLE) n \<longleftrightarrow> n < 2" "bit PTE_VALID n \<longleftrightarrow> n = 0"
  by (auto simp: kind_mask bit_mask_iff) (simp_all add: PTE_VALID_def bit_1_iff)

lemma pte_is_table_bits: "pte_is_table e \<longleftrightarrow> bit (pte_raw e) 0 \<and> bit (pte_raw e) 1"
  unfolding pte_is_table_def kind_bits_word all_below_2 kind_word_bits by simp

lemma pte_is_block_bits: "pte_is_block e \<longleftrightarrow> bit (pte_raw e) 0 \<and> \<not> bit (pte_raw e) 1"
  unfolding pte_is_block_def kind_bits_word all_below_2 kind_word_bits by simp

lemmas pte_kind_bits = pte_is_valid_bit pte_is_table_bits pte_is_block_bits

section \<open>The leaf of a walk\<close>

text \<open>Where a walk ends: the level, the address of the entry and the address it translates to.\<close>

definition entry_at :: "pte_memory \<Rightarrow> u64 \<Rightarrow> PageTableEntry" where
  "entry_at mem a = PageTableEntry (mem a)"

abbreviation next_of :: "PageTableEntry \<Rightarrow> u64" where
  "next_of e \<equiv> phys_u64 (output_addr e)"

definition leaf_3 :: "pte_memory \<Rightarrow> u64 \<Rightarrow> u64 \<Rightarrow> (nat \<times> u64 \<times> u64) option" where
  "leaf_3 mem va a =
     (let e = entry_at mem a in
      if pte_is_valid e then Some (3, a, next_of e + (va AND 0xFFF)) else None)"

definition leaf_2 :: "pte_memory \<Rightarrow> u64 \<Rightarrow> u64 \<Rightarrow> (nat \<times> u64 \<times> u64) option" where
  "leaf_2 mem va a =
     (let e = entry_at mem a in
      if pte_is_block e then Some (2, a, next_of e + (va AND 0x1FFFFF))
      else if pte_is_table e then leaf_3 mem va (next_of e + (drop_bit 12 va AND 0x1FF) * 8)
      else None)"

definition leaf_1 :: "pte_memory \<Rightarrow> u64 \<Rightarrow> u64 \<Rightarrow> (nat \<times> u64 \<times> u64) option" where
  "leaf_1 mem va a =
     (let e = entry_at mem a in
      if pte_is_block e then Some (1, a, next_of e + (va AND 0x3FFFFFFF))
      else if pte_is_table e then leaf_2 mem va (next_of e + (drop_bit 21 va AND 0x1FF) * 8)
      else None)"

definition walk_leaf :: "pte_memory \<Rightarrow> u64 \<Rightarrow> u64 \<Rightarrow> (nat \<times> u64 \<times> u64) option" where
  "walk_leaf mem ttbr va =
     (let e = entry_at mem (ttbr + (drop_bit 39 va AND 0x1FF) * 8) in
      if pte_is_table e then leaf_1 mem va (next_of e + (drop_bit 30 va AND 0x1FF) * 8) else None)"

definition walk_at :: "nat \<Rightarrow> u64 \<Rightarrow> PageTableWalk" where
  "walk_at k va = \<lparr>walk_level = k, walk_va = va,
     walk_indices = [unat (drop_bit 39 va AND 0x1FF), unat (drop_bit 30 va AND 0x1FF),
       unat (drop_bit 21 va AND 0x1FF), unat (drop_bit 12 va AND 0x1FF)]\<rparr>"

lemma walk_start_eq: "walk_start ttbr va = (walk_at 0 va, Continue (ttbr + (drop_bit 39 va AND 0x1FF) * 8))"
  by (simp add: walk_start_def page_table_indices_def walk_at_def)

lemma walk_at_level [simp]: "walk_level (walk_at k va) = k"
  by (simp add: walk_at_def)

lemma walk_step_0: "walk_step (walk_at 0 va) (mem a) =
    (if pte_is_table (entry_at mem a) then (walk_at 1 va, Continue (next_of (entry_at mem a) + (drop_bit 30 va AND 0x1FF) * 8))
     else (walk_at 0 va, Fault))"
  by (simp add: walk_step_def walk_at_def entry_at_def Let_def)

lemma walk_step_1: "walk_step (walk_at 1 va) (mem a) =
    (if pte_is_block (entry_at mem a) then (walk_at 1 va, Done (next_of (entry_at mem a) + (va AND 0x3FFFFFFF)))
     else if pte_is_table (entry_at mem a) then (walk_at 2 va, Continue (next_of (entry_at mem a) + (drop_bit 21 va AND 0x1FF) * 8))
     else (walk_at 1 va, Fault))"
  by (simp add: walk_step_def walk_at_def entry_at_def Let_def numeral_2_eq_2)

lemma walk_step_2: "walk_step (walk_at 2 va) (mem a) =
    (if pte_is_block (entry_at mem a) then (walk_at 2 va, Done (next_of (entry_at mem a) + (va AND 0x1FFFFF)))
     else if pte_is_table (entry_at mem a) then (walk_at 3 va, Continue (next_of (entry_at mem a) + (drop_bit 12 va AND 0x1FF) * 8))
     else (walk_at 2 va, Fault))"
  by (simp add: walk_step_def walk_at_def entry_at_def Let_def numeral_3_eq_3)

lemma walk_step_3: "walk_step (walk_at 3 va) (mem a) =
    (if pte_is_valid (entry_at mem a) then (walk_at 3 va, Done (next_of (entry_at mem a) + (va AND 0xFFF)))
     else (walk_at 3 va, Fault))"
  by (simp add: walk_step_def walk_at_def entry_at_def Let_def)

lemmas walk_steps = walk_step_0 walk_step_1 walk_step_2 walk_step_3

lemma translate_loop_leaf:
  "translate_loop mem (walk_at 3 va, Continue a) = map_option (snd \<circ> snd) (leaf_3 mem va a)"
  "translate_loop mem (walk_at 2 va, Continue a) = map_option (snd \<circ> snd) (leaf_2 mem va a)"
  "translate_loop mem (walk_at 1 va, Continue a) = map_option (snd \<circ> snd) (leaf_1 mem va a)"
proof -
  show 3: "translate_loop mem (walk_at 3 va, Continue a) = map_option (snd \<circ> snd) (leaf_3 mem va a)" for a
    by (simp add: translate_loop.simps(1) walk_step_3 leaf_3_def Let_def)
  show 2: "translate_loop mem (walk_at 2 va, Continue a) = map_option (snd \<circ> snd) (leaf_2 mem va a)" for a
    unfolding translate_loop.simps(1) walk_step_2 by (simp add: 3 leaf_2_def Let_def)
  show "translate_loop mem (walk_at 1 va, Continue a) = map_option (snd \<circ> snd) (leaf_1 mem va a)"
    unfolding translate_loop.simps(1) walk_step_1 by (simp add: 2 leaf_1_def Let_def)
qed

lemma walk_translate_leaf: "walk_translate mem ttbr va = map_option (snd \<circ> snd) (walk_leaf mem ttbr va)"
  unfolding walk_translate_def walk_start_eq translate_loop.simps(1) walk_step_0
  by (simp add: translate_loop_leaf(3) [unfolded One_nat_def] walk_leaf_def Let_def)

definition l3_page :: "(nat \<times> u64 \<times> u64) option \<Rightarrow> u64 \<Rightarrow> bool" where
  "l3_page r expected \<longleftrightarrow> (\<exists>a p. r = Some (3, a, p) \<and> p AND NOT 0xFFF = expected)"

lemma validate_loop_leaf_at:
  "validate_loop mem ex (walk_at 3 va, Continue a) = l3_page (leaf_3 mem va a) ex"
  "validate_loop mem ex (walk_at 2 va, Continue a) = l3_page (leaf_2 mem va a) ex"
  "validate_loop mem ex (walk_at 1 va, Continue a) = l3_page (leaf_1 mem va a) ex"
proof -
  show 3: "validate_loop mem ex (walk_at 3 va, Continue a) = l3_page (leaf_3 mem va a) ex" for a
    by (subst validate_loop.simps(1), subst walk_step_3) (simp add: leaf_3_def Let_def l3_page_def)
  show 2: "validate_loop mem ex (walk_at 2 va, Continue a) = l3_page (leaf_2 mem va a) ex" for a
    by (subst validate_loop.simps(1), subst walk_step_2)
      (simp add: 3 leaf_2_def Let_def l3_page_def [of "Some _"] l3_page_def [of None])
  show "validate_loop mem ex (walk_at 1 va, Continue a) = l3_page (leaf_1 mem va a) ex"
    by (subst validate_loop.simps(1), subst walk_step_1)
      (simp add: 2 leaf_1_def Let_def l3_page_def [of "Some _"] l3_page_def [of None])
qed

lemma validate_loop_leaf: "validate_loop mem ex (walk_start ttbr va) = l3_page (walk_leaf mem ttbr va) ex"
  unfolding walk_start_eq
  by (subst validate_loop.simps(1), subst walk_step_0)
    (simp add: validate_loop_leaf_at(3) [unfolded One_nat_def] walk_leaf_def Let_def l3_page_def [of None])

definition clear_leaf :: "pte_memory \<Rightarrow> (nat \<times> u64 \<times> u64) option \<Rightarrow> pte_memory outcome" where
  "clear_leaf mem r = (case r of Some (l, a, p) \<Rightarrow> if l = 3 then Return (mem(a := 0)) else Panic | None \<Rightarrow> Panic)"

lemma clear_loop_leaf_at:
  "clear_loop mem (walk_at 3 va, Continue a) = clear_leaf mem (leaf_3 mem va a)"
  "clear_loop mem (walk_at 2 va, Continue a) = clear_leaf mem (leaf_2 mem va a)"
  "clear_loop mem (walk_at 1 va, Continue a) = clear_leaf mem (leaf_1 mem va a)"
proof -
  show 3: "clear_loop mem (walk_at 3 va, Continue a) = clear_leaf mem (leaf_3 mem va a)" for a
    by (subst clear_loop.simps(1), subst walk_step_3) (simp add: leaf_3_def Let_def clear_leaf_def)
  show 2: "clear_loop mem (walk_at 2 va, Continue a) = clear_leaf mem (leaf_2 mem va a)" for a
    by (subst clear_loop.simps(1), subst walk_step_2)
      (simp add: 3 leaf_2_def Let_def clear_leaf_def [of _ "Some _"] clear_leaf_def [of _ None])
  show "clear_loop mem (walk_at 1 va, Continue a) = clear_leaf mem (leaf_1 mem va a)"
    by (subst clear_loop.simps(1), subst walk_step_1)
      (simp add: 2 leaf_1_def Let_def clear_leaf_def [of _ "Some _"] clear_leaf_def [of _ None])
qed

lemma clear_loop_leaf: "clear_loop mem (walk_start ttbr va) = clear_leaf mem (walk_leaf mem ttbr va)"
  unfolding walk_start_eq
  by (subst clear_loop.simps(1), subst walk_step_0)
    (simp add: clear_loop_leaf_at(3) [unfolded One_nat_def] walk_leaf_def Let_def clear_leaf_def [of _ None])

section \<open>Tables and slots\<close>

text \<open>An entry address is a slot of a page-aligned table; different tables have different slots.\<close>

definition slot :: "u64 \<Rightarrow> u64 \<Rightarrow> u64" where
  "slot t i = t + i * 8"

definition index_of :: "nat \<Rightarrow> u64 \<Rightarrow> u64" where
  "index_of k va = drop_bit k va AND 0x1FF"

lemma index_take_bit: "drop_bit k va AND 0x1FF = take_bit 9 (drop_bit k va)" for va :: u64
proof -
  have "(0x1FF :: u64) = mask 9" by (simp add: mask_eq_exp_minus_1)
  then show ?thesis by (simp add: take_bit_eq_mask)
qed

lemma unat_index: "unat (index_of k va) = unat va div 2 ^ k mod 512"
  unfolding index_of_def index_take_bit
  by (simp add: unsigned_take_bit_eq unat_drop_bit take_bit_eq_mod [where 'a = nat])

lemma index_less: "unat (index_of k va) < 512"
  by (simp add: unat_index)

lemma unat_slot:
  assumes "unat t mod 4096 = 0" and "unat i < 512"
  shows "unat (slot t i) = unat t + unat i * 8"
proof -
  have "unat t < 4096 * 2 ^ 52" using unat_u64_less [of t] by simp
  moreover have "unat t = 4096 * (unat t div 4096)" using assms(1) by auto
  ultimately have "unat t div 4096 < 2 ^ 52" by linarith
  then have "unat t \<le> 4096 * (2 ^ 52 - 1)" using \<open>unat t = _\<close> by linarith
  then have "unat t + unat i * 8 < 2 ^ 64" using assms(2) by simp
  then show ?thesis by (simp add: slot_def unat_word_ariths)
qed

lemma slot_eq_iff:
  assumes "unat t mod 4096 = 0" and "unat t' mod 4096 = 0" and "unat i < 512" and "unat i' < 512"
  shows "slot t i = slot t' i' \<longleftrightarrow> t = t' \<and> i = i'"
proof
  assume "slot t i = slot t' i'"
  then have e: "unat t + unat i * 8 = unat t' + unat i' * 8"
    using unat_slot assms by metis
  have d: "unat t = 4096 * (unat t div 4096)" "unat t' = 4096 * (unat t' div 4096)" using assms by auto
  have "unat t div 4096 = (unat t + unat i * 8) div 4096" using assms(3) d(1) by (subst d(1)) simp
  also have "\<dots> = unat t' div 4096" unfolding e using assms(4) d(2) by (subst d(2)) simp
  finally have "unat t = unat t'" using d by simp
  with e show "t = t' \<and> i = i'" by (simp add: word_unat_eq_iff)
qed simp

lemma addr_mask_bit: "bit PTE_ADDR_MASK n \<longleftrightarrow> 12 \<le> n \<and> n < 48"
proof -
  have e: "PTE_ADDR_MASK = push_bit 12 (mask 36)" by (simp add: PTE_ADDR_MASK_def mask_eq_exp_minus_1)
  show ?thesis unfolding e by (auto simp: bit_push_bit_iff bit_mask_iff)
qed

lemma unat_mod_page: "unat x mod 4096 = unat (take_bit 12 x)" for x :: u64
  by (simp add: unsigned_take_bit_eq take_bit_eq_mod [where 'a = nat])

lemma next_of_aligned: "unat (next_of e) mod 4096 = 0"
proof -
  have "take_bit 12 (pte_raw e AND PTE_ADDR_MASK) = 0"
    by (rule bit_eqI) (auto simp: bit_take_bit_iff bit_and_iff addr_mask_bit)
  then show ?thesis unfolding unat_mod_page output_addr_def PhysAddr.sel by simp
qed

section \<open>User address spaces\<close>

text \<open>
  A user address space is a tree of tables: the first entries of the level 0 and level 1 tables
  lead to one level 2 table, and the tables hanging off it are distinct from each other and from
  the three above.
\<close>

definition l1_table :: "pte_memory \<Rightarrow> u64 \<Rightarrow> u64" where
  "l1_table mem ttbr = next_of (entry_at mem ttbr)"

definition l2_table :: "pte_memory \<Rightarrow> u64 \<Rightarrow> u64" where
  "l2_table mem ttbr = next_of (entry_at mem (l1_table mem ttbr))"

definition l2_entry :: "pte_memory \<Rightarrow> u64 \<Rightarrow> u64 \<Rightarrow> PageTableEntry" where
  "l2_entry mem ttbr i = entry_at mem (slot (l2_table mem ttbr) i)"

definition user_tree :: "pte_memory \<Rightarrow> u64 \<Rightarrow> bool" where
  "user_tree mem ttbr \<longleftrightarrow>
     unat ttbr mod 4096 = 0 \<and> pte_is_table (entry_at mem ttbr) \<and>
     pte_is_table (entry_at mem (l1_table mem ttbr)) \<and>
     distinct [ttbr, l1_table mem ttbr, l2_table mem ttbr] \<and>
     (\<forall>i. unat i < 512 \<longrightarrow> pte_is_table (l2_entry mem ttbr i) \<longrightarrow>
        next_of (l2_entry mem ttbr i) \<notin> {ttbr, l1_table mem ttbr, l2_table mem ttbr} \<and>
        (\<forall>j. unat j < 512 \<longrightarrow> pte_is_table (l2_entry mem ttbr j) \<longrightarrow> j \<noteq> i \<longrightarrow>
           next_of (l2_entry mem ttbr j) \<noteq> next_of (l2_entry mem ttbr i)))"

lemma user_va_indices:
  assumes "va < USER_VA_END"
  shows "index_of 39 va = 0" and "index_of 30 va = 0"
    and "unat (index_of 21 va) = unat va div 4096 div 512" and "unat (index_of 12 va) = unat va div 4096 mod 512"
proof -
  have "unat va < 2 ^ 30" using assms by (simp add: USER_VA_END_def word_less_nat_alt)
  then show "index_of 39 va = 0" "index_of 30 va = 0"
    "unat (index_of 21 va) = unat va div 4096 div 512" "unat (index_of 12 va) = unat va div 4096 mod 512"
    by (simp_all add: word_unat_eq_iff unat_index div_mult2_eq [symmetric])
qed

lemma same_page_iff:
  assumes "va < USER_VA_END" and "va' < USER_VA_END"
  shows "index_of 21 va = index_of 21 va' \<and> index_of 12 va = index_of 12 va' \<longleftrightarrow> unat va div 4096 = unat va' div 4096"
  unfolding word_unat_eq_iff user_va_indices [OF assms(1)] user_va_indices [OF assms(2)]
  by (metis div_mult_mod_eq)

lemma user_leaf:
  assumes "user_tree mem ttbr" and "va < USER_VA_END"
  shows "walk_leaf mem ttbr va = leaf_2 mem va (slot (l2_table mem ttbr) (index_of 21 va))"
proof -
  have i: "drop_bit 39 va AND 0x1FF = 0" "drop_bit 30 va AND 0x1FF = 0"
    using user_va_indices(1,2) [OF assms(2)] by (simp_all add: index_of_def)
  have t: "pte_is_table (entry_at mem ttbr)" "pte_is_table (entry_at mem (l1_table mem ttbr))"
    using assms(1) by (simp_all add: user_tree_def)
  then have "\<not> pte_is_block (entry_at mem (l1_table mem ttbr))" by (simp add: pte_kind_bits)
  with t show ?thesis
    by (simp add: walk_leaf_def leaf_1_def Let_def i slot_def index_of_def l2_table_def l1_table_def)
qed

lemma user_leaf_2:
  "leaf_2 mem va (slot (l2_table mem ttbr) i) =
    (if pte_is_block (l2_entry mem ttbr i)
     then Some (2, slot (l2_table mem ttbr) i, next_of (l2_entry mem ttbr i) + (va AND 0x1FFFFF))
     else if pte_is_table (l2_entry mem ttbr i)
     then leaf_3 mem va (slot (next_of (l2_entry mem ttbr i)) (index_of 12 va)) else None)"
  by (simp add: leaf_2_def Let_def l2_entry_def slot_def index_of_def)

definition tables_agree :: "pte_memory \<Rightarrow> pte_memory \<Rightarrow> u64 \<Rightarrow> bool" where
  "tables_agree mem mem' ttbr \<longleftrightarrow>
     mem' ttbr = mem ttbr \<and> mem' (l1_table mem ttbr) = mem (l1_table mem ttbr) \<and>
     (\<forall>i. unat i < 512 \<longrightarrow> mem' (slot (l2_table mem ttbr) i) = mem (slot (l2_table mem ttbr) i))"

lemma tables_agreeD:
  assumes "tables_agree mem mem' ttbr"
  shows "l1_table mem' ttbr = l1_table mem ttbr" and "l2_table mem' ttbr = l2_table mem ttbr"
    and "unat i < 512 \<Longrightarrow> l2_entry mem' ttbr i = l2_entry mem ttbr i"
proof -
  show l1: "l1_table mem' ttbr = l1_table mem ttbr"
    using assms by (simp add: tables_agree_def l1_table_def entry_at_def)
  show l2: "l2_table mem' ttbr = l2_table mem ttbr"
    using assms by (simp add: tables_agree_def l2_table_def entry_at_def l1)
  show "unat i < 512 \<Longrightarrow> l2_entry mem' ttbr i = l2_entry mem ttbr i"
    using assms by (simp add: tables_agree_def l2_entry_def entry_at_def l2)
qed

lemma tables_agree_tree: "tables_agree mem mem' ttbr \<Longrightarrow> user_tree mem ttbr \<Longrightarrow> user_tree mem' ttbr"
  using tables_agreeD [of mem mem' ttbr]
  by (auto simp: user_tree_def entry_at_def tables_agree_def)

lemma tables_agree_trans:
  assumes "tables_agree mem mem' ttbr" and "tables_agree mem' mem'' ttbr"
  shows "tables_agree mem mem'' ttbr"
  using assms tables_agreeD(1,2) [OF assms(1)] by (simp add: tables_agree_def)

lemma slot_0: "slot t 0 = t"
  by (simp add: slot_def)

lemma table_aligned:
  "unat (l1_table mem ttbr) mod 4096 = 0" "unat (l2_table mem ttbr) mod 4096 = 0"
  by (simp_all only: l1_table_def l2_table_def next_of_aligned)

text \<open>Writing an entry of a level 3 table changes no table above it, and only that page's walk.\<close>

lemma l3_write_agree:
  assumes "user_tree mem ttbr" and "unat i < 512" and "pte_is_table (l2_entry mem ttbr i)" and "unat j < 512"
  shows "tables_agree mem (mem(slot (next_of (l2_entry mem ttbr i)) j := v)) ttbr"
proof -
  let ?t = "next_of (l2_entry mem ttbr i)"
  have ne: "?t \<noteq> ttbr" "?t \<noteq> l1_table mem ttbr" "?t \<noteq> l2_table mem ttbr" and al: "unat ttbr mod 4096 = 0"
    using assms(1-3) unfolding user_tree_def by blast+
  have "slot ?t j \<noteq> slot ttbr 0" "slot ?t j \<noteq> slot (l1_table mem ttbr) 0"
    "\<And>k. unat k < 512 \<Longrightarrow> slot ?t j \<noteq> slot (l2_table mem ttbr) k"
    using ne slot_eq_iff [OF next_of_aligned _ assms(4)] al table_aligned by auto
  then show ?thesis unfolding tables_agree_def slot_0 by (metis fun_upd_apply)
qed

lemma leaf_l3_write:
  assumes "user_tree mem ttbr" and "unat i < 512" and "pte_is_table (l2_entry mem ttbr i)" and "unat j < 512"
    and "va < USER_VA_END"
  shows "walk_leaf (mem(slot (next_of (l2_entry mem ttbr i)) j := v)) ttbr va =
    (if index_of 21 va = i \<and> index_of 12 va = j
     then if pte_is_valid (PageTableEntry v)
       then Some (3, slot (next_of (l2_entry mem ttbr i)) j, next_of (PageTableEntry v) + (va AND 0xFFF))
       else None
     else walk_leaf mem ttbr va)"
proof -
  let ?mem = "mem(slot (next_of (l2_entry mem ttbr i)) j := v)" and ?k = "index_of 21 va"
  note ag = l3_write_agree [OF assms(1-4), of v]
  note same = tables_agreeD [OF ag] and tree = tables_agree_tree [OF ag assms(1)]
  have eq: "walk_leaf ?mem ttbr va = leaf_2 ?mem va (slot (l2_table mem ttbr) ?k)"
    "walk_leaf mem ttbr va = leaf_2 mem va (slot (l2_table mem ttbr) ?k)"
    using user_leaf [OF tree assms(5)] user_leaf [OF assms(1,5)] by (simp_all add: same)
  have e: "l2_entry ?mem ttbr ?k = l2_entry mem ttbr ?k" using same(3) index_less by blast
  note u = user_leaf_2 [of ?mem va ttbr ?k, unfolded same(2) e]
  have nb: "\<not> pte_is_block (l2_entry mem ttbr i)" using assms(3) by (simp add: pte_kind_bits)
  have l3: "leaf_3 ?mem va (slot (next_of (l2_entry mem ttbr ?k)) (index_of 12 va)) =
      leaf_3 mem va (slot (next_of (l2_entry mem ttbr ?k)) (index_of 12 va))"
    if "\<not> (?k = i \<and> index_of 12 va = j)" "pte_is_table (l2_entry mem ttbr ?k)"
  proof -
    have "next_of (l2_entry mem ttbr ?k) \<noteq> next_of (l2_entry mem ttbr i)" if "?k \<noteq> i"
      using assms(1-3) that \<open>pte_is_table (l2_entry mem ttbr ?k)\<close> index_less [of 21 va] unfolding user_tree_def by metis
    then have "slot (next_of (l2_entry mem ttbr ?k)) (index_of 12 va) \<noteq> slot (next_of (l2_entry mem ttbr i)) j"
      using that slot_eq_iff [OF next_of_aligned next_of_aligned index_less assms(4)] by auto
    then show ?thesis by (simp add: leaf_3_def entry_at_def)
  qed
  show ?thesis
  proof (cases "?k = i \<and> index_of 12 va = j")
    case True
    then show ?thesis unfolding eq(1) u using nb assms(3) by (simp add: leaf_3_def entry_at_def Let_def)
  next
    case False
    show ?thesis unfolding if_not_P [OF False] eq u user_leaf_2 using l3 [OF False] by simp
  qed
qed

section \<open>Unmapping\<close>

definition page_no :: "u64 \<Rightarrow> nat" where
  "page_no va = unat va div 4096"

lemma page_no_add:
  assumes "unat va + n * 4096 \<le> 2 ^ 30" and "i < n"
  shows "va + of_nat i * 4096 < USER_VA_END" and "page_no (va + of_nat i * 4096) = page_no va + i"
proof -
  have b: "unat va + i * 4096 < 2 ^ 30" using assms by linarith
  then have "unat (va + of_nat i * 4096) = unat va + i * 4096"
    by (simp add: unat_word_ariths unat_of_nat mod_simps)
  with b show "va + of_nat i * 4096 < USER_VA_END" "page_no (va + of_nat i * 4096) = page_no va + i"
    by (simp_all add: USER_VA_END_def word_less_nat_alt page_no_def)
qed

lemma l3_leaf:
  assumes "user_tree mem ttbr" and "va < USER_VA_END" and "walk_leaf mem ttbr va = Some (3, a, p)"
  shows "pte_is_table (l2_entry mem ttbr (index_of 21 va)) \<and>
    a = slot (next_of (l2_entry mem ttbr (index_of 21 va))) (index_of 12 va)"
  using assms(3) unfolding user_leaf [OF assms(1,2)] user_leaf_2
  by (auto simp: leaf_3_def Let_def split: if_splits)

lemma clear_page:
  assumes "user_tree mem ttbr" and "va < USER_VA_END" and "walk_leaf mem ttbr va = Some (3, a, p)"
  shows "tables_agree mem (mem(a := 0)) ttbr"
    and "va' < USER_VA_END \<Longrightarrow>
      walk_leaf (mem(a := 0)) ttbr va' = (if page_no va' = page_no va then None else walk_leaf mem ttbr va')"
proof -
  note l = l3_leaf [OF assms]
  then have l1: "pte_is_table (l2_entry mem ttbr (index_of 21 va))"
    and l2: "a = slot (next_of (l2_entry mem ttbr (index_of 21 va))) (index_of 12 va)" by simp_all
  show "tables_agree mem (mem(a := 0)) ttbr"
    unfolding l2 using assms(1) l1 index_less by (intro l3_write_agree)
  assume v: "va' < USER_VA_END"
  have "\<not> pte_is_valid (PageTableEntry 0)" by (simp add: pte_kind_bits)
  then show "walk_leaf (mem(a := 0)) ttbr va' = (if page_no va' = page_no va then None else walk_leaf mem ttbr va')"
    unfolding l2 leaf_l3_write [OF assms(1) index_less l1 index_less v] page_no_def
    using same_page_iff [OF v assms(2)] by simp
qed

lemma clear_from_spec:
  assumes "user_tree mem ttbr" and "unat va + n * 4096 \<le> 2 ^ 30" and "distinct is" and "\<forall>i \<in> set is. i < n"
    and "\<forall>i \<in> set is. \<exists>a p. walk_leaf mem ttbr (va + of_nat i * 4096) = Some (3, a, p)"
  shows "\<exists>mem'. clear_from ttbr va is mem = Return mem' \<and> tables_agree mem mem' ttbr \<and>
    (\<forall>va' < USER_VA_END. walk_leaf mem' ttbr va' =
       (if \<exists>i \<in> set is. page_no va' = page_no va + i then None else walk_leaf mem ttbr va'))"
  using assms
proof (induction "is" arbitrary: mem)
  case Nil
  then show ?case by (simp add: tables_agree_def)
next
  case (Cons i js)
  note pg = page_no_add [OF Cons.prems(2)]
  have i: "va + of_nat i * 4096 < USER_VA_END" "page_no (va + of_nat i * 4096) = page_no va + i"
    using pg Cons.prems(4) by simp_all
  obtain a p where leaf: "walk_leaf mem ttbr (va + of_nat i * 4096) = Some (3, a, p)" using Cons.prems(5) by auto
  note c = clear_page [OF Cons.prems(1) i(1) leaf]
  have js: "\<forall>j \<in> set js. \<exists>b q. walk_leaf (mem(a := 0)) ttbr (va + of_nat j * 4096) = Some (3, b, q)"
  proof
    fix j assume j: "j \<in> set js"
    then have "j < n" "j \<noteq> i" using Cons.prems(3,4) by auto
    then have "walk_leaf (mem(a := 0)) ttbr (va + of_nat j * 4096) = walk_leaf mem ttbr (va + of_nat j * 4096)"
      using c(2) [OF pg(1)] pg(2) i(2) by simp
    then show "\<exists>b q. walk_leaf (mem(a := 0)) ttbr (va + of_nat j * 4096) = Some (3, b, q)"
      using Cons.prems(5) j by simp
  qed
  have d: "distinct js" "\<forall>i \<in> set js. i < n" using Cons.prems(3,4) by simp_all
  from Cons.IH [OF tables_agree_tree [OF c(1) Cons.prems(1)] Cons.prems(2) d js]
  obtain mem' where m: "clear_from ttbr va js (mem(a := 0)) = Return mem'" "tables_agree (mem(a := 0)) mem' ttbr"
    "\<forall>va' < USER_VA_END. walk_leaf mem' ttbr va' =
       (if \<exists>i \<in> set js. page_no va' = page_no va + i then None else walk_leaf (mem(a := 0)) ttbr va')"
    by blast
  have "clear_from ttbr va (i # js) mem = Return mem'"
    using leaf m(1) by (simp add: clear_loop_leaf clear_leaf_def)
  with m(3) c(2) i(2) tables_agree_trans [OF c(1) m(2)] show ?case by auto
qed

lemma validate_from_Ok:
  "validate_from mem ttbr va i es = Ok () \<longleftrightarrow>
     (\<forall>k < length es. l3_page (walk_leaf mem ttbr (va + of_nat (i + k) * 4096)) (es ! k))"
proof (induction es arbitrary: i)
  case (Cons e es)
  show ?case
    unfolding validate_from.simps validate_loop_leaf using Cons.IH [of "Suc i"]
    by (simp add: All_less_Suc2 add.left_commute)
qed simp

lemma validate_from_Err:
  "validate_from mem ttbr va i es = Err r \<Longrightarrow>
     i \<le> r \<and> r < i + length es \<and> \<not> l3_page (walk_leaf mem ttbr (va + of_nat r * 4096)) (es ! (r - i)) \<and>
     (\<forall>k < r - i. l3_page (walk_leaf mem ttbr (va + of_nat (i + k) * 4096)) (es ! k))"
proof (induction es arbitrary: i)
  case (Cons e es)
  show ?case
  proof (cases "validate_loop mem e (walk_start ttbr (va + of_nat i * 4096))")
    case True
    then have "validate_from mem ttbr va (Suc i) es = Err r" using Cons.prems by simp
    note ih = Cons.IH [OF this]
    then have e: "r - i = Suc (r - Suc i)" by (intro Suc_diff_Suc [symmetric]) simp
    have "l3_page (walk_leaf mem ttbr (va + of_nat i * 4096)) e" using True by (simp add: validate_loop_leaf)
    then have "\<forall>k < r - i. l3_page (walk_leaf mem ttbr (va + of_nat (i + k) * 4096)) ((e # es) ! k)"
      using ih unfolding e All_less_Suc2 by (simp add: add.left_commute)
    with ih e show ?thesis by simp
  next
    case False
    then show ?thesis using Cons.prems by (auto simp: validate_loop_leaf)
  qed
qed simp

text \<open>C22. Unmapping is all or nothing. Take a user address space and a range below the end of user
  memory. When every page of the range resolves at level 3 to its expected frame, the call
  succeeds: each page did translate into its expected frame, exactly the pages of the range become
  unmapped, every other user address translates as before, and the second phase never hits one of
  its panics. Otherwise the call names the first page that does not resolve to its expected frame
  and leaves the tables as they were.\<close>

theorem unmap_all_or_nothing:
  assumes "user_tree mem ttbr" and "unat va + length expected * 4096 \<le> 2 ^ 30"
  shows "if \<forall>i < length expected. l3_page (walk_leaf mem ttbr (va + of_nat i * 4096)) (expected ! i)
    then (\<forall>i < length expected. \<exists>pa. walk_translate mem ttbr (va + of_nat i * 4096) = Some pa \<and>
        pa AND NOT 0xFFF = expected ! i) \<and>
      (\<exists>mem'. unmap_validated ttbr va expected mem = Return (Ok (), mem') \<and> user_tree mem' ttbr \<and>
        (\<forall>va' < USER_VA_END. walk_translate mem' ttbr va' =
          (if page_no va \<le> page_no va' \<and> page_no va' < page_no va + length expected then None
           else walk_translate mem ttbr va')))
    else \<exists>i < length expected. unmap_validated ttbr va expected mem = Return (Err i, mem) \<and>
      \<not> l3_page (walk_leaf mem ttbr (va + of_nat i * 4096)) (expected ! i) \<and>
      (\<forall>j < i. l3_page (walk_leaf mem ttbr (va + of_nat j * 4096)) (expected ! j))"
proof (cases "validate_pte_match mem ttbr va expected")
  case (Err i)
  note e = validate_from_Err [OF Err [unfolded validate_pte_match_def], simplified]
  from Err have "unmap_validated ttbr va expected mem = Return (Err i, mem)" by (simp add: unmap_validated_def)
  with e have "\<exists>i < length expected. unmap_validated ttbr va expected mem = Return (Err i, mem) \<and>
      \<not> l3_page (walk_leaf mem ttbr (va + of_nat i * 4096)) (expected ! i) \<and>
      (\<forall>j < i. l3_page (walk_leaf mem ttbr (va + of_nat j * 4096)) (expected ! j))" by blast
  moreover have "\<not> (\<forall>i < length expected. l3_page (walk_leaf mem ttbr (va + of_nat i * 4096)) (expected ! i))"
    using e by blast
  ultimately show ?thesis by (simp only: if_False)
next
  case (Ok u)
  let ?n = "length expected"
  have all: "\<forall>i < ?n. l3_page (walk_leaf mem ttbr (va + of_nat i * 4096)) (expected ! i)"
    using Ok validate_from_Ok [of mem ttbr va 0 expected] by (simp add: validate_pte_match_def)
  then have "\<forall>i \<in> set [0..<?n]. \<exists>a p. walk_leaf mem ttbr (va + of_nat i * 4096) = Some (3, a, p)"
    by (auto simp: l3_page_def)
  then obtain mem' where m: "clear_from ttbr va [0..<?n] mem = Return mem'" "tables_agree mem mem' ttbr"
    "\<And>va'. va' < USER_VA_END \<Longrightarrow> walk_leaf mem' ttbr va' =
       (if \<exists>i \<in> set [0..<?n]. page_no va' = page_no va + i then None else walk_leaf mem ttbr va')"
    using clear_from_spec [OF assms, of "[0..<?n]"] by auto
  have r: "(\<exists>i \<in> set [0..<?n]. q = page_no va + i) \<longleftrightarrow> page_no va \<le> q \<and> q < page_no va + ?n" for q
    by (auto intro!: bexI [of _ "q - page_no va"])
  have "unmap_validated ttbr va expected mem = Return (Ok (), mem')"
    using Ok m(1) by (simp add: unmap_validated_def clear_validated_pte_def)
  moreover have "walk_translate mem' ttbr va' = (if page_no va \<le> page_no va' \<and> page_no va' < page_no va + ?n then None
      else walk_translate mem ttbr va')" if "va' < USER_VA_END" for va'
    using m(3) [OF that] unfolding r by (simp add: walk_translate_leaf)
  moreover have "\<exists>pa. walk_translate mem ttbr (va + of_nat i * 4096) = Some pa \<and> pa AND NOT 0xFFF = expected ! i"
    if "i < ?n" for i
    using all that by (auto simp: walk_translate_leaf l3_page_def)
  ultimately show ?thesis using tables_agree_tree [OF m(2) assms(1)] unfolding if_P [OF all] by blast
qed

text \<open>A small address space: one table per level, and one page mapped at \<open>0x1000\<close>.\<close>

definition demo_tables :: pte_memory where
  "demo_tables = (\<lambda>_. 0)(0x1000 := pte_raw (new_table (PhysAddr 0x2000)), 0x2000 := pte_raw (new_table (PhysAddr 0x3000)),
     0x3000 := pte_raw (new_table (PhysAddr 0x4000)), 0x4008 := pte_raw (new_page (PhysAddr 0x5000) MAIR_NORMAL AP_RW_ALL SH_INNER))"

lemma demo_raw:
  "pte_raw (new_table (PhysAddr 0x2000)) = 0x2003" "pte_raw (new_table (PhysAddr 0x3000)) = 0x3003"
  "pte_raw (new_table (PhysAddr 0x4000)) = 0x4003"
  "pte_raw (new_page (PhysAddr 0x5000) MAIR_NORMAL AP_RW_ALL SH_INNER) = 0x5747"
  by (simp_all add: new_table_def new_page_def attr_bits_def PTE_VALID_def PTE_TABLE_def PTE_AF_def PTE_ADDR_MASK_def
      PTE_ATTR_SHIFT_def PTE_AP_SHIFT_def PTE_SH_SHIFT_def MAIR_NORMAL_def AP_RW_ALL_def SH_INNER_def)

lemma demo_entries:
  "entry_at demo_tables 0x1000 = PageTableEntry 0x2003" "entry_at demo_tables 0x2000 = PageTableEntry 0x3003"
  "entry_at demo_tables 0x3000 = PageTableEntry 0x4003" "entry_at demo_tables 0x4008 = PageTableEntry 0x5747"
  by (simp_all add: entry_at_def demo_tables_def demo_raw)

lemma demo_next:
  "next_of (PageTableEntry 0x2003) = 0x2000" "next_of (PageTableEntry 0x3003) = 0x3000"
  "next_of (PageTableEntry 0x4003) = 0x4000" "next_of (PageTableEntry 0x5747) = 0x5000"
  by (simp_all add: output_addr_def PTE_ADDR_MASK_def)

lemma demo_tabs: "l1_table demo_tables 0x1000 = 0x2000" "l2_table demo_tables 0x1000 = 0x3000"
  by (simp_all add: l1_table_def l2_table_def demo_entries demo_next)

lemma demo_slot:
  assumes "unat t mod 4096 = 0" and "unat i < 512"
  shows "entry_at demo_tables (slot t i) = PageTableEntry (if t = 0x1000 \<and> i = 0 then 0x2003
     else if t = 0x2000 \<and> i = 0 then 0x3003 else if t = 0x3000 \<and> i = 0 then 0x4003
     else if t = 0x4000 \<and> i = 1 then 0x5747 else 0)"
proof -
  have e: "entry_at demo_tables a = PageTableEntry (if a = slot 0x1000 0 then 0x2003 else if a = slot 0x2000 0 then 0x3003
      else if a = slot 0x3000 0 then 0x4003 else if a = slot 0x4000 1 then 0x5747 else 0)" for a
    by (simp add: entry_at_def demo_tables_def demo_raw slot_def)
  have "slot t i = slot 0x1000 0 \<longleftrightarrow> t = 0x1000 \<and> i = 0" "slot t i = slot 0x2000 0 \<longleftrightarrow> t = 0x2000 \<and> i = 0"
    "slot t i = slot 0x3000 0 \<longleftrightarrow> t = 0x3000 \<and> i = 0" "slot t i = slot 0x4000 1 \<longleftrightarrow> t = 0x4000 \<and> i = 1"
    using assms by (intro slot_eq_iff; simp)+
  then show ?thesis unfolding e by presburger
qed

lemma demo_l2_entry:
  "unat i < 512 \<Longrightarrow> l2_entry demo_tables 0x1000 i = PageTableEntry (if i = 0 then 0x4003 else 0)"
  by (simp add: l2_entry_def demo_tabs demo_slot)

lemma demo_tree: "user_tree demo_tables 0x1000"
proof -
  have i: "i = 0" if "pte_is_table (l2_entry demo_tables 0x1000 i)" "unat i < 512" for i
    using that by (auto simp: demo_l2_entry pte_kind_bits split: if_splits)
  have n: "next_of (l2_entry demo_tables 0x1000 0) = 0x4000" by (simp add: demo_l2_entry demo_next)
  show ?thesis unfolding user_tree_def demo_tabs
  proof (intro conjI allI impI)
    fix i j :: u64 assume "unat i < 512" "pte_is_table (l2_entry demo_tables 0x1000 i)"
    then have i0: "i = 0" by (rule i [rotated])
    then show "next_of (l2_entry demo_tables 0x1000 i) \<notin> {0x1000, 0x2000, 0x3000}" by (simp add: n)
    assume "unat j < 512" "pte_is_table (l2_entry demo_tables 0x1000 j)" "j \<noteq> i"
    with i i0 show "next_of (l2_entry demo_tables 0x1000 j) \<noteq> next_of (l2_entry demo_tables 0x1000 i)" by blast
  qed (simp_all add: demo_entries pte_kind_bits)
qed

lemma slot_4000: "slot 0x4000 1 = 0x4008"
  by (simp add: slot_def)

lemma demo_leaf:
  assumes "va < USER_VA_END"
  shows "walk_leaf demo_tables 0x1000 va = (if page_no va = 1 then Some (3, 0x4008, 0x5000 + (va AND 0xFFF)) else None)"
proof -
  have i: "unat (index_of 21 va) = page_no va div 512" "unat (index_of 12 va) = page_no va mod 512"
    using user_va_indices(3,4) [OF assms] by (simp_all add: page_no_def)
  have z: "index_of 21 va = 0 \<longleftrightarrow> page_no va < 512" using i(1) by (simp add: word_unat_eq_iff div_eq_0_iff)
  have e: "entry_at demo_tables (slot 0x4000 (index_of 12 va)) = PageTableEntry (if index_of 12 va = 1 then 0x5747 else 0)"
    using index_less by (simp add: demo_slot)
  have "index_of 21 va = 0 \<and> index_of 12 va = 1 \<longleftrightarrow> page_no va = 1"
    unfolding z using i(2) by (auto simp: word_unat_eq_iff)
  then show ?thesis
    unfolding user_leaf [OF demo_tree assms] unfolding user_leaf_2 unfolding demo_l2_entry [OF index_less] demo_tabs
    by (auto simp: leaf_3_def Let_def e demo_next demo_entries pte_kind_bits slot_4000)
qed

theorem unmap_all_or_nothing_witness:
  "(\<exists>mem'. unmap_validated 0x1000 0x1000 [0x5000] demo_tables = Return (Ok (), mem') \<and>
     walk_translate demo_tables 0x1000 0x1000 = Some 0x5000 \<and> walk_translate mem' 0x1000 0x1000 = None) \<and>
   unmap_validated 0x1000 0x1000 [0x6000] demo_tables = Return (Err 0, demo_tables)"
proof -
  have leaf: "walk_leaf demo_tables 0x1000 0x1000 = Some (3, 0x4008, 0x5000)"
    by (subst demo_leaf) (simp_all add: USER_VA_END_def page_no_def)
  have good: "\<forall>i < length [0x5000::u64]. l3_page (walk_leaf demo_tables 0x1000 (0x1000 + of_nat i * 4096)) ([0x5000] ! i)"
    using leaf by (simp add: l3_page_def)
  have bad: "\<not> (\<forall>i < length [0x6000::u64]. l3_page (walk_leaf demo_tables 0x1000 (0x1000 + of_nat i * 4096)) ([0x6000] ! i))"
    using leaf by (simp add: l3_page_def)
  have "unmap_validated 0x1000 0x1000 [0x6000] demo_tables = Return (Err 0, demo_tables)"
    using unmap_all_or_nothing [OF demo_tree, of "0x1000" "[0x6000]"] unfolding if_not_P [OF bad] by auto
  moreover obtain mem' where "unmap_validated 0x1000 0x1000 [0x5000] demo_tables = Return (Ok (), mem')"
    "\<forall>va' < USER_VA_END. walk_translate mem' 0x1000 va' =
        (if page_no 0x1000 \<le> page_no va' \<and> page_no va' < page_no 0x1000 + length [0x5000::u64] then None
         else walk_translate demo_tables 0x1000 va')"
    using unmap_all_or_nothing [OF demo_tree, of "0x1000" "[0x5000]"] unfolding if_P [OF good] by auto
  moreover from this(2) [rule_format, of "0x1000"] have "walk_translate mem' 0x1000 0x1000 = None"
    by (simp add: USER_VA_END_def)
  ultimately show ?thesis using leaf by (auto simp: walk_translate_leaf)
qed

section \<open>The run query\<close>

text \<open>User pages by number; there are \<open>2 ^ 18\<close> of them, 512 to a level 2 entry.\<close>

definition page_va :: "nat \<Rightarrow> u64" where
  "page_va p = of_nat (p * 4096)"

lemma unat_page_va: "p \<le> 262144 \<Longrightarrow> unat (page_va p) = p * 4096"
  unfolding page_va_def unat_of_nat by simp

lemma page_va_less: "p \<le> 262144 \<Longrightarrow> page_va p < USER_VA_END \<longleftrightarrow> p < 262144"
  by (simp add: word_less_nat_alt unat_page_va USER_VA_END_def)

lemma page_va_Suc: "page_va p + 4096 = page_va (Suc p)"
  by (simp add: page_va_def)

lemma page_va_index:
  assumes "p < 262144"
  shows "drop_bit 21 (page_va p) AND 0x1FF = of_nat (p div 512)" and "drop_bit 12 (page_va p) AND 0x1FF = of_nat (p mod 512)"
proof -
  have "unat (index_of 21 (page_va p)) = p div 512" "unat (index_of 12 (page_va p)) = p mod 512"
    using assms unat_page_va [of p] by (simp_all add: unat_index div_mult2_eq [symmetric])
  then show "drop_bit 21 (page_va p) AND 0x1FF = of_nat (p div 512)" "drop_bit 12 (page_va p) AND 0x1FF = of_nat (p mod 512)"
    using assms by (simp_all add: index_of_def word_unat_eq_iff unat_of_nat)
qed

lemma page_va_diff:
  assumes "p \<le> q" and "q \<le> 262144"
  shows "unat ((page_va q - page_va p) div 4096) = q - p"
proof -
  have u: "unat (page_va p) = p * 4096" "unat (page_va q) = q * 4096" using assms unat_page_va by simp_all
  then have "page_va p \<le> page_va q" using assms by (simp add: word_le_nat_alt)
  then have "unat (page_va q - page_va p) = (q - p) * 4096" using u by (simp add: unat_sub diff_mult_distrib)
  then show ?thesis by (simp add: unat_div)
qed

lemma page_va_region_end:
  assumes "p < 262144"
  shows "min (push_bit 21 (drop_bit 21 (page_va p) + 1)) USER_VA_END = page_va (Suc (p div 512) * 512)"
proof -
  have u: "unat (page_va p) = p * 4096" using assms unat_page_va by simp
  have d: "unat (drop_bit 21 (page_va p)) = p div 512" by (simp add: unat_drop_bit u div_mult2_eq [symmetric])
  have le: "Suc (p div 512) \<le> 512" using assms by linarith
  have "unat (push_bit 21 (drop_bit 21 (page_va p) + 1)) = Suc (p div 512) * 512 * 4096"
    using d le by (simp add: push_bit_eq_mult unat_word_ariths mod_simps)
  moreover have "unat (page_va (Suc (p div 512) * 512)) = Suc (p div 512) * 512 * 4096"
    using le by (intro unat_page_va) simp
  ultimately have "push_bit 21 (drop_bit 21 (page_va p) + 1) = page_va (Suc (p div 512) * 512)"
    by (simp add: word_unat_eq_iff)
  moreover have "page_va (Suc (p div 512) * 512) \<le> USER_VA_END"
    using le by (subst word_le_nat_alt, subst unat_page_va) (simp_all add: USER_VA_END_def)
  ultimately show ?thesis by simp
qed

definition page_mapped :: "pte_memory \<Rightarrow> u64 \<Rightarrow> u64 \<Rightarrow> bool" where
  "page_mapped mem ttbr va \<longleftrightarrow> walk_translate mem ttbr va \<noteq> None"

text \<open>Mapped or not, read off the level 2 entry and, below it, the level 3 entry.\<close>

definition l2_mapped :: "pte_memory \<Rightarrow> u64 \<Rightarrow> nat \<Rightarrow> bool" where
  "l2_mapped mem t p \<longleftrightarrow>
     (let e = entry_at mem (t + of_nat (p div 512) * 8) in
      pte_is_valid e \<and> (pte_is_block e \<or> pte_is_valid (entry_at mem (next_of e + of_nat (p mod 512) * 8))))"

lemma page_mapped_l2:
  assumes "pte_is_table (entry_at mem ttbr)" and "pte_is_table (entry_at mem (l1_table mem ttbr))" and "p < 262144"
  shows "page_mapped mem ttbr (page_va p) = l2_mapped mem (l2_table mem ttbr) p"
proof -
  have v: "page_va p < USER_VA_END" using assms(3) page_va_less by simp
  have i: "drop_bit 39 (page_va p) AND 0x1FF = 0" "drop_bit 30 (page_va p) AND 0x1FF = 0"
    using user_va_indices(1,2) [OF v] by (simp_all add: index_of_def)
  have nb: "\<not> pte_is_block (entry_at mem (l1_table mem ttbr))" using assms(2) by (simp add: pte_kind_bits)
  have k: "pte_is_valid e \<Longrightarrow> pte_is_table e \<longleftrightarrow> \<not> pte_is_block e" "\<not> pte_is_valid e \<Longrightarrow> \<not> pte_is_block e"
    "\<not> pte_is_valid e \<Longrightarrow> \<not> pte_is_table e" for e
    by (auto simp: pte_kind_bits)
  show ?thesis
    using assms(1,2) nb k
    by (auto simp: page_mapped_def walk_translate_leaf walk_leaf_def leaf_1_def leaf_2_def leaf_3_def Let_def
        i page_va_index [OF assms(3)] l2_mapped_def l2_table_def l1_table_def)
qed

text \<open>The pages \<open>p\<close> up to \<open>q\<close> are all in state \<open>s\<close>.\<close>

definition run_of :: "(nat \<Rightarrow> bool) \<Rightarrow> bool \<Rightarrow> nat \<Rightarrow> nat \<Rightarrow> bool" where
  "run_of f s p q \<longleftrightarrow> p \<le> q \<and> (\<forall>i. p \<le> i \<longrightarrow> i < q \<longrightarrow> f i = s)"

lemma run_of_refl [simp]: "run_of f s p p"
  by (simp add: run_of_def)

lemma run_of_trans: "run_of f s p q \<Longrightarrow> run_of f s q r \<Longrightarrow> run_of f s p r"
  unfolding run_of_def by (meson le_trans not_le)

lemma run_of_step: "f p = s \<Longrightarrow> run_of f s (Suc p) q \<Longrightarrow> run_of f s p q"
  unfolding run_of_def by (metis Suc_leD Suc_leI le_neq_implies_less)

lemma scan_l3_spec:
  assumes "pte_is_valid (entry_at mem (t + of_nat r * 8))" and "\<not> pte_is_block (entry_at mem (t + of_nat r * 8))"
    and "l3 = next_of (entry_at mem (t + of_nat r * 8))" and "r < 512" and "j \<le> 512"
  shows "\<exists>q. run_of (l2_mapped mem t) s (r * 512 + j) q \<and>
    (scan_l3 mem s l3 [j..<512] (page_va (r * 512 + j)) n = Stopped (n + (q - (r * 512 + j))) \<and>
       q < Suc r * 512 \<and> l2_mapped mem t q \<noteq> s \<or>
     scan_l3 mem s l3 [j..<512] (page_va (r * 512 + j)) n = Advanced (page_va q) (n + (q - (r * 512 + j))) \<and>
       q = Suc r * 512)"
  using assms(5)
proof (induction "512 - j" arbitrary: j n)
  case 0
  then have "j = 512" by simp
  then show ?case by (intro exI [of _ "r * 512 + j"]) simp
next
  case (Suc m)
  let ?p = "r * 512 + j"
  have j: "j < 512" using Suc.hyps(2) by simp
  then have p: "?p < 262144" "?p div 512 = r" "?p mod 512 = j" using assms(4) by auto
  have lt: "\<not> USER_VA_END \<le> page_va ?p" using page_va_less [of ?p] p(1) by (simp add: not_le)
  have mp: "l2_mapped mem t ?p = pte_is_valid (entry_at mem (l3 + of_nat j * 8))"
    using assms(1-3) unfolding l2_mapped_def Let_def p(2,3) by simp
  have un: "[j..<512] = j # [Suc j..<512]" using j by (simp add: upt_conv_Cons)
  show ?case
  proof (cases "l2_mapped mem t ?p = s")
    case False
    then show ?thesis using lt mp j by (intro exI [of _ ?p]) (simp add: un entry_at_def)
  next
    case True
    have step: "scan_l3 mem s l3 [j..<512] (page_va ?p) n = scan_l3 mem s l3 [Suc j..<512] (page_va (r * 512 + Suc j)) (Suc n)"
      using True lt mp by (simp add: un entry_at_def page_va_Suc)
    have "m = 512 - Suc j" "Suc j \<le> 512" using Suc.hyps(2) by simp_all
    from Suc.hyps(1) [OF this, of "Suc n"] obtain q where q: "run_of (l2_mapped mem t) s (Suc ?p) q"
      "scan_l3 mem s l3 [Suc j..<512] (page_va (r * 512 + Suc j)) (Suc n) = Stopped (Suc n + (q - (r * 512 + Suc j))) \<and>
         q < Suc r * 512 \<and> l2_mapped mem t q \<noteq> s \<or>
       scan_l3 mem s l3 [Suc j..<512] (page_va (r * 512 + Suc j)) (Suc n) = Advanced (page_va q) (Suc n + (q - (r * 512 + Suc j))) \<and>
         q = Suc r * 512"
      by auto
    have "Suc ?p \<le> q" using q(1) by (simp add: run_of_def)
    then have "Suc n + (q - (r * 512 + Suc j)) = n + (q - ?p)" by linarith
    with q run_of_step [OF True q(1)] show ?thesis unfolding step by auto
  qed
qed

lemma region_run:
  assumes "p < 262144" and "\<forall>i. i div 512 = p div 512 \<longrightarrow> f i = s"
  shows "run_of f s p (Suc (p div 512) * 512)"
  unfolding run_of_def
proof (intro conjI allI impI)
  show "p \<le> Suc (p div 512) * 512" by simp
  fix i assume "p \<le> i" "i < Suc (p div 512) * 512"
  then have "p div 512 \<le> i div 512" "i div 512 < Suc (p div 512)"
    by (simp_all add: div_le_mono div_less_iff_less_mult)
  then show "f i = s" using assms(2) by simp
qed

text \<open>What a scan from page \<open>p\<close> must return when it has already counted \<open>n\<close> pages.\<close>

definition run_result :: "(nat \<Rightarrow> bool) \<Rightarrow> bool \<Rightarrow> nat \<Rightarrow> nat \<Rightarrow> nat outcome \<Rightarrow> bool" where
  "run_result f s p n r \<longleftrightarrow>
     (\<exists>q. run_of f s p q \<and> q \<le> 262144 \<and> (q < 262144 \<longrightarrow> f q \<noteq> s) \<and> r = Return (n + (q - p)))"

lemma run_result_stop: "p \<le> q \<Longrightarrow> q < 262144 \<Longrightarrow> run_of f s p q \<Longrightarrow> f q \<noteq> s \<Longrightarrow> run_result f s p n (Return (n + (q - p)))"
  by (auto simp: run_result_def intro!: exI [of _ q])

lemma run_result_advance:
  assumes "run_of f s p p'" and "run_result f s p' (n + (p' - p)) r"
  shows "run_result f s p n r"
proof -
  obtain q where q: "run_of f s p' q" "q \<le> 262144" "q < 262144 \<longrightarrow> f q \<noteq> s" "r = Return (n + (p' - p) + (q - p'))"
    using assms(2) by (auto simp: run_result_def)
  moreover have "n + (p' - p) + (q - p') = n + (q - p)" using assms(1) q(1) by (simp add: run_of_def)
  ultimately show ?thesis using run_of_trans [OF assms(1) q(1)] by (auto simp: run_result_def)
qed

lemma scan_l2_unfold:
  assumes "p < 262144"
  shows "scan_l2 (Suc fuel) mem s t (page_va p) n =
    (let e = entry_at mem (t + of_nat (p div 512) * 8); q = Suc (p div 512) * 512 in
     if \<not> pte_is_valid e then (if s then Return n else scan_l2 fuel mem s t (page_va q) (n + (q - p)))
     else if pte_is_block e then (if \<not> s then Return n else scan_l2 fuel mem s t (page_va q) (n + (q - p)))
     else case scan_l3 mem s (next_of e) [p mod 512..<512] (page_va p) n of
            Stopped n \<Rightarrow> Return n
          | Advanced va n \<Rightarrow> scan_l2 fuel mem s t va n)"
proof -
  have d: "p div 512 < 512" using assms by (simp add: div_less_iff_less_mult)
  then have r: "Suc (p div 512) * 512 \<le> 262144" "p \<le> Suc (p div 512) * 512" by simp_all
  have idx: "\<not> (512::u64) \<le> of_nat (p div 512)" using d by (simp add: word_le_nat_alt unat_of_nat)
  have m: "unat (of_nat (p mod 512) :: u64) = p mod 512" by (simp add: unat_of_nat)
  show ?thesis
    unfolding scan_l2.simps(2) Let_def page_va_index [OF assms] page_va_region_end [OF assms]
      page_va_diff [OF r(2,1)] m entry_at_def
    using idx page_va_less [of p] assms by simp
qed

lemma scan_l2_spec:
  assumes "p \<le> 262144" and "512 - p div 512 < fuel"
  shows "run_result (l2_mapped mem t) s p n (scan_l2 fuel mem s t (page_va p) n)"
  using assms
proof (induction fuel arbitrary: p n)
  case 0
  then show ?case by simp
next
  case (Suc fuel)
  let ?f = "l2_mapped mem t"
  show ?case
  proof (cases "p < 262144")
    case False
    then have "p = 262144" using Suc.prems(1) by simp
    then show ?thesis
      using page_va_less [of p] by (auto simp: scan_l2.simps(2) run_result_def intro!: exI [of _ p])
  next
    case True
    let ?r = "p div 512" and ?q = "Suc (p div 512) * 512"
    let ?e = "entry_at mem (t + of_nat ?r * 8)"
    have r: "?r < 512" using True by (simp add: div_less_iff_less_mult)
    have nx: "?q \<le> 262144" "512 - ?q div 512 < fuel" using r Suc.prems(2) by simp_all
    note ih = Suc.IH [OF nx]
    have stop: "run_result ?f s p n (Return n)" if "?f p \<noteq> s"
      using run_result_stop [of p p ?f s n] True that by simp
    have adv: "run_result ?f s p n (scan_l2 fuel mem s t (page_va ?q) (n + (?q - p)))"
      if "\<forall>i. i div 512 = ?r \<longrightarrow> ?f i = s"
      by (rule run_result_advance [OF region_run [OF True that] ih])
    show ?thesis
    proof (cases "pte_is_valid ?e \<and> \<not> pte_is_block ?e")
      case False
      then have c: "?f i = pte_is_valid ?e" if "i div 512 = ?r" for i using that by (auto simp: l2_mapped_def Let_def)
      then have v: "?f p = pte_is_valid ?e" by simp
      have "scan_l2 (Suc fuel) mem s t (page_va p) n =
          (if pte_is_valid ?e = s then scan_l2 fuel mem s t (page_va ?q) (n + (?q - p)) else Return n)"
        unfolding scan_l2_unfold [OF True] Let_def using False by auto
      then show ?thesis using stop adv c v by (cases "pte_is_valid ?e = s") auto
    next
      case tab: True
      have p: "?r * 512 + p mod 512 = p" by simp
      obtain q where q: "run_of ?f s p q"
        "scan_l3 mem s (next_of ?e) [p mod 512..<512] (page_va p) n = Stopped (n + (q - p)) \<and> q < ?q \<and> ?f q \<noteq> s \<or>
         scan_l3 mem s (next_of ?e) [p mod 512..<512] (page_va p) n = Advanced (page_va q) (n + (q - p)) \<and> q = ?q"
        using scan_l3_spec [of mem t ?r "next_of ?e" "p mod 512" s n, unfolded p] tab r by auto
      have sc: "scan_l2 (Suc fuel) mem s t (page_va p) n =
          (case scan_l3 mem s (next_of ?e) [p mod 512..<512] (page_va p) n of
             Stopped n \<Rightarrow> Return n | Advanced va n \<Rightarrow> scan_l2 fuel mem s t va n)"
        unfolding scan_l2_unfold [OF True] Let_def using tab by simp
      from q(2) show ?thesis
      proof
        assume "scan_l3 mem s (next_of ?e) [p mod 512..<512] (page_va p) n = Stopped (n + (q - p)) \<and> q < ?q \<and> ?f q \<noteq> s"
        then show ?thesis unfolding sc using run_result_stop [OF _ _ q(1)] q(1) nx(1) by (simp add: run_of_def)
      next
        assume "scan_l3 mem s (next_of ?e) [p mod 512..<512] (page_va p) n = Advanced (page_va q) (n + (q - p)) \<and> q = ?q"
        then show ?thesis unfolding sc using run_result_advance [OF q(1)] ih by simp
      qed
    qed
  qed
qed

lemma user_end_va: "USER_VA_END = page_va 262144"
  by (simp add: USER_VA_END_def page_va_def)

lemma first_state_eq: "p < 262144 \<Longrightarrow> first_state mem t (page_va p) = l2_mapped mem t p"
  unfolding first_state_def l2_mapped_def Let_def page_va_index entry_at_def by auto

text \<open>Above level 2 the whole user range is in one state.\<close>

lemma page_mapped_uniform:
  assumes "p < 262144"
  shows "\<not> pte_is_table (entry_at mem ttbr) \<Longrightarrow> \<not> page_mapped mem ttbr (page_va p)"
    and "pte_is_table (entry_at mem ttbr) \<Longrightarrow> \<not> pte_is_table (entry_at mem (l1_table mem ttbr)) \<Longrightarrow>
      page_mapped mem ttbr (page_va p) = pte_is_block (entry_at mem (l1_table mem ttbr))"
proof -
  have v: "page_va p < USER_VA_END" using assms page_va_less by simp
  have i: "drop_bit 39 (page_va p) AND 0x1FF = 0" "drop_bit 30 (page_va p) AND 0x1FF = 0"
    using user_va_indices(1,2) [OF v] by (simp_all add: index_of_def)
  show "\<not> pte_is_table (entry_at mem ttbr) \<Longrightarrow> \<not> page_mapped mem ttbr (page_va p)"
    by (simp add: page_mapped_def walk_translate_leaf walk_leaf_def Let_def i)
  show "pte_is_table (entry_at mem ttbr) \<Longrightarrow> \<not> pte_is_table (entry_at mem (l1_table mem ttbr)) \<Longrightarrow>
      page_mapped mem ttbr (page_va p) = pte_is_block (entry_at mem (l1_table mem ttbr))"
    by (simp add: page_mapped_def walk_translate_leaf walk_leaf_def leaf_1_def Let_def i l1_table_def)
qed

definition maximal_run :: "(nat \<Rightarrow> bool) \<Rightarrow> nat \<Rightarrow> nat \<Rightarrow> bool" where
  "maximal_run f p n \<longleftrightarrow>
     0 < n \<and> p + n \<le> 262144 \<and> (\<forall>i < n. f (p + i) = f p) \<and> (p + n < 262144 \<longrightarrow> f (p + n) \<noteq> f p)"

lemma run_result_maximal:
  assumes "run_result f (f p) p 0 r" and "p < 262144"
  shows "\<exists>n. r = Return n \<and> maximal_run f p n"
proof -
  obtain q where q: "run_of f (f p) p q" "q \<le> 262144" "q < 262144 \<longrightarrow> f q \<noteq> f p" "r = Return (q - p)"
    using assms(1) by (auto simp: run_result_def)
  have "p \<noteq> q" using q(2,3) assms(2) by auto
  moreover have "p \<le> q" using q(1) by (simp add: run_of_def)
  ultimately obtain n where n: "q = p + n" "0 < n" using that [of "q - p"] by simp
  have "f (p + i) = f p" if "i < n" for i
    using q(1) that unfolding run_of_def n(1) by (meson le_add1 nat_add_left_cancel_less)
  then have "maximal_run f p n" using q(2,3) n unfolding maximal_run_def by blast
  then show ?thesis using q(4) n(1) by simp
qed

lemma uniform_maximal: "p < 262144 \<Longrightarrow> \<forall>i < 262144. f i = s \<Longrightarrow> maximal_run f p (262144 - p)"
  by (simp add: maximal_run_def)

lemma query_run_page:
  assumes "p < 262144"
  shows "\<exists>n. query_mapping_run ttbr (page_va p) mem = Return (page_mapped mem ttbr (page_va p), n) \<and>
    maximal_run (\<lambda>i. page_mapped mem ttbr (page_va i)) p n"
proof -
  let ?f = "\<lambda>i. page_mapped mem ttbr (page_va i)"
  let ?e0 = "entry_at mem ttbr" and ?e1 = "entry_at mem (l1_table mem ttbr)"
  have lt: "\<not> USER_VA_END \<le> page_va p" using page_va_less assms by (simp add: not_le)
  have i30: "drop_bit 30 (page_va p) AND 0x1FF = 0"
    using user_va_indices(2) [of "page_va p"] page_va_less assms by (simp add: index_of_def)
  have len: "unat ((USER_VA_END - page_va p) div 4096) = 262144 - p"
    unfolding user_end_va using assms by (intro page_va_diff) simp_all
  have e1: "min (push_bit 30 (0 + 1)) USER_VA_END = USER_VA_END" by (simp add: USER_VA_END_def)
  have unf: "query_mapping_run ttbr (page_va p) mem =
      (if \<not> pte_is_table ?e0 then Return (False, 262144 - p)
       else if \<not> pte_is_table ?e1 then Return (pte_is_block ?e1, 262144 - p)
       else bind_outcome (scan_l2 513 mem (l2_mapped mem (l2_table mem ttbr) p) (l2_table mem ttbr) (page_va p) 0)
         (\<lambda>n. Return (l2_mapped mem (l2_table mem ttbr) p, n)))"
    using lt unfolding query_mapping_run_def Let_def i30 e1 len
    by (auto simp: first_state_eq [OF assms] l1_table_def l2_table_def entry_at_def pte_kind_bits)
  show ?thesis
  proof (cases "pte_is_table ?e0 \<and> pte_is_table ?e1")
    case True
    then have m: "?f i = l2_mapped mem (l2_table mem ttbr) i" if "i < 262144" for i using page_mapped_l2 that by blast
    have fuel: "512 - p div 512 < 513" by (simp add: less_Suc_eq_le)
    obtain n where n: "scan_l2 513 mem (l2_mapped mem (l2_table mem ttbr) p) (l2_table mem ttbr) (page_va p) 0 = Return n"
      "maximal_run (l2_mapped mem (l2_table mem ttbr)) p n"
      using run_result_maximal [OF scan_l2_spec [OF less_imp_le [OF assms] fuel] assms] by blast
    have "maximal_run ?f p n" using n(2) m assms by (auto simp: maximal_run_def)
    then show ?thesis unfolding unf using True n(1) m [OF assms] by simp
  next
    case False
    then obtain s where s: "\<forall>i < 262144. ?f i = s" "query_mapping_run ttbr (page_va p) mem = Return (s, 262144 - p)"
      unfolding unf using page_mapped_uniform [of _ mem ttbr] by (cases "pte_is_table ?e0") auto
    with uniform_maximal [OF assms s(1)] assms show ?thesis by auto
  qed
qed

text \<open>C27. The run query is exact: for a page-aligned user address it returns, whatever the tables hold,
  whether that page is mapped and the length of the longest run of pages from there in the same
  state, the same answer as translating every page of the run by itself; at or beyond the end of
  user memory it answers with the empty unmapped run.\<close>

theorem query_run_exact:
  assumes "unat va mod 4096 = 0"
  shows "if va < USER_VA_END
    then \<exists>n. query_mapping_run ttbr va mem = Return (walk_translate mem ttbr va \<noteq> None, n) \<and>
      maximal_run (\<lambda>i. walk_translate mem ttbr (page_va i) \<noteq> None) (page_no va) n
    else query_mapping_run ttbr va mem = Return (False, 0)"
proof -
  have "query_mapping_run ttbr va mem = Return (False, 0)" if "\<not> va < USER_VA_END"
    using that by (simp add: query_mapping_run_def not_less)
  moreover have "\<exists>n. query_mapping_run ttbr va mem = Return (walk_translate mem ttbr va \<noteq> None, n) \<and>
      maximal_run (\<lambda>i. walk_translate mem ttbr (page_va i) \<noteq> None) (page_no va) n" if "va < USER_VA_END"
  proof -
    have p: "page_no va < 262144" using that
      by (simp add: page_no_def USER_VA_END_def word_less_nat_alt div_less_iff_less_mult)
    have "unat va = page_no va * 4096" using assms by (simp add: page_no_def) auto
    then have v: "va = page_va (page_no va)" using unat_page_va p by (simp add: word_unat_eq_iff)
    from query_run_page [OF p, of ttbr mem] show ?thesis unfolding v [symmetric] page_mapped_def .
  qed
  ultimately show ?thesis by simp
qed

theorem query_run_exact_witness:
  "unat (0x1000::u64) mod 4096 = 0 \<and> query_mapping_run 0x1000 0x1000 demo_tables = Return (True, 1)"
proof -
  have m: "walk_translate demo_tables 0x1000 (page_va i) \<noteq> None \<longleftrightarrow> i = 1" if "i < 262144" for i
  proof -
    have "page_no (page_va i) = i" using that unat_page_va [of i] by (simp add: page_no_def)
    then show ?thesis using that demo_leaf [of "page_va i"] page_va_less [of i] by (simp add: walk_translate_leaf)
  qed
  have p: "page_no 0x1000 = 1" "page_va 1 = 0x1000" by (simp_all add: page_no_def page_va_def)
  have al: "unat (0x1000::u64) mod 4096 = 0" and u: "0x1000 < USER_VA_END" by (simp_all add: USER_VA_END_def)
  obtain n where n: "query_mapping_run 0x1000 0x1000 demo_tables = Return (walk_translate demo_tables 0x1000 0x1000 \<noteq> None, n)"
    "maximal_run (\<lambda>i. walk_translate demo_tables 0x1000 (page_va i) \<noteq> None) 1 n"
    using query_run_exact [OF al, of "0x1000" demo_tables, unfolded p(1) if_P [OF u]] by blast
  have "\<not> 1 < n"
  proof
    assume "1 < n"
    then have "(walk_translate demo_tables 0x1000 (page_va (1 + 1)) \<noteq> None) = (walk_translate demo_tables 0x1000 (page_va 1) \<noteq> None)"
      using n(2) unfolding maximal_run_def by blast
    with m [of "1 + 1"] m [of 1] show False by simp
  qed
  then have "n = 1" using n(2) by (simp add: maximal_run_def)
  with n(1) m [of 1] p(2) al show ?thesis by simp
qed

end
