(* ===== verification/Vmem.thy ===== *)
theory Vmem
  imports Page_Set Page_Table
begin

text \<open>
  Mapping pages into an address space: the decisions of \<^verbatim>\<open>lockjaw-types/src/vmem.rs\<close>, the mapping
  walk of \<^verbatim>\<open>lockjaw-types/src/page_table.rs\<close> and \<^verbatim>\<open>map_pages_in_existing\<close> of
  \<^verbatim>\<open>src/arch/aarch64/vmem.rs\<close>, which composes them with the frame allocator and the page set header.

  The kernel reaches a table at physical address \<open>a\<close> through the direct map at \<open>a + KERNEL_VA_OFFSET\<close>;
  the memory of the model is indexed by the physical address. Barriers and TLB maintenance have no
  effect on it. A table is 512 entries, and indexing it out of range panics.
\<close>

section \<open>Attributes\<close>

datatype MapMemoryAttribute = Normal | Device | NormalNonCacheable

definition attribute_from_raw :: "u64 \<Rightarrow> MapMemoryAttribute option" where
  "attribute_from_raw raw =
     (if raw = 0 then Some Normal else if raw = 1 then Some Device
      else if raw = 2 then Some NormalNonCacheable else None)"

fun to_pte_attrs :: "MapMemoryAttribute \<Rightarrow> u8 \<times> u8" where
  "to_pte_attrs Normal = (MAIR_NORMAL, SH_INNER)"
| "to_pte_attrs Device = (MAIR_DEVICE, SH_NON)"
| "to_pte_attrs NormalNonCacheable = (MAIR_NORMAL_NC, SH_OUTER)"

definition select_attrs :: "MapMemoryAttribute \<Rightarrow> u8 \<times> u8" where
  "select_attrs attr = to_pte_attrs attr"

definition build_user_page :: "PhysAddr \<Rightarrow> u8 \<Rightarrow> u8 \<Rightarrow> PageTableEntry" where
  "build_user_page paddr attr sh = with_pxn (with_uxn (new_page paddr attr AP_RW_ALL sh))"

section \<open>Validation and level-2 regions\<close>

datatype L2SlotState = L2Empty | HasL3Table | IsBlock

datatype MapAction = AllocateL3 | UseExistingL3 | ErrorBlockConflict

fun map_action_for_l2 :: "L2SlotState \<Rightarrow> MapAction" where
  "map_action_for_l2 L2Empty = AllocateL3"
| "map_action_for_l2 HasL3Table = UseExistingL3"
| "map_action_for_l2 IsBlock = ErrorBlockConflict"

definition classify_l2_entry :: "PageTableEntry \<Rightarrow> L2SlotState" where
  "classify_l2_entry pte =
     (if pte_is_table pte then HasL3Table else if \<not> pte_is_valid pte then L2Empty else IsBlock)"

datatype MapValidation = ValidMapping nat nat | ErrorOutOfRange | ErrorTooManyPages

definition validate_mapping :: "u64 \<Rightarrow> nat \<Rightarrow> MapValidation" where
  "validate_mapping virt_addr page_count =
     (if page_count = 0 \<or> MAX_PRACTICAL_PAGES_PER_SET < page_count then ErrorTooManyPages
      else
        let (l0, l1, l2_start, l3_start) = page_table_indices virt_addr in
        if l0 \<noteq> 0 \<or> l1 \<noteq> 0 then ErrorOutOfRange
        else case checked_add virt_addr (of_nat page_count * PAGE_SIZE) of
          None \<Rightarrow> ErrorOutOfRange
        | Some end_va_excl \<Rightarrow>
            if USER_VA_END < end_va_excl then ErrorOutOfRange else ValidMapping l2_start l3_start)"

definition PAGES_PER_L2_REGION :: nat where "PAGES_PER_L2_REGION = 512"

record L2Region =
  l2_idx :: nat
  l3_start :: nat
  pages_in_region :: nat
  data_offset :: nat

record L2RegionIter =
  next_l2_idx :: nat
  next_l3_offset :: nat
  pages_remaining :: nat
  next_data_offset :: nat

definition l2_region_iter :: "nat \<Rightarrow> nat \<Rightarrow> nat \<Rightarrow> L2RegionIter" where
  "l2_region_iter l2_start l3_first page_count =
     \<lparr>next_l2_idx = l2_start, next_l3_offset = l3_first, pages_remaining = page_count, next_data_offset = 0\<rparr>"

definition l2_region_next :: "L2RegionIter \<Rightarrow> (L2Region option \<times> L2RegionIter) outcome" where
  "l2_region_next it =
     (if pages_remaining it = 0 then Return (None, it)
      else
        assert_then (next_l3_offset it \<le> PAGES_PER_L2_REGION)
          (let n = min (PAGES_PER_L2_REGION - next_l3_offset it) (pages_remaining it) in
           Return (Some \<lparr>l2_idx = next_l2_idx it, l3_start = next_l3_offset it, pages_in_region = n,
                data_offset = next_data_offset it\<rparr>,
              \<lparr>next_l2_idx = next_l2_idx it + 1, next_l3_offset = 0, pages_remaining = pages_remaining it - n,
                next_data_offset = next_data_offset it + n\<rparr>)))"

text \<open>
  The regions a \<^verbatim>\<open>for\<close> loop over the iterator visits. The iterator reads nothing but itself, so they
  can be listed before the body runs. After the first region every offset is 0, so each further
  region takes at least one page.
\<close>

definition iter_measure :: "L2RegionIter \<Rightarrow> nat" where
  "iter_measure it = pages_remaining it + pages_remaining it + (if next_l3_offset it = 0 then 0 else 1)"

lemma l2_region_next_decreases: "l2_region_next it = Return (Some r, it') \<Longrightarrow> iter_measure it' < iter_measure it"
  by (auto simp: l2_region_next_def iter_measure_def PAGES_PER_L2_REGION_def Let_def min_def returned split: if_splits)

function l2_regions :: "L2RegionIter \<Rightarrow> L2Region list outcome" where
  "l2_regions it =
     bind_outcome (l2_region_next it) (\<lambda>(r, it).
       case r of None \<Rightarrow> Return [] | Some region \<Rightarrow> bind_outcome (l2_regions it) (\<lambda>rs. Return (region # rs)))"
  by pat_completeness auto
termination by (relation "measure iter_measure") (auto intro: l2_region_next_decreases)

section \<open>The mapping walk\<close>

datatype MapWalkResult =
  ReadPte u64
| ReachedL2 u64 nat nat L2SlotState
| MapFault
| InvalidMapping

record MapWalk =
  mw_level :: nat
  mw_l2_idx :: nat
  mw_l3_start :: nat
  mw_l2_table :: u64

definition map_walk_start :: "u64 \<Rightarrow> u64 \<Rightarrow> nat \<Rightarrow> MapWalk \<times> MapWalkResult" where
  "map_walk_start ttbr0_paddr virt_addr page_count =
     (case validate_mapping virt_addr page_count of
        ValidMapping l2 l3 \<Rightarrow>
          (\<lparr>mw_level = 0, mw_l2_idx = l2, mw_l3_start = l3, mw_l2_table = 0\<rparr>, ReadPte (ttbr0_paddr + 0 * 8))
      | _ \<Rightarrow> (\<lparr>mw_level = 0, mw_l2_idx = 0, mw_l3_start = 0, mw_l2_table = 0\<rparr>, InvalidMapping))"

definition map_walk_step :: "MapWalk \<Rightarrow> u64 \<Rightarrow> MapWalk \<times> MapWalkResult" where
  "map_walk_step w raw =
     (let pte = PageTableEntry raw; next_table = phys_u64 (output_addr pte) in
      if mw_level w = 0 then
        (if \<not> pte_is_table pte then (w, MapFault)
         else (w\<lparr>mw_level := 1\<rparr>, ReadPte (next_table + 0 * 8)))
      else if mw_level w = 1 then
        (if \<not> pte_is_table pte then (w, MapFault)
         else (w\<lparr>mw_l2_table := next_table, mw_level := 2\<rparr>, ReadPte (next_table + of_nat (mw_l2_idx w) * 8)))
      else if mw_level w = 2 then
        (w, ReachedL2 (mw_l2_table w) (mw_l2_idx w) (mw_l3_start w) (classify_l2_entry pte))
      else (w, MapFault))"

datatype VmemError = TooManyMappings | TooManyL3Regions | OutOfPages | InvalidParameter | OutOfPageTables

definition map_walk_measure :: "MapWalk \<times> MapWalkResult \<Rightarrow> nat" where
  "map_walk_measure wr = (case snd wr of ReadPte a \<Rightarrow> Suc (3 - mw_level (fst wr)) | _ \<Rightarrow> 0)"

lemma map_walk_step_measure: "map_walk_measure (map_walk_step w raw) < map_walk_measure (w, ReadPte a)"
  by (auto simp: map_walk_step_def map_walk_measure_def Let_def split: if_splits)

text \<open>The loop of \<^verbatim>\<open>map_pages_in_existing\<close> that feeds the walk: the level-2 table and the first indices.\<close>

function map_walk_loop :: "pte_memory \<Rightarrow> MapWalk \<times> MapWalkResult \<Rightarrow> (u64 \<times> nat \<times> nat, VmemError) result" where
  "map_walk_loop mem (w, ReadPte pte_paddr) = map_walk_loop mem (map_walk_step w (mem pte_paddr))"
| "map_walk_loop mem (w, ReachedL2 l2_paddr l2 l3 state) = Ok (l2_paddr, l2, l3)"
| "map_walk_loop mem (w, MapFault) = Err OutOfPages"
| "map_walk_loop mem (w, InvalidMapping) = Err TooManyMappings"
  by pat_completeness auto
termination by (relation "measure (\<lambda>(m, wr). map_walk_measure wr)") (auto intro: map_walk_step_measure)

declare l2_regions.simps [simp del] map_walk_loop.simps(1) [simp del]

section \<open>Tables in memory\<close>

definition read_entry :: "pte_memory \<Rightarrow> u64 \<Rightarrow> nat \<Rightarrow> PageTableEntry outcome" where
  "read_entry mem table i = assert_then (i < 512) (Return (PageTableEntry (mem (table + of_nat i * 8))))"

definition write_entry :: "u64 \<Rightarrow> nat \<Rightarrow> PageTableEntry \<Rightarrow> pte_memory \<Rightarrow> pte_memory outcome" where
  "write_entry table i e mem = assert_then (i < 512) (Return (mem(table + of_nat i * 8 := pte_raw e)))"

text \<open>\<^verbatim>\<open>ptr::write_bytes(va, 0, 1)\<close> on a table: its 4096 bytes become 0.\<close>

definition zero_table :: "u64 \<Rightarrow> pte_memory \<Rightarrow> pte_memory" where
  "zero_table table mem = (\<lambda>a. if a - table < 4096 then 0 else mem a)"

section \<open>Mapping into an existing address space\<close>

text \<open>First pass: classify every level-2 entry, count the tables needed.\<close>

fun classify_regions :: "pte_memory \<Rightarrow> u64 \<Rightarrow> L2Region list \<Rightarrow> nat \<Rightarrow> (nat, VmemError) result outcome" where
  "classify_regions mem l2_paddr [] needed = Return (Ok needed)"
| "classify_regions mem l2_paddr (r # rs) needed =
     bind_outcome (read_entry mem l2_paddr (l2_idx r)) (\<lambda>e.
       case map_action_for_l2 (classify_l2_entry e) of
         UseExistingL3 \<Rightarrow> classify_regions mem l2_paddr rs needed
       | AllocateL3 \<Rightarrow> classify_regions mem l2_paddr rs (needed + 1)
       | ErrorBlockConflict \<Rightarrow> Return (Err TooManyL3Regions))"

text \<open>Second pass: allocate the tables, or give back those allocated so far.\<close>

definition MAX_L2_REGIONS_PER_MAP :: nat where "MAX_L2_REGIONS_PER_MAP = 33"

fun give_back :: "Platform \<Rightarrow> PhysPage option list \<Rightarrow> PhysMem \<Rightarrow> PhysMem outcome" where
  "give_back p [] m = Return m"
| "give_back p (None # slots) m = give_back p slots m"
| "give_back p (Some page # slots) m = bind_outcome (dealloc_page p page m) (give_back p slots)"

fun prealloc_tables ::
  "Platform \<Rightarrow> nat list \<Rightarrow> PhysPage option list \<Rightarrow> PhysMem \<Rightarrow> (PhysPage option list option \<times> PhysMem) outcome" where
  "prealloc_tables p [] slots m = Return (Some slots, m)"
| "prealloc_tables p (i # is) slots m =
     bind_outcome (alloc_page p m) (\<lambda>(r, m).
       case r of
         Some page \<Rightarrow> assert_then (i < length slots) (prealloc_tables p is (slots[i := Some page]) m)
       | None \<Rightarrow> assert_then (i \<le> length slots) (bind_outcome (give_back p (take i slots) m) (\<lambda>m. Return (None, m))))"

text \<open>Third pass: install the tables and write the entries.\<close>

fun write_pages ::
  "BackedHeader \<Rightarrow> u8 \<Rightarrow> u8 \<Rightarrow> u64 \<Rightarrow> L2Region \<Rightarrow> nat list \<Rightarrow> pte_memory \<Rightarrow> pte_memory outcome" where
  "write_pages header mair_attr sh l3_table r [] mem = Return mem"
| "write_pages header mair_attr sh l3_table r (i # is) mem =
     bind_outcome (get_page (data_offset r + i) header) (\<lambda>page.
       case page of
         None \<Rightarrow> Panic
       | Some paddr \<Rightarrow>
           bind_outcome (write_entry l3_table (l3_start r + i) (build_user_page (PhysAddr paddr) mair_attr sh) mem)
             (write_pages header mair_attr sh l3_table r is))"

text \<open>The level-3 table of one region, with the cursor and the slots left to take.\<close>

definition region_table ::
  "u64 \<Rightarrow> L2Region \<Rightarrow> nat \<Rightarrow> PhysPage option list \<Rightarrow> pte_memory \<Rightarrow>
    (u64 \<times> nat \<times> PhysPage option list \<times> pte_memory) outcome" where
  "region_table l2_paddr r cursor slots mem =
     bind_outcome (read_entry mem l2_paddr (l2_idx r)) (\<lambda>e.
       case map_action_for_l2 (classify_l2_entry e) of
         UseExistingL3 \<Rightarrow> Return (phys_u64 (output_addr e), cursor, slots, mem)
       | AllocateL3 \<Rightarrow>
           assert_then (cursor < length slots)
             (case slots ! cursor of
                None \<Rightarrow> Panic
              | Some page \<Rightarrow>
                  let l3 = start_addr page in
                  bind_outcome (write_entry l2_paddr (l2_idx r) (new_table l3) (zero_table (phys_u64 l3) mem)) (\<lambda>mem.
                    Return (phys_u64 l3, cursor + 1, slots[cursor := None], mem)))
       | ErrorBlockConflict \<Rightarrow> Panic)"

fun apply_regions ::
  "BackedHeader \<Rightarrow> u8 \<Rightarrow> u8 \<Rightarrow> u64 \<Rightarrow> L2Region list \<Rightarrow> nat \<Rightarrow> PhysPage option list \<Rightarrow> pte_memory \<Rightarrow>
    pte_memory outcome" where
  "apply_regions header mair_attr sh l2_paddr [] cursor slots mem = Return mem"
| "apply_regions header mair_attr sh l2_paddr (r # rs) cursor slots mem =
     bind_outcome (region_table l2_paddr r cursor slots mem) (\<lambda>(l3_table, cursor, slots, mem).
     bind_outcome (write_pages header mair_attr sh l3_table r [0..<pages_in_region r] mem)
       (apply_regions header mair_attr sh l2_paddr rs cursor slots))"

definition map_pages_in_existing ::
  "Platform \<Rightarrow> u64 \<Rightarrow> u64 \<Rightarrow> BackedHeader \<Rightarrow> MapMemoryAttribute \<Rightarrow> pte_memory \<times> PhysMem \<Rightarrow>
    ((unit, VmemError) result \<times> pte_memory \<times> PhysMem) outcome" where
  "map_pages_in_existing p ttbr0_paddr virt_addr header attr st =
     (let (mem, m) = st; page_count = bh_count header in
      case map_walk_loop mem (map_walk_start ttbr0_paddr virt_addr page_count) of
        Err e \<Rightarrow> Return (Err e, mem, m)
      | Ok (l2_paddr, l2_start, l3_first) \<Rightarrow>
          let (mair_attr, sh) = select_attrs attr in
          bind_outcome (l2_regions (l2_region_iter l2_start l3_first page_count)) (\<lambda>regions.
          bind_outcome (classify_regions mem l2_paddr regions 0) (\<lambda>r.
            case r of
              Err e \<Rightarrow> Return (Err e, mem, m)
            | Ok needed_l3_allocs \<Rightarrow>
                bind_outcome (prealloc_tables p [0..<needed_l3_allocs] (replicate MAX_L2_REGIONS_PER_MAP None) m) (\<lambda>(r, m).
                  case r of
                    None \<Rightarrow> Return (Err OutOfPages, mem, m)
                  | Some prealloc_l3 \<Rightarrow>
                      bind_outcome (apply_regions header mair_attr sh l2_paddr regions 0 prealloc_l3 mem) (\<lambda>mem.
                        Return (Ok (), mem, m))))))"

definition KERNEL_VA_OFFSET :: u64 where "KERNEL_VA_OFFSET = 0xFFFF000000000000"

definition translate_user_va :: "pte_memory \<Rightarrow> PhysAddr \<Rightarrow> u64 \<Rightarrow> u64 option" where
  "translate_user_va mem ttbr0_paddr user_va =
     map_option (\<lambda>phys_addr. phys_addr + KERNEL_VA_OFFSET) (walk_translate mem (phys_u64 ttbr0_paddr) user_va)"

definition validate_intra_page :: "u64 \<Rightarrow> u64 \<Rightarrow> bool outcome" where
  "validate_intra_page user_va len =
     (let offset = user_va AND (PAGE_SIZE - 1) in
      assert_then (unat offset + unat len < 2 ^ 64) (Return (offset + len \<le> PAGE_SIZE)))"

section \<open>Regions\<close>

text \<open>The page numbers and the data indices of the regions of a mapping are consecutive.\<close>

definition region_pages :: "L2Region \<Rightarrow> (nat \<times> nat) list" where
  "region_pages r = map (\<lambda>i. (l2_idx r * 512 + l3_start r + i, data_offset r + i)) [0..<pages_in_region r]"

definition region_ok :: "L2Region \<Rightarrow> bool" where
  "region_ok r \<longleftrightarrow> l2_idx r < 512 \<and> l3_start r + pages_in_region r \<le> 512 \<and> 0 < pages_in_region r"

lemma map_upt_append: "map f [0..<a] @ map (\<lambda>i. f (a + i)) [0..<b] = map f [0..<a + b]"
  by (induction b) (simp_all add: add.assoc [symmetric])

lemma l2_regions_0: "l2_regions \<lparr>next_l2_idx = i, next_l3_offset = j, pages_remaining = 0, next_data_offset = d\<rparr> = Return []"
  by (subst l2_regions.simps) (simp add: l2_region_next_def)

lemma l2_regions_spec:
  assumes "j < 512" and "i * 512 + j + n \<le> 262144"
  shows "\<exists>rs. l2_regions \<lparr>next_l2_idx = i, next_l3_offset = j, pages_remaining = n, next_data_offset = d\<rparr> = Return rs \<and>
    concat (map region_pages rs) = map (\<lambda>k. (i * 512 + j + k, d + k)) [0..<n] \<and>
    (\<forall>r \<in> set rs. region_ok r) \<and> sorted_wrt (<) (map l2_idx rs) \<and> (\<forall>r \<in> set rs. i \<le> l2_idx r) \<and>
    length rs * 512 \<le> j + n + 511"
  using assms
proof (induction n arbitrary: i j d rule: less_induct)
  case (less n)
  show ?case
  proof (cases "n = 0")
    case True
    then show ?thesis by (simp add: l2_regions_0)
  next
    case False
    define c where "c = min (512 - j) n"
    have k: "0 < c" "c \<le> n" "j + c \<le> 512" "n - c \<noteq> 0 \<Longrightarrow> j + c = 512" using less.prems False by (auto simp: c_def)
    let ?r = "\<lparr>l2_idx = i, l3_start = j, pages_in_region = c, data_offset = d\<rparr>"
    have ii: "i < 512" using less.prems False by linarith
    have step: "l2_regions \<lparr>next_l2_idx = i, next_l3_offset = j, pages_remaining = n, next_data_offset = d\<rparr> =
      bind_outcome (l2_regions \<lparr>next_l2_idx = i + 1, next_l3_offset = 0, pages_remaining = n - c, next_data_offset = d + c\<rparr>)
        (\<lambda>rs. Return (?r # rs))"
      using less.prems False
      by (subst l2_regions.simps) (simp add: l2_region_next_def PAGES_PER_L2_REGION_def Let_def c_def)
    obtain rs where rs: "l2_regions \<lparr>next_l2_idx = i + 1, next_l3_offset = 0, pages_remaining = n - c, next_data_offset = d + c\<rparr> = Return rs"
      "concat (map region_pages rs) = map (\<lambda>k. ((i + 1) * 512 + 0 + k, d + c + k)) [0..<n - c]"
      "\<forall>r \<in> set rs. region_ok r" "sorted_wrt (<) (map l2_idx rs)" "\<forall>r \<in> set rs. i + 1 \<le> l2_idx r"
      "length rs * 512 \<le> 0 + (n - c) + 511" "n - c = 0 \<longrightarrow> rs = []"
    proof (cases "n - c = 0")
      case True
      then show ?thesis using that [of "[]"] unfolding True by (simp add: l2_regions_0)
    next
      case False
      have "n - c < n" "(0::nat) < 512" "(i + 1) * 512 + 0 + (n - c) \<le> 262144" using k(1,2,4) False less.prems by auto
      from less.IH [OF this, of "d + c"] show ?thesis by (elim exE conjE) (rule that; use False in simp)
    qed
    have pages: "concat (map region_pages (?r # rs)) = map (\<lambda>k. (i * 512 + j + k, d + k)) [0..<n]"
    proof (cases "n - c = 0")
      case True
      then have "c = n" using k by simp
      with True rs(7) show ?thesis by (simp add: region_pages_def)
    next
      case False
      then have e: "j + c = 512" by (rule k(4))
      let ?f = "\<lambda>k. (i * 512 + j + k, d + k)"
      have "concat (map region_pages rs) = map (\<lambda>k. ?f (c + k)) [0..<n - c]" unfolding rs(2) using e by auto
      moreover have "region_pages ?r = map ?f [0..<c]" by (simp add: region_pages_def)
      ultimately have "concat (map region_pages (?r # rs)) = map ?f [0..<c + (n - c)]"
        unfolding map_upt_append [symmetric] by simp
      with k(2) show ?thesis by simp
    qed
    have len: "length (?r # rs) * 512 \<le> j + n + 511"
      using rs(6,7) k False less.prems by (cases "n - c = 0") auto
    have "\<forall>r \<in> set (?r # rs). region_ok r" using rs(3) k ii less.prems by (simp add: region_ok_def)
    moreover have "sorted_wrt (<) (map l2_idx (?r # rs))" "\<forall>r \<in> set (?r # rs). i \<le> l2_idx r" using rs(4,5) by auto
    ultimately show ?thesis using step rs(1) pages len by auto
  qed
qed

section \<open>Entries of an address space\<close>

text \<open>The entry that maps a page: its level and itself, by the level-2 and level-3 indices.\<close>

definition user_entry :: "pte_memory \<Rightarrow> u64 \<Rightarrow> u64 \<Rightarrow> u64 \<Rightarrow> (nat \<times> PageTableEntry) option" where
  "user_entry mem ttbr i j =
     (let e = l2_entry mem ttbr i; f = entry_at mem (slot (next_of e) j) in
      if pte_is_table e then if pte_is_valid f then Some (3, f) else None
      else if pte_is_block e then Some (2, e) else None)"

definition page_entry :: "pte_memory \<Rightarrow> u64 \<Rightarrow> nat \<Rightarrow> (nat \<times> PageTableEntry) option" where
  "page_entry mem ttbr pg = user_entry mem ttbr (of_nat (pg div 512)) (of_nat (pg mod 512))"

lemma unat_of_nat_512: "n < 512 \<Longrightarrow> unat (of_nat n :: u64) = n"
  by (simp add: unat_of_nat)

lemma index_of_nat:
  assumes "va < USER_VA_END"
  shows "index_of 21 va = of_nat (page_no va div 512)" and "index_of 12 va = of_nat (page_no va mod 512)"
proof -
  note i = user_va_indices(3,4) [OF assms]
  show "index_of 21 va = of_nat (page_no va div 512)" "index_of 12 va = of_nat (page_no va mod 512)"
    unfolding page_no_def i [symmetric] by simp_all
qed

lemma translate_page_entry:
  assumes "user_tree mem ttbr" and "va < USER_VA_END"
  shows "walk_translate mem ttbr va =
    (case page_entry mem ttbr (page_no va) of
       None \<Rightarrow> None
     | Some (l, e) \<Rightarrow> Some (next_of e + (va AND (if l = 3 then 0xFFF else 0x1FFFFF))))"
  unfolding walk_translate_leaf user_leaf [OF assms] user_leaf_2 page_entry_def user_entry_def
    index_of_nat [OF assms(2), symmetric]
  by (auto simp: leaf_3_def Let_def pte_kind_bits)

text \<open>The tables of an address space.\<close>

definition tree_tables :: "pte_memory \<Rightarrow> u64 \<Rightarrow> u64 set" where
  "tree_tables mem ttbr = {ttbr, l1_table mem ttbr, l2_table mem ttbr} \<union>
     (\<lambda>i. next_of (l2_entry mem ttbr i)) ` {i. unat i < 512 \<and> pte_is_table (l2_entry mem ttbr i)}"

lemma tree_tables_aligned: "user_tree mem ttbr \<Longrightarrow> t \<in> tree_tables mem ttbr \<Longrightarrow> unat t mod 4096 = 0"
  using next_of_aligned table_aligned by (auto simp: tree_tables_def user_tree_def)

lemma tree_tables_next:
  "unat i < 512 \<Longrightarrow> pte_is_table (l2_entry mem ttbr i) \<Longrightarrow> next_of (l2_entry mem ttbr i) \<in> tree_tables mem ttbr"
  by (auto simp: tree_tables_def)

lemma entry_at_write:
  assumes "unat t mod 4096 = 0" and "unat t' mod 4096 = 0" and "unat i < 512" and "unat i' < 512"
  shows "entry_at (mem(slot t i := v)) (slot t' i') = (if t' = t \<and> i' = i then PageTableEntry v else entry_at mem (slot t' i'))"
  using slot_eq_iff [OF assms] by (auto simp: entry_at_def)

lemma entry_at_zero:
  assumes "unat t mod 4096 = 0" and "unat t' mod 4096 = 0" and "unat i < 512"
  shows "entry_at (zero_table t mem) (slot t' i) = (if t' = t then pte_empty else entry_at mem (slot t' i))"
proof -
  have u: "unat (slot t' i) = unat t' + unat i * 8" by (rule unat_slot [OF assms(2,3)])
  have d: "unat t = 4096 * (unat t div 4096)" "unat t' = 4096 * (unat t' div 4096)" using assms by auto
  have "slot t' i - t < 4096 \<longleftrightarrow> t' = t"
  proof (cases "t \<le> slot t' i")
    case True
    then have "unat (slot t' i - t) = unat t' + unat i * 8 - unat t" by (simp add: unat_offset u)
    then have "slot t' i - t < 4096 \<longleftrightarrow> unat t' + unat i * 8 - unat t < 4096" by (simp add: word_less_nat_alt)
    moreover have "unat t \<le> unat t' + unat i * 8" using True by (simp add: word_le_nat_alt u)
    moreover have "A = B \<longleftrightarrow> B * 4096 + c - A * 4096 < 4096" if "A * 4096 \<le> B * 4096 + c" "c < 4096" for A B c :: nat
      using that by (cases A B rule: linorder_cases) auto
    from this [of "unat t div 4096" "unat t' div 4096" "unat i * 8"] calculation(2) d assms(3)
    have "unat t div 4096 = unat t' div 4096 \<longleftrightarrow> unat t' + unat i * 8 - unat t < 4096" by (simp add: mult.commute)
    ultimately show ?thesis using d unfolding word_unat_eq_iff by metis
  next
    case False
    then have lt: "unat t' + unat i * 8 < unat t" by (simp add: word_le_nat_alt u)
    then have "unat t' div 4096 < unat t div 4096" using d by linarith
    then have "unat t' div 4096 + 1 \<le> unat t div 4096" by simp
    then have le: "unat t' + 4096 \<le> unat t" using d by linarith
    then have "unat (slot t' i - t) = 2 ^ 64 - (unat t - (unat t' + unat i * 8))"
      using False by (simp add: unat_sub_if' word_le_nat_alt u)
    moreover have "unat t < 4096 * 2 ^ 52" using unat_u64_less [of t] by simp
    then have "unat t div 4096 < 2 ^ 52" using d(1) by linarith
    then have "unat t + 4096 \<le> 2 ^ 64" using d(1) by simp
    ultimately have "\<not> slot t' i - t < 4096" using lt by (simp add: word_less_nat_alt)
    with lt show ?thesis by auto
  qed
  then show ?thesis by (simp add: zero_table_def entry_at_def pte_empty_def)
qed

text \<open>Writing a level-3 entry, and installing a fresh level-3 table.\<close>

lemma user_entry_write:
  assumes "user_tree mem ttbr" and "unat i < 512" and "pte_is_table (l2_entry mem ttbr i)" and "unat j < 512"
    and "unat k < 512" and "unat l < 512"
  shows "user_entry (mem(slot (next_of (l2_entry mem ttbr i)) j := v)) ttbr k l =
    (if k = i \<and> l = j then if pte_is_valid (PageTableEntry v) then Some (3, PageTableEntry v) else None
     else user_entry mem ttbr k l)"
proof -
  note same = tables_agreeD(3) [OF l3_write_agree [OF assms(1-4), of v] assms(5)]
  have w: "entry_at (mem(slot (next_of (l2_entry mem ttbr i)) j := v)) (slot (next_of (l2_entry mem ttbr k)) l) =
      (if next_of (l2_entry mem ttbr k) = next_of (l2_entry mem ttbr i) \<and> l = j then PageTableEntry v
       else entry_at mem (slot (next_of (l2_entry mem ttbr k)) l))"
    using entry_at_write [OF next_of_aligned next_of_aligned assms(4,6)] .
  have "next_of (l2_entry mem ttbr k) \<noteq> next_of (l2_entry mem ttbr i)" if "k \<noteq> i" "pte_is_table (l2_entry mem ttbr k)"
    using assms(1,2,3,5) that unfolding user_tree_def by blast
  with assms(3) show ?thesis unfolding user_entry_def Let_def same w by auto
qed

lemma pte_flag_bits: "bit PTE_VALID n \<longleftrightarrow> n = 0" "bit PTE_TABLE n \<longleftrightarrow> n = 1" "bit PTE_AF n \<longleftrightarrow> n = 10"
  "bit PTE_PXN n \<longleftrightarrow> n = 53" "bit PTE_UXN n \<longleftrightarrow> n = 54"
  unfolding PTE_VALID_def PTE_TABLE_def PTE_AF_def PTE_PXN_def PTE_UXN_def bit_push_bit_iff bit_1_iff by auto

lemma new_table_entry:
  assumes "unat t mod 4096 = 0" and "unat t < 2 ^ 48"
  shows "pte_is_table (new_table (PhysAddr t))" and "next_of (new_table (PhysAddr t)) = t"
proof -
  have low: "\<not> bit t n" if "n < 12" for n
  proof -
    have "take_bit 12 t = 0" using assms(1) by (simp add: unat_mod_page unat_eq_0)
    then show ?thesis using that by (metis bit_take_bit_iff bit_0_eq bot_apply bot_bool_def)
  qed
  have high: "\<not> bit t n" if "48 \<le> n" for n
  proof -
    have "take_bit 48 t = t" using assms(2) by (simp add: word_unat_eq_iff unsigned_take_bit_eq take_bit_nat_eq_self)
    then show ?thesis using that by (metis bit_take_bit_iff not_le)
  qed
  show "pte_is_table (new_table (PhysAddr t))" by (simp add: new_table_def pte_kind_bits bit_or_iff pte_flag_bits)
  show "next_of (new_table (PhysAddr t)) = t"
    unfolding new_table_def output_addr_def PhysAddr.sel PageTableEntry.sel
  proof (rule bit_eqI)
    fix n
    show "bit ((PTE_VALID OR PTE_TABLE OR t AND PTE_ADDR_MASK) AND PTE_ADDR_MASK) n = bit t n"
      using low [of n] high [of n] by (auto simp: bit_and_iff bit_or_iff pte_flag_bits addr_mask_bit not_less) (meson not_le)+
  qed
qed

definition install_table :: "u64 \<Rightarrow> u64 \<Rightarrow> u64 \<Rightarrow> pte_memory \<Rightarrow> pte_memory" where
  "install_table ttbr i t mem = (zero_table t mem)(slot (l2_table mem ttbr) i := pte_raw (new_table (PhysAddr t)))"

lemma install_entries:
  assumes "user_tree mem ttbr" and "unat i < 512" and "\<not> pte_is_valid (l2_entry mem ttbr i)"
    and "unat t mod 4096 = 0" and "unat t < 2 ^ 48" and "t \<notin> tree_tables mem ttbr"
  shows "l1_table (install_table ttbr i t mem) ttbr = l1_table mem ttbr"
    and "l2_table (install_table ttbr i t mem) ttbr = l2_table mem ttbr"
    and "unat k < 512 \<Longrightarrow> l2_entry (install_table ttbr i t mem) ttbr k = (if k = i then new_table (PhysAddr t) else l2_entry mem ttbr k)"
    and "entry_at (install_table ttbr i t mem) ttbr = entry_at mem ttbr"
    and "entry_at (install_table ttbr i t mem) (l1_table mem ttbr) = entry_at mem (l1_table mem ttbr)"
    and "unat t' mod 4096 = 0 \<Longrightarrow> unat k < 512 \<Longrightarrow> t' \<noteq> l2_table mem ttbr \<Longrightarrow>
      entry_at (install_table ttbr i t mem) (slot t' k) = (if t' = t then pte_empty else entry_at mem (slot t' k))"
proof -
  let ?mem = "install_table ttbr i t mem" and ?l1 = "l1_table mem ttbr" and ?l2 = "l2_table mem ttbr"
  have al: "unat ttbr mod 4096 = 0" "unat ?l1 mod 4096 = 0" "unat ?l2 mod 4096 = 0"
    using assms(1) table_aligned by (simp_all add: user_tree_def)
  have ne: "ttbr \<noteq> t" "?l1 \<noteq> t" "?l2 \<noteq> t" "ttbr \<noteq> ?l2" "?l1 \<noteq> ?l2"
    using assms(1,6) by (auto simp: tree_tables_def user_tree_def)
  have rd: "entry_at ?mem (slot t' k) = (if t' = ?l2 \<and> k = i then new_table (PhysAddr t)
      else if t' = t then pte_empty else entry_at mem (slot t' k))" if t: "unat t' mod 4096 = 0" and k: "unat k < 512" for t' k
    unfolding install_table_def entry_at_write [OF al(3) t assms(2) k] entry_at_zero [OF assms(4) t k] by simp
  show 0: "entry_at ?mem ttbr = entry_at mem ttbr" using rd [OF al(1), of 0] ne by (simp add: slot_0)
  then show 1: "l1_table ?mem ttbr = ?l1" by (simp add: l1_table_def)
  show 2: "entry_at ?mem ?l1 = entry_at mem ?l1" using rd [OF al(2), of 0] ne by (simp add: slot_0)
  show 3: "l2_table ?mem ttbr = ?l2" unfolding l2_table_def 1 2 ..
  show "l2_entry ?mem ttbr k = (if k = i then new_table (PhysAddr t) else l2_entry mem ttbr k)" if "unat k < 512"
    unfolding l2_entry_def 3 rd [OF al(3) that] using ne by simp
  show "entry_at ?mem (slot t' k) = (if t' = t then pte_empty else entry_at mem (slot t' k))"
    if "unat t' mod 4096 = 0" "unat k < 512" "t' \<noteq> ?l2"
    unfolding rd [OF that(1,2)] using that(3) by simp
qed

lemma install_table_spec:
  assumes "user_tree mem ttbr" and "unat i < 512" and "\<not> pte_is_valid (l2_entry mem ttbr i)"
    and "unat t mod 4096 = 0" and "unat t < 2 ^ 48" and "t \<notin> tree_tables mem ttbr"
  shows "user_tree (install_table ttbr i t mem) ttbr"
    and "tree_tables (install_table ttbr i t mem) ttbr = insert t (tree_tables mem ttbr)"
    and "unat k < 512 \<Longrightarrow> unat l < 512 \<Longrightarrow>
      user_entry (install_table ttbr i t mem) ttbr k l = user_entry mem ttbr k l"
proof -
  note e = install_entries [OF assms]
  note nt = new_table_entry [OF assms(4,5)]
  have inv: "\<not> pte_is_table (l2_entry mem ttbr i)" "\<not> pte_is_block (l2_entry mem ttbr i)"
    using assms(3) by (simp_all add: pte_kind_bits)
  have out: "t \<noteq> ttbr" "t \<noteq> l1_table mem ttbr" "t \<noteq> l2_table mem ttbr"
    "\<And>k. unat k < 512 \<Longrightarrow> pte_is_table (l2_entry mem ttbr k) \<Longrightarrow> next_of (l2_entry mem ttbr k) \<noteq> t"
    using assms(6) by (auto simp: tree_tables_def)
  show "user_tree (install_table ttbr i t mem) ttbr"
    using assms(1) out e(3) unfolding user_tree_def e(1,2,4,5) by (auto simp: nt)
  show "tree_tables (install_table ttbr i t mem) ttbr = insert t (tree_tables mem ttbr)"
  proof -
    let ?J = "{k. unat k < 512 \<and> pte_is_table (l2_entry mem ttbr k)}"
    have "{k. unat k < 512 \<and> pte_is_table (l2_entry (install_table ttbr i t mem) ttbr k)} = insert i ?J"
      using e(3) assms(2) by (auto simp: nt)
    moreover have "(\<lambda>k. next_of (l2_entry (install_table ttbr i t mem) ttbr k)) ` insert i ?J =
        insert t ((\<lambda>k. next_of (l2_entry mem ttbr k)) ` ?J)"
    proof -
      have "(\<lambda>k. next_of (l2_entry (install_table ttbr i t mem) ttbr k)) ` ?J = (\<lambda>k. next_of (l2_entry mem ttbr k)) ` ?J"
        by (rule image_cong [OF refl]) (use e(3) inv(1) in auto)
      then show ?thesis unfolding image_insert using e(3) [OF assms(2)] by (simp add: nt)
    qed
    ultimately show ?thesis unfolding tree_tables_def e(1,2) by auto
  qed
  assume k: "unat k < 512" "unat l < 512"
  have ne: "next_of (l2_entry mem ttbr k) \<noteq> l2_table mem ttbr" if "pte_is_table (l2_entry mem ttbr k)"
    using assms(1) that k unfolding user_tree_def by blast
  show "user_entry (install_table ttbr i t mem) ttbr k l = user_entry mem ttbr k l"
  proof (cases "k = i")
    case True
    have "entry_at (install_table ttbr i t mem) (slot t l) = pte_empty" using e(6) [OF assms(4) k(2)] out by simp
    moreover have "\<not> pte_is_valid pte_empty" by (simp add: pte_empty_def pte_kind_bits)
    ultimately show ?thesis
      using True inv unfolding user_entry_def e(3) [OF k(1)] by (simp add: nt Let_def)
  next
    case False
    then show ?thesis
      unfolding user_entry_def e(3) [OF k(1)] using e(6) [OF next_of_aligned k(2), of "l2_entry mem ttbr k"] ne out(4) [OF k(1)]
      by (simp add: Let_def)
  qed
qed

section \<open>The third pass\<close>

definition user_page_of :: "BackedHeader \<Rightarrow> u8 \<Rightarrow> u8 \<Rightarrow> nat \<Rightarrow> PageTableEntry" where
  "user_page_of b attr sh d = build_user_page (PhysAddr (page_words (bh_header b) d)) attr sh"

lemma user_page_valid: "pte_is_valid (user_page_of b attr sh d)"
  by (simp add: user_page_of_def build_user_page_def with_pxn_def with_uxn_def new_page_def pte_kind_bits bit_or_iff pte_flag_bits)

lemma tables_agree_tables:
  assumes "tables_agree mem mem' ttbr"
  shows "tree_tables mem' ttbr = tree_tables mem ttbr"
proof -
  note same = tables_agreeD [OF assms]
  have "(\<lambda>i. next_of (l2_entry mem' ttbr i)) ` {i. unat i < 512 \<and> pte_is_table (l2_entry mem' ttbr i)} =
      (\<lambda>i. next_of (l2_entry mem ttbr i)) ` {i. unat i < 512 \<and> pte_is_table (l2_entry mem ttbr i)}"
    by (rule image_cong) (auto simp: same(3))
  then show ?thesis unfolding tree_tables_def same(1,2) by simp
qed

lemma write_pages_spec:
  assumes "user_tree mem ttbr" and "l2_idx r < 512" and "pte_is_table (l2_entry mem ttbr (of_nat (l2_idx r)))"
    and "covered b" and "\<forall>j \<in> set js. l3_start r + j < 512 \<and> data_offset r + j < bh_count b"
  shows "\<exists>mem'. write_pages b attr sh (next_of (l2_entry mem ttbr (of_nat (l2_idx r)))) r js mem = Return mem' \<and>
    tables_agree mem mem' ttbr \<and>
    (\<forall>k < 512. \<forall>l < 512. user_entry mem' ttbr (of_nat k) (of_nat l) =
      (if k = l2_idx r \<and> l3_start r \<le> l \<and> l - l3_start r \<in> set js then Some (3, user_page_of b attr sh (data_offset r + (l - l3_start r)))
       else user_entry mem ttbr (of_nat k) (of_nat l)))"
  using assms(1,3,5)
proof (induction js arbitrary: mem)
  case Nil
  then show ?case by (simp add: tables_agree_def)
next
  case (Cons j js)
  let ?i = "of_nat (l2_idx r) :: u64" and ?j = "of_nat (l3_start r + j) :: u64"
  let ?t = "next_of (l2_entry mem ttbr ?i)" and ?e = "user_page_of b attr sh (data_offset r + j)"
  let ?m = "mem(slot ?t ?j := pte_raw ?e)"
  have i: "unat ?i < 512" "unat ?j < 512" using assms(2) Cons.prems by (simp_all add: unat_of_nat_512 del: of_nat_add)
  note ag = l3_write_agree [OF Cons.prems(1) i(1) Cons.prems(2) i(2), of "pte_raw ?e"]
  note same = tables_agreeD(3) [OF ag i(1)]
  note tree = tables_agree_tree [OF ag Cons.prems(1)]
  have pr: "\<forall>j \<in> set js. l3_start r + j < 512 \<and> data_offset r + j < bh_count b" using Cons.prems(3) by simp
  obtain mem' where IH: "write_pages b attr sh ?t r js ?m = Return mem'" "tables_agree ?m mem' ttbr"
    "\<forall>k < 512. \<forall>l < 512. user_entry mem' ttbr (of_nat k) (of_nat l) =
      (if k = l2_idx r \<and> l3_start r \<le> l \<and> l - l3_start r \<in> set js then Some (3, user_page_of b attr sh (data_offset r + (l - l3_start r)))
       else user_entry ?m ttbr (of_nat k) (of_nat l))"
    using Cons.IH [OF tree, unfolded same, OF Cons.prems(2) pr] by blast
  have "write_pages b attr sh ?t r (j # js) mem = Return mem'"
    using Cons.prems IH(1) assms(4)
    by (simp add: get_page_covered write_entry_def user_page_of_def slot_def)
  moreover note tables_agree_trans [OF ag IH(2)]
  moreover have "user_entry mem' ttbr (of_nat k) (of_nat l) =
      (if k = l2_idx r \<and> l3_start r \<le> l \<and> l - l3_start r \<in> set (j # js)
       then Some (3, user_page_of b attr sh (data_offset r + (l - l3_start r))) else user_entry mem ttbr (of_nat k) (of_nat l))"
    if kl: "k < 512" "l < 512" for k l
  proof -
    have u: "unat (of_nat k :: u64) < 512" "unat (of_nat l :: u64) < 512" using kl by (simp_all add: unat_of_nat_512)
    have eq: "(of_nat k :: u64) = ?i \<longleftrightarrow> k = l2_idx r" "(of_nat l :: u64) = ?j \<longleftrightarrow> l3_start r \<le> l \<and> l - l3_start r = j"
      using kl assms(2) Cons.prems(3) by (auto simp: word_unat_eq_iff unat_of_nat_512 simp del: of_nat_add)
    have "pte_is_valid (PageTableEntry (pte_raw ?e))" by (simp add: user_page_valid)
    from user_entry_write [OF Cons.prems(1) i(1) Cons.prems(2) i(2) u, of "pte_raw ?e"] this
    have w: "user_entry ?m ttbr (of_nat k) (of_nat l) = (if k = l2_idx r \<and> l3_start r \<le> l \<and> l - l3_start r = j
        then Some (3, ?e) else user_entry mem ttbr (of_nat k) (of_nat l))"
      unfolding eq by simp
    show ?thesis unfolding IH(3) [rule_format, OF kl] w by auto
  qed
  ultimately show ?case by blast
qed

lemma map_of_run:
  "map_of (map (\<lambda>i. (a + i, d + i)) [0..<n]) pg = (if a \<le> pg \<and> pg - a < n then Some (d + (pg - a)) else None)"
  for a d n pg :: nat
  by (induction n) (auto simp: map_add_def split: option.splits)

lemma region_page_iff:
  assumes "region_ok r"
  shows "map_of (region_pages r) pg =
    (if pg div 512 = l2_idx r \<and> l3_start r \<le> pg mod 512 \<and> pg mod 512 - l3_start r < pages_in_region r
     then Some (data_offset r + (pg mod 512 - l3_start r)) else None)"
proof -
  let ?a = "l2_idx r * 512 + l3_start r"
  have c: "?a \<le> pg \<and> pg - ?a < pages_in_region r \<longleftrightarrow>
      pg div 512 = l2_idx r \<and> l3_start r \<le> pg mod 512 \<and> pg mod 512 - l3_start r < pages_in_region r"
  proof
    assume "?a \<le> pg \<and> pg - ?a < pages_in_region r"
    then have "l2_idx r * 512 \<le> pg" "pg < l2_idx r * 512 + 512" using assms by (auto simp: region_ok_def)
    then have "pg div 512 = l2_idx r" by (intro div_nat_eqI) auto
    then show "pg div 512 = l2_idx r \<and> l3_start r \<le> pg mod 512 \<and> pg mod 512 - l3_start r < pages_in_region r"
      using \<open>?a \<le> pg \<and> _\<close> by (simp add: modulo_nat_def) linarith
  next
    assume "pg div 512 = l2_idx r \<and> l3_start r \<le> pg mod 512 \<and> pg mod 512 - l3_start r < pages_in_region r"
    then show "?a \<le> pg \<and> pg - ?a < pages_in_region r" by (auto simp: modulo_nat_def)
  qed
  have "pg - ?a = pg mod 512 - l3_start r" if "pg div 512 = l2_idx r"
    using that by (simp add: modulo_nat_def mult.commute)
  with c show ?thesis unfolding region_pages_def map_of_run by auto
qed

lemma read_l2_entry: "i < 512 \<Longrightarrow> read_entry mem (l2_table mem ttbr) i = Return (l2_entry mem ttbr (of_nat i))"
  by (simp add: read_entry_def l2_entry_def entry_at_def slot_def)

definition frame_paddr :: "PhysPage \<Rightarrow> u64" where
  "frame_paddr f = phys_u64 (start_addr f)"

definition table_frame :: "PhysPage \<Rightarrow> bool" where
  "table_frame f \<longleftrightarrow> unat (frame_paddr f) mod 4096 = 0 \<and> unat (frame_paddr f) < 2 ^ 48"

definition overlay :: "(nat \<times> nat) list \<Rightarrow> (nat \<Rightarrow> 'e) \<Rightarrow> (nat \<Rightarrow> 'e option) \<Rightarrow> nat \<Rightarrow> 'e option" where
  "overlay ps f g pg = (case map_of ps pg of Some d \<Rightarrow> Some (f d) | None \<Rightarrow> g pg)"

lemma region_table_spec:
  assumes "user_tree mem ttbr" and "l2_idx r < 512"
    and e: "e = l2_entry mem ttbr (of_nat (l2_idx r))" and "pte_is_valid e \<Longrightarrow> pte_is_table e"
    and "\<not> pte_is_valid e \<Longrightarrow> cursor < length slots \<and> slots ! cursor = Some f \<and> table_frame f \<and> frame_paddr f \<notin> tree_tables mem ttbr"
  obtains mem1 where "region_table (l2_table mem ttbr) r cursor slots mem =
      Return (next_of (l2_entry mem1 ttbr (of_nat (l2_idx r))), if pte_is_valid e then cursor else cursor + 1,
        if pte_is_valid e then slots else slots[cursor := None], mem1)"
    and "user_tree mem1 ttbr" and "pte_is_table (l2_entry mem1 ttbr (of_nat (l2_idx r)))" and "l2_table mem1 ttbr = l2_table mem ttbr"
    and "\<forall>k < 512. k \<noteq> l2_idx r \<longrightarrow> l2_entry mem1 ttbr (of_nat k) = l2_entry mem ttbr (of_nat k)"
    and "tree_tables mem1 ttbr = tree_tables mem ttbr \<union> (if pte_is_valid e then {} else {frame_paddr f})"
    and "\<forall>k < 512. \<forall>l < 512. user_entry mem1 ttbr (of_nat k) (of_nat l) = user_entry mem ttbr (of_nat k) (of_nat l)"
proof -
  let ?i = "of_nat (l2_idx r) :: u64"
  have ri: "l2_idx r < 512" "unat ?i < 512" using assms(2) by (simp_all add: unat_of_nat_512)
  show thesis
  proof (cases "pte_is_valid e")
    case True
    then show thesis
      using that [of mem] assms(1,4) e ri by (simp add: region_table_def read_l2_entry classify_l2_entry_def)
  next
    case False
    then have f: "cursor < length slots" "slots ! cursor = Some f" "unat (frame_paddr f) mod 4096 = 0"
      "unat (frame_paddr f) < 2 ^ 48" "frame_paddr f \<notin> tree_tables mem ttbr"
      using assms(5) by (simp_all add: table_frame_def)
    let ?mem = "install_table ttbr ?i (frame_paddr f) mem"
    note pre = assms(1) ri(2) False [unfolded e] f(3-5)
    note en = install_entries [OF pre] and sp = install_table_spec [OF pre] and nt = new_table_entry [OF f(3,4)]
    have sa: "start_addr f = PhysAddr (frame_paddr f)" by (simp add: frame_paddr_def)
    have nt2: "l2_entry ?mem ttbr ?i = new_table (PhysAddr (frame_paddr f))" using en(3) [OF ri(2)] by simp
    have "\<not> pte_is_table e" using False by (simp add: pte_kind_bits)
    then have "region_table (l2_table mem ttbr) r cursor slots mem = Return (next_of (l2_entry ?mem ttbr ?i), cursor + 1, slots[cursor := None], ?mem)"
      unfolding nt2 using False f(1,2) ri e nt(2)
      by (simp add: region_table_def read_l2_entry classify_l2_entry_def write_entry_def install_table_def slot_def sa Let_def)
    moreover have "l2_entry ?mem ttbr (of_nat k) = l2_entry mem ttbr (of_nat k)" if "k < 512" "k \<noteq> l2_idx r" for k
      using en(3) [of "of_nat k"] that ri by (auto simp: unat_of_nat_512 word_unat_eq_iff)
    moreover have "user_entry ?mem ttbr (of_nat k) (of_nat l) = user_entry mem ttbr (of_nat k) (of_nat l)" if "k < 512" "l < 512" for k l
      using sp(3) that by (simp add: unat_of_nat_512)
    ultimately show thesis using that [of ?mem] False sp(1,2) en(2) nt(1) nt2 by simp
  qed
qed

lemma region_spec:
  assumes "user_tree mem ttbr" and "region_ok r" and "covered b" and "data_offset r + pages_in_region r \<le> bh_count b"
    and e: "e = l2_entry mem ttbr (of_nat (l2_idx r))" and "pte_is_valid e \<Longrightarrow> pte_is_table e"
    and "\<not> pte_is_valid e \<Longrightarrow> cursor < length slots \<and> slots ! cursor = Some f \<and> table_frame f \<and> frame_paddr f \<notin> tree_tables mem ttbr"
  shows "\<exists>l3 mem1 mem'.
    region_table (l2_table mem ttbr) r cursor slots mem =
      Return (l3, if pte_is_valid e then cursor else cursor + 1, if pte_is_valid e then slots else slots[cursor := None], mem1) \<and>
    write_pages b attr sh l3 r [0..<pages_in_region r] mem1 = Return mem' \<and>
    user_tree mem' ttbr \<and> l2_table mem' ttbr = l2_table mem ttbr \<and>
    (\<forall>k < 512. k \<noteq> l2_idx r \<longrightarrow> l2_entry mem' ttbr (of_nat k) = l2_entry mem ttbr (of_nat k)) \<and>
    tree_tables mem' ttbr = tree_tables mem ttbr \<union> (if pte_is_valid e then {} else {frame_paddr f}) \<and>
    (\<forall>pg < 262144. page_entry mem' ttbr pg = overlay (region_pages r) (\<lambda>d. (3, user_page_of b attr sh d)) (page_entry mem ttbr) pg)"
proof -
  let ?i = "of_nat (l2_idx r) :: u64"
  have ri: "l2_idx r < 512" "unat ?i < 512" using assms(2) by (simp_all add: region_ok_def unat_of_nat_512)
  obtain mem1 where m1: "region_table (l2_table mem ttbr) r cursor slots mem =
      Return (next_of (l2_entry mem1 ttbr ?i), if pte_is_valid e then cursor else cursor + 1,
        if pte_is_valid e then slots else slots[cursor := None], mem1)"
    "user_tree mem1 ttbr" "pte_is_table (l2_entry mem1 ttbr ?i)" "l2_table mem1 ttbr = l2_table mem ttbr"
    "\<forall>k < 512. k \<noteq> l2_idx r \<longrightarrow> l2_entry mem1 ttbr (of_nat k) = l2_entry mem ttbr (of_nat k)"
    "tree_tables mem1 ttbr = tree_tables mem ttbr \<union> (if pte_is_valid e then {} else {frame_paddr f})"
    "\<forall>k < 512. \<forall>l < 512. user_entry mem1 ttbr (of_nat k) (of_nat l) = user_entry mem ttbr (of_nat k) (of_nat l)"
    by (rule region_table_spec [OF assms(1) ri(1) e, of cursor slots f]) (use assms(6,7) in blast)+
  have js: "\<forall>j \<in> set [0..<pages_in_region r]. l3_start r + j < 512 \<and> data_offset r + j < bh_count b"
    using assms(2,4) by (auto simp: region_ok_def)
  from write_pages_spec [OF m1(2) ri(1) m1(3) assms(3) js, of attr sh] obtain mem' where
    w: "write_pages b attr sh (next_of (l2_entry mem1 ttbr ?i)) r [0..<pages_in_region r] mem1 = Return mem'"
    "tables_agree mem1 mem' ttbr"
    "\<forall>k < 512. \<forall>l < 512. user_entry mem' ttbr (of_nat k) (of_nat l) =
      (if k = l2_idx r \<and> l3_start r \<le> l \<and> l - l3_start r \<in> set [0..<pages_in_region r]
       then Some (3, user_page_of b attr sh (data_offset r + (l - l3_start r))) else user_entry mem1 ttbr (of_nat k) (of_nat l))" by blast
  note same = tables_agreeD [OF w(2)]
  have pg: "page_entry mem' ttbr pg = overlay (region_pages r) (\<lambda>d. (3, user_page_of b attr sh d)) (page_entry mem ttbr) pg"
    if "pg < 262144" for pg
  proof -
    have k: "pg div 512 < 512" "pg mod 512 < 512" using that by auto
    show ?thesis unfolding page_entry_def overlay_def w(3) [rule_format, OF k] m1(7) [rule_format, OF k] region_page_iff [OF assms(2)] by simp
  qed
  have en: "\<forall>k < 512. k \<noteq> l2_idx r \<longrightarrow> l2_entry mem' ttbr (of_nat k) = l2_entry mem ttbr (of_nat k)"
    using same(3) m1(5) by (simp add: unat_of_nat_512)
  show ?thesis
    using m1(1) w(1) tables_agree_tree [OF w(2) m1(2)] same(2) m1(4) en tables_agree_tables [OF w(2)] m1(6) pg by auto
qed

lemma overlay_append: "overlay (xs @ ys) f g = overlay xs f (overlay ys f g)"
  by (rule ext) (simp add: overlay_def map_add_def split: option.split)

lemma overlay_commute:
  assumes "distinct (map fst (xs @ ys))"
  shows "overlay xs f (overlay ys f g) = overlay ys f (overlay xs f g)"
proof (rule ext)
  fix pg
  have "map_of xs pg = None \<or> map_of ys pg = None"
    using assms by (auto simp: map_of_eq_None_iff)
  then show "overlay xs f (overlay ys f g) pg = overlay ys f (overlay xs f g) pg" by (auto simp: overlay_def split: option.split)
qed

lemma overlay_compose:
  assumes "distinct (map fst (xs @ ys))" and "\<forall>pg < n. h pg = overlay ys f k pg" and "\<forall>pg < n. k pg = overlay xs f g pg"
    and "pg < n"
  shows "h pg = overlay (xs @ ys) f g pg"
proof -
  have "h pg = overlay ys f (overlay xs f g) pg" using assms(2-4) by (simp add: overlay_def split: option.split)
  then show ?thesis unfolding overlay_append overlay_commute [OF assms(1)] .
qed

lemma take_slot:
  assumes "drop c slots = map Some (f # fs) @ rest"
  shows "c < length slots" and "slots ! c = Some f" and "drop (Suc c) (slots[c := None]) = map Some fs @ rest"
proof -
  show c: "c < length slots" using assms by (cases "c < length slots") auto
  have "slots ! c # drop (Suc c) slots = Some f # (map Some fs @ rest)" using Cons_nth_drop_Suc [OF c] assms by simp
  then show "slots ! c = Some f" "drop (Suc c) (slots[c := None]) = map Some fs @ rest" by simp_all
qed

text \<open>The frames the empty regions take, in order.\<close>

definition empty_regions :: "pte_memory \<Rightarrow> u64 \<Rightarrow> L2Region list \<Rightarrow> L2Region list" where
  "empty_regions mem ttbr rs = filter (\<lambda>r. \<not> pte_is_valid (l2_entry mem ttbr (of_nat (l2_idx r)))) rs"

lemma apply_regions_spec:
  assumes "user_tree mem ttbr" and "\<forall>r \<in> set rs. region_ok r \<and> data_offset r + pages_in_region r \<le> bh_count b"
    and "covered b" and "sorted_wrt (<) (map l2_idx rs)" and "distinct (map fst (concat (map region_pages rs)))"
    and "\<forall>r \<in> set rs. pte_is_valid (l2_entry mem ttbr (of_nat (l2_idx r))) \<longrightarrow> pte_is_table (l2_entry mem ttbr (of_nat (l2_idx r)))"
    and "drop cursor slots = map Some fs @ rest" and "length fs = length (empty_regions mem ttbr rs)"
    and "distinct (map frame_paddr fs)" and "\<forall>f \<in> set fs. table_frame f \<and> frame_paddr f \<notin> tree_tables mem ttbr"
  shows "\<exists>mem'. apply_regions b attr sh (l2_table mem ttbr) rs cursor slots mem = Return mem' \<and> user_tree mem' ttbr \<and>
    tree_tables mem' ttbr = tree_tables mem ttbr \<union> frame_paddr ` set fs \<and>
    (\<forall>pg < 262144. page_entry mem' ttbr pg =
      overlay (concat (map region_pages rs)) (\<lambda>d. (3, user_page_of b attr sh d)) (page_entry mem ttbr) pg)"
  using assms(1,2,4-)
proof (induction rs arbitrary: mem cursor slots fs)
  case Nil
  then show ?case by (simp add: overlay_def empty_regions_def)
next
  case (Cons r rs)
  let ?e = "l2_entry mem ttbr (of_nat (l2_idx r))" and ?E = "\<lambda>d. (3 :: nat, user_page_of b attr sh d)"
  have r: "region_ok r" "data_offset r + pages_in_region r \<le> bh_count b" "pte_is_valid ?e \<Longrightarrow> pte_is_table ?e"
    using Cons.prems by simp_all
  have ne: "fs = hd fs # tl fs" if "\<not> pte_is_valid ?e"
    using that Cons.prems(7) by (cases fs) (auto simp: empty_regions_def)
  have fr: "cursor < length slots \<and> slots ! cursor = Some (hd fs) \<and> table_frame (hd fs) \<and> frame_paddr (hd fs) \<notin> tree_tables mem ttbr"
    if "\<not> pte_is_valid ?e"
    using take_slot(1,2) [of cursor slots "hd fs" "tl fs" rest] ne [OF that] Cons.prems(6,9) by (metis list.set_intros(1))
  define gs where "gs = (if pte_is_valid ?e then fs else tl fs)"
  obtain l3 mem1 mem2 where m: "region_table (l2_table mem ttbr) r cursor slots mem =
      Return (l3, if pte_is_valid ?e then cursor else cursor + 1, if pte_is_valid ?e then slots else slots[cursor := None], mem1)"
    "write_pages b attr sh l3 r [0..<pages_in_region r] mem1 = Return mem2"
    "user_tree mem2 ttbr" "l2_table mem2 ttbr = l2_table mem ttbr"
    "\<forall>k < 512. k \<noteq> l2_idx r \<longrightarrow> l2_entry mem2 ttbr (of_nat k) = l2_entry mem ttbr (of_nat k)"
    "tree_tables mem2 ttbr = tree_tables mem ttbr \<union> (if pte_is_valid ?e then {} else {frame_paddr (hd fs)})"
    "\<forall>pg < 262144. page_entry mem2 ttbr pg = overlay (region_pages r) ?E (page_entry mem ttbr) pg"
    using region_spec [OF Cons.prems(1) r(1) assms(3) r(2) refl r(3) fr, of attr sh] by blast
  have same: "l2_entry mem2 ttbr (of_nat (l2_idx r')) = l2_entry mem ttbr (of_nat (l2_idx r'))" if "r' \<in> set rs" for r'
  proof -
    have "l2_idx r' < 512" "l2_idx r' \<noteq> l2_idx r" using that Cons.prems(2,3) by (auto simp: region_ok_def)
    then show ?thesis using m(5) by simp
  qed
  have "\<exists>mem'. apply_regions b attr sh (l2_table mem2 ttbr) rs (if pte_is_valid ?e then cursor else cursor + 1)
      (if pte_is_valid ?e then slots else slots[cursor := None]) mem2 = Return mem' \<and> user_tree mem' ttbr \<and>
      tree_tables mem' ttbr = tree_tables mem2 ttbr \<union> frame_paddr ` set gs \<and>
      (\<forall>pg < 262144. page_entry mem' ttbr pg = overlay (concat (map region_pages rs)) ?E (page_entry mem2 ttbr) pg)"
  proof (rule Cons.IH [OF m(3)])
    show "drop (if pte_is_valid ?e then cursor else cursor + 1) (if pte_is_valid ?e then slots else slots[cursor := None]) =
        map Some gs @ rest"
      using Cons.prems(6) take_slot(3) [of cursor slots "hd fs" "tl fs" rest] ne by (cases "pte_is_valid ?e") (simp_all add: gs_def)
    have "empty_regions mem2 ttbr rs = empty_regions mem ttbr rs"
      unfolding empty_regions_def using same by (intro filter_cong) auto
    then show "length gs = length (empty_regions mem2 ttbr rs)"
      using Cons.prems(7) by (simp add: gs_def empty_regions_def)
    show "distinct (map frame_paddr gs)" using Cons.prems(8) by (auto simp: gs_def map_tl distinct_tl)
    show "\<forall>f \<in> set gs. table_frame f \<and> frame_paddr f \<notin> tree_tables mem2 ttbr"
      using Cons.prems(8,9) ne unfolding gs_def m(6) by (cases fs) (auto simp: image_iff)
  qed (use Cons.prems same in auto)
  then obtain mem' where m': "apply_regions b attr sh (l2_table mem2 ttbr) rs (if pte_is_valid ?e then cursor else cursor + 1)
      (if pte_is_valid ?e then slots else slots[cursor := None]) mem2 = Return mem'" "user_tree mem' ttbr"
    "tree_tables mem' ttbr = tree_tables mem2 ttbr \<union> frame_paddr ` set gs"
    "\<forall>pg < 262144. page_entry mem' ttbr pg = overlay (concat (map region_pages rs)) ?E (page_entry mem2 ttbr) pg" by blast
  have "tree_tables mem' ttbr = tree_tables mem ttbr \<union> frame_paddr ` set fs"
    unfolding m'(3) m(6) gs_def using ne by (cases fs) auto
  moreover have "page_entry mem' ttbr pg = overlay (concat (map region_pages (r # rs))) ?E (page_entry mem ttbr) pg" if "pg < 262144" for pg
    using overlay_compose [OF _ m'(4) m(7) that] Cons.prems(4) by simp
  ultimately show ?case using m(1,2) m' by (simp add: m(4) [symmetric])
qed

section \<open>The first two passes\<close>

definition blocked :: "pte_memory \<Rightarrow> u64 \<Rightarrow> nat \<Rightarrow> bool" where
  "blocked mem ttbr i \<longleftrightarrow> pte_is_valid (l2_entry mem ttbr (of_nat i)) \<and> \<not> pte_is_table (l2_entry mem ttbr (of_nat i))"

lemma classify_regions_spec:
  assumes "\<forall>r \<in> set rs. l2_idx r < 512"
  shows "classify_regions mem (l2_table mem ttbr) rs n =
    Return (if \<exists>r \<in> set rs. blocked mem ttbr (l2_idx r) then Err TooManyL3Regions else Ok (n + length (empty_regions mem ttbr rs)))"
  using assms
proof (induction rs arbitrary: n)
  case Nil
  then show ?case by (simp add: empty_regions_def)
next
  case (Cons r rs)
  have t: "pte_is_valid e" if "pte_is_table e" for e using that by (simp add: pte_kind_bits)
  show ?case
    using Cons t [of "l2_entry mem ttbr (of_nat (l2_idx r))"]
    by (auto simp: read_l2_entry classify_l2_entry_def blocked_def empty_regions_def)
qed

lemma give_back_spec:
  assumes "frames_ok p m" and "distinct fs" and "set fs \<subseteq> taken_frames p m"
  shows "\<exists>m'. give_back p (map Some fs) m = Return m' \<and> frames_ok p m' \<and> free_frames p m' = free_frames p m \<union> set fs \<and>
    taken_frames p m' = taken_frames p m - set fs \<and> (pool m', pool_base m') = (pool m, pool_base m)"
  using frame_pool.dealloc_loop [of "\<lambda>fs. give_back p (map Some fs)" UNIV p "\<lambda>f. f" m fs] assms by simp

lemma prealloc_spec:
  assumes "frames_ok p m" and "distinct fs" and "set fs \<subseteq> taken_frames p m" and "length fs + d \<le> length slots"
    and "take (length fs) slots = map Some fs"
  shows "(if d \<le> card (free_frames p m)
    then \<exists>gs slots' m'. prealloc_tables p [length fs..<length fs + d] slots m = Return (Some slots', m') \<and> frames_ok p m' \<and>
      take (length fs + d) slots' = map Some (fs @ gs) \<and> length gs = d \<and> distinct gs \<and> set gs \<subseteq> free_frames p m \<and>
      free_frames p m' = free_frames p m - set gs \<and> taken_frames p m' = taken_frames p m \<union> set gs
    else \<exists>m'. prealloc_tables p [length fs..<length fs + d] slots m = Return (None, m') \<and> frames_ok p m' \<and>
      free_frames p m' = free_frames p m \<union> set fs \<and> taken_frames p m' = taken_frames p m - set fs)"
  using assms
proof (induction d arbitrary: fs slots m)
  case 0
  then show ?case by simp
next
  case (Suc d)
  have upt: "[length fs..<length fs + Suc d] = length fs # [Suc (length fs)..<Suc (length fs) + d]" by (simp add: upt_rec)
  have len: "length fs < length slots" using Suc.prems by simp
  from alloc_page_cases [OF Suc.prems(1)] show ?case
  proof (elim disjE exE conjE)
    fix f m1
    assume a: "alloc_page p m = Return (Some f, m1)" "frames_ok p m1" "f \<in> free_frames p m" "free_frames p m1 = free_frames p m - {f}"
      "taken_frames p m1 = insert f (taken_frames p m)"
    have nf: "f \<notin> taken_frames p m" using free_not_taken_frames [OF Suc.prems(1)] a(3) by blast
    then have pre: "distinct (fs @ [f])" "set (fs @ [f]) \<subseteq> taken_frames p m1" using Suc.prems a(5) by auto
    have tk: "take (length (fs @ [f])) (slots[length fs := Some f]) = map Some (fs @ [f])"
      using len Suc.prems(5) by (simp add: take_Suc_conv_app_nth)
    note IH = Suc.IH [OF a(2) pre _ tk]
    have cd: "card (free_frames p m) = Suc (card (free_frames p m1))"
      unfolding a(4) using a(3) free_frames_finite [OF Suc.prems(1)] by (metis card_Suc_Diff1)
    have step: "prealloc_tables p [length fs..<length fs + Suc d] slots m =
        prealloc_tables p [Suc (length fs)..<Suc (length fs) + d] (slots[length fs := Some f]) m1"
      unfolding upt using a(1) len by simp
    show ?case
    proof (cases "d \<le> card (free_frames p m1)")
      case True
      then obtain gs slots' m' where g: "prealloc_tables p [Suc (length fs)..<Suc (length fs) + d] (slots[length fs := Some f]) m1 = Return (Some slots', m')"
        "frames_ok p m'" "take (Suc (length fs) + d) slots' = map Some ((fs @ [f]) @ gs)" "length gs = d" "distinct gs"
        "set gs \<subseteq> free_frames p m1" "free_frames p m' = free_frames p m1 - set gs" "taken_frames p m' = taken_frames p m1 \<union> set gs"
        using IH Suc.prems(4) by auto
      have "\<exists>hs slots' m'. prealloc_tables p [length fs..<length fs + Suc d] slots m = Return (Some slots', m') \<and> frames_ok p m' \<and>
          take (length fs + Suc d) slots' = map Some (fs @ hs) \<and> length hs = Suc d \<and> distinct hs \<and> set hs \<subseteq> free_frames p m \<and>
          free_frames p m' = free_frames p m - set hs \<and> taken_frames p m' = taken_frames p m \<union> set hs"
        using g a(3-5) unfolding step by (intro exI [of _ "f # gs"] exI [of _ slots'] exI [of _ m']) auto
      with True cd show ?thesis by simp
    next
      case False
      then obtain m' where "prealloc_tables p [Suc (length fs)..<Suc (length fs) + d] (slots[length fs := Some f]) m1 = Return (None, m')"
        "frames_ok p m'" "free_frames p m' = free_frames p m1 \<union> set (fs @ [f])" "taken_frames p m' = taken_frames p m1 - set (fs @ [f])"
        using IH Suc.prems(4) by auto
      then have "\<exists>m'. prealloc_tables p [length fs..<length fs + Suc d] slots m = Return (None, m') \<and> frames_ok p m' \<and>
          free_frames p m' = free_frames p m \<union> set fs \<and> taken_frames p m' = taken_frames p m - set fs"
        unfolding step using a(3-5) nf by auto
      with False cd show ?thesis by simp
    qed
  next
    assume a: "alloc_page p m = Return (None, m)" "free_frames p m = {}"
    obtain m' where "give_back p (map Some fs) m = Return m'" "frames_ok p m'" "free_frames p m' = free_frames p m \<union> set fs"
      "taken_frames p m' = taken_frames p m - set fs" using give_back_spec [OF Suc.prems(1-3)] by blast
    then show ?case unfolding upt using a len Suc.prems(5) by simp
  qed
qed

section \<open>Mapping is exact and all or nothing\<close>

definition in_user_range :: "u64 \<Rightarrow> nat \<Rightarrow> bool" where
  "in_user_range va n \<longleftrightarrow> 0 < n \<and> n \<le> MAX_PRACTICAL_PAGES_PER_SET \<and> unat va + n * 4096 \<le> 2 ^ 30"

lemma validate_mapping_spec:
  "if in_user_range va n then validate_mapping va n = ValidMapping (page_no va div 512) (page_no va mod 512)
   else validate_mapping va n \<in> {ErrorOutOfRange, ErrorTooManyPages}"
proof (cases "0 < n \<and> n \<le> MAX_PRACTICAL_PAGES_PER_SET")
  case False
  then show ?thesis by (auto simp: in_user_range_def validate_mapping_def)
next
  case True
  then have n: "unat (of_nat n * PAGE_SIZE :: u64) = n * 4096"
    by (simp add: MAX_PRACTICAL_PAGES_PER_SET_def PAGE_SIZE_def unat_word_ariths unat_of_nat)
  show ?thesis
  proof (cases "unat va + n * 4096 \<le> 2 ^ 30")
    case le: True
    then have lt: "va < USER_VA_END" using True by (simp add: USER_VA_END_def word_less_nat_alt)
    obtain e where e: "checked_add va (of_nat n * PAGE_SIZE) = Some e" using le n by (simp add: checked_add_def)
    then have "\<not> USER_VA_END < e"
      using checked_add_Some [OF e] le n by (simp add: USER_VA_END_def word_less_nat_alt)
    moreover have "page_table_indices va = (0, 0, page_no va div 512, page_no va mod 512)"
      using user_va_indices [OF lt] by (simp add: page_table_indices_def index_of_def page_no_def)
    ultimately show ?thesis using True le e by (simp add: in_user_range_def validate_mapping_def)
  next
    case gt: False
    then have "case checked_add va (of_nat n * PAGE_SIZE) of None \<Rightarrow> True | Some e \<Rightarrow> USER_VA_END < e"
      using n by (auto simp: USER_VA_END_def word_less_nat_alt dest: checked_add_Some split: option.split)
    with gt show ?thesis
      by (auto simp: in_user_range_def validate_mapping_def page_table_indices_def Let_def split: option.splits)
  qed
qed

lemma map_walk_spec:
  assumes "user_tree mem ttbr"
  shows "map_walk_loop mem (map_walk_start ttbr va n) =
    (if in_user_range va n then Ok (l2_table mem ttbr, page_no va div 512, page_no va mod 512) else Err TooManyMappings)"
proof (cases "in_user_range va n")
  case True
  have t: "pte_is_table (PageTableEntry (mem ttbr))" "pte_is_table (PageTableEntry (mem (l1_table mem ttbr)))"
    using assms by (simp_all add: user_tree_def entry_at_def)
  have l: "next_of (PageTableEntry (mem ttbr)) = l1_table mem ttbr"
    "next_of (PageTableEntry (mem (l1_table mem ttbr))) = l2_table mem ttbr"
    by (simp_all add: l1_table_def l2_table_def entry_at_def)
  show ?thesis
    using validate_mapping_spec [of va n] True t
    by (simp add: map_walk_start_def map_walk_loop.simps(1) map_walk_step_def Let_def l)
next
  case False
  then show ?thesis using validate_mapping_spec [of va n] by (auto simp: map_walk_start_def)
qed

text \<open>The level-2 slots a range of pages touches, and those among them without a table.\<close>

definition touched :: "nat \<Rightarrow> nat \<Rightarrow> nat set" where
  "touched pg n = (\<lambda>k. k div 512) ` {pg..<pg + n}"

definition missing :: "pte_memory \<Rightarrow> u64 \<Rightarrow> nat set \<Rightarrow> nat set" where
  "missing mem ttbr I = {i \<in> I. \<not> pte_is_valid (l2_entry mem ttbr (of_nat i))}"

lemma regions_of_range:
  assumes "in_user_range va n"
  obtains rs where "l2_regions (l2_region_iter (page_no va div 512) (page_no va mod 512) n) = Return rs"
    and "concat (map region_pages rs) = map (\<lambda>k. (page_no va + k, 0 + k)) [0..<n]"
    and "\<forall>r \<in> set rs. region_ok r \<and> data_offset r + pages_in_region r \<le> n" and "sorted_wrt (<) (map l2_idx rs)"
    and "l2_idx ` set rs = touched (page_no va) n" and "length rs \<le> MAX_L2_REGIONS_PER_MAP"
proof -
  let ?P = "page_no va"
  have n: "n \<le> 16384" "?P + n \<le> 262144"
    using assms by (auto simp: in_user_range_def page_no_def MAX_PRACTICAL_PAGES_PER_SET_def)
  have "?P div 512 * 512 + ?P mod 512 = ?P" by simp
  then obtain rs where rs: "l2_regions (l2_region_iter (?P div 512) (?P mod 512) n) = Return rs"
    "concat (map region_pages rs) = map (\<lambda>k. (?P + k, 0 + k)) [0..<n]"
    "\<forall>r \<in> set rs. region_ok r" "sorted_wrt (<) (map l2_idx rs)" "length rs * 512 \<le> ?P mod 512 + n + 511"
    using l2_regions_spec [of "?P mod 512" "?P div 512" n 0] n(2) by (auto simp: l2_region_iter_def)
  have "data_offset r + pages_in_region r \<le> n" if "r \<in> set rs" for r
  proof -
    have "0 < pages_in_region r" using rs(3) that by (simp add: region_ok_def)
    then have "data_offset r + (pages_in_region r - 1) \<in> snd ` set (region_pages r)"
      by (auto simp: region_pages_def image_image)
    also have "\<dots> \<subseteq> snd ` set (concat (map region_pages rs))" using that by auto
    also have "\<dots> \<subseteq> {..<n}" unfolding rs(2) by auto
    finally show ?thesis using \<open>0 < _\<close> by simp
  qed
  moreover have "l2_idx ` set rs = touched ?P n"
  proof -
    have "(\<lambda>k. k div 512) ` fst ` set (region_pages r) = {l2_idx r}" if "r \<in> set rs" for r
    proof -
      have "region_ok r" using rs(3) that by blast
      let ?A = "{l2_idx r * 512 + l3_start r..<l2_idx r * 512 + l3_start r + pages_in_region r}"
      have d: "k div 512 = l2_idx r" if "k \<in> ?A" for k
        using that \<open>region_ok r\<close> by (intro div_nat_eqI) (auto simp: region_ok_def)
      have m: "l2_idx r * 512 + l3_start r \<in> ?A" using \<open>region_ok r\<close> by (simp add: region_ok_def)
      have "fst ` set (region_pages r) = ?A" by (auto simp: region_pages_def image_image)
      then have "(\<lambda>k. k div 512) ` fst ` set (region_pages r) = (\<lambda>k. l2_idx r) ` ?A"
        using d by (simp only:) (rule image_cong [OF refl])
      also have "\<dots> = {l2_idx r}" by (rule image_constant [OF m])
      finally show ?thesis .
    qed
    then have "(\<Union>r \<in> set rs. {l2_idx r}) = (\<Union>r \<in> set rs. (\<lambda>k. k div 512) ` fst ` set (region_pages r))" by simp
    then have "l2_idx ` set rs = (\<lambda>k. k div 512) ` fst ` set (concat (map region_pages rs))" by (simp add: image_UN UNION_singleton_eq_range)
    also have "\<dots> = touched ?P n"
      using image_add_atLeastLessThan [of ?P 0 n, symmetric]
      unfolding rs(2) touched_def by (simp add: image_image atLeast0LessThan add.commute)
    finally show ?thesis .
  qed
  moreover have "length rs \<le> MAX_L2_REGIONS_PER_MAP"
    using rs(5) n(1) mod_less_divisor [of 512 ?P] unfolding MAX_L2_REGIONS_PER_MAP_def by linarith
  ultimately show thesis using that rs by blast
qed

lemma missing_count:
  assumes "sorted_wrt (<) (map l2_idx rs)"
  shows "length (empty_regions mem ttbr rs) = card (missing mem ttbr (l2_idx ` set rs))"
proof -
  have "distinct (map l2_idx rs)" using assms by (simp add: strict_sorted_iff)
  then have "distinct (map l2_idx (empty_regions mem ttbr rs))" by (simp add: empty_regions_def distinct_map_filter)
  then have "length (empty_regions mem ttbr rs) = card (set (map l2_idx (empty_regions mem ttbr rs)))"
    by (metis distinct_card length_map)
  also have "set (map l2_idx (empty_regions mem ttbr rs)) = missing mem ttbr (l2_idx ` set rs)"
    by (auto simp: empty_regions_def missing_def)
  finally show ?thesis .
qed

text \<open>All of RAM is below \<open>2 ^ 48\<close>, so a table entry can hold the address of any frame.\<close>

definition ram_addressable :: "Platform \<Rightarrow> bool" where
  "ram_addressable p \<longleftrightarrow> base_of p + ram_pages p * 4096 \<le> 2 ^ 48"

lemma frame_at_table:
  assumes "platform_ok p" and "ram_addressable p" and "i < ram_pages p"
  shows "table_frame (frame_at p i)"
proof -
  have u: "unat (frame_paddr (frame_at p i)) = base_of p + i * 4096"
    unfolding frame_paddr_def by (rule frame_at_index(3) [OF assms(1,3)])
  have "base_of p mod 4096 = 0" using assms(1) by (simp add: platform_ok_def)
  moreover have "(i + 1) * 4096 \<le> ram_pages p * 4096" using assms(3) by (intro mult_le_mono1) simp
  ultimately show ?thesis using u assms(2) by (simp add: table_frame_def ram_addressable_def mod_add_eq [symmetric])
qed

lemma free_frame_table: "frames_ok p m \<Longrightarrow> ram_addressable p \<Longrightarrow> f \<in> free_frames p m \<Longrightarrow> table_frame f"
  using frame_at_table frames_below by (auto simp: free_frames_def frames_ok_def)

lemma taken_frame_table: "frames_ok p m \<Longrightarrow> ram_addressable p \<Longrightarrow> f \<in> taken_frames p m \<Longrightarrow> table_frame f"
  using frame_at_table by (auto simp: taken_frames_def frames_ok_def)

lemma frame_paddr_inj: "frames_ok p m \<Longrightarrow> inj_on frame_paddr (free_frames p m)"
  by (rule inj_onI, auto simp: free_frames_def frame_paddr_def frames_ok_def)
    (metis frame_containing PhysAddr.exhaust_sel)

definition map_verdict :: "Platform \<Rightarrow> pte_memory \<Rightarrow> u64 \<Rightarrow> u64 \<Rightarrow> nat \<Rightarrow> PhysMem \<Rightarrow> (unit, VmemError) result" where
  "map_verdict p mem ttbr va n m =
     (if \<not> in_user_range va n then Err TooManyMappings
      else if \<exists>i \<in> touched (page_no va) n. blocked mem ttbr i then Err TooManyL3Regions
      else if card (free_frames p m) < card (missing mem ttbr (touched (page_no va) n)) then Err OutOfPages
      else Ok ())"

definition mapped_as :: "BackedHeader \<Rightarrow> MapMemoryAttribute \<Rightarrow> nat \<Rightarrow> PageTableEntry" where
  "mapped_as b attr d = user_page_of b (fst (select_attrs attr)) (snd (select_attrs attr)) d"

lemma map_pages_run:
  assumes "user_tree mem ttbr" and "in_user_range va (bh_count b)"
  obtains rs where "map_pages_in_existing p ttbr va b attr (mem, m) =
      (if \<exists>i \<in> touched (page_no va) (bh_count b). blocked mem ttbr i then Return (Err TooManyL3Regions, mem, m) else
        bind_outcome (prealloc_tables p [0..<length (empty_regions mem ttbr rs)] (replicate MAX_L2_REGIONS_PER_MAP None) m) (\<lambda>(r, m).
          case r of None \<Rightarrow> Return (Err OutOfPages, mem, m)
          | Some slots \<Rightarrow>
              bind_outcome (apply_regions b (fst (select_attrs attr)) (snd (select_attrs attr)) (l2_table mem ttbr) rs 0 slots mem)
                (\<lambda>mem. Return (Ok (), mem, m))))"
    and "concat (map region_pages rs) = map (\<lambda>k. (page_no va + k, 0 + k)) [0..<bh_count b]"
    and "\<forall>r \<in> set rs. region_ok r \<and> data_offset r + pages_in_region r \<le> bh_count b" and "sorted_wrt (<) (map l2_idx rs)"
    and "l2_idx ` set rs = touched (page_no va) (bh_count b)"
    and "length (empty_regions mem ttbr rs) = card (missing mem ttbr (touched (page_no va) (bh_count b)))"
    and "length (empty_regions mem ttbr rs) \<le> MAX_L2_REGIONS_PER_MAP"
proof -
  let ?n = "bh_count b" and ?T = "touched (page_no va) (bh_count b)"
  obtain rs where rs: "l2_regions (l2_region_iter (page_no va div 512) (page_no va mod 512) ?n) = Return rs"
    "concat (map region_pages rs) = map (\<lambda>k. (page_no va + k, 0 + k)) [0..<?n]"
    "\<forall>r \<in> set rs. region_ok r \<and> data_offset r + pages_in_region r \<le> ?n" "sorted_wrt (<) (map l2_idx rs)"
    "l2_idx ` set rs = ?T" "length rs \<le> MAX_L2_REGIONS_PER_MAP"
    by (rule regions_of_range [OF assms(2)])
  let ?need = "length (empty_regions mem ttbr rs)" and ?blk = "\<exists>i \<in> ?T. blocked mem ttbr i"
  have "\<forall>r \<in> set rs. l2_idx r < 512" using rs(3) by (simp add: region_ok_def)
  moreover have "(\<exists>r \<in> set rs. blocked mem ttbr (l2_idx r)) \<longleftrightarrow> ?blk" unfolding rs(5) [symmetric] by simp
  ultimately have cl: "classify_regions mem (l2_table mem ttbr) rs 0 = Return (if ?blk then Err TooManyL3Regions else Ok ?need)"
    using classify_regions_spec [of rs mem ttbr 0] by simp
  have need: "?need = card (missing mem ttbr ?T)" using missing_count [OF rs(4)] rs(5) by simp
  have lim: "?need \<le> MAX_L2_REGIONS_PER_MAP"
    using rs(6) length_filter_le [of _ rs] unfolding empty_regions_def by (rule le_trans [rotated])
  obtain at sh where sa: "select_attrs attr = (at, sh)" by (cases "select_attrs attr")
  show thesis
    by (rule that [OF _ rs(2-5) need lim])
      (unfold sa fst_conv snd_conv, use map_walk_spec [OF assms(1), of va ?n] assms(2) rs(1) cl sa in \<open>simp add: map_pages_in_existing_def\<close>)
qed

lemma map_pages_spec:
  assumes "user_tree mem ttbr" and "frames_ok p m" and "covered b" and "ram_addressable p"
    and "tree_tables mem ttbr \<inter> frame_paddr ` free_frames p m = {}" and "n = bh_count b"
  shows "\<exists>mem' m' F. map_pages_in_existing p ttbr va b attr (mem, m) = Return (map_verdict p mem ttbr va n m, mem', m') \<and>
    frames_ok p m' \<and> user_tree mem' ttbr \<and> F \<subseteq> free_frames p m \<and>
    free_frames p m' = free_frames p m - F \<and> taken_frames p m' = taken_frames p m \<union> F \<and>
    tree_tables mem' ttbr = tree_tables mem ttbr \<union> frame_paddr ` F \<and>
    (case map_verdict p mem ttbr va n m of
       Ok u \<Rightarrow> \<forall>pg < 262144. page_entry mem' ttbr pg =
         (if page_no va \<le> pg \<and> pg - page_no va < n then Some (3, mapped_as b attr (pg - page_no va)) else page_entry mem ttbr pg)
     | Err e \<Rightarrow> mem' = mem \<and> F = {})"
proof -
  let ?f = "map_pages_in_existing p ttbr va b attr (mem, m)" and ?v = "map_verdict p mem ttbr va n m"
  let ?T = "touched (page_no va) n" and ?at = "fst (select_attrs attr)" and ?sh = "snd (select_attrs attr)"
  have fails: ?thesis if "?f = Return (?v, mem, m')" "frames_ok p m'" "free_frames p m' = free_frames p m"
    "taken_frames p m' = taken_frames p m" "?v = Err e" for e m'
    using that assms(1) by (intro exI [of _ mem] exI [of _ m'] exI [of _ "{}"]) simp
  note walk = map_walk_spec [OF assms(1), of va n]
  show ?thesis
  proof (cases "in_user_range va n")
    case False
    then have "?f = Return (Err TooManyMappings, mem, m)" "?v = Err TooManyMappings"
      using walk assms(6) by (simp_all add: map_pages_in_existing_def map_verdict_def)
    then show ?thesis using fails [of m] assms(2) by simp
  next
    case rng: True
    obtain rs where run: "?f = (if \<exists>i \<in> ?T. blocked mem ttbr i then Return (Err TooManyL3Regions, mem, m) else
        bind_outcome (prealloc_tables p [0..<length (empty_regions mem ttbr rs)] (replicate MAX_L2_REGIONS_PER_MAP None) m) (\<lambda>(r, m).
          case r of None \<Rightarrow> Return (Err OutOfPages, mem, m)
          | Some slots \<Rightarrow> bind_outcome (apply_regions b ?at ?sh (l2_table mem ttbr) rs 0 slots mem) (\<lambda>mem. Return (Ok (), mem, m))))"
      and rs: "concat (map region_pages rs) = map (\<lambda>k. (page_no va + k, 0 + k)) [0..<n]"
        "\<forall>r \<in> set rs. region_ok r \<and> data_offset r + pages_in_region r \<le> n" "sorted_wrt (<) (map l2_idx rs)" "l2_idx ` set rs = ?T"
      and need: "length (empty_regions mem ttbr rs) = card (missing mem ttbr ?T)"
      and lim: "length (empty_regions mem ttbr rs) \<le> MAX_L2_REGIONS_PER_MAP"
      unfolding assms(6) by (rule map_pages_run [OF assms(1) rng [unfolded assms(6)]])
    let ?need = "length (empty_regions mem ttbr rs)" and ?blk = "\<exists>i \<in> ?T. blocked mem ttbr i"
    note pa = prealloc_spec [OF assms(2), of "[]" ?need "replicate MAX_L2_REGIONS_PER_MAP None"]
    show ?thesis
    proof (cases "\<not> ?blk \<and> ?need \<le> card (free_frames p m)")
      case False
      show ?thesis
      proof (cases ?blk)
        case True
        then show ?thesis using fails [of m] assms(2) run rng by (simp add: map_verdict_def)
      next
        case nb: False
        with False pa lim obtain m' where "prealloc_tables p [0..<?need] (replicate MAX_L2_REGIONS_PER_MAP None) m = Return (None, m')"
          "frames_ok p m'" "free_frames p m' = free_frames p m" "taken_frames p m' = taken_frames p m" by auto
        then show ?thesis using fails [of m'] run rng nb False need by (simp add: map_verdict_def)
      qed
    next
      case True
      with pa lim obtain gs slots m' where g: "prealloc_tables p [0..<?need] (replicate MAX_L2_REGIONS_PER_MAP None) m = Return (Some slots, m')"
        "frames_ok p m'" "take ?need slots = map Some gs" "length gs = ?need" "distinct gs" "set gs \<subseteq> free_frames p m"
        "free_frames p m' = free_frames p m - set gs" "taken_frames p m' = taken_frames p m \<union> set gs" by auto
      have v: "?v = Ok ()" using True rng need by (simp add: map_verdict_def)
      have "drop 0 slots = map Some gs @ drop ?need slots" using g(3) append_take_drop_id [of ?need slots] by simp
      moreover have "distinct (map frame_paddr gs)"
        using g(5,6) frame_paddr_inj [OF assms(2)] by (simp add: distinct_map inj_on_subset)
      moreover have "\<forall>f \<in> set gs. table_frame f \<and> frame_paddr f \<notin> tree_tables mem ttbr"
        using g(6) free_frame_table [OF assms(2,4)] assms(5) by blast
      moreover have "distinct (map fst (concat (map region_pages rs)))"
        unfolding rs(1) by (simp add: distinct_map inj_on_def o_def)
      moreover have "\<forall>r \<in> set rs. pte_is_valid (l2_entry mem ttbr (of_nat (l2_idx r))) \<longrightarrow> pte_is_table (l2_entry mem ttbr (of_nat (l2_idx r)))"
        using True unfolding rs(4) [symmetric] by (auto simp: blocked_def)
      ultimately obtain mem' where m': "apply_regions b ?at ?sh (l2_table mem ttbr) rs 0 slots mem = Return mem'" "user_tree mem' ttbr"
        "tree_tables mem' ttbr = tree_tables mem ttbr \<union> frame_paddr ` set gs"
        "\<forall>pg < 262144. page_entry mem' ttbr pg =
          overlay (concat (map region_pages rs)) (\<lambda>d. (3, user_page_of b ?at ?sh d)) (page_entry mem ttbr) pg"
        using apply_regions_spec [OF assms(1) _ assms(3) rs(3), where cursor = 0 and slots = slots and fs = gs and attr = ?at and sh = ?sh]
          rs(2) g(4) assms(6) by blast
      have "?f = Return (Ok (), mem', m')" using run True g(1) m'(1) by simp
      moreover have "\<forall>pg < 262144. page_entry mem' ttbr pg =
          (if page_no va \<le> pg \<and> pg - page_no va < n then Some (3, mapped_as b attr (pg - page_no va)) else page_entry mem ttbr pg)"
        using m'(4) unfolding overlay_def rs(1) map_of_run mapped_as_def by simp
      ultimately show ?thesis
        using v g m' by (intro exI [of _ mem'] exI [of _ m'] exI [of _ "set gs"]) simp
    qed
  qed
qed

lemma ucast_mask_bit: "bit (ucast (x :: u8) AND mask k :: u64) n \<longleftrightarrow> n < k \<and> n < 8 \<and> bit x n"
  by (auto simp: bit_and_iff bit_mask_iff unsigned_ucast_eq bit_ucast_iff dest: bit_imp_le_length)

lemma attr_bits_bit:
  "bit (attr_bits attr ap sh) n \<longleftrightarrow>
    (2 \<le> n \<and> n < 5 \<and> bit attr (n - 2)) \<or> (6 \<le> n \<and> n < 8 \<and> bit ap (n - 6)) \<or> (8 \<le> n \<and> n < 10 \<and> bit sh (n - 8))"
proof -
  have m: "(7 :: u64) = mask 3" "(3 :: u64) = mask 2" by (simp_all add: mask_eq_exp_minus_1)
  show ?thesis
    unfolding attr_bits_def PTE_ATTR_SHIFT_def PTE_AP_SHIFT_def PTE_SH_SHIFT_def m bit_or_iff bit_push_bit_iff ucast_mask_bit
    by auto
qed

lemma user_page_bit:
  "bit (pte_raw (build_user_page (PhysAddr a) attr sh)) n \<longleftrightarrow>
    n \<in> {0, 1, 10, 53, 54} \<or> bit (attr_bits attr AP_RW_ALL sh) n \<or> 12 \<le> n \<and> n < 48 \<and> bit a n"
  by (auto simp: build_user_page_def with_pxn_def with_uxn_def new_page_def bit_or_iff bit_and_iff pte_flag_bits addr_mask_bit)

lemma user_page_address: "next_of (build_user_page (PhysAddr a) attr sh) = a AND PTE_ADDR_MASK"
  by (rule bit_eqI) (auto simp: output_addr_def bit_and_iff user_page_bit attr_bits_bit addr_mask_bit)

text \<open>C7. Mapping a page set is exact and all or nothing. On an address space whose tables are not free
  frames, \<^verbatim>\<open>map_pages_in_existing\<close> always returns, and its answer is decided by the request alone: an
  error when the range is empty, too long or leaves the user half, when a 2 MiB block is in the way,
  or when there are fewer free frames than level-2 slots without a table, and success otherwise.
  On success exactly the pages of the range translate to the frames of the set, in order, and
  every other user address translates as before; the frames taken are exactly the new tables. On an
  error neither the tables nor the free frames have changed.\<close>

theorem map_pages_exact:
  assumes "user_tree mem ttbr" and "frames_ok p m" and "covered b" and "ram_addressable p"
    and "tree_tables mem ttbr \<inter> frame_paddr ` free_frames p m = {}"
  shows "\<exists>mem' m' F. map_pages_in_existing p ttbr va b attr (mem, m) =
      Return (map_verdict p mem ttbr va (bh_count b) m, mem', m') \<and>
    frames_ok p m' \<and> user_tree mem' ttbr \<and> F \<subseteq> free_frames p m \<and> free_frames p m' = free_frames p m - F \<and>
    taken_frames p m' = taken_frames p m \<union> F \<and> tree_tables mem' ttbr = tree_tables mem ttbr \<union> frame_paddr ` F \<and>
    (case map_verdict p mem ttbr va (bh_count b) m of
       Ok u \<Rightarrow> \<forall>va' < USER_VA_END. walk_translate mem' ttbr va' =
         (if page_no va \<le> page_no va' \<and> page_no va' - page_no va < bh_count b
          then Some ((page_words (bh_header b) (page_no va' - page_no va) AND PTE_ADDR_MASK) + (va' AND 0xFFF))
          else walk_translate mem ttbr va')
     | Err e \<Rightarrow> mem' = mem \<and> F = {})"
proof -
  let ?v = "map_verdict p mem ttbr va (bh_count b) m" and ?P = "page_no va"
  obtain mem' m' F where s: "map_pages_in_existing p ttbr va b attr (mem, m) = Return (?v, mem', m')" "frames_ok p m'" "user_tree mem' ttbr"
    "F \<subseteq> free_frames p m" "free_frames p m' = free_frames p m - F" "taken_frames p m' = taken_frames p m \<union> F"
    "tree_tables mem' ttbr = tree_tables mem ttbr \<union> frame_paddr ` F"
    "case ?v of Ok u \<Rightarrow> \<forall>pg < 262144. page_entry mem' ttbr pg =
       (if ?P \<le> pg \<and> pg - ?P < bh_count b then Some (3, mapped_as b attr (pg - ?P)) else page_entry mem ttbr pg)
     | Err e \<Rightarrow> mem' = mem \<and> F = {}"
    using map_pages_spec [OF assms refl, of va attr] by blast
  have "walk_translate mem' ttbr va' =
      (if ?P \<le> page_no va' \<and> page_no va' - ?P < bh_count b
       then Some ((page_words (bh_header b) (page_no va' - ?P) AND PTE_ADDR_MASK) + (va' AND 0xFFF))
       else walk_translate mem ttbr va')" if v: "?v = Ok u" and va: "va' < USER_VA_END" for va' u
  proof -
    have "page_no va' < 262144" using va by (simp add: page_no_def USER_VA_END_def word_less_nat_alt)
    then show ?thesis
      using s(8) v unfolding translate_page_entry [OF s(3) va] translate_page_entry [OF assms(1) va]
      by (simp add: mapped_as_def user_page_of_def user_page_address)
  qed
  then have "case ?v of Ok u \<Rightarrow> \<forall>va' < USER_VA_END. walk_translate mem' ttbr va' =
      (if ?P \<le> page_no va' \<and> page_no va' - ?P < bh_count b
       then Some ((page_words (bh_header b) (page_no va' - ?P) AND PTE_ADDR_MASK) + (va' AND 0xFFF))
       else walk_translate mem ttbr va') | Err e \<Rightarrow> mem' = mem \<and> F = {}"
    using s(8) by (cases ?v) auto
  with s(1-7) show ?thesis by blast
qed

text \<open>Two pages across a level-2 boundary, the second in a region without a table.\<close>

definition demo_header :: BackedHeader where
  "demo_header = backed \<lparr>hdr_count = 2, hdr_pages = 1, refcount = 1, map_count = 0, origin_raw = 1,
     page_words = (\<lambda>i. if i = 0 then 0x40010000 else 0x40011000)\<rparr> 2"

lemma demo_tree_tables: "tree_tables demo_tables 0x1000 = {0x1000, 0x2000, 0x3000, 0x4000}"
proof -
  have "{i. unat i < 512 \<and> pte_is_table (l2_entry demo_tables 0x1000 i)} = {0}"
    by (auto simp: demo_l2_entry pte_kind_bits split: if_splits)
  then show ?thesis by (simp add: tree_tables_def demo_tabs demo_l2_entry demo_next insert_commute)
qed

lemma demo_space_separate:
  assumes "frames_ok virt_board m"
  shows "tree_tables demo_tables 0x1000 \<inter> frame_paddr ` free_frames virt_board m = {}"
proof -
  have "0x40000000 \<le> unat (frame_paddr f)" if f: "f \<in> free_frames virt_board m" for f
  proof -
    obtain i where i: "f = frame_at virt_board i" "i < ram_pages virt_board"
      using f frames_below [OF assms] by (auto simp: free_frames_def)
    have "platform_ok virt_board" using assms by (simp add: frames_ok_def)
    from frame_at_index(3) [OF this i(2)] show ?thesis by (simp add: i(1) frame_paddr_def base_of_def virt_board_def)
  qed
  then have "frame_paddr ` free_frames virt_board m \<subseteq> {a. 0x40000000 \<le> unat a}" by blast
  moreover have "tree_tables demo_tables 0x1000 \<inter> {a. 0x40000000 \<le> unat a} = {}" by (simp add: demo_tree_tables)
  ultimately show ?thesis by blast
qed

theorem map_pages_exact_witness:
  "\<exists>m mem' m'. map_pages_in_existing virt_board 0x1000 0x1FF000 demo_header Normal (demo_tables, m) = Return (Ok (), mem', m') \<and>
    walk_translate demo_tables 0x1000 0x200008 = None \<and> walk_translate mem' 0x1000 0x200008 = Some 0x40011008 \<and>
    walk_translate mem' 0x1000 0x1000 = Some 0x5000"
proof -
  obtain m where m: "frames_ok virt_board m" "card (free_frames virt_board m) = 16" using demo_mem by (auto simp: mem_ok_def)
  have P: "page_no 0x1FF000 = 511" "page_no 0x200008 = 512" "page_no 0x1000 = 1" by (simp_all add: page_no_def)
  have "{511..<511 + 2} = {511, 512 :: nat}" by auto
  then have T: "touched 511 2 = {0, 1}" by (simp add: touched_def)
  have e: "l2_entry demo_tables 0x1000 (of_nat 0) = PageTableEntry 0x4003" "l2_entry demo_tables 0x1000 (of_nat 1) = PageTableEntry 0"
    by (simp_all add: demo_l2_entry)
  have k: "pte_is_table (PageTableEntry 0x4003)" "pte_is_valid (PageTableEntry 0x4003)" "\<not> pte_is_valid (PageTableEntry 0)"
    by (simp_all add: pte_kind_bits)
  have "card (missing demo_tables 0x1000 (touched 511 2)) \<le> card (touched 511 2)"
    unfolding missing_def T by (intro card_mono) auto
  moreover have "in_user_range 0x1FF000 2" by (simp add: in_user_range_def MAX_PRACTICAL_PAGES_PER_SET_def)
  moreover have "\<forall>i \<in> touched 511 2. \<not> blocked demo_tables 0x1000 i" unfolding T blocked_def using e k by simp
  ultimately have v: "map_verdict virt_board demo_tables 0x1000 0x1FF000 (bh_count demo_header) m = Ok ()"
    using m(2) by (simp add: map_verdict_def P demo_header_def backed_def T)
  have "covered demo_header" "ram_addressable virt_board"
    by (simp_all add: demo_header_def ram_addressable_def base_of_def virt_board_def ram_pages_nat)
  from map_pages_exact [OF demo_tree m(1) this demo_space_separate [OF m(1)], of "0x1FF000" Normal] obtain mem' m'
    where r: "map_pages_in_existing virt_board 0x1000 0x1FF000 demo_header Normal (demo_tables, m) = Return (Ok (), mem', m')"
      "\<forall>va' < USER_VA_END. walk_translate mem' 0x1000 va' =
         (if page_no 0x1FF000 \<le> page_no va' \<and> page_no va' - page_no 0x1FF000 < bh_count demo_header
          then Some ((page_words (bh_header demo_header) (page_no va' - page_no 0x1FF000) AND PTE_ADDR_MASK) + (va' AND 0xFFF))
          else walk_translate demo_tables 0x1000 va')"
    unfolding v by auto
  have lt: "(0x200008 :: u64) < USER_VA_END" "(0x1000 :: u64) < USER_VA_END" by (simp_all add: USER_VA_END_def)
  have "walk_translate mem' 0x1000 0x200008 = Some 0x40011008" "walk_translate mem' 0x1000 0x1000 = walk_translate demo_tables 0x1000 0x1000"
    using r(2) [rule_format, OF lt(1)] r(2) [rule_format, OF lt(2)] by (simp_all add: P demo_header_def backed_def PTE_ADDR_MASK_def)
  then show ?thesis using r(1) demo_leaf [OF lt(1)] demo_leaf [OF lt(2)] P by (auto simp: walk_translate_leaf)
qed

end
