(* ===== verification/Address_Space.thy ===== *)
theory Address_Space
  imports Vmem
begin

text \<open>
  Building and tearing down address spaces: the tracker, the workspace counter, the page policy and
  the scratch cursor of \<^verbatim>\<open>lockjaw-types/src/vmem.rs\<close>, and \<^verbatim>\<open>AddressSpaceBuilder\<close>,
  \<^verbatim>\<open>create_address_space\<close> and \<^verbatim>\<open>free_address_space\<close> of \<^verbatim>\<open>src/arch/aarch64/vmem.rs\<close>.

  The builder takes its tables from pages the caller donated, the bootstrap path from the frame
  allocator. Both run the same loop over the mappings; here it is one function of the way a table is
  claimed, and its lemmas are proved once in the locale \<open>table_supply\<close>, which both ways satisfy. A
  pointer to a table is the physical address behind it.
\<close>

section \<open>Mappings, budget and workspace\<close>

record Mapping =
  virt_addr :: u64
  phys_addr :: PhysAddr
  user_accessible :: bool
  executable :: bool

text \<open>A mapping has 24 bytes.\<close>

definition MAPPINGS_PER_PAGE :: nat where "MAPPINGS_PER_PAGE = unat PAGE_SIZE div 24"

definition validate_process_mappings :: "nat \<Rightarrow> nat \<Rightarrow> nat \<Rightarrow> bool" where
  "validate_process_mappings mapping_count stack_count capacity \<longleftrightarrow>
     0 < mapping_count \<and> 0 < stack_count \<and> mapping_count + stack_count \<le> capacity"

definition MAX_L3_TABLES :: nat where "MAX_L3_TABLES = 8"
definition PROCESS_KERNEL_OBJ_PAGES :: nat where "PROCESS_KERNEL_OBJ_PAGES = 4"
definition WORKSPACE_MIN_PAGES :: nat where "WORKSPACE_MIN_PAGES = 3 + MAX_L3_TABLES"
definition WORKSPACE_MAX_PAGES :: nat where "WORKSPACE_MAX_PAGES = 32"
definition PROCESS_MIN_PAGES :: nat where "PROCESS_MIN_PAGES = PROCESS_KERNEL_OBJ_PAGES + WORKSPACE_MIN_PAGES"
definition PROCESS_MAX_PAGES :: nat where "PROCESS_MAX_PAGES = PROCESS_KERNEL_OBJ_PAGES + WORKSPACE_MAX_PAGES"

record PageTableWorkspace =
  ws_capacity :: nat
  ws_claimed :: nat

definition ws_new :: "nat \<Rightarrow> PageTableWorkspace" where
  "ws_new cap = \<lparr>ws_capacity = cap, ws_claimed = 0\<rparr>"

definition ws_claim :: "PageTableWorkspace \<Rightarrow> nat option \<times> PageTableWorkspace" where
  "ws_claim w =
     (if ws_capacity w \<le> ws_claimed w then (None, w)
      else (Some (ws_claimed w), w\<lparr>ws_claimed := ws_claimed w + 1\<rparr>))"

section \<open>The region tracker\<close>

datatype L3Lookup = Existing nat | NeedAlloc nat | Full

record L3RegionTracker =
  tr_indices :: "nat list"
  tr_count :: nat

definition tracker_new :: L3RegionTracker where
  "tracker_new = \<lparr>tr_indices = replicate MAX_L3_TABLES (2 ^ 64 - 1), tr_count = 0\<rparr>"

fun find_region :: "nat list \<Rightarrow> nat \<Rightarrow> nat list \<Rightarrow> nat option outcome" where
  "find_region indices l2 [] = Return None"
| "find_region indices l2 (i # is) =
     assert_then (i < length indices) (if indices ! i = l2 then Return (Some i) else find_region indices l2 is)"

definition tracker_lookup :: "nat \<Rightarrow> L3RegionTracker \<Rightarrow> L3Lookup outcome" where
  "tracker_lookup l2 t =
     bind_outcome (find_region (tr_indices t) l2 [0..<tr_count t]) (\<lambda>r.
       Return (case r of
         Some i \<Rightarrow> Existing i
       | None \<Rightarrow> if MAX_L3_TABLES \<le> tr_count t then Full else NeedAlloc (tr_count t)))"

definition tracker_register :: "nat \<Rightarrow> nat \<Rightarrow> L3RegionTracker \<Rightarrow> L3RegionTracker outcome" where
  "tracker_register k l2 t =
     assert_then (k = tr_count t)
       (assert_then (k < MAX_L3_TABLES)
         (assert_then (k < length (tr_indices t))
           (Return (t\<lparr>tr_indices := (tr_indices t)[k := l2], tr_count := tr_count t + 1\<rparr>))))"

section \<open>The page policy and the scratch cursor\<close>

definition build_process_page :: "PhysAddr \<Rightarrow> bool \<Rightarrow> bool \<Rightarrow> PageTableEntry" where
  "build_process_page paddr user exec =
     (if \<not> user then new_page paddr MAIR_NORMAL AP_RW_EL1 SH_INNER
      else if exec then with_pxn (new_page paddr MAIR_NORMAL AP_RW_ALL SH_INNER)
      else with_pxn (with_uxn (new_page paddr MAIR_NORMAL AP_RW_ALL SH_INNER)))"

datatype ScratchAction = ContinuePage | FlushAndAdvance nat

record ScratchCursor =
  page_idx :: nat
  offset :: nat
  total_scratch :: nat
  total_written :: nat

definition cursor_new :: "nat \<Rightarrow> ScratchCursor" where
  "cursor_new pages = \<lparr>page_idx = 0, offset = 0, total_scratch = pages, total_written = 0\<rparr>"

definition cursor_advance :: "ScratchCursor \<Rightarrow> ScratchAction \<times> ScratchCursor" where
  "cursor_advance c =
     (let c = c\<lparr>offset := offset c + 1, total_written := total_written c + 1\<rparr> in
      if MAPPINGS_PER_PAGE \<le> offset c \<and> page_idx c + 1 < total_scratch c
      then (FlushAndAdvance (page_idx c + 1), c) else (ContinuePage, c))"

definition did_advance :: "ScratchCursor \<Rightarrow> ScratchCursor" where
  "did_advance c = c\<lparr>page_idx := page_idx c + 1, offset := 0\<rparr>"

definition has_pending :: "ScratchCursor \<Rightarrow> bool" where
  "has_pending c \<longleftrightarrow> 0 < offset c"

definition pending_count :: "ScratchCursor \<Rightarrow> nat" where
  "pending_count c = offset c"

section \<open>Claiming tables\<close>

text \<open>The donated pages behind the builder, and the claim of the next one, cleared.\<close>

record ProcessPagesDonation =
  don_header_kva :: KernelVa
  don_count :: nat
  resolved :: bool

definition donation_page_paddr :: "ProcessPagesDonation \<Rightarrow> nat \<Rightarrow> PageSets \<Rightarrow> PhysAddr option outcome" where
  "donation_page_paddr d idx s =
     bind_outcome (read_header_backed (don_header_kva d) s) (\<lambda>backed.
     bind_outcome (get_page idx backed) (\<lambda>r. Return (map_option PhysAddr r)))"

definition claim_zeroed ::
  "ProcessPagesDonation \<Rightarrow> PageSets \<Rightarrow> PageTableWorkspace \<times> pte_memory \<Rightarrow>
    ((PhysAddr, VmemError) result \<times> PageTableWorkspace \<times> pte_memory) outcome" where
  "claim_zeroed d s st =
     (let (w, mem) = st in
      case ws_claim w of
        (None, w) \<Rightarrow> Return (Err OutOfPageTables, w, mem)
      | (Some workspace_idx, w) \<Rightarrow>
          bind_outcome (donation_page_paddr d (PROCESS_KERNEL_OBJ_PAGES + workspace_idx) s) (\<lambda>r.
            case r of
              None \<Rightarrow> Return (Err OutOfPageTables, w, mem)
            | Some paddr \<Rightarrow> Return (Ok paddr, w, zero_table (phys_u64 paddr) mem)))"

text \<open>The bootstrap way: a page of the frame allocator, cleared.\<close>

definition alloc_zeroed :: "Platform \<Rightarrow> PhysMem \<times> pte_memory \<Rightarrow> ((PhysAddr, VmemError) result \<times> PhysMem \<times> pte_memory) outcome" where
  "alloc_zeroed p st =
     (let (m, mem) = st in
      bind_outcome (alloc_page p m) (\<lambda>(r, m).
        case r of
          None \<Rightarrow> Return (Err OutOfPages, m, mem)
        | Some page \<Rightarrow> Return (Ok (start_addr page), m, zero_table (phys_u64 (start_addr page)) mem)))"

section \<open>The loop over the mappings\<close>

text \<open>The tracker and the parallel array of table pointers.\<close>

record Regions =
  tracker :: L3RegionTracker
  l3_ptrs :: "u64 option list"

definition regions_new :: Regions where
  "regions_new = \<lparr>tracker = tracker_new, l3_ptrs = replicate MAX_L3_TABLES None\<rparr>"

definition l3_for ::
  "('a \<times> pte_memory \<Rightarrow> ((PhysAddr, VmemError) result \<times> 'a \<times> pte_memory) outcome) \<Rightarrow> u64 \<Rightarrow> nat \<Rightarrow>
    Regions \<times> 'a \<times> pte_memory \<Rightarrow> ((u64, VmemError) result \<times> Regions \<times> 'a \<times> pte_memory) outcome" where
  "l3_for claim l2_paddr l2 st =
     (let (rg, a, mem) = st in
      bind_outcome (tracker_lookup l2 (tracker rg)) (\<lambda>found.
        case found of
          Existing k \<Rightarrow>
            assert_then (k < length (l3_ptrs rg))
              (case l3_ptrs rg ! k of None \<Rightarrow> Panic | Some t \<Rightarrow> Return (Ok t, rg, a, mem))
        | NeedAlloc k \<Rightarrow>
            bind_outcome (claim (a, mem)) (\<lambda>(r, a, mem).
              case r of
                Err e \<Rightarrow> Return (Err e, rg, a, mem)
              | Ok l3_paddr \<Rightarrow>
                  bind_outcome (write_entry l2_paddr l2 (new_table l3_paddr) mem) (\<lambda>mem.
                  assert_then (k < length (l3_ptrs rg))
                    (bind_outcome (tracker_register k l2 (tracker rg)) (\<lambda>t.
                      Return (Ok (phys_u64 l3_paddr),
                        rg\<lparr>tracker := t, l3_ptrs := (l3_ptrs rg)[k := Some (phys_u64 l3_paddr)]\<rparr>, a, mem)))))
        | Full \<Rightarrow> Return (Err TooManyL3Regions, rg, a, mem)))"

fun map_loop ::
  "('a \<times> pte_memory \<Rightarrow> ((PhysAddr, VmemError) result \<times> 'a \<times> pte_memory) outcome) \<Rightarrow> u64 \<Rightarrow> Mapping list \<Rightarrow>
    Regions \<times> 'a \<times> pte_memory \<Rightarrow> ((unit, VmemError) result \<times> Regions \<times> 'a \<times> pte_memory) outcome" where
  "map_loop claim l2_paddr [] st = Return (Ok (), st)"
| "map_loop claim l2_paddr (m # ms) st =
     (let (l0, l1, l2, l3) = page_table_indices (virt_addr m) in
      bind_outcome (l3_for claim l2_paddr l2 st) (\<lambda>(r, rg, a, mem).
        case r of
          Err e \<Rightarrow> Return (Err e, rg, a, mem)
        | Ok l3_paddr \<Rightarrow>
            bind_outcome (write_entry l3_paddr l3 (build_process_page (phys_addr m) (user_accessible m) (executable m)) mem)
              (\<lambda>mem. map_loop claim l2_paddr ms (rg, a, mem))))"

section \<open>The builder\<close>

record AddressSpaceBuilder =
  b_workspace :: PageTableWorkspace
  b_donation :: ProcessPagesDonation
  l0_paddr :: PhysAddr
  l2_va :: u64
  b_regions :: Regions

definition builder_new ::
  "ProcessPagesDonation \<Rightarrow> PageTableWorkspace \<Rightarrow> PageSets \<Rightarrow> pte_memory \<Rightarrow>
    ((AddressSpaceBuilder, VmemError) result \<times> pte_memory) outcome" where
  "builder_new d w s mem =
     bind_outcome (claim_zeroed d s (w, mem)) (\<lambda>(r0, w, mem). case r0 of Err e \<Rightarrow> Return (Err e, mem) | Ok l0 \<Rightarrow>
     bind_outcome (claim_zeroed d s (w, mem)) (\<lambda>(r1, w, mem). case r1 of Err e \<Rightarrow> Return (Err e, mem) | Ok l1 \<Rightarrow>
     bind_outcome (claim_zeroed d s (w, mem)) (\<lambda>(r2, w, mem). case r2 of Err e \<Rightarrow> Return (Err e, mem) | Ok l2 \<Rightarrow>
     bind_outcome (write_entry (phys_u64 l0) 0 (new_table l1) mem) (\<lambda>mem.
     bind_outcome (write_entry (phys_u64 l1) 0 (new_table l2) mem) (\<lambda>mem.
       Return (Ok \<lparr>b_workspace = w, b_donation = d, l0_paddr = l0, l2_va = phys_u64 l2, b_regions = regions_new\<rparr>, mem))))))"

definition map_batch ::
  "Mapping list \<Rightarrow> PageSets \<Rightarrow> AddressSpaceBuilder \<times> pte_memory \<Rightarrow>
    ((unit, VmemError) result \<times> AddressSpaceBuilder \<times> pte_memory) outcome" where
  "map_batch mappings s st =
     (let (b, mem) = st in
      bind_outcome (map_loop (claim_zeroed (b_donation b) s) (l2_va b) mappings (b_regions b, b_workspace b, mem)) (\<lambda>(r, rg, w, mem).
        Return (r, b\<lparr>b_regions := rg, b_workspace := w\<rparr>, mem)))"

definition finish :: "AddressSpaceBuilder \<Rightarrow> PhysAddr \<times> nat" where
  "finish b = (l0_paddr b, ws_claimed (b_workspace b))"

definition create_address_space ::
  "Platform \<Rightarrow> Mapping list \<Rightarrow> PhysMem \<times> pte_memory \<Rightarrow> ((PhysAddr, VmemError) result \<times> PhysMem \<times> pte_memory) outcome" where
  "create_address_space p mappings st =
     bind_outcome (alloc_zeroed p st) (\<lambda>(r0, st). case r0 of Err e \<Rightarrow> Return (Err e, st) | Ok l0 \<Rightarrow>
     bind_outcome (alloc_zeroed p st) (\<lambda>(r1, m, mem). case r1 of Err e \<Rightarrow> Return (Err e, m, mem) | Ok l1 \<Rightarrow>
     bind_outcome (write_entry (phys_u64 l0) 0 (new_table l1) mem) (\<lambda>mem.
     bind_outcome (alloc_zeroed p (m, mem)) (\<lambda>(r2, m, mem). case r2 of Err e \<Rightarrow> Return (Err e, m, mem) | Ok l2 \<Rightarrow>
     bind_outcome (write_entry (phys_u64 l1) 0 (new_table l2) mem) (\<lambda>mem.
     bind_outcome (map_loop (alloc_zeroed p) (phys_u64 l2) mappings (regions_new, m, mem)) (\<lambda>(r, rg, m, mem).
       case r of Err e \<Rightarrow> Return (Err e, m, mem) | Ok u \<Rightarrow> Return (Ok l0, m, mem)))))))"

section \<open>Tearing down\<close>

fun free_l3_tables :: "Platform \<Rightarrow> pte_memory \<Rightarrow> u64 \<Rightarrow> nat list \<Rightarrow> PhysMem \<Rightarrow> PhysMem outcome" where
  "free_l3_tables p mem l2_paddr [] m = Return m"
| "free_l3_tables p mem l2_paddr (i # is) m =
     bind_outcome (read_entry mem l2_paddr i) (\<lambda>entry.
       if pte_is_table entry
       then bind_outcome (dealloc_page p (containing_page (output_addr entry)) m) (free_l3_tables p mem l2_paddr is)
       else free_l3_tables p mem l2_paddr is m)"

definition free_address_space :: "Platform \<Rightarrow> pte_memory \<Rightarrow> PhysAddr \<Rightarrow> PhysMem \<Rightarrow> PhysMem outcome" where
  "free_address_space p mem ttbr0 m =
     bind_outcome (read_entry mem (phys_u64 ttbr0) 0) (\<lambda>l0_entry.
     bind_outcome
       (if pte_is_table l0_entry then
          let l1_paddr = output_addr l0_entry in
          bind_outcome (read_entry mem (phys_u64 l1_paddr) 0) (\<lambda>l1_entry.
          bind_outcome
            (if pte_is_table l1_entry then
               let l2_paddr = output_addr l1_entry in
               bind_outcome (free_l3_tables p mem (phys_u64 l2_paddr) [0..<512] m)
                 (dealloc_page p (containing_page l2_paddr))
             else Return m)
            (dealloc_page p (containing_page l1_paddr)))
        else Return m)
       (dealloc_page p (containing_page ttbr0)))"

section \<open>What a supply of tables promises\<close>

locale table_supply =
  fixes good :: "'a \<Rightarrow> bool"
    and avail :: "'a \<Rightarrow> u64 set"
    and claim :: "'a \<times> pte_memory \<Rightarrow> ((PhysAddr, VmemError) result \<times> 'a \<times> pte_memory) outcome"
    and empty_error :: VmemError
  assumes claim_cases: "good a \<Longrightarrow>
      (\<exists>t a'. (\<forall>mem. claim (a, mem) = Return (Ok (PhysAddr t), a', zero_table t mem)) \<and> good a' \<and> t \<in> avail a \<and> avail a' = avail a - {t}) \<or>
      (\<forall>mem. claim (a, mem) = Return (Err empty_error, a, mem)) \<and> avail a = {}"
    and avail_table: "good a \<Longrightarrow> t \<in> avail a \<Longrightarrow> unat t mod 4096 = 0 \<and> unat t < 2 ^ 48"
    and avail_finite: "good a \<Longrightarrow> finite (avail a)"

text \<open>The page a mapping lands on: the part of its address that the lower two indices keep.\<close>

definition map_page :: "Mapping \<Rightarrow> nat" where
  "map_page m = unat (virt_addr m) div 4096 mod 262144"

lemma map_page_less: "map_page m < 262144"
  by (simp add: map_page_def)

lemma mapping_indices: "\<exists>l0 l1. page_table_indices (virt_addr m) = (l0, l1, map_page m div 512, map_page m mod 512)"
proof -
  let ?x = "unat (virt_addr m)"
  have "?x div 2 ^ 21 mod 512 = ?x div 4096 mod 262144 div 512" "?x div 2 ^ 12 mod 512 = ?x div 4096 mod 262144 mod 512"
    by (simp_all add: div_mult2_eq [symmetric] mod_mult2_eq [of _ 512 512, simplified] mod_mod_cancel)
  then show ?thesis
    using unat_index [of 21 "virt_addr m"] unat_index [of 12 "virt_addr m"]
    by (simp add: page_table_indices_def index_of_def map_page_def)
qed

definition known :: "Regions \<Rightarrow> nat list" where
  "known rg = take (tr_count (tracker rg)) (tr_indices (tracker rg))"

definition regions_ok :: "pte_memory \<Rightarrow> u64 \<Rightarrow> Regions \<Rightarrow> bool" where
  "regions_ok mem ttbr rg \<longleftrightarrow>
     length (tr_indices (tracker rg)) = MAX_L3_TABLES \<and> length (l3_ptrs rg) = MAX_L3_TABLES \<and>
     tr_count (tracker rg) \<le> MAX_L3_TABLES \<and> distinct (known rg) \<and> set (known rg) \<subseteq> {..<512} \<and>
     (\<forall>k < tr_count (tracker rg). let e = l2_entry mem ttbr (of_nat (known rg ! k)) in
        pte_is_table e \<and> l3_ptrs rg ! k = Some (next_of e)) \<and>
     (\<forall>i < 512. i \<notin> set (known rg) \<longrightarrow> \<not> pte_is_valid (l2_entry mem ttbr (of_nat i)))"

lemma find_region_cases:
  assumes "\<forall>i \<in> set js. i < length indices"
  shows "(\<exists>k \<in> set js. indices ! k = l2 \<and> find_region indices l2 js = Return (Some k)) \<or>
    (\<forall>k \<in> set js. indices ! k \<noteq> l2) \<and> find_region indices l2 js = Return None"
  using assms by (induction js) auto

lemma tracker_lookup_spec:
  assumes "regions_ok mem ttbr rg"
  shows "if l2 \<in> set (known rg) then \<exists>k < tr_count (tracker rg). known rg ! k = l2 \<and> tracker_lookup l2 (tracker rg) = Return (Existing k)
    else tracker_lookup l2 (tracker rg) =
      Return (if length (known rg) = MAX_L3_TABLES then Full else NeedAlloc (length (known rg)))"
proof -
  let ?t = "tracker rg"
  have c: "tr_count ?t \<le> length (tr_indices ?t)" "length (known rg) = tr_count ?t" "tr_count ?t \<le> MAX_L3_TABLES"
    using assms by (auto simp: regions_ok_def known_def)
  have "\<forall>i \<in> set [0..<tr_count ?t]. i < length (tr_indices ?t)" using c by auto
  from find_region_cases [OF this, of l2] show ?thesis
  proof (elim disjE bexE conjE)
    fix k assume k: "k \<in> set [0..<tr_count ?t]" "tr_indices ?t ! k = l2" "find_region (tr_indices ?t) l2 [0..<tr_count ?t] = Return (Some k)"
    then have "known rg ! k = l2" "k < tr_count ?t" by (simp_all add: known_def)
    moreover from this have "l2 \<in> set (known rg)" using c(2) nth_mem by metis
    ultimately show ?thesis using k(3) by (auto simp: tracker_lookup_def)
  next
    assume n: "\<forall>k \<in> set [0..<tr_count ?t]. tr_indices ?t ! k \<noteq> l2" "find_region (tr_indices ?t) l2 [0..<tr_count ?t] = Return None"
    then have "l2 \<notin> set (known rg)" using c(1) by (auto simp: known_def in_set_conv_nth)
    with n(2) c show ?thesis by (auto simp: tracker_lookup_def)
  qed
qed

lemma regions_register:
  assumes "regions_ok mem ttbr rg" and "l2 < 512" and "l2 \<notin> set (known rg)" and "length (known rg) \<noteq> MAX_L3_TABLES"
    and "unat t mod 4096 = 0" and "unat t < 2 ^ 48"
    and "\<And>k. unat k < 512 \<Longrightarrow> l2_entry mem' ttbr k = (if k = of_nat l2 then new_table (PhysAddr t) else l2_entry mem ttbr k)"
  shows "\<exists>tr. tracker_register (length (known rg)) l2 (tracker rg) = Return tr \<and> length (known rg) < length (l3_ptrs rg) \<and>
    (let rg' = rg\<lparr>tracker := tr, l3_ptrs := (l3_ptrs rg)[length (known rg) := Some t]\<rparr> in
     known rg' = known rg @ [l2] \<and> regions_ok mem' ttbr rg')"
proof -
  let ?c = "tr_count (tracker rg)" and ?I = "tr_indices (tracker rg)"
  let ?tr = "(tracker rg)\<lparr>tr_indices := ?I[?c := l2], tr_count := ?c + 1\<rparr>"
  let ?rg = "rg\<lparr>tracker := ?tr, l3_ptrs := (l3_ptrs rg)[?c := Some t]\<rparr>"
  have r: "length ?I = MAX_L3_TABLES" "length (l3_ptrs rg) = MAX_L3_TABLES" "distinct (known rg)" "set (known rg) \<subseteq> {..<512}"
    "\<forall>k < ?c. let e = l2_entry mem ttbr (of_nat (known rg ! k)) in pte_is_table e \<and> l3_ptrs rg ! k = Some (next_of e)"
    "\<forall>i < 512. i \<notin> set (known rg) \<longrightarrow> \<not> pte_is_valid (l2_entry mem ttbr (of_nat i))" "?c \<le> MAX_L3_TABLES"
    using assms(1) by (simp_all add: regions_ok_def)
  have len: "length (known rg) = ?c" "?c < MAX_L3_TABLES" using r(1,7) assms(4) by (simp_all add: known_def)
  have kn: "known ?rg = known rg @ [l2]" using len(2) r(1) by (simp add: known_def take_Suc_conv_app_nth)
  have e: "l2_entry mem' ttbr (of_nat i) = (if i = l2 then new_table (PhysAddr t) else l2_entry mem ttbr (of_nat i))" if "i < 512" for i
    using assms(7) [of "of_nat i"] that assms(2) by (auto simp: unat_of_nat_512 word_unat_eq_iff)
  note nt = new_table_entry [OF assms(5,6)]
  have "let e = l2_entry mem' ttbr (of_nat (known ?rg ! k)) in pte_is_table e \<and> l3_ptrs ?rg ! k = Some (next_of e)" if "k < ?c + 1" for k
  proof (cases "k = ?c")
    case True
    then show ?thesis unfolding kn using len r(2) e [OF assms(2)] by (simp add: nth_append nt Let_def)
  next
    case False
    then have k: "k < ?c" using that by simp
    then have "known rg ! k \<in> set (known rg)" using len(1) by simp
    then have "known rg ! k < 512" "known rg ! k \<noteq> l2" using r(4) assms(3) by auto
    then show ?thesis unfolding kn using k len(1) r(5) e by (simp add: nth_append Let_def)
  qed
  moreover have "\<not> pte_is_valid (l2_entry mem' ttbr (of_nat i))" if "i < 512" "i \<notin> set (known ?rg)" for i
    using that r(6) e unfolding kn by simp
  ultimately have "regions_ok mem' ttbr ?rg"
    unfolding regions_ok_def kn using r(1-4) len assms(2,3) by (simp add: kn)
  moreover have "tracker_register ?c l2 (tracker rg) = Return ?tr" using len(2) r(1) by (simp add: tracker_register_def)
  ultimately show ?thesis using kn len r(2) by (simp add: Let_def)
qed

definition process_page :: "Mapping \<Rightarrow> PageTableEntry" where
  "process_page m = build_process_page (phys_addr m) (user_accessible m) (executable m)"

lemma process_page_valid: "pte_is_valid (process_page m)"
  by (simp add: process_page_def build_process_page_def with_pxn_def with_uxn_def new_page_def pte_kind_bits bit_or_iff pte_flag_bits)

text \<open>The address space a list of mappings describes; later mappings of a page replace earlier ones.\<close>

primrec view_after :: "Mapping list \<Rightarrow> (nat \<Rightarrow> (nat \<times> PageTableEntry) option) \<Rightarrow> nat \<Rightarrow> (nat \<times> PageTableEntry) option" where
  "view_after [] f = f"
| "view_after (m # ms) f = view_after ms (f(map_page m \<mapsto> (3, process_page m)))"

lemma view_after_cong: "\<forall>pg < n. f pg = g pg \<Longrightarrow> pg < n \<Longrightarrow> view_after ms f pg = view_after ms g pg"
proof (induction ms arbitrary: f g)
  case (Cons m ms)
  show ?case unfolding view_after.simps by (rule Cons.IH) (use Cons.prems in auto)
qed simp

definition regions_of :: "Mapping list \<Rightarrow> nat set" where
  "regions_of ms = (\<lambda>m. map_page m div 512) ` set ms"

lemma write_page_entry:
  assumes "user_tree mem ttbr" and "pg < 262144" and "pte_is_table (l2_entry mem ttbr (of_nat (pg div 512)))" and "pte_is_valid e"
  shows "\<exists>mem'. write_entry (next_of (l2_entry mem ttbr (of_nat (pg div 512)))) (pg mod 512) e mem = Return mem' \<and>
    tables_agree mem mem' ttbr \<and> (\<forall>q < 262144. page_entry mem' ttbr q = (if q = pg then Some (3, e) else page_entry mem ttbr q))"
proof -
  let ?i = "of_nat (pg div 512) :: u64" and ?j = "of_nat (pg mod 512) :: u64"
  let ?mem = "mem(slot (next_of (l2_entry mem ttbr ?i)) ?j := pte_raw e)"
  have u: "unat (of_nat (q div 512) :: u64) = q div 512" "unat (of_nat (q mod 512) :: u64) = q mod 512"
    "unat (of_nat (q div 512) :: u64) < 512" "unat (of_nat (q mod 512) :: u64) < 512" if "q < 262144" for q
    using that by (simp_all add: unat_of_nat_512)
  note p = u [OF assms(2)]
  have "page_entry ?mem ttbr q = (if q = pg then Some (3, e) else page_entry mem ttbr q)" if q: "q < 262144" for q
  proof -
    have "(of_nat (q div 512) :: u64) = ?i \<and> (of_nat (q mod 512) :: u64) = ?j \<longleftrightarrow> q = pg"
      unfolding word_unat_eq_iff u [OF q] p by (metis div_mult_mod_eq)
    then show ?thesis
      unfolding page_entry_def user_entry_write [OF assms(1) p(3) assms(3) p(4) u(3,4) [OF q], of "pte_raw e"] using assms(4) by simp
  qed
  then show ?thesis
    using l3_write_agree [OF assms(1) p(3) assms(3) p(4), of "pte_raw e"]
    by (intro exI [of _ ?mem]) (simp add: write_entry_def slot_def)
qed

lemma regions_agree: "tables_agree mem mem' ttbr \<Longrightarrow> regions_ok mem ttbr rg \<Longrightarrow> regions_ok mem' ttbr rg"
proof -
  assume a: "tables_agree mem mem' ttbr" and r: "regions_ok mem ttbr rg"
  have e: "l2_entry mem' ttbr (of_nat i) = l2_entry mem ttbr (of_nat i)" if "i < 512" for i
    using tables_agreeD(3) [OF a] that by (simp add: unat_of_nat_512)
  have "known rg ! k < 512" if "k < tr_count (tracker rg)" for k
  proof -
    have "length (known rg) = tr_count (tracker rg)" using r by (simp add: regions_ok_def known_def)
    then have "known rg ! k \<in> set (known rg)" using that by simp
    moreover have "set (known rg) \<subseteq> {..<512}" using r by (simp add: regions_ok_def)
    ultimately show ?thesis by blast
  qed
  with r e show ?thesis unfolding regions_ok_def by (simp add: Let_def)
qed

text \<open>Every state the loop passes through: a tree over tables that the supply no longer has.\<close>

context table_supply
begin

lemma l3_for_spec:
  assumes "user_tree mem ttbr" and "regions_ok mem ttbr rg" and "good a" and "tree_tables mem ttbr \<inter> avail a = {}" and "l2 < 512"
  shows "if l2 \<in> set (known rg) \<or> length (known rg) < MAX_L3_TABLES \<and> avail a \<noteq> {}
    then \<exists>rg' a' mem'. l3_for claim (l2_table mem ttbr) l2 (rg, a, mem) =
        Return (Ok (next_of (l2_entry mem' ttbr (of_nat l2))), rg', a', mem') \<and>
      user_tree mem' ttbr \<and> l2_table mem' ttbr = l2_table mem ttbr \<and> regions_ok mem' ttbr rg' \<and>
      set (known rg') = insert l2 (set (known rg)) \<and> good a' \<and> tree_tables mem' ttbr \<inter> avail a' = {} \<and>
      tree_tables mem' ttbr \<union> avail a' = tree_tables mem ttbr \<union> avail a \<and>
      card (avail a) = card (avail a') + card ({l2} - set (known rg)) \<and>
      (\<forall>pg < 262144. page_entry mem' ttbr pg = page_entry mem ttbr pg)
    else \<exists>e rg' a' mem'. l3_for claim (l2_table mem ttbr) l2 (rg, a, mem) = Return (Err e, rg', a', mem')"
proof (cases "l2 \<in> set (known rg)")
  case True
  then obtain k where k: "k < tr_count (tracker rg)" "known rg ! k = l2" "tracker_lookup l2 (tracker rg) = Return (Existing k)"
    using tracker_lookup_spec [OF assms(2), of l2] by auto
  then have "pte_is_table (l2_entry mem ttbr (of_nat l2))" "l3_ptrs rg ! k = Some (next_of (l2_entry mem ttbr (of_nat l2)))"
    "k < length (l3_ptrs rg)" using assms(2) by (auto simp: regions_ok_def Let_def)
  then have "l3_for claim (l2_table mem ttbr) l2 (rg, a, mem) = Return (Ok (next_of (l2_entry mem ttbr (of_nat l2))), rg, a, mem)"
    using k(3) by (simp add: l3_for_def)
  then show ?thesis using True assms(1-4) by (auto simp: insert_absorb)
next
  case False
  note lk = tracker_lookup_spec [OF assms(2), of l2]
  show ?thesis
  proof (cases "length (known rg) = MAX_L3_TABLES")
    case True
    then show ?thesis using False lk by (simp add: l3_for_def)
  next
    case room: False
    then have lt: "length (known rg) < MAX_L3_TABLES" using assms(2) by (simp add: regions_ok_def known_def)
    have lk': "tracker_lookup l2 (tracker rg) = Return (NeedAlloc (length (known rg)))" using lk False room by simp
    from claim_cases [OF assms(3)] show ?thesis
    proof (elim disjE exE conjE)
      fix t a'
      assume t: "\<forall>mem. claim (a, mem) = Return (Ok (PhysAddr t), a', zero_table t mem)" "good a'" "t \<in> avail a" "avail a' = avail a - {t}"
      let ?mem = "install_table ttbr (of_nat l2) t mem"
      have tt: "unat t mod 4096 = 0" "unat t < 2 ^ 48" "t \<notin> tree_tables mem ttbr" using avail_table [OF assms(3) t(3)] t(3) assms(4) by auto
      have l: "unat (of_nat l2 :: u64) < 512" using assms(5) by (simp add: unat_of_nat_512)
      have nv: "\<not> pte_is_valid (l2_entry mem ttbr (of_nat l2))" using assms(2,5) False by (simp add: regions_ok_def)
      note ie = install_entries [OF assms(1) l nv tt] and sp = install_table_spec [OF assms(1) l nv tt]
      obtain tr where tr: "tracker_register (length (known rg)) l2 (tracker rg) = Return tr" "length (known rg) < length (l3_ptrs rg)"
        "known (rg\<lparr>tracker := tr, l3_ptrs := (l3_ptrs rg)[length (known rg) := Some t]\<rparr>) = known rg @ [l2]"
        "regions_ok ?mem ttbr (rg\<lparr>tracker := tr, l3_ptrs := (l3_ptrs rg)[length (known rg) := Some t]\<rparr>)"
        using regions_register [OF assms(2,5) False room tt(1,2) ie(3)] by (auto simp: Let_def)
      have "next_of (l2_entry ?mem ttbr (of_nat l2)) = t" using ie(3) [OF l] new_table_entry(2) [OF tt(1,2)] by simp
      then have run: "l3_for claim (l2_table mem ttbr) l2 (rg, a, mem) = Return (Ok (next_of (l2_entry ?mem ttbr (of_nat l2))),
          rg\<lparr>tracker := tr, l3_ptrs := (l3_ptrs rg)[length (known rg) := Some t]\<rparr>, a', ?mem)"
        using lk' t(1) tr(1,2) assms(5) by (simp add: l3_for_def write_entry_def install_table_def slot_def)
      have "{l2} - set (known rg) = {l2}" using False by auto
      then have "card (avail a) = card (avail a') + card ({l2} - set (known rg))"
        unfolding t(4) using avail_finite [OF assms(3)] t(3) card_Suc_Diff1 [of "avail a" t] by simp
      moreover have "page_entry ?mem ttbr pg = page_entry mem ttbr pg" if "pg < 262144" for pg
        using sp(3) that by (simp add: page_entry_def unat_of_nat_512)
      moreover have c: "l2 \<in> set (known rg) \<or> length (known rg) < MAX_L3_TABLES \<and> avail a \<noteq> {}" using lt t(3) by auto
      ultimately show ?thesis
        unfolding if_P [OF c] using run sp(1,2) ie(2) tr(3,4) t(2-4) tt(3) assms(4) False
        by (intro exI conjI) (assumption | auto)+
    next
      assume "\<forall>mem. claim (a, mem) = Return (Err empty_error, a, mem)" "avail a = {}"
      then show ?thesis using False lk' by (simp add: l3_for_def)
    qed
  qed
qed

lemma map_loop_spec:
  assumes "user_tree mem ttbr" and "regions_ok mem ttbr rg" and "good a" and "tree_tables mem ttbr \<inter> avail a = {}"
  shows "if card (set (known rg) \<union> regions_of ms) \<le> MAX_L3_TABLES \<and> card (regions_of ms - set (known rg)) \<le> card (avail a)
    then \<exists>rg' a' mem'. map_loop claim (l2_table mem ttbr) ms (rg, a, mem) = Return (Ok (), rg', a', mem') \<and>
      user_tree mem' ttbr \<and> l2_table mem' ttbr = l2_table mem ttbr \<and> regions_ok mem' ttbr rg' \<and>
      set (known rg') = set (known rg) \<union> regions_of ms \<and> good a' \<and>
      tree_tables mem' ttbr \<inter> avail a' = {} \<and> tree_tables mem' ttbr \<union> avail a' = tree_tables mem ttbr \<union> avail a \<and>
      (\<forall>pg < 262144. page_entry mem' ttbr pg = view_after ms (page_entry mem ttbr) pg)
    else \<exists>e rg' a' mem'. map_loop claim (l2_table mem ttbr) ms (rg, a, mem) = Return (Err e, rg', a', mem')"
  using assms
proof (induction ms arbitrary: rg a mem)
  case Nil
  have "length (known rg) \<le> MAX_L3_TABLES" "distinct (known rg)" using Nil.prems by (simp_all add: regions_ok_def known_def)
  then have "card (set (known rg)) \<le> MAX_L3_TABLES" by (simp add: distinct_card)
  then show ?case using Nil.prems by (simp add: regions_of_def)
next
  case (Cons m ms)
  let ?l2 = "map_page m div 512" and ?K = "set (known rg)"
  obtain l0 l1 where ix: "page_table_indices (virt_addr m) = (l0, l1, ?l2, map_page m mod 512)" using mapping_indices by blast
  have l2: "?l2 < 512" using map_page_less [of m] by simp
  have cK: "card ?K = length (known rg)" using Cons.prems(2) by (simp add: regions_ok_def distinct_card)
  have R: "regions_of (m # ms) = insert ?l2 (regions_of ms)" "finite (regions_of ms)" by (simp_all add: regions_of_def)
  note l3 = l3_for_spec [OF Cons.prems l2]
  show ?case
  proof (cases "?l2 \<in> ?K \<or> length (known rg) < MAX_L3_TABLES \<and> avail a \<noteq> {}")
    case True
    then obtain rg1 a1 mem1 where 1: "l3_for claim (l2_table mem ttbr) ?l2 (rg, a, mem) =
        Return (Ok (next_of (l2_entry mem1 ttbr (of_nat ?l2))), rg1, a1, mem1)"
      "user_tree mem1 ttbr" "l2_table mem1 ttbr = l2_table mem ttbr" "regions_ok mem1 ttbr rg1" "set (known rg1) = insert ?l2 ?K"
      "good a1" "tree_tables mem1 ttbr \<inter> avail a1 = {}" "tree_tables mem1 ttbr \<union> avail a1 = tree_tables mem ttbr \<union> avail a"
      "card (avail a) = card (avail a1) + card ({?l2} - ?K)" "\<forall>pg < 262144. page_entry mem1 ttbr pg = page_entry mem ttbr pg"
      using l3 by auto
    have "?l2 \<in> set (known rg1)" using 1(5) by simp
    then have tab: "pte_is_table (l2_entry mem1 ttbr (of_nat ?l2))"
      using 1(4) by (auto simp: regions_ok_def Let_def in_set_conv_nth known_def)
    obtain mem2 where 2: "write_entry (next_of (l2_entry mem1 ttbr (of_nat ?l2))) (map_page m mod 512) (process_page m) mem1 = Return mem2"
      "tables_agree mem1 mem2 ttbr"
      "\<forall>q < 262144. page_entry mem2 ttbr q = (if q = map_page m then Some (3, process_page m) else page_entry mem1 ttbr q)"
      using write_page_entry [OF 1(2) map_page_less tab process_page_valid] by blast
    note ag = tables_agree_tree [OF 2(2) 1(2)] tables_agreeD(2) [OF 2(2)] regions_agree [OF 2(2) 1(4)] tables_agree_tables [OF 2(2)]
    have step: "map_loop claim (l2_table mem ttbr) (m # ms) (rg, a, mem) = map_loop claim (l2_table mem2 ttbr) ms (rg1, a1, mem2)"
      using ix 1(1,3) 2(1) ag(2) by (simp add: process_page_def)
    note IH = Cons.IH [OF ag(1,3) 1(6), unfolded ag(4), OF 1(7)]
    have sets: "?K \<union> regions_of (m # ms) = set (known rg1) \<union> regions_of ms"
      "card (regions_of (m # ms) - ?K) = card ({?l2} - ?K) + card (regions_of ms - set (known rg1))"
    proof -
      show "?K \<union> regions_of (m # ms) = set (known rg1) \<union> regions_of ms" unfolding R 1(5) by auto
      have "regions_of (m # ms) - ?K = ({?l2} - ?K) \<union> (regions_of ms - set (known rg1))" unfolding R 1(5) by auto
      moreover have "({?l2} - ?K) \<inter> (regions_of ms - set (known rg1)) = {}" unfolding 1(5) by auto
      ultimately show "card (regions_of (m # ms) - ?K) = card ({?l2} - ?K) + card (regions_of ms - set (known rg1))"
        using R(2) by (simp add: card_Un_disjoint)
    qed
    have view: "view_after ms (page_entry mem2 ttbr) pg = view_after (m # ms) (page_entry mem ttbr) pg" if "pg < 262144" for pg
      unfolding view_after.simps by (rule view_after_cong [OF _ that]) (use 1(10) 2(3) in simp)
    show ?thesis unfolding step sets 1(9) using IH view 1(3,8) ag(2) by (auto split: if_splits)
  next
    case False
    then obtain e rg' a' mem' where "l3_for claim (l2_table mem ttbr) ?l2 (rg, a, mem) = Return (Err e, rg', a', mem')"
      using l3 by auto
    then have "map_loop claim (l2_table mem ttbr) (m # ms) (rg, a, mem) = Return (Err e, rg', a', mem')" using ix by simp
    moreover have "\<not> (card (?K \<union> regions_of (m # ms)) \<le> MAX_L3_TABLES \<and> card (regions_of (m # ms) - ?K) \<le> card (avail a))"
    proof (cases "avail a = {}")
      case True
      have "?l2 \<in> regions_of (m # ms) - ?K" using False R by simp
      then have "0 < card (regions_of (m # ms) - ?K)" using R by (metis card_gt_0_iff empty_iff finite_Diff finite_insert)
      with True show ?thesis by simp
    next
      case nonempty: False
      with False have "MAX_L3_TABLES \<le> card ?K" "?l2 \<notin> ?K" using cK by auto
      then have "MAX_L3_TABLES < card (insert ?l2 ?K)" by simp
      also have "\<dots> \<le> card (?K \<union> regions_of (m # ms))" unfolding R using R(2) by (intro card_mono) auto
      finally show ?thesis by simp
    qed
    ultimately show ?thesis by simp
  qed
qed

text \<open>Three claims in a row, as the root of an address space needs, or the error of the first that fails.\<close>

lemma three_claims:
  assumes "good a"
  obtains (ok) t0 a0 t1 a1 t2 a2 where "3 \<le> card (avail a)" "\<And>mem. claim (a, mem) = Return (Ok (PhysAddr t0), a0, zero_table t0 mem)"
      "\<And>mem. claim (a0, mem) = Return (Ok (PhysAddr t1), a1, zero_table t1 mem)"
      "\<And>mem. claim (a1, mem) = Return (Ok (PhysAddr t2), a2, zero_table t2 mem)" "good a2" "distinct [t0, t1, t2]"
      "{t0, t1, t2} \<subseteq> avail a" "avail a2 = avail a - {t0, t1, t2}" "card (avail a) = 3 + card (avail a2)"
      "\<forall>t \<in> {t0, t1, t2}. unat t mod 4096 = 0 \<and> unat t < 2 ^ 48"
  | (fail0) "card (avail a) < 3" "\<And>mem. claim (a, mem) = Return (Err empty_error, a, mem)"
  | (fail1) t0 a0 where "card (avail a) < 3" "\<And>mem. claim (a, mem) = Return (Ok (PhysAddr t0), a0, zero_table t0 mem)"
      "\<And>mem. claim (a0, mem) = Return (Err empty_error, a0, mem)"
  | (fail2) t0 a0 t1 a1 where "card (avail a) < 3" "\<And>mem. claim (a, mem) = Return (Ok (PhysAddr t0), a0, zero_table t0 mem)"
      "\<And>mem. claim (a0, mem) = Return (Ok (PhysAddr t1), a1, zero_table t1 mem)"
      "\<And>mem. claim (a1, mem) = Return (Err empty_error, a1, mem)"
proof -
  have ch: "card (avail a) = Suc (card (avail a'))" if "good a" "t \<in> avail a" "avail a' = avail a - {t}" for a a' t
    unfolding that(3) using avail_finite [OF that(1)] that(2) by (metis card_Suc_Diff1)
  from claim_cases [OF assms] show thesis
  proof (elim disjE exE conjE)
    fix t0 a0 assume 0: "\<forall>mem. claim (a, mem) = Return (Ok (PhysAddr t0), a0, zero_table t0 mem)" "good a0" "t0 \<in> avail a" "avail a0 = avail a - {t0}"
    note c0 = ch [OF assms 0(3,4)]
    from claim_cases [OF 0(2)] show thesis
    proof (elim disjE exE conjE)
      fix t1 a1 assume 1: "\<forall>mem. claim (a0, mem) = Return (Ok (PhysAddr t1), a1, zero_table t1 mem)" "good a1" "t1 \<in> avail a0" "avail a1 = avail a0 - {t1}"
      note c1 = ch [OF 0(2) 1(3,4)]
      from claim_cases [OF 1(2)] show thesis
      proof (elim disjE exE conjE)
        fix t2 a2 assume 2: "\<forall>mem. claim (a1, mem) = Return (Ok (PhysAddr t2), a2, zero_table t2 mem)" "good a2" "t2 \<in> avail a1" "avail a2 = avail a1 - {t2}"
        note c2 = ch [OF 1(2) 2(3,4)]
        have sub: "{t0, t1, t2} \<subseteq> avail a" "distinct [t0, t1, t2]" "avail a2 = avail a - {t0, t1, t2}"
          using 0(3,4) 1(3,4) 2(3,4) by auto
        have "\<forall>t \<in> {t0, t1, t2}. unat t mod 4096 = 0 \<and> unat t < 2 ^ 48"
          using avail_table [OF assms subsetD [OF sub(1)]] by (rule ballI)
        then show thesis
          by (intro ok [of t0 a0 t1 a1 t2 a2]) (use 0(1) 1(1) 2(1,2) sub c0 c1 c2 in simp_all)
      qed (rule fail2 [of t0 a0 t1 a1], use 0(1) 1(1) c0 c1 in simp_all)
    qed (rule fail1 [of t0 a0], use 0(1) c0 in simp_all)
  qed (rule fail0, simp_all)
qed

end

section \<open>Two supplies\<close>

text \<open>The frame allocator with a fixed set of frames \<open>U\<close>, each free or taken.\<close>

definition frames_in :: "Platform \<Rightarrow> PhysPage set \<Rightarrow> PhysMem \<Rightarrow> bool" where
  "frames_in p U m \<longleftrightarrow> frames_ok p m \<and> ram_addressable p \<and> free_frames p m \<union> taken_frames p m = U"

lemma alloc_zeroed_cases:
  assumes "frames_in p U m"
  shows "(\<exists>t m'. (\<forall>mem. alloc_zeroed p (m, mem) = Return (Ok (PhysAddr t), m', zero_table t mem)) \<and> frames_in p U m' \<and>
      t \<in> frame_paddr ` free_frames p m \<and> frame_paddr ` free_frames p m' = frame_paddr ` free_frames p m - {t}) \<or>
    (\<forall>mem. alloc_zeroed p (m, mem) = Return (Err OutOfPages, m, mem)) \<and> frame_paddr ` free_frames p m = {}"
proof -
  have ok: "frames_ok p m" using assms by (simp add: frames_in_def)
  from alloc_page_cases [OF ok] show ?thesis
  proof (elim disjE exE conjE)
    fix f m' assume f: "alloc_page p m = Return (Some f, m')" "frames_ok p m'" "f \<in> free_frames p m" "free_frames p m' = free_frames p m - {f}"
      "taken_frames p m' = insert f (taken_frames p m)"
    have "start_addr f = PhysAddr (frame_paddr f)" by (simp add: frame_paddr_def)
    moreover have "frame_paddr ` free_frames p m' = frame_paddr ` free_frames p m - {frame_paddr f}"
      unfolding f(4) using inj_on_image_set_diff [OF frame_paddr_inj [OF ok], of "free_frames p m" "{f}"] f(3) by auto
    moreover have "frames_in p U m'" using assms f(2-5) by (auto simp: frames_in_def)
    ultimately show ?thesis using f(1,3) by (auto simp: alloc_zeroed_def)
  qed (simp add: alloc_zeroed_def)
qed

interpretation frame_supply: table_supply "frames_in p U" "\<lambda>m. frame_paddr ` free_frames p m" "alloc_zeroed p" OutOfPages for p U
proof unfold_locales
  fix m t assume "frames_in p U m" "t \<in> frame_paddr ` free_frames p m"
  then show "unat t mod 4096 = 0 \<and> unat t < 2 ^ 48"
    using free_frame_table [of p m] by (auto simp: table_frame_def frames_in_def)
qed (rule alloc_zeroed_cases, assumption, simp add: free_frames_finite frames_in_def)

definition donated :: "ProcessPagesDonation \<Rightarrow> PageSets \<Rightarrow> nat \<Rightarrow> u64" where
  "donated d s i = page_words (headers s (kva_u64 (don_header_kva d))) i"

definition workspace_left :: "ProcessPagesDonation \<Rightarrow> PageSets \<Rightarrow> PageTableWorkspace \<Rightarrow> u64 set" where
  "workspace_left d s w = donated d s ` {PROCESS_KERNEL_OBJ_PAGES + ws_claimed w..<PROCESS_KERNEL_OBJ_PAGES + ws_capacity w}"

definition donation_ready :: "ProcessPagesDonation \<Rightarrow> PageSets \<Rightarrow> nat \<Rightarrow> PageTableWorkspace \<Rightarrow> bool" where
  "donation_ready d s cap w \<longleftrightarrow>
     read_header_backed (don_header_kva d) s = Return (backed (headers s (kva_u64 (don_header_kva d))) (don_count d)) \<and>
     PROCESS_KERNEL_OBJ_PAGES + cap \<le> don_count d \<and> ws_capacity w = cap \<and> ws_claimed w \<le> cap \<and>
     inj_on (donated d s) {PROCESS_KERNEL_OBJ_PAGES..<PROCESS_KERNEL_OBJ_PAGES + cap} \<and>
     (\<forall>t \<in> donated d s ` {PROCESS_KERNEL_OBJ_PAGES..<PROCESS_KERNEL_OBJ_PAGES + cap}. unat t mod 4096 = 0 \<and> unat t < 2 ^ 48)"

lemma claim_zeroed_cases:
  assumes "donation_ready d s cap w"
  shows "(\<exists>t w'. (\<forall>mem. claim_zeroed d s (w, mem) = Return (Ok (PhysAddr t), w', zero_table t mem)) \<and> donation_ready d s cap w' \<and>
      t \<in> workspace_left d s w \<and> workspace_left d s w' = workspace_left d s w - {t}) \<or>
    (\<forall>mem. claim_zeroed d s (w, mem) = Return (Err OutOfPageTables, w, mem)) \<and> workspace_left d s w = {}"
proof (cases "ws_capacity w \<le> ws_claimed w")
  case True
  then show ?thesis by (simp add: claim_zeroed_def ws_claim_def workspace_left_def)
next
  case False
  let ?i = "PROCESS_KERNEL_OBJ_PAGES + ws_claimed w" and ?w = "w\<lparr>ws_claimed := ws_claimed w + 1\<rparr>"
  let ?A = "{PROCESS_KERNEL_OBJ_PAGES + ws_claimed w..<PROCESS_KERNEL_OBJ_PAGES + ws_capacity w}"
  have inj: "inj_on (donated d s) ?A" using assms by (auto simp: donation_ready_def intro: inj_on_subset)
  have "read_header_backed (don_header_kva d) s = Return (backed (headers s (kva_u64 (don_header_kva d))) (don_count d))"
    "?i < don_count d" using assms False by (simp_all add: donation_ready_def)
  then have "donation_page_paddr d ?i s = Return (Some (PhysAddr (donated d s ?i)))"
    by (simp add: donation_page_paddr_def get_page_covered donated_def) (simp add: backed_def)
  then have "\<forall>mem. claim_zeroed d s (w, mem) = Return (Ok (PhysAddr (donated d s ?i)), ?w, zero_table (donated d s ?i) mem)"
    using False by (simp add: claim_zeroed_def ws_claim_def)
  moreover have "donation_ready d s cap ?w" using assms False by (simp add: donation_ready_def)
  moreover have "{Suc ?i..<PROCESS_KERNEL_OBJ_PAGES + ws_capacity w} = ?A - {?i}" by auto
  then have "workspace_left d s ?w = workspace_left d s w - {donated d s ?i}"
    using inj_on_image_set_diff [OF inj, of ?A "{?i}"] False by (simp add: workspace_left_def)
  moreover have "donated d s ?i \<in> workspace_left d s w" using False by (simp add: workspace_left_def)
  ultimately show ?thesis by blast
qed

interpretation workspace_supply: table_supply "donation_ready d s cap" "workspace_left d s" "claim_zeroed d s" OutOfPageTables for d s cap
proof unfold_locales
  fix w t assume w: "donation_ready d s cap w" and t: "t \<in> workspace_left d s w"
  have "workspace_left d s w \<subseteq> donated d s ` {PROCESS_KERNEL_OBJ_PAGES..<PROCESS_KERNEL_OBJ_PAGES + cap}"
    using w unfolding workspace_left_def by (intro image_mono) (auto simp: donation_ready_def)
  then have "t \<in> donated d s ` {PROCESS_KERNEL_OBJ_PAGES..<PROCESS_KERNEL_OBJ_PAGES + cap}" using t by (rule subsetD)
  moreover have "\<forall>t \<in> donated d s ` {PROCESS_KERNEL_OBJ_PAGES..<PROCESS_KERNEL_OBJ_PAGES + cap}.
      unat t mod 4096 = 0 \<and> unat t < 2 ^ 48" using w unfolding donation_ready_def by (elim conjE)
  ultimately show "unat t mod 4096 = 0 \<and> unat t < 2 ^ 48" by (rule bspec [rotated])
qed (rule claim_zeroed_cases, assumption, simp add: workspace_left_def)

section \<open>The root of an address space\<close>

lemma fresh_root:
  assumes "distinct [t0, t1, t2]" and "\<forall>t \<in> {t0, t1, t2}. unat t mod 4096 = 0 \<and> unat t < 2 ^ 48"
    and "entry_at mem (slot t0 0) = new_table (PhysAddr t1)" and "entry_at mem (slot t1 0) = new_table (PhysAddr t2)"
    and "\<And>i. unat i < 512 \<Longrightarrow> entry_at mem (slot t2 i) = pte_empty"
  shows "user_tree mem t0" and "l2_table mem t0 = t2" and "tree_tables mem t0 = {t0, t1, t2}"
    and "regions_ok mem t0 regions_new" and "pg < 262144 \<Longrightarrow> page_entry mem t0 pg = None"
proof -
  have nt: "pte_is_table (new_table (PhysAddr t1))" "next_of (new_table (PhysAddr t1)) = t1"
    "pte_is_table (new_table (PhysAddr t2))" "next_of (new_table (PhysAddr t2)) = t2"
    using new_table_entry assms(2) by simp_all
  have l: "l1_table mem t0 = t1" using assms(3) by (simp add: l1_table_def slot_0 nt)
  show l2: "l2_table mem t0 = t2" using assms(4) by (simp add: l2_table_def l slot_0 nt)
  have e: "l2_entry mem t0 i = pte_empty" if "unat i < 512" for i using assms(5) [OF that] by (simp add: l2_entry_def l2)
  have z: "\<not> pte_is_valid pte_empty" "\<not> pte_is_table pte_empty" "\<not> pte_is_block pte_empty"
    by (simp_all add: pte_empty_def pte_kind_bits)
  show "user_tree mem t0" using assms(1-4) e z by (auto simp: user_tree_def l l2 slot_0 nt)
  have "{i. unat i < 512 \<and> pte_is_table (l2_entry mem t0 i)} = {}" using e z by auto
  then show "tree_tables mem t0 = {t0, t1, t2}" by (simp only: tree_tables_def l l2) simp
  show "regions_ok mem t0 regions_new"
    using e z by (simp add: regions_ok_def regions_new_def tracker_new_def known_def unat_of_nat_512)
  show "page_entry mem t0 pg = None" if "pg < 262144"
    using e [of "of_nat (pg div 512)"] that z by (simp add: page_entry_def user_entry_def Let_def unat_of_nat_512)
qed

text \<open>Claiming three tables and linking them, whether before or between the claims.\<close>

lemma root_entries:
  assumes "distinct [t0, t1, t2]" and "\<forall>t \<in> {t0, t1, t2}. unat t mod 4096 = 0 \<and> unat t < 2 ^ 48"
    and "mem' \<in> {(zero_table t2 ((zero_table t1 (zero_table t0 mem))(slot t0 0 := a)))(slot t1 0 := b),
      ((zero_table t2 (zero_table t1 (zero_table t0 mem)))(slot t0 0 := a))(slot t1 0 := b)}"
  shows "entry_at mem' (slot t0 0) = PageTableEntry a" and "entry_at mem' (slot t1 0) = PageTableEntry b"
    and "unat i < 512 \<Longrightarrow> entry_at mem' (slot t2 i) = pte_empty"
  using assms by (auto simp: entry_at_write entry_at_zero)

lemma linked_root:
  assumes "distinct [t0, t1, t2]" and "\<forall>t \<in> {t0, t1, t2}. unat t mod 4096 = 0 \<and> unat t < 2 ^ 48"
    and "mem' \<in> {(zero_table t2 ((zero_table t1 (zero_table t0 mem))(slot t0 0 := pte_raw (new_table (PhysAddr t1)))))
        (slot t1 0 := pte_raw (new_table (PhysAddr t2))),
      ((zero_table t2 (zero_table t1 (zero_table t0 mem)))(slot t0 0 := pte_raw (new_table (PhysAddr t1))))
        (slot t1 0 := pte_raw (new_table (PhysAddr t2)))}"
  shows "user_tree mem' t0" and "l2_table mem' t0 = t2" and "tree_tables mem' t0 = {t0, t1, t2}"
    and "regions_ok mem' t0 regions_new" and "pg < 262144 \<Longrightarrow> page_entry mem' t0 pg = None"
proof -
  note re = root_entries [OF assms, unfolded PageTableEntry.collapse]
  show "user_tree mem' t0" "l2_table mem' t0 = t2" "tree_tables mem' t0 = {t0, t1, t2}"
    "regions_ok mem' t0 regions_new" "pg < 262144 \<Longrightarrow> page_entry mem' t0 pg = None"
    by (rule fresh_root [OF assms(1,2) re]; assumption)+
qed

lemma create_spec:
  assumes "frames_in p U m"
  shows "if card (regions_of ms) \<le> MAX_L3_TABLES \<and> 3 + card (regions_of ms) \<le> card (free_frames p m)
    then \<exists>t0 m' mem'. create_address_space p ms (m, mem) = Return (Ok (PhysAddr t0), m', mem') \<and> frames_in p U m' \<and>
      user_tree mem' t0 \<and> tree_tables mem' t0 \<inter> frame_paddr ` free_frames p m' = {} \<and>
      tree_tables mem' t0 \<union> frame_paddr ` free_frames p m' = frame_paddr ` free_frames p m \<and>
      (\<forall>pg < 262144. page_entry mem' t0 pg = view_after ms (\<lambda>_. None) pg)
    else \<exists>e m' mem'. create_address_space p ms (m, mem) = Return (Err e, m', mem')"
proof -
  let ?A = "\<lambda>m. frame_paddr ` free_frames p m"
  have cd: "card (?A m) = card (free_frames p m)"
    using assms frame_paddr_inj [of p m] by (simp add: card_image frames_in_def)
  show ?thesis
  proof (cases rule: frame_supply.three_claims [OF assms, case_names ok fail0 fail1 fail2])
    case (ok t0 m0 t1 m1 t2 m2)
    let ?mem = "(zero_table t2 ((zero_table t1 (zero_table t0 mem))(slot t0 0 := pte_raw (new_table (PhysAddr t1)))))
      (slot t1 0 := pte_raw (new_table (PhysAddr t2)))"
    note fr = linked_root [OF ok(6,10), of ?mem mem, OF insertI1]
    have run: "create_address_space p ms (m, mem) =
        bind_outcome (map_loop (alloc_zeroed p) (l2_table ?mem t0) ms (regions_new, m2, ?mem)) (\<lambda>(r, rg, m, mem).
          case r of Err e \<Rightarrow> Return (Err e, m, mem) | Ok u \<Rightarrow> Return (Ok (PhysAddr t0), m, mem))"
      unfolding fr(2) by (simp add: create_address_space_def ok(2-4) write_entry_def slot_0)
    have tree: "tree_tables ?mem t0 \<inter> ?A m2 = {}" "tree_tables ?mem t0 \<union> ?A m2 = ?A m" unfolding fr(3) using ok(7,8) by auto
    have kn: "known regions_new = []" by (simp add: known_def regions_new_def tracker_new_def)
    have card: "3 + card (regions_of ms) \<le> card (free_frames p m) \<longleftrightarrow> card (regions_of ms) \<le> card (?A m2)" using ok(9) cd by simp
    have view: "view_after ms (page_entry ?mem t0) pg = view_after ms (\<lambda>_. None) pg" if "pg < 262144" for pg
      by (rule view_after_cong [OF _ that]) (use fr(5) in simp)
    show ?thesis
      using frame_supply.map_loop_spec [OF fr(1,4) ok(5) tree(1), of ms] unfolding card run
      by (auto simp: kn tree(2) view split: if_splits)
  qed (use cd in \<open>auto simp: create_address_space_def write_entry_def slot_0\<close>)
qed

section \<open>The builder\<close>

definition builder_ok :: "nat \<Rightarrow> PageSets \<Rightarrow> AddressSpaceBuilder \<Rightarrow> pte_memory \<Rightarrow> bool" where
  "builder_ok cap s b mem \<longleftrightarrow>
     (let t = phys_u64 (l0_paddr b) in
      user_tree mem t \<and> l2_va b = l2_table mem t \<and> regions_ok mem t (b_regions b) \<and>
      donation_ready (b_donation b) s cap (b_workspace b) \<and> tree_tables mem t \<inter> workspace_left (b_donation b) s (b_workspace b) = {})"

text \<open>The batches the caller flushes, in order, until one fails.\<close>

fun map_batches ::
  "Mapping list list \<Rightarrow> PageSets \<Rightarrow> AddressSpaceBuilder \<times> pte_memory \<Rightarrow>
    ((unit, VmemError) result \<times> AddressSpaceBuilder \<times> pte_memory) outcome" where
  "map_batches [] s st = Return (Ok (), st)"
| "map_batches (ms # mss) s st =
     bind_outcome (map_batch ms s st) (\<lambda>(r, st). case r of Err e \<Rightarrow> Return (Err e, st) | Ok u \<Rightarrow> map_batches mss s st)"

lemma map_batch_spec:
  assumes "builder_ok cap s b mem"
  shows "let K = set (known (b_regions b)); L = workspace_left (b_donation b) s (b_workspace b); t = phys_u64 (l0_paddr b) in
    if card (K \<union> regions_of ms) \<le> MAX_L3_TABLES \<and> card (regions_of ms - K) \<le> card L
    then \<exists>b' mem'. map_batch ms s (b, mem) = Return (Ok (), b', mem') \<and> builder_ok cap s b' mem' \<and>
      l0_paddr b' = l0_paddr b \<and> b_donation b' = b_donation b \<and> set (known (b_regions b')) = K \<union> regions_of ms \<and>
      tree_tables mem' t \<union> workspace_left (b_donation b) s (b_workspace b') = tree_tables mem t \<union> L \<and>
      (\<forall>pg < 262144. page_entry mem' t pg = view_after ms (page_entry mem t) pg)
    else \<exists>e b' mem'. map_batch ms s (b, mem) = Return (Err e, b', mem')"
proof -
  have o: "user_tree mem (phys_u64 (l0_paddr b))" "l2_va b = l2_table mem (phys_u64 (l0_paddr b))"
    "regions_ok mem (phys_u64 (l0_paddr b)) (b_regions b)" "donation_ready (b_donation b) s cap (b_workspace b)"
    "tree_tables mem (phys_u64 (l0_paddr b)) \<inter> workspace_left (b_donation b) s (b_workspace b) = {}"
    using assms by (simp_all add: builder_ok_def Let_def)
  show ?thesis
    using workspace_supply.map_loop_spec [OF o(1,3,4,5), of ms]
    by (auto simp: map_batch_def o(2) Let_def builder_ok_def split: if_splits)
qed

text \<open>Splitting the mappings into batches changes nothing.\<close>

lemma map_loop_append:
  "map_loop claim l2 (xs @ ys) st =
    bind_outcome (map_loop claim l2 xs st) (\<lambda>(r, st). case r of Err e \<Rightarrow> Return (Err e, st) | Ok u \<Rightarrow> map_loop claim l2 ys st)"
proof (induction xs arbitrary: st)
  case (Cons m xs)
  obtain l0 l1 k j where ix: "page_table_indices (virt_addr m) = (l0, l1, k, j)" by (cases "page_table_indices (virt_addr m)")
  show ?case
  proof (cases "l3_for claim l2 k st")
    case (Return x)
    then obtain r rg a mem where x: "l3_for claim l2 k st = Return (r, rg, a, mem)" by (cases x) auto
    show ?thesis
    proof (cases r)
      case (Ok t)
      then show ?thesis
        using x ix Cons.IH by (cases "write_entry t j (build_process_page (phys_addr m) (user_accessible m) (executable m)) mem") simp_all
    qed (use x ix in simp)
  qed (use ix in simp_all)
qed simp

lemma map_batches_concat: "map_batches mss s st = map_batch (concat mss) s st"
proof (induction mss arbitrary: st)
  case Nil
  then show ?case by (cases st) (simp add: map_batch_def)
next
  case (Cons ms mss)
  obtain b mem where st: "st = (b, mem)" by (cases st)
  let ?c = "claim_zeroed (b_donation b) s"
  show ?case
  proof (cases "map_loop ?c (l2_va b) ms (b_regions b, b_workspace b, mem)")
    case (Return x)
    then obtain r rg w mem' where x: "map_loop ?c (l2_va b) ms (b_regions b, b_workspace b, mem) = Return (r, rg, w, mem')" by (cases x) auto
    then have b: "map_batch ms s st = Return (r, b\<lparr>b_regions := rg, b_workspace := w\<rparr>, mem')" by (simp add: map_batch_def st)
    show ?thesis
    proof (cases r)
      case (Ok u)
      have "map_batches (ms # mss) s st = map_batch (concat mss) s (b\<lparr>b_regions := rg, b_workspace := w\<rparr>, mem')"
        using b Ok Cons.IH by simp
      also have "\<dots> = map_batch (concat (ms # mss)) s st" using x Ok by (simp add: map_batch_def st map_loop_append)
      finally show ?thesis .
    qed (use b x in \<open>simp add: map_batch_def st map_loop_append\<close>)
  qed (simp_all add: map_batch_def st map_loop_append)
qed

definition build_address_space ::
  "ProcessPagesDonation \<Rightarrow> PageSets \<Rightarrow> nat \<Rightarrow> Mapping list list \<Rightarrow> pte_memory \<Rightarrow>
    ((PhysAddr \<times> nat, VmemError) result \<times> pte_memory) outcome" where
  "build_address_space d s cap mss mem =
     bind_outcome (builder_new d (ws_new cap) s mem) (\<lambda>(r, mem).
       case r of
         Err e \<Rightarrow> Return (Err e, mem)
       | Ok b \<Rightarrow>
           bind_outcome (map_batches mss s (b, mem)) (\<lambda>(r, b, mem).
             case r of Err e \<Rightarrow> Return (Err e, mem) | Ok u \<Rightarrow> Return (Ok (finish b), mem)))"

lemma builder_new_spec:
  assumes "donation_ready d s cap w"
  shows "if 3 \<le> card (workspace_left d s w)
    then \<exists>b mem'. builder_new d w s mem = Return (Ok b, mem') \<and> builder_ok cap s b mem' \<and> b_donation b = d \<and> known (b_regions b) = [] \<and>
      card (workspace_left d s w) = 3 + card (workspace_left d s (b_workspace b)) \<and>
      tree_tables mem' (phys_u64 (l0_paddr b)) \<union> workspace_left d s (b_workspace b) = workspace_left d s w \<and>
      (\<forall>pg < 262144. page_entry mem' (phys_u64 (l0_paddr b)) pg = None)
    else \<exists>e mem'. builder_new d w s mem = Return (Err e, mem')"
proof (cases rule: workspace_supply.three_claims [OF assms, case_names ok fail0 fail1 fail2])
  case (ok t0 w0 t1 w1 t2 w2)
  let ?mem = "((zero_table t2 (zero_table t1 (zero_table t0 mem)))(slot t0 0 := pte_raw (new_table (PhysAddr t1))))
      (slot t1 0 := pte_raw (new_table (PhysAddr t2)))"
  let ?b = "\<lparr>b_workspace = w2, b_donation = d, l0_paddr = PhysAddr t0, l2_va = t2, b_regions = regions_new\<rparr>"
  note fr = linked_root [OF ok(6,10), of ?mem mem, OF insertI2 [OF singletonI]]
  have "builder_new d w s mem = Return (Ok ?b, ?mem)"
    by (simp add: builder_new_def ok(2-4) write_entry_def slot_0)
  moreover have "builder_ok cap s ?b ?mem" unfolding builder_ok_def using fr(1-4) ok(5,7,8) by (auto simp: Let_def)
  moreover have "known regions_new = []" by (simp add: known_def regions_new_def tracker_new_def)
  moreover have "tree_tables ?mem t0 \<union> workspace_left d s w2 = workspace_left d s w" unfolding fr(3) using ok(7,8) by auto
  ultimately show ?thesis unfolding if_P [OF ok(1)] using fr(5) ok(9) by (intro exI [of _ ?b] exI [of _ ?mem]) simp
qed (auto simp: builder_new_def)

lemma build_spec:
  assumes "donation_ready d s cap (ws_new cap)"
  shows "if card (regions_of (concat mss)) \<le> MAX_L3_TABLES \<and> 3 + card (regions_of (concat mss)) \<le> cap
    then \<exists>t0 n mem'. build_address_space d s cap mss mem = Return (Ok (PhysAddr t0, n), mem') \<and> user_tree mem' t0 \<and> n \<le> cap \<and>
      tree_tables mem' t0 = donated d s ` {PROCESS_KERNEL_OBJ_PAGES..<PROCESS_KERNEL_OBJ_PAGES + n} \<and>
      (\<forall>pg < 262144. page_entry mem' t0 pg = view_after (concat mss) (\<lambda>_. None) pg)
    else \<exists>e mem'. build_address_space d s cap mss mem = Return (Err e, mem')"
proof -
  let ?R = "card (regions_of (concat mss))" and ?I = "{PROCESS_KERNEL_OBJ_PAGES..<PROCESS_KERNEL_OBJ_PAGES + cap}"
  have L: "workspace_left d s (ws_new cap) = donated d s ` ?I" by (simp add: workspace_left_def ws_new_def)
  have inj: "inj_on (donated d s) ?I" using assms by (simp add: donation_ready_def ws_new_def)
  then have cd: "card (workspace_left d s (ws_new cap)) = cap" unfolding L by (simp add: card_image)
  show ?thesis
  proof (cases "3 \<le> cap")
    case True
    then obtain b mem1 where b: "builder_new d (ws_new cap) s mem = Return (Ok b, mem1)" "builder_ok cap s b mem1" "b_donation b = d"
      "known (b_regions b) = []" "cap = 3 + card (workspace_left d s (b_workspace b))"
      "tree_tables mem1 (phys_u64 (l0_paddr b)) \<union> workspace_left d s (b_workspace b) = donated d s ` ?I"
      "\<forall>pg < 262144. page_entry mem1 (phys_u64 (l0_paddr b)) pg = None"
      using builder_new_spec [OF assms, of mem, unfolded cd, unfolded L, unfolded if_P [OF True]] by blast
    have view: "view_after ms (page_entry mem1 (phys_u64 (l0_paddr b))) pg = view_after ms (\<lambda>_. None) pg" if "pg < 262144" for pg ms
      by (rule view_after_cong [OF _ that]) (use b(7) in simp)
    note mb = map_batch_spec [OF b(2), of "concat mss", unfolded b(3,4) Let_def, simplified]
    show ?thesis
    proof (cases "?R \<le> MAX_L3_TABLES \<and> 3 + ?R \<le> cap")
      case ok: True
      then obtain b' mem' where b': "map_batch (concat mss) s (b, mem1) = Return (Ok (), b', mem')" "builder_ok cap s b' mem'"
        "l0_paddr b' = l0_paddr b" "b_donation b' = d"
        "tree_tables mem' (phys_u64 (l0_paddr b)) \<union> workspace_left d s (b_workspace b') = donated d s ` ?I"
        "\<forall>pg < 262144. page_entry mem' (phys_u64 (l0_paddr b)) pg = view_after (concat mss) (page_entry mem1 (phys_u64 (l0_paddr b))) pg"
        using mb b(5,6) by auto
      let ?w = "b_workspace b'" and ?T = "tree_tables mem' (phys_u64 (l0_paddr b))"
      have w: "donation_ready d s cap ?w" "?T \<inter> workspace_left d s ?w = {}" "user_tree mem' (phys_u64 (l0_paddr b))"
        using b'(2-4) by (simp_all add: builder_ok_def Let_def)
      have wl: "workspace_left d s ?w = donated d s ` {PROCESS_KERNEL_OBJ_PAGES + ws_claimed ?w..<PROCESS_KERNEL_OBJ_PAGES + cap}"
        "ws_claimed ?w \<le> cap" using w(1) by (simp_all add: workspace_left_def donation_ready_def)
      let ?J = "{PROCESS_KERNEL_OBJ_PAGES + ws_claimed ?w..<PROCESS_KERNEL_OBJ_PAGES + cap}"
      have "?T = donated d s ` ?I - donated d s ` ?J" using b'(5) w(2) unfolding wl(1) by blast
      also have "\<dots> = donated d s ` (?I - ?J)" using inj_on_image_set_diff [OF inj, of ?I ?J] by auto
      also have "?I - ?J = {PROCESS_KERNEL_OBJ_PAGES..<PROCESS_KERNEL_OBJ_PAGES + ws_claimed ?w}" using wl(2) by auto
      finally have T: "?T = donated d s ` {PROCESS_KERNEL_OBJ_PAGES..<PROCESS_KERNEL_OBJ_PAGES + ws_claimed ?w}" .
      have "build_address_space d s cap mss mem = Return (Ok (PhysAddr (phys_u64 (l0_paddr b)), ws_claimed ?w), mem')"
        using b(1) b'(1,3) by (simp add: build_address_space_def map_batches_concat finish_def)
      then show ?thesis
        unfolding if_P [OF ok] using w(3) wl(2) T b'(6) view by (intro exI conjI) (assumption | simp)+
    next
      case False
      then show ?thesis using mb b(1,5) by (auto simp: build_address_space_def map_batches_concat)
    qed
  next
    case False
    then show ?thesis using builder_new_spec [OF assms, of mem] unfolding cd by (auto simp: build_address_space_def)
  qed
qed

section \<open>Giving the tables back\<close>

lemma frame_of_paddr: "f \<in> taken_frames p m \<Longrightarrow> frame_of_word (frame_paddr f) = f"
  using handed_out_frame [of f p m] by (simp add: frame_paddr_def)

definition l3_index :: "pte_memory \<Rightarrow> u64 \<Rightarrow> nat \<Rightarrow> bool" where
  "l3_index mem ttbr i \<longleftrightarrow> pte_is_table (l2_entry mem ttbr (of_nat i))"

definition l3_frame :: "pte_memory \<Rightarrow> u64 \<Rightarrow> nat \<Rightarrow> PhysPage" where
  "l3_frame mem ttbr i = frame_of_word (next_of (l2_entry mem ttbr (of_nat i)))"

lemma free_l3_filter:
  "\<forall>i \<in> set js. i < 512 \<Longrightarrow>
    free_l3_tables p mem (l2_table mem ttbr) js m = free_l3_tables p mem (l2_table mem ttbr) (filter (l3_index mem ttbr) js) m"
proof (induction js arbitrary: m)
  case (Cons i js)
  then show ?case
    by (cases "dealloc_page p (containing_page (output_addr (l2_entry mem ttbr (of_nat i)))) m")
      (simp_all add: read_l2_entry l3_index_def)
qed simp

lemma tree_tables_l3:
  "tree_tables mem ttbr = {ttbr, l1_table mem ttbr, l2_table mem ttbr} \<union>
    (\<lambda>i. next_of (l2_entry mem ttbr (of_nat i))) ` {i. i < 512 \<and> l3_index mem ttbr i}"
proof -
  have e: "{i :: u64. unat i < 512 \<and> pte_is_table (l2_entry mem ttbr i)} = of_nat ` {i. i < 512 \<and> l3_index mem ttbr i}"
    by (auto simp: l3_index_def unat_of_nat_512 image_iff) (metis unat_of_nat_512 word_unat_eq_iff)+
  show ?thesis unfolding tree_tables_def e image_image ..
qed

lemma frame_of_inj: "T \<subseteq> frame_paddr ` taken_frames p m \<Longrightarrow> inj_on frame_of_word T"
  by (rule inj_on_inverseI [of _ frame_paddr]) (use frame_of_paddr in force)

lemma l3_frames_distinct:
  assumes "user_tree mem ttbr" and "tree_tables mem ttbr \<subseteq> frame_paddr ` taken_frames p m"
  shows "inj_on (l3_frame mem ttbr) {i. i < 512 \<and> l3_index mem ttbr i}"
    and "l3_frame mem ttbr ` {i. i < 512 \<and> l3_index mem ttbr i} \<inter> frame_of_word ` {ttbr, l1_table mem ttbr, l2_table mem ttbr} = {}"
proof -
  let ?n = "\<lambda>i. next_of (l2_entry mem ttbr (of_nat i))"
  note fi = frame_of_inj [OF assms(2)]
  have tt: "?n i \<in> tree_tables mem ttbr" if "i < 512" "l3_index mem ttbr i" for i unfolding tree_tables_l3 using that by blast
  have "i = j" if i: "i < 512" "l3_index mem ttbr i" "j < 512" "l3_index mem ttbr j" "?n i = ?n j" for i j
  proof (rule ccontr)
    assume "i \<noteq> j"
    then have "(of_nat i :: u64) \<noteq> of_nat j" using i(1,3) by (metis unat_of_nat_512)
    moreover have "unat (of_nat i :: u64) < 512" "unat (of_nat j :: u64) < 512" using i(1,3) by (simp_all add: unat_of_nat_512)
    ultimately show False using assms(1) i(2,4,5) unfolding user_tree_def l3_index_def by metis
  qed
  then show "inj_on (l3_frame mem ttbr) {i. i < 512 \<and> l3_index mem ttbr i}"
    unfolding inj_on_def l3_frame_def using inj_onD [OF fi] tt by (metis (mono_tags, lifting) mem_Collect_eq)
  have top: "{ttbr, l1_table mem ttbr, l2_table mem ttbr} \<subseteq> tree_tables mem ttbr" by (auto simp: tree_tables_def)
  have "?n i \<notin> {ttbr, l1_table mem ttbr, l2_table mem ttbr}" if i: "i < 512" "l3_index mem ttbr i" for i
  proof -
    have "unat (of_nat i :: u64) < 512" using i(1) by (simp add: unat_of_nat_512)
    then show ?thesis using assms(1) i(2) unfolding user_tree_def l3_index_def by blast
  qed
  then show "l3_frame mem ttbr ` {i. i < 512 \<and> l3_index mem ttbr i} \<inter> frame_of_word ` {ttbr, l1_table mem ttbr, l2_table mem ttbr} = {}"
    unfolding l3_frame_def using inj_onD [OF fi] tt subsetD [OF top] by blast
qed

lemma tree_frames:
  assumes "user_tree mem ttbr" and "tree_tables mem ttbr \<subseteq> frame_paddr ` taken_frames p m"
  shows "frame_of_word ` tree_tables mem ttbr = l3_frame mem ttbr ` {i. i < 512 \<and> l3_index mem ttbr i} \<union>
      {frame_of_word (l2_table mem ttbr), frame_of_word (l1_table mem ttbr), frame_of_word ttbr}"
    and "frame_of_word ` tree_tables mem ttbr \<subseteq> taken_frames p m"
    and "distinct [frame_of_word (l2_table mem ttbr), frame_of_word (l1_table mem ttbr), frame_of_word ttbr]"
proof -
  let ?l1 = "l1_table mem ttbr" and ?l2 = "l2_table mem ttbr"
  show "frame_of_word ` tree_tables mem ttbr = l3_frame mem ttbr ` {i. i < 512 \<and> l3_index mem ttbr i} \<union>
      {frame_of_word ?l2, frame_of_word ?l1, frame_of_word ttbr}"
    unfolding tree_tables_l3 image_Un image_image l3_frame_def by auto
  show "frame_of_word ` tree_tables mem ttbr \<subseteq> taken_frames p m"
  proof (rule image_subsetI)
    fix t assume "t \<in> tree_tables mem ttbr"
    then obtain f where "t = frame_paddr f" "f \<in> taken_frames p m" using assms(2) by blast
    then show "frame_of_word t \<in> taken_frames p m" by (simp add: frame_of_paddr)
  qed
  have "?l2 \<in> tree_tables mem ttbr" "?l1 \<in> tree_tables mem ttbr" "ttbr \<in> tree_tables mem ttbr" by (simp_all add: tree_tables_def)
  moreover have "distinct [ttbr, ?l1, ?l2]" using assms(1) unfolding user_tree_def by (elim conjE)
  ultimately show "distinct [frame_of_word ?l2, frame_of_word ?l1, frame_of_word ttbr]"
    by (auto simp: inj_on_eq_iff [OF frame_of_inj [OF assms(2)]])
qed

lemma free_spec:
  assumes "frames_ok p m" and "user_tree mem ttbr" and "tree_tables mem ttbr \<subseteq> frame_paddr ` taken_frames p m"
  shows "\<exists>m'. free_address_space p mem (PhysAddr ttbr) m = Return m' \<and> frames_ok p m' \<and>
    free_frames p m' = free_frames p m \<union> frame_of_word ` tree_tables mem ttbr \<and>
    taken_frames p m' = taken_frames p m - frame_of_word ` tree_tables mem ttbr"
proof -
  let ?l1 = "l1_table mem ttbr" and ?l2 = "l2_table mem ttbr" and ?js = "filter (l3_index mem ttbr) [0..<512]"
  let ?I = "{i. i < 512 \<and> l3_index mem ttbr i}" and ?g = "l3_frame mem ttbr"
  have I: "set ?js = ?I" by auto
  note d = l3_frames_distinct [OF assms(2,3)]
  note tree = tree_frames(1) [OF assms(2,3)] and taken = tree_frames(2) [OF assms(2,3)]
  note ne = tree_frames(3) [OF assms(2,3), simplified]
  have "free_l3_tables p mem ?l2 (i # js) m = bind_outcome (dealloc_page p (?g i) m) (free_l3_tables p mem ?l2 js)" if "i \<in> ?I" for i js m
    using that by (simp add: read_l2_entry l3_index_def l3_frame_def frame_of_word_def)
  from frame_pool.dealloc_loop [of "free_l3_tables p mem ?l2" ?I, OF _ this assms(1), of ?js] d(1) taken
  obtain m1 where m1: "free_l3_tables p mem ?l2 ?js m = Return m1" "frames_ok p m1" "free_frames p m1 = free_frames p m \<union> ?g ` ?I"
    "taken_frames p m1 = taken_frames p m - ?g ` ?I"
    unfolding I tree by (auto simp: distinct_map)
  have "frame_of_word ?l2 \<in> taken_frames p m1" using taken d(2) unfolding m1(4) tree by auto
  then obtain m2 where m2: "dealloc_page p (frame_of_word ?l2) m1 = Return m2" "frames_ok p m2" "free_frames p m2 = insert (frame_of_word ?l2) (free_frames p m1)"
    "taken_frames p m2 = taken_frames p m1 - {frame_of_word ?l2}" using dealloc_page_taken [OF m1(2)] by blast
  have "frame_of_word ?l1 \<in> taken_frames p m2" using taken d(2) ne unfolding m2(4) m1(4) tree by auto
  then obtain m3 where m3: "dealloc_page p (frame_of_word ?l1) m2 = Return m3" "frames_ok p m3" "free_frames p m3 = insert (frame_of_word ?l1) (free_frames p m2)"
    "taken_frames p m3 = taken_frames p m2 - {frame_of_word ?l1}" using dealloc_page_taken [OF m2(2)] by blast
  have "frame_of_word ttbr \<in> taken_frames p m3" using taken d(2) ne unfolding m3(4) m2(4) m1(4) tree by auto
  then obtain m4 where m4: "dealloc_page p (frame_of_word ttbr) m3 = Return m4" "frames_ok p m4" "free_frames p m4 = insert (frame_of_word ttbr) (free_frames p m3)"
    "taken_frames p m4 = taken_frames p m3 - {frame_of_word ttbr}" using dealloc_page_taken [OF m3(2)] by blast
  have rd: "read_entry mem ttbr 0 = Return (entry_at mem ttbr)" "read_entry mem ?l1 0 = Return (entry_at mem ?l1)"
    by (simp_all add: read_entry_def entry_at_def)
  have t: "pte_is_table (entry_at mem ttbr)" "pte_is_table (entry_at mem ?l1)" using assms(2) by (simp_all add: user_tree_def)
  have out: "output_addr (entry_at mem ttbr) = PhysAddr ?l1" "output_addr (entry_at mem ?l1) = PhysAddr ?l2"
    by (simp_all add: l1_table_def l2_table_def output_addr_def)
  have "free_l3_tables p mem ?l2 [0..<512] m = Return m1" using free_l3_filter [of "[0..<512]" p mem ttbr m] m1(1) by simp
  then have "free_address_space p mem (PhysAddr ttbr) m = Return m4"
    using m2(1) m3(1) m4(1) by (simp add: free_address_space_def rd t out frame_of_word_def)
  moreover have "free_frames p m4 = free_frames p m \<union> frame_of_word ` tree_tables mem ttbr"
    "taken_frames p m4 = taken_frames p m - frame_of_word ` tree_tables mem ttbr"
    unfolding m4(3,4) m3(3,4) m2(3,4) m1(3,4) tree by auto
  ultimately show ?thesis using m4(2) by blast
qed

lemma new_tables_taken:
  assumes "frames_in p U m" and "frames_in p U m'" and "T \<inter> frame_paddr ` free_frames p m' = {}"
    and "T \<union> frame_paddr ` free_frames p m' = frame_paddr ` free_frames p m"
  shows "T \<subseteq> frame_paddr ` taken_frames p m'" and "free_frames p m' \<union> frame_of_word ` T = free_frames p m"
    and "taken_frames p m' - frame_of_word ` T = taken_frames p m"
proof -
  let ?F = "free_frames p m" and ?F' = "free_frames p m'"
  have ok: "frames_ok p m" "frames_ok p m'" "?F \<union> taken_frames p m = U" "?F' \<union> taken_frames p m' = U"
    using assms(1,2) by (simp_all add: frames_in_def)
  note dis = free_not_taken_frames [OF ok(1)] free_not_taken_frames [OF ok(2)]
  have fr: "frame_of_word (frame_paddr f) = f" if "f \<in> ?F \<union> ?F'" for f
    using that handed_out_frame by (auto simp: frame_paddr_def)
  have im: "frame_of_word ` (frame_paddr ` A) = A" if "A \<subseteq> ?F \<union> ?F'" for A
  proof -
    have "frame_of_word ` (frame_paddr ` A) = (\<lambda>f. f) ` A" unfolding image_image by (rule image_cong) (use fr that in auto)
    then show ?thesis by simp
  qed
  have "frame_of_word ` (frame_paddr ` ?F') \<subseteq> frame_of_word ` (frame_paddr ` ?F)"
    by (rule image_mono) (use assms(4) in blast)
  then have sub: "?F' \<subseteq> ?F" by (simp add: im)
  have "T = frame_paddr ` ?F - frame_paddr ` ?F'" using assms(3,4) by blast
  also have "\<dots> = frame_paddr ` (?F - ?F')" using inj_on_image_set_diff [OF frame_paddr_inj [OF ok(1)], of ?F ?F'] sub by auto
  finally have T: "T = frame_paddr ` (?F - ?F')" .
  then have g: "frame_of_word ` T = ?F - ?F'" by (simp add: im Diff_subset le_supI1)
  have "?F - ?F' \<subseteq> taken_frames p m'" using ok(3,4) by blast
  then show "T \<subseteq> frame_paddr ` taken_frames p m'" unfolding T by (rule image_mono)
  show "?F' \<union> frame_of_word ` T = ?F" unfolding g using sub by blast
  show "taken_frames p m' - frame_of_word ` T = taken_frames p m" unfolding g using ok(3,4) dis sub by blast
qed

section \<open>Properties\<close>

lemma view_translate:
  assumes "user_tree mem ttbr" and "\<forall>pg < 262144. page_entry mem ttbr pg = view_after ms (\<lambda>_. None) pg" and "va < USER_VA_END"
  shows "walk_translate mem ttbr va =
    (case view_after ms (\<lambda>_. None) (page_no va) of None \<Rightarrow> None | Some (l, e) \<Rightarrow> Some (next_of e + (va AND 0xFFF)))"
proof -
  have l: "view_after ms f pg = Some (l, e) \<Longrightarrow> (\<And>pg l e. f pg = Some (l, e) \<Longrightarrow> l = 3) \<Longrightarrow> l = 3" for ms f pg l e
  proof (induction ms arbitrary: f)
    case (Cons m ms)
    show ?case by (rule Cons.IH [OF Cons.prems(1) [unfolded view_after.simps]]) (use Cons.prems(2) in \<open>auto split: if_splits\<close>)
  qed simp
  have "page_no va < 262144" using assms(3) by (simp add: page_no_def USER_VA_END_def word_less_nat_alt)
  then show ?thesis
    using assms(2) l [of ms "\<lambda>_. None" "page_no va"] unfolding translate_page_entry [OF assms(1,3)] by (auto split: option.split)
qed

text \<open>C20. The bootstrap path builds the address space its mappings describe and tears it down without a
  trace. \<^verbatim>\<open>create_address_space\<close> always returns; it succeeds exactly when the mappings touch at most
  eight 2 MiB regions and there are frames for the three upper tables and one per region. Every user
  address then translates as the last mapping of its page says, or not at all, and
  \<^verbatim>\<open>free_address_space\<close> returns exactly the frames of the tables: the free frames and the frames in
  use are afterwards the ones before.\<close>

theorem address_space_roundtrip:
  assumes "frames_ok p m" and "ram_addressable p"
  shows "if card (regions_of ms) \<le> MAX_L3_TABLES \<and> 3 + card (regions_of ms) \<le> card (free_frames p m)
    then \<exists>ttbr m' mem' m''. create_address_space p ms (m, mem) = Return (Ok (PhysAddr ttbr), m', mem') \<and> user_tree mem' ttbr \<and>
      (\<forall>va < USER_VA_END. walk_translate mem' ttbr va =
        (case view_after ms (\<lambda>_. None) (page_no va) of None \<Rightarrow> None | Some (l, e) \<Rightarrow> Some (next_of e + (va AND 0xFFF)))) \<and>
      free_address_space p mem' (PhysAddr ttbr) m' = Return m'' \<and> frames_ok p m'' \<and>
      free_frames p m'' = free_frames p m \<and> taken_frames p m'' = taken_frames p m
    else \<exists>e m' mem'. create_address_space p ms (m, mem) = Return (Err e, m', mem')"
proof (cases "card (regions_of ms) \<le> MAX_L3_TABLES \<and> 3 + card (regions_of ms) \<le> card (free_frames p m)")
  case True
  let ?U = "free_frames p m \<union> taken_frames p m"
  have fi: "frames_in p ?U m" using assms by (simp add: frames_in_def)
  obtain t m' mem' where c: "create_address_space p ms (m, mem) = Return (Ok (PhysAddr t), m', mem')" "frames_in p ?U m'"
    "user_tree mem' t" "tree_tables mem' t \<inter> frame_paddr ` free_frames p m' = {}"
    "tree_tables mem' t \<union> frame_paddr ` free_frames p m' = frame_paddr ` free_frames p m"
    "\<forall>pg < 262144. page_entry mem' t pg = view_after ms (\<lambda>_. None) pg"
    using create_spec [OF fi, of ms mem, unfolded if_P [OF True]] by (elim exE conjE) (rule that)
  note f = new_tables_taken [OF fi c(2,4,5)]
  have ok: "frames_ok p m'" using c(2) by (simp add: frames_in_def)
  obtain m'' where "free_address_space p mem' (PhysAddr t) m' = Return m''" "frames_ok p m''"
    "free_frames p m'' = free_frames p m' \<union> frame_of_word ` tree_tables mem' t"
    "taken_frames p m'' = taken_frames p m' - frame_of_word ` tree_tables mem' t"
    using free_spec [OF ok c(3) f(1)] by blast
  with c(1,3) view_translate [OF c(3,6)] f(2,3) show ?thesis
    unfolding if_P [OF True] by (intro exI conjI allI impI) (assumption | simp)+
next
  case False
  have fi: "frames_in p (free_frames p m \<union> taken_frames p m) m" using assms by (simp add: frames_in_def)
  show ?thesis unfolding if_not_P [OF False] using create_spec [OF fi, of ms mem, unfolded if_not_P [OF False]] .
qed

text \<open>A live set of buddy pages is a supply of tables.\<close>

lemma buddy_words:
  assumes "ps_inv p s" and "live_entry s i e" and "entry_origin e = OriginBuddy"
  shows "inj_on (\<lambda>i. frame_of_word (page_words (entry_header s e) i)) {..<entry_count e}"
    and "j < entry_count e \<Longrightarrow> frame_of_word (page_words (entry_header s e) j) \<in> taken_frames p (phys s)"
    and "j < entry_count e \<Longrightarrow> frame_paddr (frame_of_word (page_words (entry_header s e) j)) = page_words (entry_header s e) j"
proof -
  have ok: "entry_ok p s e" using ps_invD(6) [OF assms(1,2)] .
  then show "inj_on (\<lambda>i. frame_of_word (page_words (entry_header s e) i)) {..<entry_count e}"
    "j < entry_count e \<Longrightarrow> frame_of_word (page_words (entry_header s e) j) \<in> taken_frames p (phys s)"
    "j < entry_count e \<Longrightarrow> frame_paddr (frame_of_word (page_words (entry_header s e) j)) = page_words (entry_header s e) j"
    using assms(3) by (auto simp: entry_ok_def entry_res_def handed_out_def frame_paddr_def)
qed

lemma donation_of_live:
  assumes "ps_inv p s" and "live_entry s i e" and "entry_origin e = OriginBuddy" and "ram_addressable p"
    and "PROCESS_KERNEL_OBJ_PAGES + cap \<le> entry_count e"
  shows "donation_ready \<lparr>don_header_kva = header_kva e, don_count = entry_count e, resolved = False\<rparr> s cap (ws_new cap)"
proof -
  let ?d = "\<lparr>don_header_kva = header_kva e, don_count = entry_count e, resolved = False\<rparr>" and ?h = "entry_header s e"
  have mo: "frames_ok p (phys s)" using ps_invD(1) [OF assms(1)] by (simp add: mem_ok_def)
  note bw = buddy_words [OF assms(1-3)]
  have dw: "donated ?d s i = page_words ?h i" for i by (simp add: donated_def entry_header_def)
  have "inj_on (donated ?d s) {PROCESS_KERNEL_OBJ_PAGES..<PROCESS_KERNEL_OBJ_PAGES + cap}"
    unfolding dw [abs_def] by (rule inj_on_subset [OF inj_on_imageI2 [of frame_of_word]]) (use bw(1) assms(5) in \<open>auto simp: o_def\<close>)
  moreover have "unat (page_words ?h i) mod 4096 = 0 \<and> unat (page_words ?h i) < 2 ^ 48" if "i < entry_count e" for i
  proof -
    show ?thesis using taken_frame_table [OF mo assms(4) bw(2) [OF that]] bw(3) [OF that] by (simp add: table_frame_def)
  qed
  ultimately show ?thesis
    using read_live(2) [OF assms(1,2)] assms(5) by (auto simp: donation_ready_def ws_new_def dw entry_header_def)
qed

text \<open>C13. The builder turns a donated page set into the address space the caller described. For a live
  set of buddy pages with at least four pages more than the workspace, building from any sequence of
  batches always returns; it succeeds exactly when all batches together touch at most eight 2 MiB
  regions and the workspace holds three tables and one per region. Every user address then
  translates as the last mapping of its page says, whatever the batches were, and the count that
  \<^verbatim>\<open>finish\<close> returns is exact: the tables are the donated pages right after the kernel-object pages, up
  to that count, so the pages beyond it can be given back and none below it.\<close>

theorem builder_exact:
  assumes "ps_inv p s" and "live_entry s i e" and "entry_origin e = OriginBuddy" and "ram_addressable p"
    and "PROCESS_KERNEL_OBJ_PAGES + cap \<le> entry_count e"
    and "d = \<lparr>don_header_kva = header_kva e, don_count = entry_count e, resolved = False\<rparr>"
  shows "if card (regions_of (concat mss)) \<le> MAX_L3_TABLES \<and> 3 + card (regions_of (concat mss)) \<le> cap
    then \<exists>ttbr n mem'. build_address_space d s cap mss mem = Return (Ok (PhysAddr ttbr, n), mem') \<and> user_tree mem' ttbr \<and> n \<le> cap \<and>
      tree_tables mem' ttbr = (\<lambda>i. page_words (entry_header s e) i) ` {PROCESS_KERNEL_OBJ_PAGES..<PROCESS_KERNEL_OBJ_PAGES + n} \<and>
      (\<forall>va < USER_VA_END. walk_translate mem' ttbr va =
        (case view_after (concat mss) (\<lambda>_. None) (page_no va) of None \<Rightarrow> None | Some (l, e) \<Rightarrow> Some (next_of e + (va AND 0xFFF))))
    else \<exists>err mem'. build_address_space d s cap mss mem = Return (Err err, mem')"
proof -
  have dw: "donated d s = (\<lambda>i. page_words (entry_header s e) i)" by (rule ext) (simp add: assms(6) donated_def entry_header_def)
  note b = build_spec [OF donation_of_live [OF assms(1-5)], of mss mem, folded assms(6), unfolded dw]
  show ?thesis
  proof (cases "card (regions_of (concat mss)) \<le> MAX_L3_TABLES \<and> 3 + card (regions_of (concat mss)) \<le> cap")
    case True
    from b [unfolded if_P [OF True]] obtain t n mem' where
      "build_address_space d s cap mss mem = Return (Ok (PhysAddr t, n), mem')" "user_tree mem' t" "n \<le> cap"
      "tree_tables mem' t = (\<lambda>i. page_words (entry_header s e) i) ` {PROCESS_KERNEL_OBJ_PAGES..<PROCESS_KERNEL_OBJ_PAGES + n}"
      "\<forall>pg < 262144. page_entry mem' t pg = view_after (concat mss) (\<lambda>_. None) pg" by (elim exE conjE) (rule that)
    then show ?thesis unfolding if_P [OF True] using view_translate by (intro exI conjI allI impI) (assumption | simp)+
  next
    case False
    show ?thesis unfolding if_not_P [OF False] using b [unfolded if_not_P [OF False]] .
  qed
qed

section \<open>A small machine\<close>

definition demo_mappings :: "Mapping list" where
  "demo_mappings =
     [\<lparr>virt_addr = 0x400000, phys_addr = PhysAddr 0x40100000, user_accessible = True, executable = True\<rparr>,
      \<lparr>virt_addr = 0x800000, phys_addr = PhysAddr 0x40101000, user_accessible = True, executable = False\<rparr>]"

lemma demo_pages: "map map_page demo_mappings = [1024, 2048]"
  by (simp add: demo_mappings_def map_page_def)

lemma demo_regions: "regions_of demo_mappings = {2, 4}" "regions_of (concat [demo_mappings]) = {2, 4}"
  by (simp_all add: regions_of_def demo_mappings_def map_page_def)

lemma demo_view:
  "view_after demo_mappings (\<lambda>_. None) (page_no 0x400010) = Some (3, process_page (demo_mappings ! 0))"
  "view_after demo_mappings (\<lambda>_. None) (page_no 0x402000) = None"
  "next_of (process_page (demo_mappings ! 0)) = 0x40100000"
  by (simp_all add: demo_mappings_def map_page_def page_no_def process_page_def build_process_page_def with_pxn_def new_page_def
      output_addr_def attr_bits_def PTE_VALID_def PTE_TABLE_def PTE_AF_def PTE_PXN_def PTE_ADDR_MASK_def PTE_ATTR_SHIFT_def
      PTE_AP_SHIFT_def PTE_SH_SHIFT_def MAIR_NORMAL_def AP_RW_ALL_def SH_INNER_def)

lemma virt_board_addressable: "ram_addressable virt_board"
  by (simp add: ram_addressable_def base_of_def virt_board_def ram_pages_nat)

lemma demo_donation: "\<exists>s i e. ps_inv virt_board s \<and> live_entry s i e \<and> entry_count e = 15 \<and> entry_origin e = OriginBuddy"
proof -
  obtain s0 where s0: "ps_run virt_board s0" "ps_table s0 ! 0 = None" "card (free_frames virt_board (phys s0)) = 16"
    using demo_state by blast
  have "(15::nat) \<le> MAX_PRACTICAL_PAGES_PER_SET" "0 < MAX_PAGESETS" by (simp_all add: MAX_PRACTICAL_PAGES_PER_SET_def MAX_PAGESETS_def)
  with ps_alloc_pages_cases [OF ps_run_inv [OF s0(1)], of 15] s0(2,3) obtain i fs s where "buddy_set_made virt_board 15 s0 i fs s" by auto
  then obtain e h m where m: "created virt_board s0 i e h m s" "entry_count e = 15" "origin h = Some OriginBuddy"
    by (auto simp: buddy_set_made_def)
  note f = createdD [OF ps_run_inv [OF s0(1)] m(1)]
  have "origin (entry_header s e) = Some (entry_origin e)" using ps_invD(6) [OF f(1,2)] by (simp add: entry_ok_def)
  then have "entry_origin e = OriginBuddy" using f(3) m(3) by simp
  with f(1,2) m(2) show ?thesis by blast
qed

theorem address_space_roundtrip_witness:
  "\<exists>m ttbr m' mem' m''. create_address_space virt_board demo_mappings (m, \<lambda>_. 0) = Return (Ok (PhysAddr ttbr), m', mem') \<and>
    walk_translate mem' ttbr 0x400010 = Some 0x40100010 \<and> walk_translate mem' ttbr 0x402000 = None \<and>
    free_address_space virt_board mem' (PhysAddr ttbr) m' = Return m'' \<and> free_frames virt_board m'' = free_frames virt_board m"
proof -
  obtain m where m: "frames_ok virt_board m" "card (free_frames virt_board m) = 16" using demo_mem by (auto simp: mem_ok_def)
  have c: "card (regions_of demo_mappings) \<le> MAX_L3_TABLES \<and> 3 + card (regions_of demo_mappings) \<le> card (free_frames virt_board m)"
    by (simp add: demo_regions m(2) MAX_L3_TABLES_def)
  have va: "(0x400010 :: u64) < USER_VA_END" "(0x402000 :: u64) < USER_VA_END" by (simp_all add: USER_VA_END_def)
  from address_space_roundtrip [OF m(1) virt_board_addressable, of demo_mappings "\<lambda>_. 0", unfolded if_P [OF c]] obtain ttbr m' mem' m'' where
    r: "create_address_space virt_board demo_mappings (m, \<lambda>_. 0) = Return (Ok (PhysAddr ttbr), m', mem')"
    "\<forall>va < USER_VA_END. walk_translate mem' ttbr va = (case view_after demo_mappings (\<lambda>_. None) (page_no va) of None \<Rightarrow> None
      | Some (l, e) \<Rightarrow> Some (next_of e + (va AND 0xFFF)))"
    "free_address_space virt_board mem' (PhysAddr ttbr) m' = Return m''" "free_frames virt_board m'' = free_frames virt_board m" by blast
  have "walk_translate mem' ttbr 0x400010 = Some 0x40100010" "walk_translate mem' ttbr 0x402000 = None"
    using r(2) [rule_format, OF va(1)] r(2) [rule_format, OF va(2)] by (simp_all add: demo_view)
  with r show ?thesis by blast
qed

theorem builder_exact_witness:
  "\<exists>s i e ttbr n mem'. ps_inv virt_board s \<and> live_entry s i e \<and> entry_count e = 15 \<and>
    build_address_space \<lparr>don_header_kva = header_kva e, don_count = 15, resolved = False\<rparr> s 11 [demo_mappings] (\<lambda>_. 0) =
      Return (Ok (PhysAddr ttbr, n), mem') \<and> walk_translate mem' ttbr 0x400010 = Some 0x40100010"
proof -
  obtain s i e where s: "ps_inv virt_board s" "live_entry s i e" "entry_count e = 15" "entry_origin e = OriginBuddy"
    using demo_donation by blast
  have c: "card (regions_of (concat [demo_mappings])) \<le> MAX_L3_TABLES \<and> 3 + card (regions_of (concat [demo_mappings])) \<le> 11"
    by (simp add: demo_regions(2) MAX_L3_TABLES_def del: concat.simps)
  have k: "PROCESS_KERNEL_OBJ_PAGES + 11 \<le> entry_count e" by (simp add: s(3) PROCESS_KERNEL_OBJ_PAGES_def)
  have va: "(0x400010 :: u64) < USER_VA_END" by (simp add: USER_VA_END_def)
  from builder_exact [OF s(1,2,4) virt_board_addressable k refl, of "[demo_mappings]" "\<lambda>_. 0", unfolded if_P [OF c]]
  obtain ttbr n mem' where r: "build_address_space \<lparr>don_header_kva = header_kva e, don_count = 15, resolved = False\<rparr> s 11 [demo_mappings] (\<lambda>_. 0) =
      Return (Ok (PhysAddr ttbr, n), mem')"
    "\<forall>va < USER_VA_END. walk_translate mem' ttbr va = (case view_after (concat [demo_mappings]) (\<lambda>_. None) (page_no va) of None \<Rightarrow> None
      | Some (l, e) \<Rightarrow> Some (next_of e + (va AND 0xFFF)))" unfolding s(3) by (elim exE conjE) (rule that)
  have "walk_translate mem' ttbr 0x400010 = Some 0x40100010" using r(2) [rule_format, OF va] by (simp add: demo_view)
  with r s show ?thesis by blast
qed

end
