(* ===== verification/Space_Types.thy ===== *)
theory Space_Types
  imports Address_Space
begin

text \<open>
  The type of an address space, and that every operation on it keeps the type: the bootstrap and the
  donated construction of \<open>Address_Space\<close>, mapping of \<open>Vmem\<close> and validated unmapping of
  \<open>Page_Table\<close>, in any order, while the frame allocator serves others.
\<close>

section \<open>Well-typed address spaces\<close>

text \<open>
  A page of a well-typed address space is mapped by a level-3 entry that is a page descriptor, has
  the access flag, is readable and writable from user mode and never executable by the kernel.
\<close>

definition user_pte_ok :: "PageTableEntry \<Rightarrow> bool" where
  "user_pte_ok e \<longleftrightarrow> pte_is_table e \<and> pte_af e \<and> pte_ap e = AP_RW_ALL \<and> is_pxn e"

definition space_typed :: "pte_memory \<Rightarrow> u64 \<Rightarrow> bool" where
  "space_typed mem ttbr \<longleftrightarrow> user_tree mem ttbr \<and>
     (\<forall>pg < 262144. case page_entry mem ttbr pg of None \<Rightarrow> True | Some (l, e) \<Rightarrow> l = 3 \<and> user_pte_ok e)"

lemma user_pte_bits:
  assumes "\<forall>n \<in> {0, 1, 6, 10, 53}. bit (pte_raw e) n" and "\<not> bit (pte_raw e) 7"
  shows "user_pte_ok e"
proof -
  have m: "(3 :: u64) = mask 2" by (simp add: mask_eq_exp_minus_1)
  have "pte_ap e = 1"
  proof (rule bit_eqI)
    fix n
    have "bit (pte_ap e) n \<longleftrightarrow> n < 2 \<and> bit (pte_raw e) (6 + n)"
      unfolding pte_ap_def PTE_AP_SHIFT_def m by (auto simp: bit_and_iff bit_drop_bit_eq bit_mask_iff bit_ucast_iff)
    moreover have "n < 2 \<longleftrightarrow> n = 0 \<or> n = 1" by auto
    ultimately show "bit (pte_ap e) n = bit (1 :: u8) n" using assms by (auto simp: bit_1_iff)
  qed
  moreover have "pte_af e" "is_pxn e"
    unfolding pte_af_def is_pxn_def PTE_AF_def PTE_PXN_def single_bit_test using assms(1) by simp_all
  ultimately show ?thesis using assms(1) by (simp add: user_pte_ok_def AP_RW_ALL_def pte_kind_bits)
qed

lemma ap_bits: "bit AP_RW_ALL n \<longleftrightarrow> n = 0"
  by (simp add: AP_RW_ALL_def bit_1_iff)

lemma mapped_as_typed: "user_pte_ok (mapped_as b attr d)"
  unfolding mapped_as_def user_page_of_def by (rule user_pte_bits) (auto simp: user_page_bit attr_bits_bit ap_bits)

lemma process_page_typed: "user_accessible m \<Longrightarrow> user_pte_ok (process_page m)"
  by (cases "executable m"; rule user_pte_bits)
    (auto simp: process_page_def build_process_page_def with_pxn_def with_uxn_def new_page_def bit_or_iff bit_and_iff pte_flag_bits
      addr_mask_bit attr_bits_bit ap_bits)

text \<open>
  The life of an address space: built at boot or from a donation, then mapped into and unmapped from,
  while the rest of the kernel allocates and frees other frames.
\<close>

inductive space_run :: "Platform \<Rightarrow> u64 \<Rightarrow> pte_memory \<Rightarrow> PhysMem \<Rightarrow> bool" for p ttbr where
  Created: "frames_ok p m \<Longrightarrow> ram_addressable p \<Longrightarrow> \<forall>x \<in> set ms. user_accessible x \<Longrightarrow>
    create_address_space p ms (m, mem) = Return (Ok (PhysAddr ttbr), m', mem') \<Longrightarrow> space_run p ttbr mem' m'"
| Donated: "ps_inv p s \<Longrightarrow> live_entry s i e \<Longrightarrow> entry_origin e = OriginBuddy \<Longrightarrow> ram_addressable p \<Longrightarrow>
    PROCESS_KERNEL_OBJ_PAGES + cap \<le> entry_count e \<Longrightarrow> \<forall>x \<in> set (concat mss). user_accessible x \<Longrightarrow>
    build_address_space \<lparr>don_header_kva = header_kva e, don_count = entry_count e, resolved = False\<rparr> s cap mss mem =
      Return (Ok (PhysAddr ttbr, n), mem') \<Longrightarrow> space_run p ttbr mem' (phys s)"
| Mapped: "space_run p ttbr mem m \<Longrightarrow> covered b \<Longrightarrow>
    map_pages_in_existing p ttbr va b attr (mem, m) = Return (r, mem', m') \<Longrightarrow> space_run p ttbr mem' m'"
| Unmapped: "space_run p ttbr mem m \<Longrightarrow> unat va + length expected * 4096 \<le> 2 ^ 30 \<Longrightarrow>
    unmap_validated ttbr va expected mem = Return (r, mem') \<Longrightarrow> space_run p ttbr mem' m"
| Elsewhere: "space_run p ttbr mem m \<Longrightarrow> frames_ok p m' \<Longrightarrow> tree_tables mem ttbr \<subseteq> frame_paddr ` taken_frames p m' \<Longrightarrow>
    space_run p ttbr mem m'"

definition space_inv :: "Platform \<Rightarrow> u64 \<Rightarrow> pte_memory \<Rightarrow> PhysMem \<Rightarrow> bool" where
  "space_inv p ttbr mem m \<longleftrightarrow> space_typed mem ttbr \<and> frames_ok p m \<and> ram_addressable p \<and>
     tree_tables mem ttbr \<subseteq> frame_paddr ` taken_frames p m"

lemma taken_tables_not_free:
  assumes "frames_ok p m" and "T \<subseteq> frame_paddr ` taken_frames p m"
  shows "T \<inter> frame_paddr ` free_frames p m = {}"
proof -
  have "frame_paddr f \<noteq> frame_paddr g" if f: "f \<in> taken_frames p m" and g: "g \<in> free_frames p m" for f g
  proof
    assume "frame_paddr f = frame_paddr g"
    then have "f = g" using handed_out_frame [OF disjI1 [OF f]] handed_out_frame [OF disjI2 [OF g]] unfolding frame_paddr_def by argo
    then show False using f g free_not_taken_frames [OF assms(1)] by blast
  qed
  then have "frame_paddr ` taken_frames p m \<inter> frame_paddr ` free_frames p m = {}" by blast
  then show ?thesis using assms(2) by blast
qed

lemma view_typed:
  assumes "user_tree mem ttbr" and "\<forall>pg < 262144. page_entry mem ttbr pg = view_after ms (\<lambda>_. None) pg" and "\<forall>x \<in> set ms. user_accessible x"
  shows "space_typed mem ttbr"
proof -
  have "view_after ms f pg = Some (l, e) \<Longrightarrow> \<forall>x \<in> set ms. user_accessible x \<Longrightarrow>
      (\<And>pg l e. f pg = Some (l, e) \<Longrightarrow> l = 3 \<and> user_pte_ok e) \<Longrightarrow> l = 3 \<and> user_pte_ok e" for ms f pg l e
  proof (induction ms arbitrary: f)
    case (Cons m ms)
    show ?case
      by (rule Cons.IH [OF Cons.prems(1) [unfolded view_after.simps]])
        (use Cons.prems(2,3) process_page_typed in \<open>auto split: if_splits\<close>)
  qed simp
  from this [of ms "\<lambda>_. None"] assms show ?thesis by (auto simp: space_typed_def split: option.split)
qed

lemma unmap_entries:
  assumes "user_tree mem ttbr" and "\<forall>i \<in> set js. va + of_nat i * 4096 < USER_VA_END" and "clear_from ttbr va js mem = Return mem'"
  shows "tables_agree mem mem' ttbr \<and> (\<forall>pg < 262144. page_entry mem' ttbr pg \<in> {None, page_entry mem ttbr pg})"
  using assms
proof (induction js arbitrary: mem)
  case Nil
  then show ?case by (simp add: tables_agree_def)
next
  case (Cons i js)
  let ?va = "va + of_nat i * 4096"
  have lt: "?va < USER_VA_END" using Cons.prems(2) by simp
  obtain mem1 where m1: "clear_leaf mem (walk_leaf mem ttbr ?va) = Return mem1" "clear_from ttbr va js mem1 = Return mem'"
    using Cons.prems(3) by (auto simp: clear_loop_leaf returned)
  then obtain a q where leaf: "walk_leaf mem ttbr ?va = Some (3, a, q)" "mem1 = mem(a := 0)"
    by (auto simp: clear_leaf_def split: option.splits if_splits)
  have tab: "pte_is_table (l2_entry mem ttbr (index_of 21 ?va))" and a: "a = slot (next_of (l2_entry mem ttbr (index_of 21 ?va))) (index_of 12 ?va)"
    using l3_leaf [OF Cons.prems(1) lt leaf(1)] by simp_all
  have ag: "tables_agree mem mem1 ttbr" using clear_page(1) [OF Cons.prems(1) lt leaf(1)] leaf(2) by simp
  have z: "\<not> pte_is_valid (PageTableEntry 0)" by (simp add: pte_kind_bits)
  have 1: "page_entry mem1 ttbr pg \<in> {None, page_entry mem ttbr pg}" if "pg < 262144" for pg
  proof -
    have u: "unat (of_nat (pg div 512) :: u64) < 512" "unat (of_nat (pg mod 512) :: u64) < 512" using that by (simp_all add: unat_of_nat_512)
    show ?thesis unfolding page_entry_def leaf(2) a user_entry_write [OF Cons.prems(1) index_less tab index_less u] using z by simp
  qed
  have "tables_agree mem1 mem' ttbr \<and> (\<forall>pg < 262144. page_entry mem' ttbr pg \<in> {None, page_entry mem1 ttbr pg})"
    using Cons.IH [OF tables_agree_tree [OF ag Cons.prems(1)] _ m1(2)] Cons.prems(2) by simp
  then have "tables_agree mem1 mem' ttbr" "\<forall>pg < 262144. page_entry mem' ttbr pg \<in> {None, page_entry mem1 ttbr pg}" by simp_all
  then show ?case using 1 tables_agree_trans [OF ag] by (metis insert_iff empty_iff)
qed

lemma created_inv:
  assumes "frames_ok p m" and "ram_addressable p" and "\<forall>x \<in> set ms. user_accessible x"
    and "create_address_space p ms (m, mem) = Return (Ok (PhysAddr ttbr), m', mem')"
  shows "space_inv p ttbr mem' m'"
proof -
  let ?U = "free_frames p m \<union> taken_frames p m"
  have fi: "frames_in p ?U m" using assms(1,2) by (simp add: frames_in_def)
  have c: "frames_in p ?U m'" "user_tree mem' ttbr" "tree_tables mem' ttbr \<inter> frame_paddr ` free_frames p m' = {}"
    "tree_tables mem' ttbr \<union> frame_paddr ` free_frames p m' = frame_paddr ` free_frames p m"
    "\<forall>pg < 262144. page_entry mem' ttbr pg = view_after ms (\<lambda>_. None) pg"
    using create_spec [OF fi, of ms mem] assms(4) by (auto split: if_splits)
  note t = new_tables_taken(1) [OF fi c(1,3,4)]
  show ?thesis using view_typed [OF c(2,5) assms(3)] c(1) t by (simp add: space_inv_def frames_in_def)
qed

lemma donated_inv:
  assumes "ps_inv p s" and "live_entry s i e" and "entry_origin e = OriginBuddy" and "ram_addressable p"
    and "PROCESS_KERNEL_OBJ_PAGES + cap \<le> entry_count e" and "\<forall>x \<in> set (concat mss). user_accessible x"
    and "build_address_space \<lparr>don_header_kva = header_kva e, don_count = entry_count e, resolved = False\<rparr> s cap mss mem =
      Return (Ok (PhysAddr ttbr, n), mem')"
  shows "space_inv p ttbr mem' (phys s)"
proof -
  let ?d = "\<lparr>don_header_kva = header_kva e, don_count = entry_count e, resolved = False\<rparr>" and ?w = "page_words (entry_header s e)"
  have "donated ?d s = ?w" by (rule ext) (simp add: donated_def entry_header_def)
  then have b: "user_tree mem' ttbr" "n \<le> cap" "tree_tables mem' ttbr = ?w ` {PROCESS_KERNEL_OBJ_PAGES..<PROCESS_KERNEL_OBJ_PAGES + n}"
    "\<forall>pg < 262144. page_entry mem' ttbr pg = view_after (concat mss) (\<lambda>_. None) pg"
    using build_spec [OF donation_of_live [OF assms(1-5)], of mss mem] assms(7) by (auto split: if_splits)
  have mo: "frames_ok p (phys s)" using ps_invD(1) [OF assms(1)] by (simp add: mem_ok_def)
  have "?w i \<in> frame_paddr ` taken_frames p (phys s)" if "i < entry_count e" for i
    using buddy_words(2,3) [OF assms(1-3) that] by (metis imageI)
  then have "tree_tables mem' ttbr \<subseteq> frame_paddr ` taken_frames p (phys s)" unfolding b(3) using b(2) assms(5) by auto
  then show ?thesis using view_typed [OF b(1,4) assms(6)] mo assms(4) by (simp add: space_inv_def)
qed

lemma mapped_inv:
  assumes "space_inv p ttbr mem m" and "covered b" and "map_pages_in_existing p ttbr va b attr (mem, m) = Return (r, mem', m')"
  shows "space_inv p ttbr mem' m'"
proof -
  have s: "user_tree mem ttbr" "frames_ok p m" "ram_addressable p" "tree_tables mem ttbr \<subseteq> frame_paddr ` taken_frames p m"
    "\<forall>pg < 262144. case page_entry mem ttbr pg of None \<Rightarrow> True | Some (l, e) \<Rightarrow> l = 3 \<and> user_pte_ok e"
    using assms(1) by (simp_all add: space_inv_def space_typed_def)
  obtain F where F: "r = map_verdict p mem ttbr va (bh_count b) m" "frames_ok p m'" "user_tree mem' ttbr"
    "taken_frames p m' = taken_frames p m \<union> F" "tree_tables mem' ttbr = tree_tables mem ttbr \<union> frame_paddr ` F"
    "case r of Ok u \<Rightarrow> \<forall>pg < 262144. page_entry mem' ttbr pg =
       (if page_no va \<le> pg \<and> pg - page_no va < bh_count b then Some (3, mapped_as b attr (pg - page_no va)) else page_entry mem ttbr pg)
     | Err e \<Rightarrow> mem' = mem \<and> F = {}"
    using map_pages_spec [OF s(1,2) assms(2) s(3) taken_tables_not_free [OF s(2,4)] refl, of va attr] assms(3) by auto
  have "tree_tables mem' ttbr \<subseteq> frame_paddr ` taken_frames p m'" using s(4) unfolding F(4,5) by blast
  moreover have "\<forall>pg < 262144. case page_entry mem' ttbr pg of None \<Rightarrow> True | Some (l, e) \<Rightarrow> l = 3 \<and> user_pte_ok e"
    using s(5) F(6) mapped_as_typed by (cases r) simp_all
  ultimately show ?thesis using F(2,3) s(3) by (simp add: space_inv_def space_typed_def)
qed

lemma unmapped_inv:
  assumes "space_inv p ttbr mem m" and "unat va + length expected * 4096 \<le> 2 ^ 30" and "unmap_validated ttbr va expected mem = Return (r, mem')"
  shows "space_inv p ttbr mem' m"
proof (cases "validate_pte_match mem ttbr va expected")
  case (Ok u)
  then have c: "clear_from ttbr va [0..<length expected] mem = Return mem'"
    using assms(3) by (auto simp: unmap_validated_def clear_validated_pte_def returned)
  have t: "user_tree mem ttbr" using assms(1) by (simp add: space_inv_def space_typed_def)
  have "\<forall>i \<in> set [0..<length expected]. va + of_nat i * 4096 < USER_VA_END" using page_no_add(1) [OF assms(2)] by simp
  from unmap_entries [OF t this c] have e: "tables_agree mem mem' ttbr" "\<forall>pg < 262144. page_entry mem' ttbr pg \<in> {None, page_entry mem ttbr pg}"
    by simp_all
  have "case page_entry mem' ttbr pg of None \<Rightarrow> True | Some (l, e) \<Rightarrow> l = 3 \<and> user_pte_ok e" if "pg < 262144" for pg
  proof -
    have "case page_entry mem ttbr pg of None \<Rightarrow> True | Some (l, e) \<Rightarrow> l = 3 \<and> user_pte_ok e"
      using assms(1) that by (simp add: space_inv_def space_typed_def)
    then show ?thesis using e(2) [rule_format, OF that] by (elim insertE) simp_all
  qed
  then show ?thesis
    using assms(1) tables_agree_tree [OF e(1) t] tables_agree_tables [OF e(1)] by (simp add: space_inv_def space_typed_def)
next
  case (Err i)
  then show ?thesis using assms(1,3) by (simp add: unmap_validated_def)
qed

lemma space_run_inv: "space_run p ttbr mem m \<Longrightarrow> space_inv p ttbr mem m"
proof (induction rule: space_run.induct)
  case (Elsewhere mem m m')
  then show ?case by (simp add: space_inv_def)
qed (use created_inv donated_inv mapped_inv unmapped_inv in metis)+

lemma typed_not_blocked:
  assumes "space_typed mem ttbr" and "i < 512"
  shows "\<not> blocked mem ttbr i"
proof
  assume "blocked mem ttbr i"
  then have "page_entry mem ttbr (i * 512) = Some (2, l2_entry mem ttbr (of_nat i))"
    by (auto simp: blocked_def page_entry_def user_entry_def pte_kind_bits Let_def)
  moreover have "i * 512 < 262144" using assms(2) by simp
  then have "case page_entry mem ttbr (i * 512) of None \<Rightarrow> True | Some (l, e) \<Rightarrow> l = 3 \<and> user_pte_ok e"
    using assms(1) unfolding space_typed_def by blast
  ultimately show False by simp
qed

text \<open>C8. Address spaces stay well typed. However an address space came about, at boot or from donated
  pages, and whatever is mapped into it and unmapped from it afterwards, its tables form a tree of
  distinct frames in use, every mapped page is a level-3 page entry with the access flag, user read
  and write permission and no kernel execution, and, since blocks never occur, mapping into it never
  fails with a block conflict.\<close>

theorem address_space_typed:
  assumes "space_run p ttbr mem m"
  shows "space_typed mem ttbr \<and> tree_tables mem ttbr \<subseteq> frame_paddr ` taken_frames p m \<and>
    map_verdict p mem ttbr va n m \<noteq> Err TooManyL3Regions"
proof -
  have s: "space_typed mem ttbr" "tree_tables mem ttbr \<subseteq> frame_paddr ` taken_frames p m"
    using space_run_inv [OF assms] by (simp_all add: space_inv_def)
  have "\<not> blocked mem ttbr i" if "in_user_range va n" "i \<in> touched (page_no va) n" for i
  proof (rule typed_not_blocked [OF s(1)])
    have "page_no va + n \<le> 262144" using that(1) by (auto simp: in_user_range_def page_no_def)
    then show "i < 512" using that(2) by (auto simp: touched_def)
  qed
  with s show ?thesis by (auto simp: map_verdict_def)
qed

theorem address_space_typed_witness:
  "\<exists>ttbr mem m. space_run virt_board ttbr mem m \<and> space_typed mem ttbr \<and> map_verdict virt_board mem ttbr 0x10000 1 m \<noteq> Err TooManyL3Regions"
proof -
  obtain m where m: "frames_ok virt_board m" "card (free_frames virt_board m) = 16" using demo_mem by (auto simp: mem_ok_def)
  have c: "card (regions_of demo_mappings) \<le> MAX_L3_TABLES \<and> 3 + card (regions_of demo_mappings) \<le> card (free_frames virt_board m)"
    by (simp add: demo_regions m(2) MAX_L3_TABLES_def)
  have fi: "frames_in virt_board (free_frames virt_board m \<union> taken_frames virt_board m) m"
    using m(1) virt_board_addressable by (simp add: frames_in_def)
  obtain ttbr m' mem' where "create_address_space virt_board demo_mappings (m, \<lambda>_. 0) = Return (Ok (PhysAddr ttbr), m', mem')"
    using create_spec [OF fi, of demo_mappings "\<lambda>_. 0", unfolded if_P [OF c]] by (elim exE conjE) (rule that)
  from space_run.Created [OF m(1) virt_board_addressable _ this] have run: "space_run virt_board ttbr mem' m'" by (simp add: demo_mappings_def)
  from address_space_typed [OF run, of "0x10000" 1] run show ?thesis by blast
qed

end
