(* ===== verification/Kvm_List.thy ===== *)
theory Kvm_List
  imports Addr
begin

text \<open>
  The free list of the kernel virtual-address allocator, \<^verbatim>\<open>KvmFreeList\<close> of
  \<^verbatim>\<open>lockjaw-types/src/kvm.rs\<close>: an array of free regions sorted by address with a live count,
  first-fit allocation and freeing with two-sided coalescing. The loops that shift the array and the
  checked arithmetic of the development profile are written out. The specification is the set of free
  bytes.
\<close>

section \<open>The list\<close>

definition KVM_POOL_BASE :: u64 where "KVM_POOL_BASE = 0xFFFF800000000000"
definition KVM_POOL_VA_SPAN :: u64 where "KVM_POOL_VA_SPAN = push_bit 39 1"
definition KVM_POOL_END :: u64 where "KVM_POOL_END = KVM_POOL_BASE + KVM_POOL_VA_SPAN"
definition KVM_POOL_USABLE_SIZE :: u64 where "KVM_POOL_USABLE_SIZE = push_bit 30 1"
definition KVM_MAX_FREE_REGIONS :: nat where "KVM_MAX_FREE_REGIONS = 64"

record KvmFreeRegion =
  fr_start :: KernelVa
  fr_pages :: nat

datatype KvmFreeListError = OutOfVirtualMemory | RegionTableFull | DoubleFree | OutOfPool

record KvmFreeList =
  fl_regions :: "KvmFreeRegion list"
  fl_count :: nat

definition kvm_list_new :: KvmFreeList where
  "kvm_list_new =
     \<lparr>fl_regions = (replicate KVM_MAX_FREE_REGIONS \<lparr>fr_start = KernelVa KVM_POOL_BASE, fr_pages = 0\<rparr>)
        [0 := \<lparr>fr_start = KernelVa KVM_POOL_BASE, fr_pages = unat (KVM_POOL_USABLE_SIZE div PAGE_SIZE)\<rparr>],
      fl_count = 1\<rparr>"

definition region_count :: "KvmFreeList \<Rightarrow> nat" where
  "region_count fl = fl_count fl"

fun sum_pages :: "KvmFreeRegion list \<Rightarrow> nat list \<Rightarrow> nat \<Rightarrow> nat outcome" where
  "sum_pages rs [] acc = Return acc"
| "sum_pages rs (i # is) acc = assert_then (i < length rs) (sum_pages rs is (acc + fr_pages (rs ! i)))"

definition kvm_free_pages :: "KvmFreeList \<Rightarrow> nat outcome" where
  "kvm_free_pages fl = sum_pages (fl_regions fl) [0..<fl_count fl] 0"

definition kvm_region :: "nat \<Rightarrow> KvmFreeList \<Rightarrow> KvmFreeRegion option outcome" where
  "kvm_region idx fl =
     (if idx < fl_count fl
      then assert_then (idx < length (fl_regions fl)) (Return (Some (fl_regions fl ! idx)))
      else Return None)"

text \<open>The two shifting loops over the array, by the list of the indices they visit.\<close>

fun shift_down :: "nat list \<Rightarrow> 'a list \<Rightarrow> 'a list outcome" where
  "shift_down [] rs = Return rs"
| "shift_down (j # js) rs = assert_then (j + 1 < length rs) (shift_down js (rs[j := rs ! (j + 1)]))"

fun shift_up :: "nat list \<Rightarrow> 'a list \<Rightarrow> 'a list outcome" where
  "shift_up [] rs = Return rs"
| "shift_up (j # js) rs = assert_then (j + 1 < length rs) (shift_up js (rs[j + 1 := rs ! j]))"

section \<open>Allocation\<close>

definition take_from_region :: "nat \<Rightarrow> nat \<Rightarrow> KvmFreeList \<Rightarrow> ((KernelVa, KvmFreeListError) result \<times> KvmFreeList) outcome" where
  "take_from_region i pages fl =
     (let r = fl_regions fl ! i; base = fr_start r; remaining = fr_pages r - pages in
      if remaining = 0 then
        bind_outcome (shift_down [i..<fl_count fl - 1] (fl_regions fl)) (\<lambda>rs.
          Return (Ok base, fl\<lparr>fl_regions := rs, fl_count := fl_count fl - 1\<rparr>))
      else
        bind_outcome (kva_add_pages base pages) (\<lambda>start.
          Return (Ok base, fl\<lparr>fl_regions := (fl_regions fl)[i := \<lparr>fr_start = start, fr_pages = remaining\<rparr>]\<rparr>)))"

fun alloc_scan :: "nat list \<Rightarrow> nat \<Rightarrow> KvmFreeList \<Rightarrow> ((KernelVa, KvmFreeListError) result \<times> KvmFreeList) outcome" where
  "alloc_scan [] pages fl = Return (Err OutOfVirtualMemory, fl)"
| "alloc_scan (i # is) pages fl =
     assert_then (i < length (fl_regions fl))
       (if pages \<le> fr_pages (fl_regions fl ! i) then take_from_region i pages fl else alloc_scan is pages fl)"

definition try_alloc :: "nat \<Rightarrow> KvmFreeList \<Rightarrow> ((KernelVa, KvmFreeListError) result \<times> KvmFreeList) outcome" where
  "try_alloc pages fl =
     (if pages = 0 then Return (Err OutOfVirtualMemory, fl) else alloc_scan [0..<fl_count fl] pages fl)"

section \<open>Freeing\<close>

text \<open>\<^verbatim>\<open>start + pages * PAGE_SIZE\<close> on 64-bit words, panicking on overflow.\<close>

definition end_of :: "u64 \<Rightarrow> nat \<Rightarrow> u64 outcome" where
  "end_of start pages =
     assert_then (unat start + pages * unat PAGE_SIZE < 2 ^ 64) (Return (start + of_nat pages * PAGE_SIZE))"

definition region_at :: "nat \<Rightarrow> KvmFreeList \<Rightarrow> KvmFreeRegion outcome" where
  "region_at i fl = assert_then (i < length (fl_regions fl)) (Return (fl_regions fl ! i))"

definition region_end :: "KvmFreeRegion \<Rightarrow> u64 outcome" where
  "region_end r = end_of (kva_u64 (fr_start r)) (fr_pages r)"

definition set_region :: "nat \<Rightarrow> KvmFreeRegion \<Rightarrow> KvmFreeList \<Rightarrow> KvmFreeList outcome" where
  "set_region i r fl = assert_then (i < length (fl_regions fl)) (Return (fl\<lparr>fl_regions := (fl_regions fl)[i := r]\<rparr>))"

fun insertion_point :: "nat list \<Rightarrow> u64 \<Rightarrow> KvmFreeList \<Rightarrow> nat outcome" where
  "insertion_point [] start_va fl = Return (fl_count fl)"
| "insertion_point (i # is) start_va fl =
     bind_outcome (region_at i fl) (\<lambda>r.
       if start_va < kva_u64 (fr_start r) then Return i else insertion_point is start_va fl)"

definition overlaps_neighbour :: "nat \<Rightarrow> u64 \<Rightarrow> u64 \<Rightarrow> KvmFreeList \<Rightarrow> bool outcome" where
  "overlaps_neighbour insert_at start_va end_va fl =
     bind_outcome
       (if 0 < insert_at
        then bind_outcome (region_at (insert_at - 1) fl) (\<lambda>prev.
          bind_outcome (region_end prev) (\<lambda>prev_end. Return (start_va < prev_end)))
        else Return False) (\<lambda>with_prev.
     if with_prev then Return True
     else if insert_at < fl_count fl
     then bind_outcome (region_at insert_at fl) (\<lambda>nxt. Return (kva_u64 (fr_start nxt) < end_va))
     else Return False)"

definition merge_prev :: "nat \<Rightarrow> u64 \<Rightarrow> nat \<Rightarrow> KvmFreeList \<Rightarrow> (bool \<times> KvmFreeList) outcome" where
  "merge_prev insert_at start_va pages fl =
     (if 0 < insert_at
      then bind_outcome (region_at (insert_at - 1) fl) (\<lambda>prev.
        bind_outcome (region_end prev) (\<lambda>prev_end.
          if prev_end = start_va
          then bind_outcome (set_region (insert_at - 1) \<lparr>fr_start = fr_start prev, fr_pages = fr_pages prev + pages\<rparr> fl)
            (\<lambda>fl. Return (True, fl))
          else Return (False, fl)))
      else Return (False, fl))"

definition merge_both :: "nat \<Rightarrow> KvmFreeList \<Rightarrow> KvmFreeList outcome" where
  "merge_both insert_at fl =
     bind_outcome (region_at (insert_at - 1) fl) (\<lambda>prev.
     bind_outcome (region_end prev) (\<lambda>prev_end.
     if insert_at < fl_count fl then
       bind_outcome (region_at insert_at fl) (\<lambda>nxt.
         if kva_u64 (fr_start nxt) = prev_end
         then bind_outcome (set_region (insert_at - 1) \<lparr>fr_start = fr_start prev, fr_pages = fr_pages prev + fr_pages nxt\<rparr> fl)
           (\<lambda>fl. bind_outcome (shift_down [insert_at..<fl_count fl - 1] (fl_regions fl)) (\<lambda>rs.
             Return (fl\<lparr>fl_regions := rs, fl_count := fl_count fl - 1\<rparr>)))
         else Return fl)
     else Return fl))"

definition insert_region :: "nat \<Rightarrow> KernelVa \<Rightarrow> nat \<Rightarrow> KvmFreeList \<Rightarrow> ((unit, KvmFreeListError) result \<times> KvmFreeList) outcome" where
  "insert_region insert_at start pages fl =
     (if KVM_MAX_FREE_REGIONS \<le> fl_count fl then Return (Err RegionTableFull, fl)
      else
        bind_outcome (shift_up (rev [insert_at..<fl_count fl]) (fl_regions fl)) (\<lambda>rs.
        bind_outcome (set_region insert_at \<lparr>fr_start = start, fr_pages = pages\<rparr> (fl\<lparr>fl_regions := rs\<rparr>)) (\<lambda>fl.
          Return (Ok (), fl\<lparr>fl_count := fl_count fl + 1\<rparr>))))"

definition coalesce :: "nat \<Rightarrow> KernelVa \<Rightarrow> nat \<Rightarrow> u64 \<Rightarrow> KvmFreeList \<Rightarrow> ((unit, KvmFreeListError) result \<times> KvmFreeList) outcome" where
  "coalesce insert_at start pages end_va fl =
     bind_outcome (merge_prev insert_at (kva_u64 start) pages fl) (\<lambda>(merged_with_prev, fl).
     if merged_with_prev then bind_outcome (merge_both insert_at fl) (\<lambda>fl. Return (Ok (), fl))
     else
       bind_outcome (if insert_at < fl_count fl
         then bind_outcome (region_at insert_at fl) (\<lambda>nxt.
           Return (if kva_u64 (fr_start nxt) = end_va then Some (fr_pages nxt) else None))
         else Return None) (\<lambda>touching.
       case touching of
         Some n \<Rightarrow>
           bind_outcome (set_region insert_at \<lparr>fr_start = start, fr_pages = pages + n\<rparr> fl) (\<lambda>fl. Return (Ok (), fl))
       | None \<Rightarrow> insert_region insert_at start pages fl))"

definition kvm_list_free :: "KernelVa \<Rightarrow> nat \<Rightarrow> KvmFreeList \<Rightarrow> ((unit, KvmFreeListError) result \<times> KvmFreeList) outcome" where
  "kvm_list_free start pages fl =
     (if pages = 0 then Return (Ok (), fl)
      else
        let start_va = kva_u64 start in
        bind_outcome (end_of start_va pages) (\<lambda>end_va.
        let usable_end = KVM_POOL_BASE + KVM_POOL_USABLE_SIZE in
        if start_va < KVM_POOL_BASE \<or> usable_end < end_va then Return (Err OutOfPool, fl)
        else
          bind_outcome (insertion_point [0..<fl_count fl] start_va fl) (\<lambda>insert_at.
          bind_outcome (overlaps_neighbour insert_at start_va end_va fl) (\<lambda>overlap.
          if overlap then Return (Err DoubleFree, fl) else coalesce insert_at start pages end_va fl))))"


section \<open>The array as a list\<close>

definition live :: "KvmFreeList \<Rightarrow> KvmFreeRegion list" where
  "live fl = take (fl_count fl) (fl_regions fl)"

lemma shift_down_list:
  "i \<le> k \<Longrightarrow> k < length rs \<Longrightarrow>
    shift_down [i..<k] rs = Return (take i rs @ take (k - i) (drop (i + 1) rs) @ drop k rs)"
proof (induction "k - i" arbitrary: i rs)
  case 0
  then show ?case by simp
next
  case (Suc n)
  then have lt: "i < k" by simp
  let ?rs = "rs[i := rs ! (i + 1)]"
  have "shift_down [i..<k] rs = shift_down [i + 1..<k] ?rs"
    using lt Suc.prems by (simp add: upt_conv_Cons)
  also have "\<dots> = Return (take (i + 1) ?rs @ take (k - (i + 1)) (drop (i + 1 + 1) ?rs) @ drop k ?rs)"
    using Suc.hyps(1) [of "i + 1" ?rs] Suc.hyps(2) Suc.prems lt by simp
  also have "take (i + 1) ?rs = take i rs @ [rs ! (i + 1)]"
    using Suc.prems lt by (simp add: take_Suc_conv_app_nth)
  also have "take (k - i) (drop (i + 1) rs) = rs ! (i + 1) # take (k - (i + 1)) (drop (i + 2) rs)"
    using Suc.prems lt by (simp add: Cons_nth_drop_Suc [symmetric] take_Cons' Suc_diff_Suc)
  ultimately show ?case using lt by simp
qed

lemma shift_up_list:
  "i \<le> c \<Longrightarrow> c < length rs \<Longrightarrow>
    shift_up (rev [i..<c]) rs = Return (take (i + 1) rs @ take (c - i) (drop i rs) @ drop (c + 1) rs)"
proof (induction "c - i" arbitrary: c rs)
  case 0
  then show ?case by (simp add: id_take_nth_drop [symmetric])
next
  case (Suc n)
  then obtain d where c: "c = Suc d" and d: "i \<le> d" by (cases c) auto
  let ?rs = "rs[d + 1 := rs ! d]"
  have "shift_up (rev [i..<c]) rs = shift_up (rev [i..<d]) ?rs"
    using Suc.prems d by (simp add: c)
  also have "\<dots> = Return (take (i + 1) ?rs @ take (d - i) (drop i ?rs) @ drop (d + 1) ?rs)"
    using Suc.hyps(1) [of d ?rs] Suc.hyps(2) Suc.prems d c by simp
  also have "take (d - i) (drop i ?rs) = take (d - i) (drop i rs)"
    using d by (simp add: drop_update_swap)
  also have "drop (d + 1) ?rs = rs ! d # drop (d + 2) rs"
    using Suc.prems c by (simp add: Cons_nth_drop_Suc [symmetric])
  also have "take (c - i) (drop i rs) = take (d - i) (drop i rs) @ [rs ! d]"
    using Suc.prems d by (simp add: c Suc_diff_le take_Suc_conv_app_nth)
  ultimately show ?case using d c by simp
qed

text \<open>
  A region as an interval of addresses. A well-formed list has regions inside the usable pool,
  non-empty, in address order and with a gap between neighbours: touching regions have been merged.
\<close>

definition pool_lo :: nat where "pool_lo = 0xFFFF800000000000"
definition pool_hi :: nat where "pool_hi = 0xFFFF800040000000"

definition start_of :: "KvmFreeRegion \<Rightarrow> nat" where
  "start_of r = unat (kva_u64 (fr_start r))"

definition stop_of :: "KvmFreeRegion \<Rightarrow> nat" where
  "stop_of r = start_of r + fr_pages r * 4096"

definition spans_ok :: "KvmFreeRegion list \<Rightarrow> bool" where
  "spans_ok rs \<longleftrightarrow> sorted_wrt (\<lambda>r r'. stop_of r < start_of r') rs \<and>
     (\<forall>r \<in> set rs. 0 < fr_pages r \<and> pool_lo \<le> start_of r \<and> stop_of r \<le> pool_hi)"

definition bytes_of :: "KvmFreeRegion list \<Rightarrow> nat set" where
  "bytes_of rs = (\<Union>r \<in> set rs. {start_of r..<stop_of r})"

definition list_wf :: "KvmFreeList \<Rightarrow> bool" where
  "list_wf fl \<longleftrightarrow> length (fl_regions fl) = KVM_MAX_FREE_REGIONS \<and> fl_count fl \<le> KVM_MAX_FREE_REGIONS \<and> spans_ok (live fl)"

definition free_bytes :: "KvmFreeList \<Rightarrow> nat set" where
  "free_bytes fl = bytes_of (live fl)"

lemma pool_bounds: "unat KVM_POOL_BASE = pool_lo" "unat (KVM_POOL_BASE + KVM_POOL_USABLE_SIZE) = pool_hi" "pool_hi < 2 ^ 64"
  "pool_hi = pool_lo + 262144 * 4096"
  by (simp_all add: KVM_POOL_BASE_def KVM_POOL_USABLE_SIZE_def pool_lo_def pool_hi_def)

lemma end_of_nat:
  "unat a + n * 4096 < 2 ^ 64 \<Longrightarrow> end_of a n = Return (a + of_nat n * PAGE_SIZE) \<and> unat (a + of_nat n * PAGE_SIZE) = unat a + n * 4096"
  by (simp add: end_of_def PAGE_SIZE_def unat_word_ariths unat_of_nat mod_simps)

lemma region_end_nat:
  assumes "stop_of r \<le> pool_hi"
  obtains e where "region_end r = Return e" and "unat e = stop_of r"
proof -
  have "unat (kva_u64 (fr_start r)) + fr_pages r * 4096 < 2 ^ 64"
    using assms pool_bounds(3) by (simp add: stop_of_def start_of_def)
  from end_of_nat [OF this] show ?thesis
    unfolding region_end_def stop_of_def start_of_def by (elim conjE) (rule that [unfolded region_end_def stop_of_def start_of_def])
qed

lemma add_pages_nat:
  assumes "unat (kva_u64 a) + n * 4096 < 2 ^ 64"
  obtains b where "kva_add_pages a n = Return b" and "unat (kva_u64 b) = unat (kva_u64 a) + n * 4096"
  using end_of_nat [OF assms] assms by (auto simp: kva_add_pages_def PAGE_SIZE_def)

lemma spans_ok_append:
  "spans_ok (xs @ ys) \<longleftrightarrow> spans_ok xs \<and> spans_ok ys \<and> (\<forall>x \<in> set xs. \<forall>y \<in> set ys. stop_of x < start_of y)"
  by (auto simp: spans_ok_def sorted_wrt_append)

lemma spans_ok_Cons:
  "spans_ok (r # rs) \<longleftrightarrow> 0 < fr_pages r \<and> pool_lo \<le> start_of r \<and> stop_of r \<le> pool_hi \<and>
     (\<forall>r' \<in> set rs. stop_of r < start_of r') \<and> spans_ok rs"
  by (auto simp: spans_ok_def)

lemma spans_ok_Nil [simp]: "spans_ok []"
  by (simp add: spans_ok_def)

lemma bytes_of_simps [simp]:
  "bytes_of [] = {}" "bytes_of (r # rs) = {start_of r..<stop_of r} \<union> bytes_of rs" "bytes_of (xs @ ys) = bytes_of xs \<union> bytes_of ys"
  by (auto simp: bytes_of_def)

lemma start_stop: "0 < fr_pages r \<Longrightarrow> start_of r < stop_of r" "start_of r \<le> stop_of r"
  by (simp_all add: stop_of_def)

section \<open>Allocation\<close>

lemma alloc_scan_position:
  assumes "c \<le> length (fl_regions fl)" and "i \<le> c"
  shows "alloc_scan [i..<c] pages fl =
    (case position (\<lambda>r. pages \<le> fr_pages r) (drop i (take c (fl_regions fl))) of
       None \<Rightarrow> Return (Err OutOfVirtualMemory, fl)
     | Some k \<Rightarrow> take_from_region (i + k) pages fl)"
  using assms
proof (induction "c - i" arbitrary: i)
  case 0
  then show ?case by simp
next
  case (Suc n)
  then have lt: "i < c" by simp
  then have d: "drop i (take c (fl_regions fl)) = fl_regions fl ! i # drop (Suc i) (take c (fl_regions fl))"
    using Suc.prems by (simp add: Cons_nth_drop_Suc [symmetric])
  have "alloc_scan [Suc i..<c] pages fl =
    (case position (\<lambda>r. pages \<le> fr_pages r) (drop (Suc i) (take c (fl_regions fl))) of
       None \<Rightarrow> Return (Err OutOfVirtualMemory, fl) | Some k \<Rightarrow> take_from_region (Suc i + k) pages fl)"
    using Suc.hyps(1) [of "Suc i"] Suc.hyps(2) Suc.prems lt by simp
  then show ?case using lt Suc.prems unfolding d upt_conv_Cons [OF lt] by (auto split: option.split)
qed

lemma try_alloc_position:
  assumes "list_wf fl" and "0 < pages"
  shows "try_alloc pages fl =
    (case position (\<lambda>r. pages \<le> fr_pages r) (live fl) of
       None \<Rightarrow> Return (Err OutOfVirtualMemory, fl)
     | Some k \<Rightarrow> take_from_region k pages fl)"
  using alloc_scan_position [of "fl_count fl" fl 0 pages, unfolded add_0 drop_0] assms
  by (simp add: try_alloc_def list_wf_def live_def)

text \<open>What is left of a region after its first pages are taken.\<close>

definition shrunk :: "nat \<Rightarrow> KvmFreeRegion \<Rightarrow> KvmFreeRegion list \<Rightarrow> bool" where
  "shrunk pages r rs \<longleftrightarrow>
     (if fr_pages r = pages then rs = []
      else \<exists>r'. rs = [r'] \<and> start_of r' = start_of r + pages * 4096 \<and> fr_pages r' = fr_pages r - pages)"

lemma take_from_region_live:
  assumes "list_wf fl" and "j < fl_count fl" and "pages \<le> fr_pages (live fl ! j)"
  obtains fl' rs where "take_from_region j pages fl = Return (Ok (fr_start (live fl ! j)), fl')"
    and "length (fl_regions fl') = KVM_MAX_FREE_REGIONS" and "fl_count fl' \<le> fl_count fl"
    and "live fl' = take j (live fl) @ rs @ drop (Suc j) (live fl)" and "shrunk pages (live fl ! j) rs"
    and "fl_count fl' = fl_count fl - (if rs = [] then 1 else 0)"
proof -
  let ?r = "fl_regions fl ! j"
  have len: "length (fl_regions fl) = KVM_MAX_FREE_REGIONS" "fl_count fl \<le> length (fl_regions fl)"
    using assms(1) by (simp_all add: list_wf_def)
  have r: "live fl ! j = ?r" using assms(2) by (simp add: live_def)
  have "?r \<in> set (live fl)" using assms(2) len(2) nth_mem [of j "live fl"] unfolding r by (simp add: live_def)
  then have hi: "stop_of ?r \<le> pool_hi" using assms(1) by (simp add: list_wf_def spans_ok_def)
  show thesis
  proof (cases "fr_pages ?r = pages")
    case True
    let ?rs = "take j (fl_regions fl) @ take (fl_count fl - 1 - j) (drop (j + 1) (fl_regions fl)) @ drop (fl_count fl - 1) (fl_regions fl)"
    have "shift_down [j..<fl_count fl - 1] (fl_regions fl) = Return ?rs"
      using shift_down_list [of j "fl_count fl - 1" "fl_regions fl"] assms(2) len by simp
    then have "take_from_region j pages fl = Return (Ok (fr_start ?r), fl\<lparr>fl_regions := ?rs, fl_count := fl_count fl - 1\<rparr>)"
      by (simp add: take_from_region_def True)
    moreover have "live (fl\<lparr>fl_regions := ?rs, fl_count := fl_count fl - 1\<rparr>) = take j (live fl) @ [] @ drop (Suc j) (live fl)"
      using assms(2) len by (cases "j = fl_count fl - 1") (auto simp: live_def drop_take min_def)
    moreover have "length ?rs = KVM_MAX_FREE_REGIONS" using assms(2) len by simp
    ultimately show ?thesis
      by (intro that [of "fl\<lparr>fl_regions := ?rs, fl_count := fl_count fl - 1\<rparr>" "[]"]) (simp_all add: r shrunk_def True)
  next
    case False
    then have lt: "pages < fr_pages ?r" using assms(3) by (simp add: r)
    then have "unat (kva_u64 (fr_start ?r)) + pages * 4096 < 2 ^ 64"
      using hi pool_bounds(3) by (simp add: stop_of_def start_of_def)
    then obtain b where b: "kva_add_pages (fr_start ?r) pages = Return b" "unat (kva_u64 b) = start_of ?r + pages * 4096"
      unfolding start_of_def by (rule add_pages_nat)
    let ?r' = "\<lparr>fr_start = b, fr_pages = fr_pages ?r - pages\<rparr>"
    have "take_from_region j pages fl = Return (Ok (fr_start ?r), fl\<lparr>fl_regions := (fl_regions fl)[j := ?r']\<rparr>)"
      using lt by (simp add: take_from_region_def Let_def b(1))
    moreover have "live (fl\<lparr>fl_regions := (fl_regions fl)[j := ?r']\<rparr>) = take j (live fl) @ [?r'] @ drop (Suc j) (live fl)"
      using assms(2) len by (simp add: live_def take_update_swap upd_conv_take_nth_drop take_Cons' drop_take)
    ultimately show ?thesis using b(2) False len(1) by (intro that [of "fl\<lparr>fl_regions := (fl_regions fl)[j := ?r']\<rparr>" "[?r']"]) (simp_all add: r shrunk_def start_of_def)
  qed
qed

lemma spans_apart:
  "spans_ok rs \<Longrightarrow> r \<in> set rs \<Longrightarrow> r' \<in> set rs \<Longrightarrow> r = r' \<or> stop_of r < start_of r' \<or> stop_of r' < start_of r"
  by (induction rs) (auto simp: spans_ok_Cons)

lemma run_in_region:
  assumes "spans_ok rs" and "0 < n" and "{b..<b + n} \<subseteq> bytes_of rs"
  obtains r where "r \<in> set rs" and "start_of r \<le> b" and "b + n \<le> stop_of r"
proof -
  have "b \<in> bytes_of rs" using assms(2,3) by auto
  then obtain r where r: "r \<in> set rs" "start_of r \<le> b" "b < stop_of r" by (auto simp: bytes_of_def)
  have "b + n \<le> stop_of r"
  proof (rule ccontr)
    assume "\<not> b + n \<le> stop_of r"
    then have "stop_of r \<in> bytes_of rs" using assms(3) r(3) by auto
    then obtain r' where "r' \<in> set rs" "start_of r' \<le> stop_of r" "stop_of r < stop_of r'" by (auto simp: bytes_of_def)
    with spans_apart [OF assms(1) r(1), of r'] r show False by auto
  qed
  with r show thesis by (intro that)
qed

lemma shrunk_spans:
  assumes "spans_ok (xs @ r # ys)" and "shrunk pages r rs" and "0 < pages" and "pages \<le> fr_pages r"
  shows "spans_ok (xs @ rs @ ys)" and "bytes_of (xs @ rs @ ys) = bytes_of (xs @ r # ys) - {start_of r..<start_of r + pages * 4096}"
proof -
  note ok = assms(1) [unfolded spans_ok_append spans_ok_Cons]
  have xs: "b < start_of r" if "b \<in> bytes_of xs" for b using that ok by (fastforce simp: bytes_of_def)
  have ys: "stop_of r < b" if "b \<in> bytes_of ys" for b using that ok by (fastforce simp: bytes_of_def)
  have le: "start_of r + pages * 4096 \<le> stop_of r" using assms(4) by (simp add: stop_of_def)
  have 1: "spans_ok (xs @ rs @ ys) \<and> bytes_of rs = {start_of r + pages * 4096..<stop_of r}"
  proof (cases "fr_pages r = pages")
    case True
    then show ?thesis using assms(2) ok by (auto simp: shrunk_def spans_ok_append stop_of_def)
  next
    case False
    then obtain r' where r': "rs = [r']" "start_of r' = start_of r + pages * 4096" "fr_pages r' = fr_pages r - pages"
      using assms(2) by (auto simp: shrunk_def)
    then have "stop_of r' = stop_of r" "0 < fr_pages r'" using False assms(4) by (simp_all add: stop_of_def diff_mult_distrib)
    with r' ok show ?thesis by (auto simp: spans_ok_append spans_ok_Cons)
  qed
  then show "spans_ok (xs @ rs @ ys)" by simp
  show "bytes_of (xs @ rs @ ys) = bytes_of (xs @ r # ys) - {start_of r..<start_of r + pages * 4096}"
    using 1 xs ys le by fastforce
qed

text \<open>An allocation takes the lowest free run of pages.\<close>

definition lowest_run :: "nat set \<Rightarrow> nat \<Rightarrow> nat \<Rightarrow> bool" where
  "lowest_run F pages a \<longleftrightarrow> {a..<a + pages * 4096} \<subseteq> F \<and> (\<forall>b. {b..<b + pages * 4096} \<subseteq> F \<longrightarrow> a \<le> b)"

lemma try_alloc_fits:
  assumes "list_wf fl" and "0 < pages" and "position (\<lambda>r. pages \<le> fr_pages r) (live fl) = Some j"
  obtains kva fl' where "try_alloc pages fl = Return (Ok kva, fl')" and "list_wf fl'"
    and "lowest_run (free_bytes fl) pages (unat (kva_u64 kva))"
    and "free_bytes fl' = free_bytes fl - {unat (kva_u64 kva)..<unat (kva_u64 kva) + pages * 4096}"
proof -
  have ok: "spans_ok (live fl)" and len: "length (live fl) = fl_count fl"
    using assms(1) by (auto simp: list_wf_def live_def)
  have j: "j < length (live fl)" "pages \<le> fr_pages (live fl ! j)" "\<And>i. i < j \<Longrightarrow> fr_pages (live fl ! i) < pages"
    using position_SomeD [OF assms(3)] by auto
  let ?r = "live fl ! j" and ?xs = "take j (live fl)" and ?ys = "drop (Suc j) (live fl)"
  have split: "live fl = ?xs @ ?r # ?ys" using j(1) by (rule id_take_nth_drop)
  obtain fl' rs where t: "take_from_region j pages fl = Return (Ok (fr_start ?r), fl')"
    "length (fl_regions fl') = KVM_MAX_FREE_REGIONS" "fl_count fl' \<le> fl_count fl"
    "live fl' = ?xs @ rs @ ?ys" "shrunk pages ?r rs"
    using take_from_region_live [OF assms(1) j(1) [unfolded len] j(2)] by metis
  have ok': "spans_ok (?xs @ ?r # ?ys)" using ok by (simp only: split [symmetric])
  note sp = shrunk_spans [OF ok' t(5) assms(2) j(2), folded t(4), folded split]
  have "list_wf fl'" using t(2,3) sp(1) assms(1) by (simp add: list_wf_def)
  moreover have "lowest_run (free_bytes fl) pages (start_of ?r)"
    unfolding lowest_run_def
  proof (intro conjI allI impI)
    have "?r \<in> set (live fl)" "start_of ?r + pages * 4096 \<le> stop_of ?r" using j(1,2) by (simp_all add: stop_of_def)
    then show "{start_of ?r..<start_of ?r + pages * 4096} \<subseteq> free_bytes fl" by (fastforce simp: free_bytes_def bytes_of_def)
  next
    fix b assume b: "{b..<b + pages * 4096} \<subseteq> free_bytes fl"
    have n: "0 < pages * 4096" using assms(2) by simp
    obtain r where r: "r \<in> set (live fl)" "start_of r \<le> b" "b + pages * 4096 \<le> stop_of r"
      by (rule run_in_region [OF ok n b [unfolded free_bytes_def]])
    then obtain i where i: "i < length (live fl)" "r = live fl ! i" by (auto simp: in_set_conv_nth)
    from r have "pages \<le> fr_pages r" by (simp add: stop_of_def)
    with j(3) [of i] i have "j \<le> i" by (meson not_le)
    then have "start_of ?r \<le> start_of r"
      using ok i j(1) start_stop(2) [of ?r] sorted_wrt_nth_less [of _ "live fl" j i]
      by (cases "i = j") (force simp: spans_ok_def)+
    with r(2) show "start_of ?r \<le> b" by simp
  qed
  moreover have "try_alloc pages fl = Return (Ok (fr_start ?r), fl')"
    using try_alloc_position [OF assms(1,2)] assms(3) t(1) by simp
  ultimately show thesis using sp(2) by (intro that) (simp_all add: start_of_def free_bytes_def)
qed

lemma try_alloc_none:
  assumes "list_wf fl" and "0 < pages" and "position (\<lambda>r. pages \<le> fr_pages r) (live fl) = None"
  shows "try_alloc pages fl = Return (Err OutOfVirtualMemory, fl)" and "\<not> {b..<b + pages * 4096} \<subseteq> free_bytes fl"
proof -
  show "try_alloc pages fl = Return (Err OutOfVirtualMemory, fl)" using try_alloc_position [OF assms(1,2)] assms(3) by simp
  show "\<not> {b..<b + pages * 4096} \<subseteq> free_bytes fl"
  proof
    assume b: "{b..<b + pages * 4096} \<subseteq> free_bytes fl"
    have "spans_ok (live fl)" "0 < pages * 4096" using assms(1,2) by (simp_all add: list_wf_def)
    then obtain r where r: "r \<in> set (live fl)" "start_of r \<le> b" "b + pages * 4096 \<le> stop_of r"
      using run_in_region b [unfolded free_bytes_def] by metis
    then have "pages \<le> fr_pages r" by (simp add: stop_of_def)
    with r(1) assms(3) show False by (simp add: position_None_iff)
  qed
qed

lemma try_alloc_spec:
  assumes "list_wf fl" and "0 < pages"
  shows "if \<exists>b. {b..<b + pages * 4096} \<subseteq> free_bytes fl
    then \<exists>kva fl'. try_alloc pages fl = Return (Ok kva, fl') \<and> list_wf fl' \<and>
      lowest_run (free_bytes fl) pages (unat (kva_u64 kva)) \<and>
      free_bytes fl' = free_bytes fl - {unat (kva_u64 kva)..<unat (kva_u64 kva) + pages * 4096}
    else try_alloc pages fl = Return (Err OutOfVirtualMemory, fl)"
proof (cases "position (\<lambda>r. pages \<le> fr_pages r) (live fl)")
  case None
  with try_alloc_none [OF assms] show ?thesis by simp
next
  case (Some j)
  obtain kva fl' where *: "try_alloc pages fl = Return (Ok kva, fl')" "list_wf fl'"
    "lowest_run (free_bytes fl) pages (unat (kva_u64 kva))"
    "free_bytes fl' = free_bytes fl - {unat (kva_u64 kva)..<unat (kva_u64 kva) + pages * 4096}"
    by (rule try_alloc_fits [OF assms Some])
  then have "\<exists>b. {b..<b + pages * 4096} \<subseteq> free_bytes fl" by (auto simp: lowest_run_def)
  with * show ?thesis by auto
qed

section \<open>Freeing\<close>

lemma region_at_live: "list_wf fl \<Longrightarrow> i < fl_count fl \<Longrightarrow> region_at i fl = Return (live fl ! i)"
  by (simp add: region_at_def live_def list_wf_def)

lemma insertion_point_position:
  assumes "list_wf fl" and "i \<le> fl_count fl"
  shows "insertion_point [i..<fl_count fl] s fl =
    Return (case position (\<lambda>r. s < kva_u64 (fr_start r)) (drop i (live fl)) of None \<Rightarrow> fl_count fl | Some k \<Rightarrow> i + k)"
  using assms(2)
proof (induction "fl_count fl - i" arbitrary: i)
  case 0
  then have "drop i (live fl) = []" by (simp add: live_def)
  with 0 show ?case by simp
next
  case (Suc n)
  then have lt: "i < fl_count fl" by simp
  then have "drop i (live fl) = live fl ! i # drop (Suc i) (live fl)"
    using assms(1) by (intro Cons_nth_drop_Suc [symmetric]) (simp add: live_def list_wf_def)
  moreover have "insertion_point [Suc i..<fl_count fl] s fl =
    Return (case position (\<lambda>r. s < kva_u64 (fr_start r)) (drop (Suc i) (live fl)) of None \<Rightarrow> fl_count fl | Some k \<Rightarrow> Suc i + k)"
    using Suc.hyps(1) [of "Suc i"] Suc.hyps(2) lt by simp
  ultimately show ?case
    using lt region_at_live [OF assms(1) lt] by (auto simp: upt_conv_Cons split: option.split)
qed

text \<open>The list around an insertion point, and the region that a freed range becomes.\<close>

definition around :: "KvmFreeList \<Rightarrow> nat \<Rightarrow> KvmFreeRegion list \<Rightarrow> KvmFreeRegion list \<Rightarrow> bool" where
  "around fl s xs ys \<longleftrightarrow> live fl = xs @ ys \<and> (\<forall>x \<in> set xs. start_of x \<le> s) \<and> (\<forall>y \<in> set ys. s < start_of y)"

lemma insertion_point_around:
  assumes "list_wf fl"
  obtains xs ys where "insertion_point [0..<fl_count fl] s fl = Return (length xs)" and "around fl (unat s) xs ys"
    and "length xs \<le> fl_count fl" and "length xs < fl_count fl \<longleftrightarrow> ys \<noteq> []"
proof -
  have len: "length (live fl) = fl_count fl" and ok: "spans_ok (live fl)" using assms by (auto simp: list_wf_def live_def)
  note ip = insertion_point_position [OF assms, of 0 s, unfolded add_0 drop_0, OF le0]
  have lt: "s < kva_u64 (fr_start r) \<longleftrightarrow> unat s < start_of r" for r by (simp add: start_of_def word_less_nat_alt)
  show thesis
  proof (cases "position (\<lambda>r. s < kva_u64 (fr_start r)) (live fl)")
    case None
    then have "\<forall>r \<in> set (live fl). start_of r \<le> unat s" by (auto simp: position_None_iff lt)
    then show ?thesis using that [of "live fl" "[]"] ip None len by (simp add: around_def)
  next
    case (Some k)
    have k: "k < length (live fl)" "unat s < start_of (live fl ! k)" "\<And>j. j < k \<Longrightarrow> start_of (live fl ! j) \<le> unat s"
      using position_SomeD [OF Some] by (auto simp: lt)
    let ?r = "live fl ! k"
    have d: "drop k (live fl) = ?r # drop (Suc k) (live fl)" using k(1) by (rule Cons_nth_drop_Suc [symmetric])
    have split: "live fl = take k (live fl) @ ?r # drop (Suc k) (live fl)" using k(1) by (rule id_take_nth_drop)
    have "spans_ok (take k (live fl) @ ?r # drop (Suc k) (live fl))" using ok by (simp only: split [symmetric])
    then have "\<forall>y \<in> set (drop k (live fl)). unat s < start_of y"
      using k(2) start_stop(2) [of ?r] unfolding d spans_ok_append spans_ok_Cons by fastforce
    moreover have "\<forall>x \<in> set (take k (live fl)). start_of x \<le> unat s"
      using k(1,3) by (auto simp: in_set_conv_nth)
    ultimately show ?thesis
      using that [of "take k (live fl)" "drop k (live fl)"] ip Some k(1) len by (simp add: around_def)
  qed
qed

definition touches_prev :: "nat \<Rightarrow> KvmFreeRegion list \<Rightarrow> bool" where
  "touches_prev s xs \<longleftrightarrow> xs \<noteq> [] \<and> stop_of (last xs) = s"

definition touches_next :: "nat \<Rightarrow> KvmFreeRegion list \<Rightarrow> bool" where
  "touches_next e ys \<longleftrightarrow> ys \<noteq> [] \<and> start_of (hd ys) = e"

definition merged :: "nat \<Rightarrow> nat \<Rightarrow> KvmFreeRegion list \<Rightarrow> KvmFreeRegion list \<Rightarrow> KvmFreeRegion list \<Rightarrow> bool" where
  "merged s e xs ys rs \<longleftrightarrow> (\<exists>m. rs =
     (if touches_prev s xs then butlast xs else xs) @ m # (if touches_next e ys then tl ys else ys) \<and>
     start_of m = (if touches_prev s xs then start_of (last xs) else s) \<and>
     stop_of m = (if touches_next e ys then stop_of (hd ys) else e) \<and> 0 < fr_pages m)"

lemma merged_spans:
  assumes "spans_ok (xs @ ys)" and "\<forall>x \<in> set xs. stop_of x \<le> s" and "\<forall>y \<in> set ys. e \<le> start_of y"
    and "s < e" and "pool_lo \<le> s" and "e \<le> pool_hi" and "merged s e xs ys rs"
  shows "spans_ok rs" and "bytes_of rs = bytes_of (xs @ ys) \<union> {s..<e}"
proof -
  obtain m where m: "rs = (if touches_prev s xs then butlast xs else xs) @ m # (if touches_next e ys then tl ys else ys)"
    "start_of m = (if touches_prev s xs then start_of (last xs) else s)"
    "stop_of m = (if touches_next e ys then stop_of (hd ys) else e)" "0 < fr_pages m"
    using assms(7) by (auto simp: merged_def)
  let ?xs = "if touches_prev s xs then butlast xs else xs" and ?ys = "if touches_next e ys then tl ys else ys"
  have l: "spans_ok ?xs \<and> (\<forall>x \<in> set ?xs. stop_of x < start_of m) \<and> pool_lo \<le> start_of m \<and> start_of m \<le> s \<and>
      bytes_of xs = bytes_of ?xs \<union> {start_of m..<s}"
  proof (cases xs rule: rev_cases)
    case Nil
    then show ?thesis using m(2) assms(5) by (simp add: touches_prev_def)
  next
    case (snoc zs p)
    have p: "spans_ok zs" "\<forall>z \<in> set zs. stop_of z < start_of p" "pool_lo \<le> start_of p" "stop_of p \<le> s" "start_of p < stop_of p"
      using assms(1,2) start_stop(1) [of p] by (auto simp: snoc spans_ok_append spans_ok_Cons)
    show ?thesis
    proof (cases "stop_of p = s")
      case True
      then show ?thesis using p m(2) by (auto simp: snoc touches_prev_def)
    next
      case False
      moreover have "\<forall>z \<in> set zs. stop_of z < s" using p by fastforce
      moreover have "spans_ok (zs @ [p])" using assms(1) unfolding snoc spans_ok_append by simp
      ultimately show ?thesis using p m(2) assms(5) by (simp add: snoc touches_prev_def)
    qed
  qed
  have r: "spans_ok ?ys \<and> (\<forall>y \<in> set ?ys. stop_of m < start_of y) \<and> stop_of m \<le> pool_hi \<and> e \<le> stop_of m \<and>
      bytes_of ys = bytes_of ?ys \<union> {e..<stop_of m}"
  proof (cases ys)
    case Nil
    then show ?thesis using m(3) assms(6) by (simp add: touches_next_def)
  next
    case (Cons q ws)
    have q: "spans_ok ws" "\<forall>w \<in> set ws. stop_of q < start_of w" "stop_of q \<le> pool_hi" "e \<le> start_of q" "start_of q < stop_of q"
      using assms(1,3) start_stop(1) [of q] by (auto simp: Cons spans_ok_append spans_ok_Cons)
    show ?thesis
    proof (cases "start_of q = e")
      case True
      then show ?thesis using q m(3) by (auto simp: Cons touches_next_def)
    next
      case False
      moreover have "\<forall>w \<in> set ws. e < start_of w" using q by fastforce
      moreover have "spans_ok (q # ws)" using assms(1) unfolding Cons spans_ok_append by simp
      ultimately show ?thesis using q m(3) assms(6) by (simp add: Cons touches_next_def)
    qed
  qed
  have "start_of m < stop_of m" using l r assms(4) by linarith
  then have "\<forall>x \<in> set ?xs. \<forall>y \<in> set ?ys. stop_of x < start_of y" using l r by fastforce
  then show "spans_ok rs" unfolding m(1) spans_ok_append spans_ok_Cons using l r m(4) by auto
  have "{start_of m..<stop_of m} = {start_of m..<s} \<union> {s..<e} \<union> {e..<stop_of m}" using l r assms(4) by auto
  then show "bytes_of rs = bytes_of (xs @ ys) \<union> {s..<e}" unfolding m(1) bytes_of_simps using l r by blast
qed

text \<open>The array operations on the live part.\<close>

definition shape :: "KvmFreeList \<Rightarrow> bool" where
  "shape fl \<longleftrightarrow> length (fl_regions fl) = KVM_MAX_FREE_REGIONS \<and> fl_count fl \<le> KVM_MAX_FREE_REGIONS"

lemma list_wf_shape: "list_wf fl \<longleftrightarrow> shape fl \<and> spans_ok (live fl)"
  by (auto simp: list_wf_def shape_def)

lemma live_length: "shape fl \<Longrightarrow> length (live fl) = fl_count fl"
  by (simp add: live_def shape_def)

lemma region_at_append: "shape fl \<Longrightarrow> live fl = xs @ r # ys \<Longrightarrow> region_at (length xs) fl = Return r"
proof -
  assume a: "shape fl" "live fl = xs @ r # ys"
  then have lt: "length xs < fl_count fl" using live_length [of fl] by simp
  then have "live fl ! length xs = fl_regions fl ! length xs" by (simp add: live_def)
  then show ?thesis using a lt by (simp add: region_at_def shape_def)
qed

lemma set_region_append:
  assumes "shape fl" and "live fl = xs @ r # ys"
  obtains fl' where "set_region (length xs) r' fl = Return fl'" and "shape fl'" and "live fl' = xs @ r' # ys"
proof -
  have lt: "length xs < fl_count fl" using assms live_length [OF assms(1)] by simp
  have "live (fl\<lparr>fl_regions := (fl_regions fl)[length xs := r']\<rparr>) = (live fl)[length xs := r']"
    using lt by (simp add: live_def take_update_swap)
  then show thesis using that [of "fl\<lparr>fl_regions := (fl_regions fl)[length xs := r']\<rparr>"] assms lt
    by (simp add: set_region_def shape_def)
qed

lemma shift_down_append:
  assumes "shape fl" and "live fl = xs @ r # ys"
  obtains rs where "shift_down [length xs..<fl_count fl - 1] (fl_regions fl) = Return rs"
    and "shape (fl\<lparr>fl_regions := rs, fl_count := fl_count fl - 1\<rparr>)"
    and "live (fl\<lparr>fl_regions := rs, fl_count := fl_count fl - 1\<rparr>) = xs @ ys"
proof -
  let ?i = "length xs" and ?c = "fl_count fl" and ?R = "fl_regions fl"
  have c: "?c = ?i + 1 + length ys" using live_length [OF assms(1)] assms(2) by simp
  have le: "?c \<le> length ?R" using assms(1) by (simp add: shape_def)
  let ?rs = "take ?i ?R @ take (?c - 1 - ?i) (drop (?i + 1) ?R) @ drop (?c - 1) ?R"
  have "shift_down [?i..<?c - 1] ?R = Return ?rs" using shift_down_list [of ?i "?c - 1" ?R] c le by simp
  moreover have "take ?i (live fl) = xs" "drop (Suc ?i) (live fl) = ys" by (simp_all add: assms(2))
  then have "take ?i ?R = xs" "take (length ys) (drop (Suc ?i) ?R) = ys" using c by (simp_all add: live_def drop_take)
  then have "live (fl\<lparr>fl_regions := ?rs, fl_count := ?c - 1\<rparr>) = xs @ ys" using c le by (simp add: live_def)
  ultimately show thesis using that [of ?rs] assms(1) c le by (simp add: shape_def)
qed

lemma insert_region_append:
  assumes "shape fl" and "live fl = xs @ ys" and "fl_count fl < KVM_MAX_FREE_REGIONS"
  obtains fl' where "insert_region (length xs) start pages fl = Return (Ok (), fl')" and "shape fl'"
    and "live fl' = xs @ \<lparr>fr_start = start, fr_pages = pages\<rparr> # ys"
proof -
  let ?i = "length xs" and ?c = "fl_count fl" and ?R = "fl_regions fl" and ?r = "\<lparr>fr_start = start, fr_pages = pages\<rparr>"
  have c: "?c = ?i + length ys" using live_length [OF assms(1)] assms(2) by simp
  have lt: "?c < length ?R" using assms(1,3) by (simp add: shape_def)
  let ?rs = "take (?i + 1) ?R @ take (?c - ?i) (drop ?i ?R) @ drop (?c + 1) ?R"
  have u: "shift_up (rev [?i..<?c]) ?R = Return ?rs" using shift_up_list [of ?i ?c ?R] c lt by simp
  have "take ?i (live fl) = xs" "drop ?i (live fl) = ys" by (simp_all add: assms(2))
  then have "take ?i ?R = xs" "take (length ys) (drop ?i ?R) = ys" using c by (simp_all add: live_def drop_take)
  moreover have "take (?i + 1) ?R = take ?i ?R @ [?R ! ?i]" using c lt by (simp add: take_Suc_conv_app_nth)
  ultimately have rs: "?rs = xs @ ?R ! ?i # ys @ drop (?c + 1) ?R" using c by simp
  let ?fl = "fl\<lparr>fl_regions := ?rs[?i := ?r], fl_count := ?c + 1\<rparr>"
  have i: "insert_region ?i start pages fl = Return (Ok (), ?fl)"
    using assms(3) c lt unfolding insert_region_def u by (auto simp: set_region_def assert_then_def)
  have l: "live ?fl = xs @ ?r # ys" unfolding rs using c by (simp add: live_def)
  have "shape ?fl" using assms(1,3) c lt by (simp add: shape_def)
  from i this l show thesis by (rule that)
qed

lemma overlaps_neighbour_spec:
  assumes "list_wf fl" and "around fl (unat s) xs ys" and "unat s < unat e"
  shows "overlaps_neighbour (length xs) s e fl = Return ({unat s..<unat e} \<inter> free_bytes fl \<noteq> {})"
    and "{unat s..<unat e} \<inter> free_bytes fl = {} \<longleftrightarrow> (\<forall>x \<in> set xs. stop_of x \<le> unat s) \<and> (\<forall>y \<in> set ys. unat e \<le> start_of y)"
proof -
  have sh: "shape fl" and ok: "spans_ok (xs @ ys)" and lv: "live fl = xs @ ys"
    and xs: "\<forall>x \<in> set xs. start_of x \<le> unat s" and ys: "\<forall>y \<in> set ys. unat s < start_of y"
    using assms(1,2) by (simp_all add: list_wf_shape around_def)
  have ne: "start_of r < stop_of r" if "r \<in> set (xs @ ys)" for r
    using ok that start_stop(1) [of r] unfolding spans_ok_def by auto
  show iff: "{unat s..<unat e} \<inter> free_bytes fl = {} \<longleftrightarrow> (\<forall>x \<in> set xs. stop_of x \<le> unat s) \<and> (\<forall>y \<in> set ys. unat e \<le> start_of y)"
  proof
    assume d: "{unat s..<unat e} \<inter> free_bytes fl = {}"
    have "unat s \<notin> {start_of x..<stop_of x}" if "x \<in> set xs" for x
      using d that assms(3) unfolding free_bytes_def bytes_of_def lv by fastforce
    moreover have "start_of y \<notin> {unat s..<unat e}" if "y \<in> set ys" for y
      using d that ne [of y] unfolding free_bytes_def bytes_of_def lv by fastforce
    ultimately show "(\<forall>x \<in> set xs. stop_of x \<le> unat s) \<and> (\<forall>y \<in> set ys. unat e \<le> start_of y)"
      using xs ys by (meson atLeastLessThan_iff less_imp_le not_le)
  next
    assume a: "(\<forall>x \<in> set xs. stop_of x \<le> unat s) \<and> (\<forall>y \<in> set ys. unat e \<le> start_of y)"
    show "{unat s..<unat e} \<inter> free_bytes fl = {}"
      using a unfolding free_bytes_def bytes_of_def lv by fastforce
  qed
  have p: "(\<forall>x \<in> set xs. stop_of x \<le> unat s) \<longleftrightarrow> (xs \<noteq> [] \<longrightarrow> stop_of (last xs) \<le> unat s)"
  proof (cases xs rule: rev_cases)
    case (snoc zs r)
    have "\<forall>z \<in> set zs. stop_of z \<le> stop_of r"
      using ok start_stop(2) [of r] by (fastforce simp: snoc spans_ok_append spans_ok_Cons)
    then show ?thesis by (auto simp: snoc)
  qed simp
  have q: "(\<forall>y \<in> set ys. unat e \<le> start_of y) \<longleftrightarrow> (ys \<noteq> [] \<longrightarrow> unat e \<le> start_of (hd ys))"
  proof (cases ys)
    case (Cons r ws)
    have "\<forall>w \<in> set ws. start_of r \<le> start_of w"
      using ok start_stop(2) [of r] by (fastforce simp: Cons spans_ok_append spans_ok_Cons)
    then show ?thesis by (auto simp: Cons)
  qed simp
  have prev: "(if 0 < length xs then bind_outcome (region_at (length xs - 1) fl) (\<lambda>prev.
      bind_outcome (region_end prev) (\<lambda>prev_end. Return (s < prev_end))) else Return False) =
    Return (xs \<noteq> [] \<and> unat s < stop_of (last xs))"
  proof (cases xs rule: rev_cases)
    case (snoc zs r)
    have "stop_of r \<le> pool_hi" using ok by (simp add: snoc spans_ok_append spans_ok_Cons)
    then obtain f where "region_end r = Return f" "unat f = stop_of r" by (rule region_end_nat)
    moreover have "region_at (length zs) fl = Return r" using region_at_append [OF sh, of zs r ys] lv by (simp add: snoc)
    ultimately show ?thesis by (simp add: snoc word_less_nat_alt)
  qed simp
  have nxt: "(if length xs < fl_count fl then bind_outcome (region_at (length xs) fl) (\<lambda>nxt. Return (kva_u64 (fr_start nxt) < e))
      else Return False) = Return (ys \<noteq> [] \<and> start_of (hd ys) < unat e)"
    using live_length [OF sh] lv region_at_append [OF sh, of xs "hd ys" "tl ys"]
    by (cases ys) (simp_all add: start_of_def word_less_nat_alt)
  show "overlaps_neighbour (length xs) s e fl = Return ({unat s..<unat e} \<inter> free_bytes fl \<noteq> {})"
    unfolding overlaps_neighbour_def prev nxt iff p q by auto
qed

lemma coalesce_prev:
  assumes "list_wf fl" and "live fl = xs @ ys" and "0 < pages" and "unat e = unat s + pages * 4096" and "unat e \<le> pool_hi"
    and "touches_prev (unat s) xs"
  shows "\<exists>fl'. coalesce (length xs) (KernelVa s) pages e fl = Return (Ok (), fl') \<and> shape fl' \<and>
      merged (unat s) (unat e) xs ys (live fl')"
proof -
  obtain zs r where xs: "xs = zs @ [r]" and st: "stop_of r = unat s" using assms(6) by (cases xs rule: rev_cases) (auto simp: touches_prev_def)
  have sh: "shape fl" and lv: "live fl = zs @ r # ys" using assms(1,2) by (simp_all add: list_wf_shape xs)
  let ?r = "\<lparr>fr_start = fr_start r, fr_pages = fr_pages r + pages\<rparr>"
  have r: "start_of ?r = start_of r" "stop_of ?r = unat e" using st assms(4) by (simp_all add: start_of_def stop_of_def)
  have "stop_of r \<le> pool_hi" using st assms(4,5) by simp
  then obtain f where f: "region_end r = Return f" "unat f = stop_of r" by (rule region_end_nat)
  then have fs: "f = s" by (simp add: st word_unat_eq_iff)
  obtain fl1 where fl1: "set_region (length zs) ?r fl = Return fl1" "shape fl1" "live fl1 = zs @ ?r # ys"
    by (rule set_region_append [OF sh lv])
  have m: "merge_prev (length xs) s pages fl = Return (True, fl1)"
    by (simp add: merge_prev_def xs region_at_append [OF sh lv] f(1) fs fl1(1))
  obtain g where g: "region_end ?r = Return g" "unat g = unat e" by (rule region_end_nat [of ?r]) (use r assms(5) in auto)
  then have ge: "g = e" by (simp add: word_unat_eq_iff)
  show ?thesis
  proof (cases "touches_next (unat e) ys")
    case True
    then obtain q ws where ys: "ys = q # ws" and q: "start_of q = unat e" by (cases ys) (auto simp: touches_next_def)
    let ?m = "\<lparr>fr_start = fr_start r, fr_pages = fr_pages r + pages + fr_pages q\<rparr>"
    have lv1: "live fl1 = (zs @ [?r]) @ q # ws" using fl1(3) ys by simp
    have q': "kva_u64 (fr_start q) = e" using q by (simp add: start_of_def word_unat_eq_iff)
    obtain fl2 where fl2: "set_region (length zs) ?m fl1 = Return fl2" "shape fl2" "live fl2 = zs @ ?m # ys"
      by (rule set_region_append [OF fl1(2,3)])
    have lv2: "live fl2 = (zs @ [?m]) @ q # ws" using fl2(3) ys by simp
    obtain rs where rs: "shift_down [length (zs @ [?m])..<fl_count fl2 - 1] (fl_regions fl2) = Return rs"
      "shape (fl2\<lparr>fl_regions := rs, fl_count := fl_count fl2 - 1\<rparr>)"
      "live (fl2\<lparr>fl_regions := rs, fl_count := fl_count fl2 - 1\<rparr>) = (zs @ [?m]) @ ws"
      by (rule shift_down_append [OF fl2(2) lv2])
    have "length xs < fl_count fl1" using live_length [OF fl1(2)] by (simp add: fl1(3) xs ys)
    then have "merge_both (length xs) fl1 = Return (fl2\<lparr>fl_regions := rs, fl_count := fl_count fl2 - 1\<rparr>)"
      using region_at_append [OF fl1(2,3)] region_at_append [OF fl1(2) lv1] rs(1) fl2(1)
      by (simp add: merge_both_def xs g(1) ge q')
    moreover have "stop_of ?m = stop_of q" using r(2) q by (simp add: stop_of_def start_of_def)
    then have "merged (unat s) (unat e) xs ys ((zs @ [?m]) @ ws)"
      using assms(6) True assms(3) by (simp add: merged_def xs ys start_of_def)
    ultimately show ?thesis using assms(6) rs(2,3) m by (simp add: coalesce_def)
  next
    case False
    have "merge_both (length xs) fl1 = Return fl1"
    proof (cases ys)
      case Nil
      then have "\<not> length xs < fl_count fl1" using live_length [OF fl1(2)] by (simp add: fl1(3) xs)
      then show ?thesis using region_at_append [OF fl1(2,3)] by (simp add: merge_both_def xs g(1))
    next
      case (Cons q ws)
      have lv1: "live fl1 = (zs @ [?r]) @ q # ws" using fl1(3) Cons by simp
      have "kva_u64 (fr_start q) \<noteq> e" using False by (auto simp: Cons touches_next_def start_of_def)
      then show ?thesis using region_at_append [OF fl1(2,3)] region_at_append [OF fl1(2) lv1] by (simp add: merge_both_def xs g(1) ge)
    qed
    moreover have "merged (unat s) (unat e) xs ys (live fl1)"
      using assms(6) False assms(3) r by (simp add: merged_def fl1(3) xs)
    ultimately show ?thesis using assms(6) fl1(2) m by (simp add: coalesce_def)
  qed
qed

lemma coalesce_no_prev:
  assumes "list_wf fl" and "live fl = xs @ ys" and "0 < pages" and "unat e = unat s + pages * 4096"
    and "\<not> touches_prev (unat s) xs"
  shows "if touches_next (unat e) ys \<or> fl_count fl < KVM_MAX_FREE_REGIONS
    then \<exists>fl'. coalesce (length xs) (KernelVa s) pages e fl = Return (Ok (), fl') \<and> shape fl' \<and>
      merged (unat s) (unat e) xs ys (live fl')
    else coalesce (length xs) (KernelVa s) pages e fl = Return (Err RegionTableFull, fl)"
proof -
  have sh: "shape fl" and ok: "spans_ok (xs @ ys)" using assms(1,2) by (simp_all add: list_wf_shape)
  have m: "merge_prev (length xs) s pages fl = Return (False, fl)"
  proof (cases xs rule: rev_cases)
    case Nil
    then show ?thesis by (simp add: merge_prev_def)
  next
    case (snoc zs r)
    have "stop_of r \<le> pool_hi" using ok by (simp add: snoc spans_ok_append spans_ok_Cons)
    then obtain f where f: "region_end r = Return f" "unat f = stop_of r" by (rule region_end_nat)
    moreover have "unat f \<noteq> unat s" using f(2) assms(5) by (simp add: snoc touches_prev_def)
    then have "f \<noteq> s" by blast
    ultimately show ?thesis using region_at_append [OF sh, of zs r ys] assms(2) by (simp add: merge_prev_def snoc)
  qed
  let ?t = "if length xs < fl_count fl then bind_outcome (region_at (length xs) fl) (\<lambda>nxt.
    Return (if kva_u64 (fr_start nxt) = e then Some (fr_pages nxt) else None)) else Return None"
  have t: "?t = Return (if touches_next (unat e) ys then Some (fr_pages (hd ys)) else None)"
    using live_length [OF sh] assms(2) region_at_append [OF sh, of xs "hd ys" "tl ys"]
    by (cases ys) (auto simp: touches_next_def start_of_def word_unat_eq_iff)
  show ?thesis
  proof (cases "touches_next (unat e) ys")
    case True
    then obtain q ws where ys: "ys = q # ws" and q: "start_of q = unat e" by (cases ys) (auto simp: touches_next_def)
    let ?m = "\<lparr>fr_start = KernelVa s, fr_pages = pages + fr_pages q\<rparr>"
    have "live fl = xs @ q # ws" using assms(2) ys by simp
    then obtain fl1 where fl1: "set_region (length xs) ?m fl = Return fl1" "shape fl1" "live fl1 = xs @ ?m # ws"
      by (rule set_region_append [OF sh])
    have "stop_of ?m = stop_of q" using q assms(4) by (simp add: stop_of_def start_of_def)
    then have "merged (unat s) (unat e) xs ys (live fl1)"
      using assms(3,5) True by (simp add: merged_def fl1(3) ys start_of_def)
    then show ?thesis using True m t fl1 by (simp add: coalesce_def ys)
  next
    case False
    show ?thesis
    proof (cases "fl_count fl < KVM_MAX_FREE_REGIONS")
      case True
      obtain fl1 where fl1: "insert_region (length xs) (KernelVa s) pages fl = Return (Ok (), fl1)" "shape fl1"
        "live fl1 = xs @ \<lparr>fr_start = KernelVa s, fr_pages = pages\<rparr> # ys"
        by (rule insert_region_append [OF sh assms(2) True])
      have "merged (unat s) (unat e) xs ys (live fl1)"
        using assms(3,4,5) False by (simp add: merged_def fl1(3) start_of_def stop_of_def)
      then show ?thesis using False True m t fl1 by (simp add: coalesce_def)
    next
      case full: False
      then show ?thesis using False m t by (simp add: coalesce_def insert_region_def)
    qed
  qed
qed

section \<open>The list as a set of bytes\<close>

text \<open>The specification: a set of free bytes, of which the list can describe at most 64 separate runs.\<close>

definition run_at :: "nat \<Rightarrow> nat \<Rightarrow> nat set" where
  "run_at a n = {a..<a + n * 4096}"

definition runs_of :: "nat set \<Rightarrow> nat" where
  "runs_of F = card {a \<in> F. a - 1 \<notin> F}"

definition spec_alloc :: "nat \<Rightarrow> nat set \<Rightarrow> (KernelVa, KvmFreeListError) result \<Rightarrow> nat set \<Rightarrow> bool" where
  "spec_alloc n F r F' \<longleftrightarrow>
     (if 0 < n \<and> (\<exists>b. run_at b n \<subseteq> F)
      then \<exists>kva. r = Ok kva \<and> lowest_run F n (unat (kva_u64 kva)) \<and> F' = F - run_at (unat (kva_u64 kva)) n
      else r = Err OutOfVirtualMemory \<and> F' = F)"

definition spec_free :: "nat \<Rightarrow> nat \<Rightarrow> nat set \<Rightarrow> (unit, KvmFreeListError) result \<Rightarrow> nat set \<Rightarrow> bool" where
  "spec_free s n F r F' \<longleftrightarrow>
     (if n = 0 then r = Ok () \<and> F' = F
      else if s < pool_lo \<or> pool_hi < s + n * 4096 then r = Err OutOfPool \<and> F' = F
      else if run_at s n \<inter> F \<noteq> {} then r = Err DoubleFree \<and> F' = F
      else if runs_of F = KVM_MAX_FREE_REGIONS \<and> s - 1 \<notin> F \<and> s + n * 4096 \<notin> F then r = Err RegionTableFull \<and> F' = F
      else r = Ok () \<and> F' = F \<union> run_at s n)"

lemma run_starts: "spans_ok rs \<Longrightarrow> {a \<in> bytes_of rs. a - 1 \<notin> bytes_of rs} = start_of ` set rs"
proof (intro equalityI subsetI)
  fix a assume ok: "spans_ok rs" and a: "a \<in> {a \<in> bytes_of rs. a - 1 \<notin> bytes_of rs}"
  then obtain r where r: "r \<in> set rs" "start_of r \<le> a" "a < stop_of r" by (auto simp: bytes_of_def)
  then have "a - 1 \<notin> {start_of r..<stop_of r}" using a by (auto simp: bytes_of_def)
  then have "a = start_of r" using r by auto
  with r show "a \<in> start_of ` set rs" by simp
next
  fix a assume ok: "spans_ok rs" and "a \<in> start_of ` set rs"
  then obtain r where r: "r \<in> set rs" "a = start_of r" by auto
  have st: "start_of r < stop_of r" "0 < start_of r"
    using ok r(1) start_stop(1) [of r] by (auto simp: spans_ok_def pool_lo_def)
  have "a - 1 \<notin> bytes_of rs"
  proof
    assume "a - 1 \<in> bytes_of rs"
    then obtain r' where "r' \<in> set rs" "start_of r' \<le> a - 1" "a - 1 < stop_of r'" by (auto simp: bytes_of_def)
    with spans_apart [OF ok r(1), of r'] r(2) st show False by auto
  qed
  with st r show "a \<in> {a \<in> bytes_of rs. a - 1 \<notin> bytes_of rs}" by (auto simp: bytes_of_def)
qed

lemma spans_distinct: "spans_ok rs \<Longrightarrow> distinct (map start_of rs)"
proof (induction rs)
  case (Cons r rs)
  then show ?case using start_stop(2) [of r] by (fastforce simp: spans_ok_Cons)
qed simp

lemma runs_of_list: "list_wf fl \<Longrightarrow> runs_of (free_bytes fl) = fl_count fl"
  using run_starts [of "live fl"] distinct_card [OF spans_distinct, of "live fl"] live_length [of fl]
  by (simp add: runs_of_def free_bytes_def list_wf_shape)

lemma touches_iff:
  assumes "spans_ok (xs @ ys)" and "\<forall>x \<in> set xs. stop_of x \<le> s" and "\<forall>y \<in> set ys. e \<le> start_of y" and "s < e" and "0 < s"
  shows "touches_prev s xs \<longleftrightarrow> s - 1 \<in> bytes_of (xs @ ys)" and "touches_next e ys \<longleftrightarrow> e \<in> bytes_of (xs @ ys)"
proof -
  have ne: "start_of r < stop_of r" if "r \<in> set (xs @ ys)" for r
    using assms(1) that start_stop(1) [of r] unfolding spans_ok_def by auto
  show "touches_prev s xs \<longleftrightarrow> s - 1 \<in> bytes_of (xs @ ys)"
  proof
    assume "touches_prev s xs"
    then have "last xs \<in> set (xs @ ys)" "stop_of (last xs) = s" by (auto simp: touches_prev_def)
    with ne [of "last xs"] show "s - 1 \<in> bytes_of (xs @ ys)" unfolding bytes_of_def by fastforce
  next
    assume "s - 1 \<in> bytes_of (xs @ ys)"
    then obtain r where r: "r \<in> set (xs @ ys)" "start_of r \<le> s - 1" "s - 1 < stop_of r" by (auto simp: bytes_of_def)
    then have "r \<in> set xs" using assms(3-5) by fastforce
    then have st: "stop_of r = s" and xs: "xs \<noteq> []" using assms(2,5) r(3) by fastforce+
    then obtain zs p where z: "xs = zs @ [p]" by (cases xs rule: rev_cases) auto
    have "\<forall>z \<in> set zs. stop_of z < s" using assms(1,2) ne [of p] by (fastforce simp: z spans_ok_append spans_ok_Cons)
    then have "r = p" using \<open>r \<in> set xs\<close> st by (auto simp: z)
    with st show "touches_prev s xs" by (simp add: touches_prev_def z)
  qed
  show "touches_next e ys \<longleftrightarrow> e \<in> bytes_of (xs @ ys)"
  proof
    assume "touches_next e ys"
    then have "hd ys \<in> set (xs @ ys)" "start_of (hd ys) = e" by (auto simp: touches_next_def)
    with ne [of "hd ys"] show "e \<in> bytes_of (xs @ ys)" unfolding bytes_of_def by fastforce
  next
    assume "e \<in> bytes_of (xs @ ys)"
    then obtain r where r: "r \<in> set (xs @ ys)" "start_of r \<le> e" "e < stop_of r" by (auto simp: bytes_of_def)
    then have "r \<in> set ys" using assms(2,4) by fastforce
    then have st: "start_of r = e" and "ys \<noteq> []" using assms(3) r(2) by fastforce+
    then obtain q ws where w: "ys = q # ws" by (cases ys) auto
    have "\<forall>w \<in> set ws. e < start_of w" using assms(1,3) ne [of q] by (fastforce simp: w spans_ok_append spans_ok_Cons)
    then have "r = q" using \<open>r \<in> set ys\<close> st by (auto simp: w)
    with st show "touches_next e ys" by (simp add: touches_next_def w)
  qed
qed

lemma kvm_list_free_fits:
  assumes "list_wf fl" and "0 < n" and "pool_lo \<le> unat s" and "unat s + n * 4096 \<le> pool_hi"
    and "run_at (unat s) n \<inter> free_bytes fl = {}"
  shows "\<exists>r fl'. kvm_list_free (KernelVa s) n fl = Return (r, fl') \<and> list_wf fl' \<and>
    spec_free (unat s) n (free_bytes fl) r (free_bytes fl')"
proof -
  have "unat s + n * 4096 < 2 ^ 64" using assms(4) pool_bounds(3) by simp
  from end_of_nat [OF this] obtain e where e: "end_of s n = Return e" "unat e = unat s + n * 4096" by blast
  obtain xs ys where ip: "insertion_point [0..<fl_count fl] s fl = Return (length xs)" and ar: "around fl (unat s) xs ys"
    using insertion_point_around [OF assms(1)] by metis
  have lt: "unat s < unat e" using e(2) assms(2) by simp
  note ov = overlaps_neighbour_spec [OF assms(1) ar lt]
  have cl: "\<forall>x \<in> set xs. stop_of x \<le> unat s" "\<forall>y \<in> set ys. unat e \<le> start_of y"
    using ov(2) assms(5) by (simp_all add: run_at_def e(2))
  have lv: "live fl = xs @ ys" using ar by (simp add: around_def)
  have ok: "spans_ok (xs @ ys)" using assms(1) lv by (simp add: list_wf_shape)
  have "0 < unat s" using assms(3) by (simp add: pool_lo_def)
  note t = touches_iff [OF ok cl lt this, folded lv, folded free_bytes_def]
  have f: "kvm_list_free (KernelVa s) n fl = coalesce (length xs) (KernelVa s) n e fl"
    using assms ov(1) e ip pool_bounds by (simp add: kvm_list_free_def Let_def word_less_nat_alt run_at_def)
  have hi: "unat e \<le> pool_hi" using assms(4) e(2) by simp
  have full: "\<not> fl_count fl < KVM_MAX_FREE_REGIONS \<longleftrightarrow> runs_of (free_bytes fl) = KVM_MAX_FREE_REGIONS"
    using runs_of_list [OF assms(1)] assms(1) by (auto simp: list_wf_def)
  have fin: "if touches_prev (unat s) xs \<or> touches_next (unat e) ys \<or> fl_count fl < KVM_MAX_FREE_REGIONS
    then \<exists>fl'. coalesce (length xs) (KernelVa s) n e fl = Return (Ok (), fl') \<and> shape fl' \<and> merged (unat s) (unat e) xs ys (live fl')
    else coalesce (length xs) (KernelVa s) n e fl = Return (Err RegionTableFull, fl)"
    using coalesce_prev [OF assms(1) lv assms(2) e(2) hi] coalesce_no_prev [OF assms(1) lv assms(2) e(2)]
    by (cases "touches_prev (unat s) xs") auto
  show ?thesis
  proof (cases "touches_prev (unat s) xs \<or> touches_next (unat e) ys \<or> fl_count fl < KVM_MAX_FREE_REGIONS")
    case True
    then obtain fl' where fl': "coalesce (length xs) (KernelVa s) n e fl = Return (Ok (), fl')" "shape fl'"
      "merged (unat s) (unat e) xs ys (live fl')" using fin by auto
    note mg = merged_spans [OF ok cl lt assms(3) hi fl'(3)]
    have "spec_free (unat s) n (free_bytes fl) (Ok ()) (free_bytes fl')"
      using assms True t full mg(2) e(2) by (auto simp: spec_free_def free_bytes_def lv run_at_def)
    then show ?thesis using f fl'(1,2) mg(1) by (auto simp: list_wf_shape)
  next
    case False
    then have "spec_free (unat s) n (free_bytes fl) (Err RegionTableFull) (free_bytes fl)"
      using assms t full e(2) by (auto simp: spec_free_def)
    then show ?thesis using f fin False assms(1) by auto
  qed
qed

lemma kvm_list_free_spec:
  assumes "list_wf fl" and "n = 0 \<or> unat s + n * 4096 < 2 ^ 64"
  shows "\<exists>r fl'. kvm_list_free (KernelVa s) n fl = Return (r, fl') \<and> list_wf fl' \<and>
    spec_free (unat s) n (free_bytes fl) r (free_bytes fl')"
proof (cases "n = 0")
  case True
  then show ?thesis using assms(1) by (auto simp: kvm_list_free_def spec_free_def)
next
  case n: False
  with assms(2) have nw: "unat s + n * 4096 < 2 ^ 64" by simp
  from end_of_nat [OF this] obtain e where e: "end_of s n = Return e" "unat e = unat s + n * 4096" by blast
  have out: "s < KVM_POOL_BASE \<or> KVM_POOL_BASE + KVM_POOL_USABLE_SIZE < e \<longleftrightarrow> unat s < pool_lo \<or> pool_hi < unat s + n * 4096"
    by (simp add: word_less_nat_alt pool_bounds e(2))
  show ?thesis
  proof (cases "unat s < pool_lo \<or> pool_hi < unat s + n * 4096")
    case True
    then show ?thesis using n e(1) out assms(1) by (simp add: kvm_list_free_def spec_free_def)
  next
    case inside: False
    show ?thesis
    proof (cases "run_at (unat s) n \<inter> free_bytes fl = {}")
      case True
      then show ?thesis using kvm_list_free_fits [OF assms(1)] n inside by simp
    next
      case False
      obtain xs ys where ip: "insertion_point [0..<fl_count fl] s fl = Return (length xs)" and ar: "around fl (unat s) xs ys"
        using insertion_point_around [OF assms(1)] by metis
      have "unat s < unat e" using e(2) n by simp
      from overlaps_neighbour_spec(1) [OF assms(1) ar this] False
      have "overlaps_neighbour (length xs) s e fl = Return True" by (simp add: run_at_def e(2))
      then show ?thesis using n e(1) out ip inside False assms(1) by (simp add: kvm_list_free_def spec_free_def)
    qed
  qed
qed

lemma kvm_list_free_overflow: "n \<noteq> 0 \<Longrightarrow> 2 ^ 64 \<le> unat s + n * 4096 \<Longrightarrow> kvm_list_free (KernelVa s) n fl = Panic"
  by (simp add: kvm_list_free_def end_of_def PAGE_SIZE_def)

lemma free_bytes_pool: "list_wf fl \<Longrightarrow> free_bytes fl \<subseteq> {pool_lo..<pool_hi}"
  by (fastforce simp: list_wf_def spans_ok_def free_bytes_def bytes_of_def)

lemma take_1_update: "xs \<noteq> [] \<Longrightarrow> take 1 (xs[0 := x]) = [x]"
  by (cases xs) simp_all

lemma list_new_live: "live kvm_list_new = [\<lparr>fr_start = KernelVa KVM_POOL_BASE, fr_pages = 262144\<rparr>]"
proof -
  have "unat (KVM_POOL_USABLE_SIZE div PAGE_SIZE) = 262144" by (simp add: KVM_POOL_USABLE_SIZE_def PAGE_SIZE_def)
  then show ?thesis
    unfolding live_def kvm_list_new_def KvmFreeList.select_convs by (simp only: take_1_update) (rule take_1_update, simp add: KVM_MAX_FREE_REGIONS_def)
qed

lemma list_new_wf: "list_wf kvm_list_new" "free_bytes kvm_list_new = {pool_lo..<pool_hi}"
  unfolding list_wf_shape free_bytes_def list_new_live
  by (simp_all add: shape_def kvm_list_new_def spans_ok_Cons start_of_def stop_of_def pool_bounds)
    (simp add: KVM_MAX_FREE_REGIONS_def)

section \<open>Whole pages\<close>

text \<open>
  The kernel only ever gives back what it was given, so its list consists of whole pages. Page \<open>pg\<close>
  of the pool starts at \<open>page_at pg\<close>.
\<close>

definition page_at :: "nat \<Rightarrow> nat" where
  "page_at pg = pool_lo + pg * 4096"

definition kva_of :: "nat \<Rightarrow> KernelVa" where
  "kva_of pg = KernelVa (KVM_POOL_BASE + of_nat pg * PAGE_SIZE)"

definition pool_bytes :: "nat set \<Rightarrow> nat set" where
  "pool_bytes P = {b. pool_lo \<le> b \<and> (b - pool_lo) div 4096 \<in> P}"

definition list_of :: "KvmFreeList \<Rightarrow> nat set \<Rightarrow> bool" where
  "list_of fl P \<longleftrightarrow> list_wf fl \<and> free_bytes fl = pool_bytes P \<and> P \<subseteq> {..<262144}"

lemma run_pool_bytes: "run_at (page_at a) n = pool_bytes {a..<a + n}"
proof -
  have "b \<in> run_at (page_at a) n \<longleftrightarrow> b \<in> pool_bytes {a..<a + n}" for b
  proof (cases "pool_lo \<le> b")
    case True
    then obtain x where b: "b = pool_lo + x" by (auto simp: le_iff_add)
    have "b \<in> run_at (page_at a) n \<longleftrightarrow> a * 4096 \<le> x \<and> x < (a + n) * 4096"
      by (simp add: b run_at_def page_at_def add_mult_distrib)
    also have "\<dots> \<longleftrightarrow> a \<le> x div 4096 \<and> x div 4096 < a + n"
      by (simp add: less_eq_div_iff_mult_less_eq div_less_iff_less_mult)
    finally show ?thesis by (simp add: b pool_bytes_def)
  qed (simp add: run_at_def page_at_def pool_bytes_def)
  then show ?thesis by blast
qed

lemma page_at_in: "page_at a \<in> pool_bytes P \<longleftrightarrow> a \<in> P"
  by (simp add: pool_bytes_def page_at_def)

lemma pool_bytes_subset: "pool_bytes P \<subseteq> pool_bytes Q \<longleftrightarrow> P \<subseteq> Q"
proof
  assume "pool_bytes P \<subseteq> pool_bytes Q"
  then show "P \<subseteq> Q" by (meson page_at_in subset_iff)
qed (auto simp: pool_bytes_def)

lemma pool_bytes_simps:
  "pool_bytes P - pool_bytes Q = pool_bytes (P - Q)" "pool_bytes P \<union> pool_bytes Q = pool_bytes (P \<union> Q)"
  "pool_bytes P \<inter> pool_bytes Q = pool_bytes (P \<inter> Q)" "pool_bytes {} = {}"
  by (auto simp: pool_bytes_def)

lemma kva_of_nat: "a \<le> 262144 \<Longrightarrow> unat (kva_u64 (kva_of a)) = page_at a"
  by (simp add: kva_of_def page_at_def KVM_POOL_BASE_def pool_lo_def PAGE_SIZE_def unat_word_ariths unat_of_nat)

lemma lowest_run_page:
  assumes "lowest_run (pool_bytes P) n b" and "0 < n"
  obtains a where "b = page_at a" and "{a..<a + n} \<subseteq> P" and "\<And>c. {c..<c + n} \<subseteq> P \<Longrightarrow> a \<le> c"
proof -
  define a where "a = (b - pool_lo) div 4096"
  have r: "{b..<b + n * 4096} \<subseteq> pool_bytes P" and low: "\<And>c. {c..<c + n * 4096} \<subseteq> pool_bytes P \<Longrightarrow> b \<le> c"
    using assms(1) by (simp_all add: lowest_run_def)
  have "b \<in> pool_bytes P" using r assms(2) by auto
  then have lo: "pool_lo \<le> b" by (simp add: pool_bytes_def)
  have sub: "{a..<a + n} \<subseteq> P"
  proof
    fix i assume i: "i \<in> {a..<a + n}"
    define x where "x = (if i = a then b else page_at i)"
    have ab: "page_at a \<le> b" "b < page_at a + 4096"
      unfolding a_def page_at_def using lo div_mult_mod_eq [of "b - pool_lo" 4096] mod_less_divisor [of 4096 "b - pool_lo"] by linarith+
    have "page_at i + 4096 \<le> page_at a + n * 4096"
    proof -
      have "(i + 1) * 4096 \<le> (a + n) * 4096" using i by (intro mult_right_mono) auto
      then show ?thesis by (simp add: page_at_def algebra_simps)
    qed
    moreover have "i \<noteq> a \<Longrightarrow> page_at a + 4096 \<le> page_at i"
    proof -
      assume "i \<noteq> a"
      with i have "(a + 1) * 4096 \<le> i * 4096" by (intro mult_right_mono) auto
      then show ?thesis by (simp add: page_at_def algebra_simps)
    qed
    ultimately have "x \<in> {b..<b + n * 4096}" using ab assms(2) by (auto simp: x_def)
    then have "x \<in> pool_bytes P" using r by blast
    moreover have "(x - pool_lo) div 4096 = i" by (simp add: x_def a_def page_at_def)
    ultimately show "i \<in> P" by (simp add: pool_bytes_def)
  qed
  then have "pool_bytes {a..<a + n} \<subseteq> pool_bytes P" by (simp add: pool_bytes_subset)
  then have "b \<le> page_at a" using low [of "page_at a"] by (simp add: run_pool_bytes [symmetric] run_at_def)
  moreover have "page_at a \<le> b" using lo by (simp add: a_def page_at_def div_times_less_eq_dividend le_diff_conv2)
  ultimately have eq: "b = page_at a" by simp
  have "a \<le> c" if "{c..<c + n} \<subseteq> P" for c
  proof -
    have "pool_bytes {c..<c + n} \<subseteq> pool_bytes P" using that by (simp add: pool_bytes_subset)
    then have "page_at a \<le> page_at c" using low [of "page_at c"] by (simp add: eq run_pool_bytes [symmetric] run_at_def)
    then show ?thesis by (simp add: page_at_def)
  qed
  with eq sub show thesis by (rule that)
qed

lemma try_alloc_pages:
  assumes "list_of fl P" and "0 < n"
  shows "if \<exists>a. {a..<a + n} \<subseteq> P
    then \<exists>a fl'. try_alloc n fl = Return (Ok (kva_of a), fl') \<and> list_of fl' (P - {a..<a + n}) \<and> {a..<a + n} \<subseteq> P \<and>
      (\<forall>b. {b..<b + n} \<subseteq> P \<longrightarrow> a \<le> b)
    else try_alloc n fl = Return (Err OutOfVirtualMemory, fl)"
proof -
  have wf: "list_wf fl" and F: "free_bytes fl = pool_bytes P" and P: "P \<subseteq> {..<262144}"
    using assms(1) by (simp_all add: list_of_def)
  note sp = try_alloc_spec [OF wf assms(2), unfolded F]
  show ?thesis
  proof (cases "\<exists>a. {a..<a + n} \<subseteq> P")
    case True
    then obtain c where "{c..<c + n} \<subseteq> P" by blast
    then have "{page_at c..<page_at c + n * 4096} \<subseteq> pool_bytes P"
      using run_pool_bytes [of c n] pool_bytes_subset [of "{c..<c + n}" P] by (simp add: run_at_def)
    then have "\<exists>b. {b..<b + n * 4096} \<subseteq> pool_bytes P" by blast
    with sp obtain kva fl' where k: "try_alloc n fl = Return (Ok kva, fl')" "list_wf fl'"
      "lowest_run (pool_bytes P) n (unat (kva_u64 kva))"
      "free_bytes fl' = pool_bytes P - {unat (kva_u64 kva)..<unat (kva_u64 kva) + n * 4096}" by auto
    obtain a where a: "unat (kva_u64 kva) = page_at a" "{a..<a + n} \<subseteq> P" "\<And>c. {c..<c + n} \<subseteq> P \<Longrightarrow> a \<le> c"
      using lowest_run_page [OF k(3) assms(2)] by metis
    have "a \<in> P" using a(2) assms(2) by auto
    then have "a \<le> 262144" using P by auto
    then have "kva = kva_of a" using a(1) kva_of_nat [of a] by (cases kva) (simp add: word_unat_eq_iff kva_of_def)
    moreover have "list_of fl' (P - {a..<a + n})"
      using k(2,4) P run_pool_bytes [of a n] by (auto simp: list_of_def a(1) run_at_def pool_bytes_simps)
    ultimately show ?thesis using True k(1) a(2,3) by auto
  next
    case False
    have "\<not> (\<exists>b. {b..<b + n * 4096} \<subseteq> pool_bytes P)"
    proof
      assume "\<exists>b. {b..<b + n * 4096} \<subseteq> pool_bytes P"
      with sp obtain kva where "lowest_run (pool_bytes P) n (unat (kva_u64 kva))" by auto
      from lowest_run_page [OF this assms(2)] False show False by metis
    qed
    with sp False show ?thesis by simp
  qed
qed

lemma list_free_pages:
  assumes "list_of fl P" and "0 < n" and "a + n \<le> 262144" and "{a..<a + n} \<inter> P = {}"
  shows "\<exists>r fl'. kvm_list_free (kva_of a) n fl = Return (r, fl') \<and>
    (if runs_of (pool_bytes P) = KVM_MAX_FREE_REGIONS \<and> page_at a - 1 \<notin> pool_bytes P \<and> a + n \<notin> P
     then r = Err RegionTableFull \<and> list_of fl' P else r = Ok () \<and> list_of fl' (P \<union> {a..<a + n}))"
proof -
  have wf: "list_wf fl" and F: "free_bytes fl = pool_bytes P" and P: "P \<subseteq> {..<262144}"
    using assms(1) by (simp_all add: list_of_def)
  have u: "unat (kva_u64 (kva_of a)) = page_at a" "page_at a + n * 4096 = page_at (a + n)"
    using kva_of_nat [of a] assms(3) by (simp_all add: page_at_def algebra_simps)
  have "(a + n) * 4096 \<le> 262144 * 4096" using assms(3) by (intro mult_right_mono) auto
  then have hi: "page_at (a + n) \<le> pool_hi" "pool_lo \<le> page_at a" by (simp_all add: page_at_def pool_bounds(4))
  then have "n = 0 \<or> page_at a + n * 4096 < 2 ^ 64" using u(2) pool_bounds(3) by simp
  then obtain r fl' where r: "kvm_list_free (kva_of a) n fl = Return (r, fl')" "list_wf fl'"
    "spec_free (page_at a) n (pool_bytes P) r (free_bytes fl')"
    using kvm_list_free_spec [OF wf, of n "kva_u64 (kva_of a)"] by (auto simp: u(1) F)
  have "run_at (page_at a) n \<inter> pool_bytes P = {}" using assms(4) by (simp add: run_pool_bytes pool_bytes_simps)
  then show ?thesis
    using r assms(2,3) hi P unfolding u(2) spec_free_def run_pool_bytes page_at_in pool_bytes_simps
    by (auto simp: list_of_def split: if_splits)
qed

text \<open>Giving back what has just been allocated always succeeds.\<close>

lemma list_free_last:
  assumes "list_of fl P" and "0 < n" and "{a..<a + n} \<subseteq> P" and "\<forall>b. {b..<b + n} \<subseteq> P \<longrightarrow> a \<le> b"
    and "list_of fl' (P - {a..<a + n})"
  shows "\<exists>fl''. kvm_list_free (kva_of a) n fl' = Return (Ok (), fl'') \<and> list_of fl'' P"
proof -
  let ?Q = "P - {a..<a + n}"
  have P: "P \<subseteq> {..<262144}" using assms(1) by (simp add: list_of_def)
  have "a + n - 1 \<in> P" using assms(2,3) by auto
  then have le: "a + n \<le> 262144" using P by fastforce
  have "\<not> (runs_of (pool_bytes ?Q) = KVM_MAX_FREE_REGIONS \<and> a + n \<notin> ?Q)"
  proof
    assume f: "runs_of (pool_bytes ?Q) = KVM_MAX_FREE_REGIONS \<and> a + n \<notin> ?Q"
    then have out: "a + n \<notin> P" by simp
    let ?starts = "\<lambda>F. {x \<in> F. x - (1 :: nat) \<notin> F}"
    have pos: "0 < page_at a" by (simp add: page_at_def pool_lo_def)
    have st: "page_at a \<in> ?starts (pool_bytes P)"
    proof -
      have "a \<in> P" using assms(2,3) by auto
      moreover have "page_at a - 1 \<notin> pool_bytes P"
      proof
        assume x: "page_at a - 1 \<in> pool_bytes P"
        then have a0: "0 < a" by (cases a) (auto simp: pool_bytes_def page_at_def pool_lo_def)
        moreover have "(page_at a - 1 - pool_lo) div 4096 = a - 1" using a0 by (cases a) (simp_all add: page_at_def)
        ultimately have "a - 1 \<in> P" using x by (simp add: pool_bytes_def)
        moreover have "{a - 1..<a - 1 + n} \<subseteq> insert (a - 1) {a..<a + n}" by auto
        ultimately have "{a - 1..<a - 1 + n} \<subseteq> P" using assms(3) by blast
        then have "a \<le> a - 1" using assms(4) by blast
        with a0 show False by simp
      qed
      ultimately show ?thesis by (simp add: page_at_in)
    qed
    have sub: "?starts (pool_bytes ?Q) \<subseteq> ?starts (pool_bytes P) - {page_at a}"
    proof
      fix x assume x: "x \<in> ?starts (pool_bytes ?Q)"
      have "x - 1 \<notin> pool_bytes P"
      proof
        assume "x - 1 \<in> pool_bytes P"
        then have "x - 1 \<in> pool_bytes {a..<a + n}" using x by (auto simp: pool_bytes_def)
        then have "x - 1 \<in> {page_at a..<page_at (a + n)}"
          using run_pool_bytes [of a n] by (simp add: run_at_def page_at_def algebra_simps)
        moreover have "x \<notin> {page_at a..<page_at (a + n)}"
          using x run_pool_bytes [of a n] by (auto simp: run_at_def page_at_def algebra_simps pool_bytes_simps [symmetric])
        ultimately have "x = page_at (a + n)" by auto
        with x f show False by (simp add: page_at_in)
      qed
      moreover have "x \<noteq> page_at a" using x assms(2) by (auto simp: page_at_in)
      ultimately show "x \<in> ?starts (pool_bytes P) - {page_at a}" using x by (auto simp: pool_bytes_def)
    qed
    have wf: "list_wf fl" "free_bytes fl = pool_bytes P" using assms(1) by (simp_all add: list_of_def)
    then have fin: "finite (?starts (pool_bytes P))"
      using free_bytes_pool [OF wf(1)] finite_subset [of "pool_bytes P" "{pool_lo..<pool_hi}"] by auto
    have "runs_of (pool_bytes ?Q) \<le> card (?starts (pool_bytes P) - {page_at a})"
      unfolding runs_of_def using fin sub by (intro card_mono) auto
    also have "\<dots> < card (?starts (pool_bytes P))" using fin st by (intro psubset_card_mono) auto
    also have "\<dots> \<le> KVM_MAX_FREE_REGIONS"
      using runs_of_list [OF wf(1)] wf by (simp add: runs_of_def list_wf_def)
    finally show False using f by simp
  qed
  then obtain fl'' where "kvm_list_free (kva_of a) n fl' = Return (Ok (), fl'')" "list_of fl'' (?Q \<union> {a..<a + n})"
    using list_free_pages [OF assms(5,2) le] by (auto split: if_splits)
  moreover have "?Q \<union> {a..<a + n} = P" using assms(3) by blast
  ultimately show ?thesis by auto
qed

lemma list_new_pages: "list_of kvm_list_new {..<262144}"
proof -
  have "{pool_lo..<pool_hi} = pool_bytes {..<262144}"
    using run_pool_bytes [of 0 262144] by (simp add: run_at_def page_at_def pool_bounds(4) lessThan_atLeast0)
  with list_new_wf show ?thesis by (simp add: list_of_def)
qed

section \<open>Properties\<close>

text \<open>Every sequence of allocations and frees, with whatever arguments.\<close>

inductive kvm_list_run :: "KvmFreeList \<Rightarrow> bool" where
  run_new: "kvm_list_run kvm_list_new"
| run_alloc: "kvm_list_run fl \<Longrightarrow> try_alloc n fl = Return (r, fl') \<Longrightarrow> kvm_list_run fl'"
| run_free: "kvm_list_run fl \<Longrightarrow> kvm_list_free start n fl = Return (r, fl') \<Longrightarrow> kvm_list_run fl'"

lemma try_alloc_total:
  assumes "list_wf fl"
  shows "\<exists>r fl'. try_alloc n fl = Return (r, fl') \<and> list_wf fl' \<and> spec_alloc n (free_bytes fl) r (free_bytes fl')"
proof (cases "n = 0")
  case True
  then show ?thesis using assms by (simp add: try_alloc_def spec_alloc_def)
next
  case False
  then show ?thesis using try_alloc_spec [OF assms, of n] assms by (auto simp: spec_alloc_def run_at_def split: if_splits)
qed

lemma kvm_list_run_wf: "kvm_list_run fl \<Longrightarrow> list_wf fl"
proof (induction rule: kvm_list_run.induct)
  case run_new
  then show ?case by (rule list_new_wf)
next
  case (run_alloc fl n r fl')
  then show ?case using try_alloc_total [of fl n] by auto
next
  case (run_free fl start n r fl')
  obtain s where s: "start = KernelVa s" by (cases start)
  have "n = 0 \<or> unat s + n * 4096 < 2 ^ 64"
    using kvm_list_free_overflow [of n s fl] run_free.hyps(2) by (metis not_less outcome.distinct(1) s)
  with kvm_list_free_spec [OF run_free.IH this] run_free.hyps(2) show ?case by (auto simp: s)
qed

text \<open>C21. The free list of the kernel's virtual-address pool implements a set of free addresses. In every
  reachable list an allocation returns the lowest free run of the requested number of pages and
  removes exactly it, and fails exactly when there is none. Giving a range back adds exactly its
  addresses. It is refused, with the list unchanged, when the range leaves the usable pool, when any
  of its addresses is already free, or when the 64 regions are used up and the range touches no free
  address; it panics exactly when the end of the range overflows 64 bits.\<close>

theorem kvm_list_refines:
  assumes "kvm_list_run fl"
  shows "free_bytes fl \<subseteq> {pool_lo..<pool_hi} \<and>
    (\<exists>r fl'. try_alloc n fl = Return (r, fl') \<and> spec_alloc n (free_bytes fl) r (free_bytes fl')) \<and>
    (if n = 0 \<or> unat s + n * 4096 < 2 ^ 64
      then \<exists>r fl'. kvm_list_free (KernelVa s) n fl = Return (r, fl') \<and> spec_free (unat s) n (free_bytes fl) r (free_bytes fl')
      else kvm_list_free (KernelVa s) n fl = Panic)"
proof (intro conjI)
  note wf = kvm_list_run_wf [OF assms]
  show "free_bytes fl \<subseteq> {pool_lo..<pool_hi}" by (rule free_bytes_pool [OF wf])
  show "\<exists>r fl'. try_alloc n fl = Return (r, fl') \<and> spec_alloc n (free_bytes fl) r (free_bytes fl')"
    using try_alloc_total [OF wf, of n] by blast
  show "if n = 0 \<or> unat s + n * 4096 < 2 ^ 64
      then \<exists>r fl'. kvm_list_free (KernelVa s) n fl = Return (r, fl') \<and> spec_free (unat s) n (free_bytes fl) r (free_bytes fl')
      else kvm_list_free (KernelVa s) n fl = Panic"
    using kvm_list_free_spec [OF wf, of n s] kvm_list_free_overflow [of n s fl] by (auto simp: not_less)
qed

lemma new_list_runs: "run_at pool_lo 33 \<subseteq> {pool_lo..<pool_hi}" "lowest_run {pool_lo..<pool_hi} 33 a \<Longrightarrow> a = pool_lo"
proof -
  show r: "run_at pool_lo 33 \<subseteq> {pool_lo..<pool_hi}" by (simp add: run_at_def pool_lo_def pool_hi_def)
  assume l: "lowest_run {pool_lo..<pool_hi} 33 a"
  then have "a \<le> pool_lo" using r by (simp add: lowest_run_def run_at_def)
  moreover have "a \<in> {a..<a + 33 * 4096}" by simp
  then have "pool_lo \<le> a" using l unfolding lowest_run_def by (meson atLeastLessThan_iff subsetD)
  ultimately show "a = pool_lo" by simp
qed

theorem kvm_list_refines_witness:
  "kvm_list_run kvm_list_new \<and>
   (\<exists>kva fl'. try_alloc 33 kvm_list_new = Return (Ok kva, fl') \<and> unat (kva_u64 kva) = pool_lo \<and>
     free_bytes fl' = {pool_lo..<pool_hi} - run_at pool_lo 33) \<and>
   (\<exists>fl'. kvm_list_free (KernelVa KVM_POOL_BASE) 33 kvm_list_new = Return (Err DoubleFree, fl'))"
proof -
  note w = kvm_list_refines [OF run_new, of 33 KVM_POOL_BASE, unfolded list_new_wf(2) pool_bounds(1)]
  have ne: "\<exists>b. run_at b 33 \<subseteq> {pool_lo..<pool_hi}" using new_list_runs(1) by blast
  obtain r fl1 where r: "try_alloc 33 kvm_list_new = Return (r, fl1)" "spec_alloc 33 {pool_lo..<pool_hi} r (free_bytes fl1)"
    using w by blast
  then obtain kva where kva: "r = Ok kva" "lowest_run {pool_lo..<pool_hi} 33 (unat (kva_u64 kva))"
    "free_bytes fl1 = {pool_lo..<pool_hi} - run_at (unat (kva_u64 kva)) 33"
    using ne by (auto simp: spec_alloc_def)
  have a: "unat (kva_u64 kva) = pool_lo" by (rule new_list_runs(2) [OF kva(2)])
  have "pool_lo + 33 * 4096 < 2 ^ 64" by (simp add: pool_lo_def)
  then obtain r2 fl2 where f: "kvm_list_free (KernelVa KVM_POOL_BASE) 33 kvm_list_new = Return (r2, fl2)"
    "spec_free pool_lo 33 {pool_lo..<pool_hi} r2 (free_bytes fl2)" using w by auto
  have ov: "run_at pool_lo 33 \<inter> {pool_lo..<pool_hi} \<noteq> {}" using new_list_runs(1) by (simp add: run_at_def)
  have "pool_lo + 33 * 4096 \<le> pool_hi" by (simp add: pool_lo_def pool_hi_def)
  then have "r2 = Err DoubleFree" using f(2) ov by (simp add: spec_free_def)
  with f(1) r(1) kva(1,3) a run_new show ?thesis by auto
qed

end
