(* ===== verification/Kvm.thy ===== *)
theory Kvm
  imports Vmem Kvm_List
begin

text \<open>
  The kernel virtual-address allocator: the map and free walks of \<^verbatim>\<open>lockjaw-types/src/kvm.rs\<close> and the
  allocator of \<^verbatim>\<open>src/mm/kvm.rs\<close> that drives them over the page tables of the kernel pool, the frame
  allocator and the free list. \<^verbatim>\<open>debug_assert!\<close> panics, as in the development profile; TLB maintenance
  and console output have no effect on the modelled state. The address of the kernel's level-0 table
  is fixed by the linker and is a parameter.
\<close>

section \<open>Entries and indices\<close>

definition KVM_L0_INDEX :: nat where "KVM_L0_INDEX = 256"

definition L1_ENTRY_BYTES :: u64 where "L1_ENTRY_BYTES = push_bit 30 1"
definition L2_ENTRY_BYTES :: u64 where "L2_ENTRY_BYTES = push_bit 21 1"

definition KVM_L2_TABLES_COUNT :: nat where
  "KVM_L2_TABLES_COUNT = unat ((KVM_POOL_USABLE_SIZE + L1_ENTRY_BYTES - 1) div L1_ENTRY_BYTES)"

definition KVM_L3_TABLES_COUNT :: nat where
  "KVM_L3_TABLES_COUNT = unat ((KVM_POOL_USABLE_SIZE + L2_ENTRY_BYTES - 1) div L2_ENTRY_BYTES)"

definition KVM_BOOTSTRAP_TABLE_PAGES :: nat where
  "KVM_BOOTSTRAP_TABLE_PAGES = 1 + KVM_L2_TABLES_COUNT + KVM_L3_TABLES_COUNT"

definition kvm_pool_indices :: "KernelVa \<Rightarrow> nat \<times> nat \<times> nat \<times> nat" where
  "kvm_pool_indices kva = page_table_indices (kva_u64 kva)"

definition build_kernel_page :: "PhysAddr \<Rightarrow> PageTableEntry" where
  "build_kernel_page paddr = with_pxn (with_uxn (new_page paddr MAIR_NORMAL AP_RW_EL1 SH_INNER))"

text \<open>
  Whether page \<open>page_idx\<close> of a range has a level-1 or a level-2 index different from the page before:
  both walks decide by this which cached table addresses they may keep.
\<close>

definition table_changes :: "KernelVa \<Rightarrow> nat \<Rightarrow> (bool \<times> bool) outcome" where
  "table_changes base page_idx =
     bind_outcome (kva_add_pages base page_idx) (\<lambda>kva.
     bind_outcome (kva_add_pages base (page_idx - 1)) (\<lambda>prev_kva.
       let (l0_p, l1_p, l2_p, l3_p) = kvm_pool_indices prev_kva; (l0, l1, l2, l3) = kvm_pool_indices kva in
       Return (l1 \<noteq> l1_p, l2 \<noteq> l2_p)))"

section \<open>The walk that installs a mapping\<close>

datatype KvmMapStep =
  ReadL1Pte PhysAddr
| ReadL2Pte PhysAddr
| ReadL3Pte PhysAddr
| WantBacking
| WritePagePte PhysAddr PageTableEntry
| MapStepDone
| MapStepFault

datatype PageState = NeedL1 | NeedL2 | NeedL3 | NeedBacking | NeedWritePte | PageFaulted | PageDone

record KvmMapWalk =
  km_base :: KernelVa
  km_pages :: nat
  km_page_idx :: nat
  km_state :: PageState
  km_l1_paddr :: u64
  km_l2_paddr :: u64
  km_l3_paddr :: u64
  km_pending_phys :: "PhysAddr option"

definition kvm_map_start :: "KernelVa \<Rightarrow> nat \<Rightarrow> u64 \<Rightarrow> KvmMapWalk" where
  "kvm_map_start base pages l1_paddr =
     \<lparr>km_base = base, km_pages = pages, km_page_idx = 0, km_state = (if pages = 0 then PageDone else NeedL1),
      km_l1_paddr = l1_paddr, km_l2_paddr = 0, km_l3_paddr = 0, km_pending_phys = None\<rparr>"

definition map_current_step :: "KvmMapWalk \<Rightarrow> KvmMapStep outcome" where
  "map_current_step w =
     bind_outcome (kva_add_pages (km_base w) (km_page_idx w)) (\<lambda>kva.
       let (l0, l1, l2, l3) = kvm_pool_indices kva in
       Return (case km_state w of
         NeedL1 \<Rightarrow> ReadL1Pte (PhysAddr (km_l1_paddr w + of_nat l1 * 8))
       | NeedL2 \<Rightarrow> ReadL2Pte (PhysAddr (km_l2_paddr w + of_nat l2 * 8))
       | NeedL3 \<Rightarrow> ReadL3Pte (PhysAddr (km_l3_paddr w + of_nat l3 * 8))
       | NeedBacking \<Rightarrow> WantBacking
       | NeedWritePte \<Rightarrow>
           (case km_pending_phys w of
              Some paddr \<Rightarrow> WritePagePte (PhysAddr (km_l3_paddr w + of_nat l3 * 8)) (build_kernel_page paddr)
            | None \<Rightarrow> MapStepFault)
       | PageFaulted \<Rightarrow> MapStepFault
       | PageDone \<Rightarrow> MapStepDone))"

definition map_step_l1 :: "u64 \<Rightarrow> KvmMapWalk \<Rightarrow> KvmMapWalk outcome" where
  "map_step_l1 raw w =
     assert_then (km_state w = NeedL1)
       (let pte = PageTableEntry raw in
        if \<not> pte_is_valid pte \<or> \<not> pte_is_table pte then Return (w\<lparr>km_state := PageFaulted\<rparr>)
        else Return (w\<lparr>km_l2_paddr := phys_u64 (output_addr pte), km_state := NeedL2\<rparr>))"

definition map_step_l2 :: "u64 \<Rightarrow> KvmMapWalk \<Rightarrow> KvmMapWalk outcome" where
  "map_step_l2 raw w =
     assert_then (km_state w = NeedL2)
       (let pte = PageTableEntry raw in
        if \<not> pte_is_valid pte \<or> \<not> pte_is_table pte then Return (w\<lparr>km_state := PageFaulted\<rparr>)
        else Return (w\<lparr>km_l3_paddr := phys_u64 (output_addr pte), km_state := NeedL3\<rparr>))"

definition map_step_l3 :: "u64 \<Rightarrow> KvmMapWalk \<Rightarrow> KvmMapWalk outcome" where
  "map_step_l3 raw w =
     assert_then (km_state w = NeedL3)
       (if pte_is_valid (PageTableEntry raw) then Return (w\<lparr>km_state := PageFaulted\<rparr>)
        else Return (w\<lparr>km_state := NeedBacking\<rparr>))"

definition supply_backing :: "PhysAddr \<Rightarrow> KvmMapWalk \<Rightarrow> KvmMapWalk outcome" where
  "supply_backing paddr w =
     assert_then (km_state w = NeedBacking) (Return (w\<lparr>km_pending_phys := Some paddr, km_state := NeedWritePte\<rparr>))"

definition step_pte_written :: "KvmMapWalk \<Rightarrow> KvmMapWalk outcome" where
  "step_pte_written w =
     assert_then (km_state w = NeedWritePte)
       (let w = w\<lparr>km_pending_phys := None, km_page_idx := km_page_idx w + 1\<rparr> in
        if km_pages w \<le> km_page_idx w then Return (w\<lparr>km_state := PageDone\<rparr>)
        else
          bind_outcome (table_changes (km_base w) (km_page_idx w)) (\<lambda>(new_l1, new_l2).
            Return (w\<lparr>km_state := (if new_l1 then NeedL1 else if new_l2 then NeedL2 else NeedL3)\<rparr>)))"

section \<open>The walk that tears a mapping down\<close>

datatype KvmFreeStep =
  FreeReadL1Pte PhysAddr
| FreeReadL2Pte PhysAddr
| FreeReadL3Pte PhysAddr
| ClearPte PhysAddr PhysAddr
| FreeStepDone
| FreeStepFault

datatype FreeState = FreeNeedL1 | FreeNeedL2 | FreeNeedL3 | FreeNeedClear | FreeFaulted | FreeDone

record KvmFreeWalk =
  kf_base :: KernelVa
  kf_pages :: nat
  kf_page_idx :: nat
  kf_state :: FreeState
  kf_l1_paddr :: u64
  kf_l2_paddr :: u64
  kf_l3_paddr :: u64
  kf_captured :: "PhysAddr option"

definition kvm_free_start :: "KernelVa \<Rightarrow> nat \<Rightarrow> u64 \<Rightarrow> KvmFreeWalk" where
  "kvm_free_start base pages l1_paddr =
     \<lparr>kf_base = base, kf_pages = pages, kf_page_idx = 0, kf_state = (if pages = 0 then FreeDone else FreeNeedL1),
      kf_l1_paddr = l1_paddr, kf_l2_paddr = 0, kf_l3_paddr = 0, kf_captured = None\<rparr>"

definition free_current_step :: "KvmFreeWalk \<Rightarrow> KvmFreeStep outcome" where
  "free_current_step w =
     bind_outcome (kva_add_pages (kf_base w) (kf_page_idx w)) (\<lambda>kva.
       let (l0, l1, l2, l3) = kvm_pool_indices kva in
       Return (case kf_state w of
         FreeNeedL1 \<Rightarrow> FreeReadL1Pte (PhysAddr (kf_l1_paddr w + of_nat l1 * 8))
       | FreeNeedL2 \<Rightarrow> FreeReadL2Pte (PhysAddr (kf_l2_paddr w + of_nat l2 * 8))
       | FreeNeedL3 \<Rightarrow> FreeReadL3Pte (PhysAddr (kf_l3_paddr w + of_nat l3 * 8))
       | FreeNeedClear \<Rightarrow>
           (case kf_captured w of
              Some backing \<Rightarrow> ClearPte (PhysAddr (kf_l3_paddr w + of_nat l3 * 8)) backing
            | None \<Rightarrow> FreeStepFault)
       | FreeFaulted \<Rightarrow> FreeStepFault
       | FreeDone \<Rightarrow> FreeStepDone))"

definition free_step_l1 :: "u64 \<Rightarrow> KvmFreeWalk \<Rightarrow> KvmFreeWalk outcome" where
  "free_step_l1 raw w =
     assert_then (kf_state w = FreeNeedL1)
       (let pte = PageTableEntry raw in
        if \<not> pte_is_table pte then Return (w\<lparr>kf_state := FreeFaulted\<rparr>)
        else Return (w\<lparr>kf_l2_paddr := phys_u64 (output_addr pte), kf_state := FreeNeedL2\<rparr>))"

definition free_step_l2 :: "u64 \<Rightarrow> KvmFreeWalk \<Rightarrow> KvmFreeWalk outcome" where
  "free_step_l2 raw w =
     assert_then (kf_state w = FreeNeedL2)
       (let pte = PageTableEntry raw in
        if \<not> pte_is_table pte then Return (w\<lparr>kf_state := FreeFaulted\<rparr>)
        else Return (w\<lparr>kf_l3_paddr := phys_u64 (output_addr pte), kf_state := FreeNeedL3\<rparr>))"

definition free_step_l3 :: "u64 \<Rightarrow> KvmFreeWalk \<Rightarrow> KvmFreeWalk outcome" where
  "free_step_l3 raw w =
     assert_then (kf_state w = FreeNeedL3)
       (let pte = PageTableEntry raw in
        if \<not> pte_is_valid pte then Return (w\<lparr>kf_state := FreeFaulted\<rparr>)
        else Return (w\<lparr>kf_captured := Some (output_addr pte), kf_state := FreeNeedClear\<rparr>))"

definition step_pte_cleared :: "KvmFreeWalk \<Rightarrow> KvmFreeWalk outcome" where
  "step_pte_cleared w =
     assert_then (kf_state w = FreeNeedClear)
       (let w = w\<lparr>kf_captured := None, kf_page_idx := kf_page_idx w + 1\<rparr> in
        if kf_pages w \<le> kf_page_idx w then Return (w\<lparr>kf_state := FreeDone\<rparr>)
        else
          bind_outcome (table_changes (kf_base w) (kf_page_idx w)) (\<lambda>(new_l1, new_l2).
            Return (w\<lparr>kf_state := (if new_l1 then FreeNeedL1 else if new_l2 then FreeNeedL2 else FreeNeedL3)\<rparr>)))"

section \<open>Driving the walks\<close>

datatype KvmError = KvmOutOfVirtualMemory | OutOfPhysicalFrames

fun page_rank :: "PageState \<Rightarrow> nat" where
  "page_rank NeedL1 = 5" | "page_rank NeedL2 = 4" | "page_rank NeedL3 = 3" | "page_rank NeedBacking = 2"
| "page_rank NeedWritePte = 1" | "page_rank PageFaulted = 0" | "page_rank PageDone = 0"

definition map_measure :: "KvmMapWalk \<Rightarrow> nat" where
  "map_measure w = (if km_state w = PageFaulted \<or> km_state w = PageDone then 0
     else 6 * (km_pages w - km_page_idx w) + page_rank (km_state w))"

lemma map_steps_decrease:
  "map_step_l1 raw w = Return w' \<Longrightarrow> map_measure w' < map_measure w"
  "map_step_l2 raw w = Return w' \<Longrightarrow> map_measure w' < map_measure w"
  "map_step_l3 raw w = Return w' \<Longrightarrow> map_measure w' < map_measure w"
  "supply_backing pa w = Return w' \<Longrightarrow> map_measure w' < map_measure w"
  "step_pte_written w = Return w' \<Longrightarrow> map_measure w' < map_measure w"
  by (auto simp: map_step_l1_def map_step_l2_def map_step_l3_def supply_backing_def step_pte_written_def map_measure_def
    Let_def returned split: if_splits prod.splits)

type_synonym backing = "nat \<Rightarrow> PhysMem \<Rightarrow> ((PhysAddr, KvmError) result \<times> PhysMem) outcome"

function drive_map_walk ::
  "backing \<Rightarrow> KvmMapWalk \<Rightarrow> nat \<Rightarrow> pte_memory \<Rightarrow> PhysMem \<Rightarrow>
    ((unit, KvmError) result \<times> nat \<times> pte_memory \<times> PhysMem) outcome" where
  "drive_map_walk next_backing w pages_done mem m =
     bind_outcome (map_current_step w) (\<lambda>step.
       case step of
         ReadL1Pte a \<Rightarrow>
           bind_outcome (map_step_l1 (mem (phys_u64 a)) w) (\<lambda>w. drive_map_walk next_backing w pages_done mem m)
       | ReadL2Pte a \<Rightarrow>
           bind_outcome (map_step_l2 (mem (phys_u64 a)) w) (\<lambda>w. drive_map_walk next_backing w pages_done mem m)
       | ReadL3Pte a \<Rightarrow>
           bind_outcome (map_step_l3 (mem (phys_u64 a)) w) (\<lambda>w. drive_map_walk next_backing w pages_done mem m)
       | WantBacking \<Rightarrow>
           bind_outcome (next_backing pages_done m) (\<lambda>(r, m).
             case r of
               Err e \<Rightarrow> Return (Err e, pages_done, mem, m)
             | Ok paddr \<Rightarrow> bind_outcome (supply_backing paddr w) (\<lambda>w. drive_map_walk next_backing w pages_done mem m))
       | WritePagePte a entry \<Rightarrow>
           bind_outcome (step_pte_written w) (\<lambda>w.
             drive_map_walk next_backing w (pages_done + 1) (mem(phys_u64 a := pte_raw entry)) m)
       | MapStepDone \<Rightarrow> Return (Ok (), pages_done, mem, m)
       | MapStepFault \<Rightarrow> Panic)"
  by pat_completeness auto
termination
  by (relation "measure (\<lambda>(b, w, n, mem, m). map_measure w)") (auto intro: map_steps_decrease)

declare drive_map_walk.simps [simp del]

fun free_rank :: "FreeState \<Rightarrow> nat" where
  "free_rank FreeNeedL1 = 4" | "free_rank FreeNeedL2 = 3" | "free_rank FreeNeedL3 = 2" | "free_rank FreeNeedClear = 1"
| "free_rank FreeFaulted = 0" | "free_rank FreeDone = 0"

definition free_measure :: "KvmFreeWalk \<Rightarrow> nat" where
  "free_measure w = (if kf_state w = FreeFaulted \<or> kf_state w = FreeDone then 0
     else 5 * (kf_pages w - kf_page_idx w) + free_rank (kf_state w))"

lemma free_steps_decrease:
  "free_step_l1 raw w = Return w' \<Longrightarrow> free_measure w' < free_measure w"
  "free_step_l2 raw w = Return w' \<Longrightarrow> free_measure w' < free_measure w"
  "free_step_l3 raw w = Return w' \<Longrightarrow> free_measure w' < free_measure w"
  "step_pte_cleared w = Return w' \<Longrightarrow> free_measure w' < free_measure w"
  by (auto simp: free_step_l1_def free_step_l2_def free_step_l3_def step_pte_cleared_def free_measure_def
    Let_def returned split: if_splits prod.splits)

text \<open>
  The loop of \<^verbatim>\<open>tear_down_range\<close>. The array \<^verbatim>\<open>to_free\<close> with its head is the list of the frames recorded so
  far, of which there are at most 64; later frames are given back inside the loop.
\<close>

definition record_backing ::
  "Platform \<Rightarrow> bool \<Rightarrow> PhysAddr \<Rightarrow> PhysPage list \<Rightarrow> PhysMem \<Rightarrow> (PhysPage list \<times> PhysMem) outcome" where
  "record_backing p dealloc_backing backing to_free m =
     (if dealloc_backing then
        if length to_free < 64 then Return (to_free @ [containing_page backing], m)
        else bind_outcome (dealloc_page p (containing_page backing) m) (\<lambda>m. Return (to_free, m))
      else Return (to_free, m))"

function tear_down_loop ::
  "Platform \<Rightarrow> bool \<Rightarrow> KvmFreeWalk \<Rightarrow> PhysPage list \<Rightarrow> pte_memory \<Rightarrow> PhysMem \<Rightarrow>
    (PhysPage list \<times> pte_memory \<times> PhysMem) outcome" where
  "tear_down_loop p dealloc_backing w to_free mem m =
     bind_outcome (free_current_step w) (\<lambda>step.
       case step of
         FreeReadL1Pte a \<Rightarrow>
           bind_outcome (free_step_l1 (mem (phys_u64 a)) w) (\<lambda>w. tear_down_loop p dealloc_backing w to_free mem m)
       | FreeReadL2Pte a \<Rightarrow>
           bind_outcome (free_step_l2 (mem (phys_u64 a)) w) (\<lambda>w. tear_down_loop p dealloc_backing w to_free mem m)
       | FreeReadL3Pte a \<Rightarrow>
           bind_outcome (free_step_l3 (mem (phys_u64 a)) w) (\<lambda>w. tear_down_loop p dealloc_backing w to_free mem m)
       | ClearPte a backing \<Rightarrow>
           let mem = mem(phys_u64 a := 0) in
           bind_outcome (record_backing p dealloc_backing backing to_free m) (\<lambda>(to_free, m).
             bind_outcome (step_pte_cleared w) (\<lambda>w. tear_down_loop p dealloc_backing w to_free mem m))
       | FreeStepDone \<Rightarrow> Return (to_free, mem, m)
       | FreeStepFault \<Rightarrow> Panic)"
  by pat_completeness auto
termination
  by (relation "measure (\<lambda>(p, d, w, fs, mem, m). free_measure w)") (auto intro: free_steps_decrease)

declare tear_down_loop.simps [simp del]

fun dealloc_all :: "Platform \<Rightarrow> PhysPage list \<Rightarrow> PhysMem \<Rightarrow> PhysMem outcome" where
  "dealloc_all p [] m = Return m"
| "dealloc_all p (f # fs) m = bind_outcome (dealloc_page p f m) (dealloc_all p fs)"

section \<open>The allocator\<close>

record KvmAllocator =
  kvm_list :: KvmFreeList
  kvm_l1_paddr :: u64
  kvm_initialized :: bool

definition kvm_allocator_new :: KvmAllocator where
  "kvm_allocator_new = \<lparr>kvm_list = kvm_list_new, kvm_l1_paddr = 0, kvm_initialized = False\<rparr>"

type_synonym kvm_state = "KvmAllocator \<times> pte_memory \<times> PhysMem"

record OwnedKvmRange =
  owned_kva :: KernelVa
  owned_pages :: nat

record MappedKvmRange =
  mapped_kva :: KernelVa
  mapped_pages :: nat

fun zero_tables :: "u64 \<Rightarrow> nat list \<Rightarrow> pte_memory \<Rightarrow> pte_memory" where
  "zero_tables base [] mem = mem"
| "zero_tables base (i # is) mem = zero_tables base is (zero_table (base + of_nat i * PAGE_SIZE) mem)"

fun stitch_l2 :: "u64 \<Rightarrow> u64 \<Rightarrow> nat \<Rightarrow> nat list \<Rightarrow> pte_memory \<Rightarrow> pte_memory" where
  "stitch_l2 l2_paddr l3_base l2i [] mem = mem"
| "stitch_l2 l2_paddr l3_base l2i (sub # subs) mem =
     (let global_l3_idx = l2i * 512 + sub in
      if KVM_L3_TABLES_COUNT \<le> global_l3_idx then mem
      else
        let l3_paddr = l3_base + of_nat global_l3_idx * PAGE_SIZE in
        stitch_l2 l2_paddr l3_base l2i subs
          (mem(l2_paddr + of_nat sub * 8 := pte_raw (new_table (PhysAddr l3_paddr)))))"

fun stitch_l1 :: "u64 \<Rightarrow> u64 \<Rightarrow> u64 \<Rightarrow> nat list \<Rightarrow> pte_memory \<Rightarrow> pte_memory" where
  "stitch_l1 l1_paddr l2_base l3_base [] mem = mem"
| "stitch_l1 l1_paddr l2_base l3_base (l2i # is) mem =
     (let l2_paddr = l2_base + of_nat l2i * PAGE_SIZE;
          mem = mem(l1_paddr + of_nat l2i * 8 := pte_raw (new_table (PhysAddr l2_paddr))) in
      stitch_l1 l1_paddr l2_base l3_base is (stitch_l2 l2_paddr l3_base l2i [0..<512] mem))"

definition kvm_init :: "Platform \<Rightarrow> u64 \<Rightarrow> kvm_state \<Rightarrow> kvm_state outcome" where
  "kvm_init p kernel_l0_paddr st =
     (let (k, mem, m) = st in
      if kvm_initialized k then Panic
      else
        bind_outcome (alloc_pages_contiguous p KVM_BOOTSTRAP_TABLE_PAGES m) (\<lambda>(r, m).
          case r of
            None \<Rightarrow> Panic
          | Some first_page \<Rightarrow>
              let l1_paddr = phys_u64 (start_addr first_page);
                  l2_base = l1_paddr + PAGE_SIZE;
                  l3_base = l1_paddr + of_nat (1 + KVM_L2_TABLES_COUNT) * PAGE_SIZE;
                  mem = zero_tables l1_paddr [0..<KVM_BOOTSTRAP_TABLE_PAGES] mem;
                  mem = stitch_l1 l1_paddr l2_base l3_base [0..<KVM_L2_TABLES_COUNT] mem in
              bind_outcome (write_entry kernel_l0_paddr KVM_L0_INDEX (new_table (PhysAddr l1_paddr)) mem) (\<lambda>mem.
                Return (k\<lparr>kvm_l1_paddr := l1_paddr, kvm_initialized := True\<rparr>, mem, m))))"

definition list_free_ignored :: "KernelVa \<Rightarrow> nat \<Rightarrow> KvmAllocator \<Rightarrow> KvmAllocator outcome" where
  "list_free_ignored kva pages k =
     bind_outcome (kvm_list_free kva pages (kvm_list k)) (\<lambda>(ignored, fl). Return (k\<lparr>kvm_list := fl\<rparr>))"

definition tear_down_range :: "Platform \<Rightarrow> KernelVa \<Rightarrow> nat \<Rightarrow> bool \<Rightarrow> kvm_state \<Rightarrow> kvm_state outcome" where
  "tear_down_range p kva pages dealloc_backing st =
     (let (k, mem, m) = st in
      if pages = 0 then Return (k, mem, m)
      else
        bind_outcome (tear_down_loop p dealloc_backing (kvm_free_start kva pages (kvm_l1_paddr k)) [] mem m)
          (\<lambda>(to_free, mem, m).
        bind_outcome (dealloc_all p to_free m) (\<lambda>m.
        bind_outcome (list_free_ignored kva pages k) (\<lambda>k. Return (k, mem, m)))))"

text \<open>
  The rollback of a failed walk, the same in \<^verbatim>\<open>alloc_kernel_pages\<close> and \<^verbatim>\<open>map_existing\<close>: tear down the pages
  already mapped, or give back the reservation when there are none.
\<close>

definition kvm_roll_back :: "Platform \<Rightarrow> KernelVa \<Rightarrow> nat \<Rightarrow> nat \<Rightarrow> bool \<Rightarrow> kvm_state \<Rightarrow> kvm_state outcome" where
  "kvm_roll_back p kva pages pages_done dealloc_backing st =
     (if 0 < pages_done then tear_down_range p kva pages_done dealloc_backing st
      else
        let (k, mem, m) = st in
        bind_outcome (list_free_ignored kva pages k) (\<lambda>k. Return (k, mem, m)))"

definition map_range ::
  "Platform \<Rightarrow> backing \<Rightarrow> bool \<Rightarrow> nat \<Rightarrow> kvm_state \<Rightarrow> ((KernelVa, KvmError) result \<times> kvm_state) outcome" where
  "map_range p next_backing dealloc_backing pages st =
     (let (k, mem, m) = st in
      bind_outcome (try_alloc pages (kvm_list k)) (\<lambda>(r, fl).
        let k = k\<lparr>kvm_list := fl\<rparr> in
        case r of
          Err e \<Rightarrow> Return (Err KvmOutOfVirtualMemory, k, mem, m)
        | Ok kva \<Rightarrow>
            bind_outcome (drive_map_walk next_backing (kvm_map_start kva pages (kvm_l1_paddr k)) 0 mem m)
              (\<lambda>(r, pages_done, mem, m).
                case r of
                  Err e \<Rightarrow>
                    bind_outcome (kvm_roll_back p kva pages pages_done dealloc_backing (k, mem, m)) (\<lambda>st.
                      Return (Err e, st))
                | Ok u \<Rightarrow> Return (Ok kva, k, mem, m))))"

definition frame_backing :: "Platform \<Rightarrow> backing" where
  "frame_backing p i m =
     bind_outcome (alloc_page p m) (\<lambda>(r, m).
       Return (case r of None \<Rightarrow> (Err OutOfPhysicalFrames, m) | Some frame \<Rightarrow> (Ok (start_addr frame), m)))"

definition alloc_kernel_pages :: "Platform \<Rightarrow> nat \<Rightarrow> kvm_state \<Rightarrow> ((OwnedKvmRange, KvmError) result \<times> kvm_state) outcome" where
  "alloc_kernel_pages p pages st =
     (if \<not> kvm_initialized (fst st) then Panic
      else if pages = 0 then Return (Err KvmOutOfVirtualMemory, st)
      else
        bind_outcome (map_range p (frame_backing p) True pages st) (\<lambda>(r, st).
          Return (case r of Err e \<Rightarrow> Err e | Ok kva \<Rightarrow> Ok \<lparr>owned_kva = kva, owned_pages = pages\<rparr>, st)))"

definition map_existing :: "Platform \<Rightarrow> PhysPage \<Rightarrow> kvm_state \<Rightarrow> ((MappedKvmRange, KvmError) result \<times> kvm_state) outcome" where
  "map_existing p page st =
     (if \<not> kvm_initialized (fst st) then Panic
      else
        bind_outcome (map_range p (\<lambda>i m. Return (Ok (start_addr page), m)) False 1 st) (\<lambda>(r, st).
          Return (case r of Err e \<Rightarrow> Err e | Ok kva \<Rightarrow> Ok \<lparr>mapped_kva = kva, mapped_pages = 1\<rparr>, st)))"

definition free_kernel_pages :: "Platform \<Rightarrow> OwnedKvmRange \<Rightarrow> kvm_state \<Rightarrow> kvm_state outcome" where
  "free_kernel_pages p rng st =
     (if \<not> kvm_initialized (fst st) then Panic
      else tear_down_range p (owned_kva rng) (owned_pages rng) True st)"

definition unmap_existing :: "Platform \<Rightarrow> MappedKvmRange \<Rightarrow> kvm_state \<Rightarrow> kvm_state outcome" where
  "unmap_existing p rng st =
     (if \<not> kvm_initialized (fst st) then Panic
      else tear_down_range p (mapped_kva rng) (mapped_pages rng) False st)"

text \<open>The guards: a range that is given back on drop unless it has been taken.\<close>

type_synonym OwnedKvmRangeGuard = "OwnedKvmRange option"
type_synonym MappedKvmRangeGuard = "MappedKvmRange option"

definition owned_guard_new :: "OwnedKvmRange \<Rightarrow> OwnedKvmRangeGuard" where
  "owned_guard_new rng = Some rng"

definition owned_guard_take :: "OwnedKvmRangeGuard \<Rightarrow> (OwnedKvmRange \<times> OwnedKvmRangeGuard) outcome" where
  "owned_guard_take g = (case g of Some rng \<Rightarrow> Return (rng, None) | None \<Rightarrow> Panic)"

definition owned_guard_kva :: "OwnedKvmRangeGuard \<Rightarrow> KernelVa outcome" where
  "owned_guard_kva g = (case g of Some rng \<Rightarrow> Return (owned_kva rng) | None \<Rightarrow> Panic)"

definition owned_guard_drop :: "Platform \<Rightarrow> OwnedKvmRangeGuard \<Rightarrow> kvm_state \<Rightarrow> kvm_state outcome" where
  "owned_guard_drop p g st = (case g of Some rng \<Rightarrow> free_kernel_pages p rng st | None \<Rightarrow> Return st)"

definition mapped_guard_new :: "MappedKvmRange \<Rightarrow> MappedKvmRangeGuard" where
  "mapped_guard_new rng = Some rng"

definition mapped_guard_take :: "MappedKvmRangeGuard \<Rightarrow> (MappedKvmRange \<times> MappedKvmRangeGuard) outcome" where
  "mapped_guard_take g = (case g of Some rng \<Rightarrow> Return (rng, None) | None \<Rightarrow> Panic)"

definition mapped_guard_kva :: "MappedKvmRangeGuard \<Rightarrow> KernelVa outcome" where
  "mapped_guard_kva g = (case g of Some rng \<Rightarrow> Return (mapped_kva rng) | None \<Rightarrow> Panic)"

definition mapped_guard_drop :: "Platform \<Rightarrow> MappedKvmRangeGuard \<Rightarrow> kvm_state \<Rightarrow> kvm_state outcome" where
  "mapped_guard_drop p g st = (case g of Some rng \<Rightarrow> unmap_existing p rng st | None \<Rightarrow> Return st)"

lemma owned_guard_taken:
  "owned_guard_take (owned_guard_new rng) = Return (rng, g) \<Longrightarrow> owned_guard_drop p g st = Return st \<and> owned_guard_take g = Panic"
  by (simp add: owned_guard_take_def owned_guard_new_def owned_guard_drop_def)

lemma mapped_guard_taken:
  "mapped_guard_take (mapped_guard_new rng) = Return (rng, g) \<Longrightarrow> mapped_guard_drop p g st = Return st \<and> mapped_guard_take g = Panic"
  by (simp add: mapped_guard_take_def mapped_guard_new_def mapped_guard_drop_def)

section \<open>The tables of the pool\<close>

text \<open>
  The first entry of the level-1 table leads to the level-2 table, all of whose 512 entries lead to
  level-3 tables; all these tables are distinct. Page \<open>pg\<close> of the pool has one entry.
\<close>

definition kvm_l2 :: "pte_memory \<Rightarrow> u64 \<Rightarrow> u64" where
  "kvm_l2 mem l1 = next_of (entry_at mem l1)"

definition kvm_l3 :: "pte_memory \<Rightarrow> u64 \<Rightarrow> u64 \<Rightarrow> u64" where
  "kvm_l3 mem l1 i = next_of (entry_at mem (slot (kvm_l2 mem l1) i))"

definition kvm_tables :: "pte_memory \<Rightarrow> u64 \<Rightarrow> u64 set" where
  "kvm_tables mem l1 = insert l1 (insert (kvm_l2 mem l1) (kvm_l3 mem l1 ` {i. unat i < 512}))"

definition kvm_tree :: "pte_memory \<Rightarrow> u64 \<Rightarrow> bool" where
  "kvm_tree mem l1 \<longleftrightarrow>
     unat l1 mod 4096 = 0 \<and> pte_is_table (entry_at mem l1) \<and> kvm_l2 mem l1 \<noteq> l1 \<and>
     (\<forall>i. unat i < 512 \<longrightarrow> pte_is_table (entry_at mem (slot (kvm_l2 mem l1) i)) \<and> kvm_l3 mem l1 i \<notin> {l1, kvm_l2 mem l1}) \<and>
     inj_on (kvm_l3 mem l1) {i. unat i < 512}"

definition pte_addr :: "pte_memory \<Rightarrow> u64 \<Rightarrow> nat \<Rightarrow> u64" where
  "pte_addr mem l1 pg = slot (kvm_l3 mem l1 (of_nat (pg div 512))) (of_nat (pg mod 512))"

definition kvm_entry :: "pte_memory \<Rightarrow> u64 \<Rightarrow> nat \<Rightarrow> PageTableEntry" where
  "kvm_entry mem l1 pg = entry_at mem (pte_addr mem l1 pg)"

lemma kvm_l2_aligned: "unat (kvm_l2 mem l1) mod 4096 = 0" and kvm_l3_aligned: "unat (kvm_l3 mem l1 i) mod 4096 = 0"
  unfolding kvm_l2_def kvm_l3_def by (rule next_of_aligned)+

lemma pool_address_bits:
  assumes "pg < 262144"
  shows "(pool_lo + pg * 4096) div 2 ^ 39 mod 512 = 256" and "(pool_lo + pg * 4096) div 2 ^ 30 mod 512 = 0"
    and "(pool_lo + pg * 4096) div 2 ^ 21 mod 512 = pg div 512" and "(pool_lo + pg * 4096) div 2 ^ 12 mod 512 = pg mod 512"
proof -
  have e: "pool_lo = 17179738112 * 2 ^ 30" "pool_lo = 8796025913344 * 2 ^ 21" "pool_lo = 4503565267632128 * 2 ^ 12"
    by (simp_all add: pool_lo_def)
  have x: "pg * 4096 < 2 ^ 30" using assms by simp
  have d: "(pool_lo + pg * 4096) div 2 ^ 30 = 17179738112" unfolding e(1) using x by (subst div_mult_self3) simp_all
  show "(pool_lo + pg * 4096) div 2 ^ 30 mod 512 = 0" unfolding d by simp
  have "(pool_lo + pg * 4096) div 2 ^ 39 = (pool_lo + pg * 4096) div 2 ^ 30 div 2 ^ 9"
    by (simp add: div_mult2_eq [symmetric])
  then show "(pool_lo + pg * 4096) div 2 ^ 39 mod 512 = 256" unfolding d by simp
  have "(pool_lo + pg * 4096) div 2 ^ 21 = 8796025913344 + pg * 4096 div 2 ^ 21" unfolding e(2) by (subst div_mult_self3) simp_all
  moreover have "pg * 4096 div 2 ^ 21 = pg div 512" by (simp add: div_mult2_eq)
  moreover have "pg div 512 < 512" using assms by simp
  ultimately have "(pool_lo + pg * 4096) div 2 ^ 21 = 17179738112 * 512 + pg div 512" by simp
  then show "(pool_lo + pg * 4096) div 2 ^ 21 mod 512 = pg div 512"
    using \<open>pg div 512 < 512\<close> by (simp only: mod_mult_self3 mod_less)
  have "(pool_lo + pg * 4096) div 2 ^ 12 = 8796025913344 * 512 + pg" unfolding e(3) by (subst div_mult_self3) simp_all
  then show "(pool_lo + pg * 4096) div 2 ^ 12 mod 512 = pg mod 512" by (simp only: mod_mult_self3)
qed

lemma pool_page_indices:
  assumes "pg < 262144"
  shows "kvm_pool_indices (kva_of pg) = (256, 0, pg div 512, pg mod 512)"
    and "index_of 39 (kva_u64 (kva_of pg)) = 256" and "index_of 30 (kva_u64 (kva_of pg)) = 0"
    and "index_of 21 (kva_u64 (kva_of pg)) = of_nat (pg div 512)" and "index_of 12 (kva_u64 (kva_of pg)) = of_nat (pg mod 512)"
proof -
  have u: "unat (kva_u64 (kva_of pg)) = pool_lo + pg * 4096" using kva_of_nat [of pg] assms by (simp add: page_at_def)
  have i: "unat (index_of 39 (kva_u64 (kva_of pg))) = 256" "unat (index_of 30 (kva_u64 (kva_of pg))) = 0"
    "unat (index_of 21 (kva_u64 (kva_of pg))) = pg div 512" "unat (index_of 12 (kva_u64 (kva_of pg))) = pg mod 512"
    unfolding unat_index u using pool_address_bits [OF assms] by simp_all
  show "kvm_pool_indices (kva_of pg) = (256, 0, pg div 512, pg mod 512)"
    using i by (simp add: kvm_pool_indices_def page_table_indices_def index_of_def)
  show "index_of 39 (kva_u64 (kva_of pg)) = 256" "index_of 30 (kva_u64 (kva_of pg)) = 0"
    using i(1,2) by (simp_all add: word_unat_eq_iff)
  show "index_of 21 (kva_u64 (kva_of pg)) = of_nat (pg div 512)" by (simp flip: i(3))
  show "index_of 12 (kva_u64 (kva_of pg)) = of_nat (pg mod 512)" by (simp flip: i(4))
qed

lemma pg_indices: "pg < 262144 \<Longrightarrow> unat (of_nat (pg div 512) :: u64) = pg div 512 \<and> unat (of_nat (pg mod 512) :: u64) = pg mod 512 \<and> pg div 512 < 512"
  by (simp add: unat_of_nat)

lemma same_pg_iff:
  assumes "pg < 262144" and "pg' < 262144"
  shows "(of_nat (pg div 512) :: u64) = of_nat (pg' div 512) \<and> (of_nat (pg mod 512) :: u64) = of_nat (pg' mod 512) \<longleftrightarrow> pg = pg'"
  using pg_indices [OF assms(1)] pg_indices [OF assms(2)] by (metis div_mult_mod_eq)

lemma kvm_tables_agree:
  assumes "\<And>i. unat i < 512 \<Longrightarrow> mem' (slot (kvm_l2 mem l1) i) = mem (slot (kvm_l2 mem l1) i)" and "mem' l1 = mem l1"
  shows "kvm_l2 mem' l1 = kvm_l2 mem l1" and "unat i < 512 \<Longrightarrow> kvm_l3 mem' l1 i = kvm_l3 mem l1 i"
    and "kvm_tree mem' l1 \<longleftrightarrow> kvm_tree mem l1" and "kvm_tables mem' l1 = kvm_tables mem l1"
    and "pg < 262144 \<Longrightarrow> pte_addr mem' l1 pg = pte_addr mem l1 pg"
proof -
  show l2: "kvm_l2 mem' l1 = kvm_l2 mem l1" using assms(2) by (simp add: kvm_l2_def entry_at_def)
  have l3: "kvm_l3 mem' l1 i = kvm_l3 mem l1 i" if "unat i < 512" for i
    using assms(1) [OF that] by (simp add: kvm_l3_def entry_at_def l2)
  then show "unat i < 512 \<Longrightarrow> kvm_l3 mem' l1 i = kvm_l3 mem l1 i" .
  have "inj_on (kvm_l3 mem' l1) {i. unat i < 512} \<longleftrightarrow> inj_on (kvm_l3 mem l1) {i. unat i < 512}"
    by (rule inj_on_cong) (simp add: l3)
  moreover have "entry_at mem' l1 = entry_at mem l1" using assms(2) by (simp add: entry_at_def)
  moreover have "entry_at mem' (slot (kvm_l2 mem l1) i) = entry_at mem (slot (kvm_l2 mem l1) i)" if "unat i < 512" for i
    using assms(1) [OF that] by (simp add: entry_at_def)
  ultimately show "kvm_tree mem' l1 \<longleftrightarrow> kvm_tree mem l1" using l3 by (auto simp: kvm_tree_def l2)
  have "kvm_l3 mem' l1 ` {i. unat i < 512} = kvm_l3 mem l1 ` {i. unat i < 512}" by (rule image_cong) (simp_all add: l3)
  then show "kvm_tables mem' l1 = kvm_tables mem l1" by (simp add: kvm_tables_def l2)
  show "pg < 262144 \<Longrightarrow> pte_addr mem' l1 pg = pte_addr mem l1 pg" using l3 [of "of_nat (pg div 512)"] pg_indices [of pg]
    by (simp add: pte_addr_def)
qed

lemma kvm_l3_write:
  assumes "kvm_tree mem l1" and "pg < 262144" and mem'_def: "mem' = mem(pte_addr mem l1 pg := v)"
  shows "kvm_l2 mem' l1 = kvm_l2 mem l1" and "unat i < 512 \<Longrightarrow> kvm_l3 mem' l1 i = kvm_l3 mem l1 i"
    and "kvm_tree mem' l1" and "kvm_tables mem' l1 = kvm_tables mem l1"
    and "pg' < 262144 \<Longrightarrow> pte_addr mem' l1 pg' = pte_addr mem l1 pg'"
    and "pg' < 262144 \<Longrightarrow> kvm_entry mem' l1 pg' = (if pg' = pg then PageTableEntry v else kvm_entry mem l1 pg')"
    and "unat t mod 4096 = 0 \<Longrightarrow> t \<notin> kvm_tables mem l1 \<Longrightarrow> unat j < 512 \<Longrightarrow> mem' (slot t j) = mem (slot t j)"
proof -
  let ?t = "kvm_l3 mem l1 (of_nat (pg div 512))" and ?i = "of_nat (pg mod 512) :: u64"
  note ix = pg_indices [OF assms(2)]
  have t: "?t \<noteq> l1" "?t \<noteq> kvm_l2 mem l1" "unat l1 mod 4096 = 0" using assms(1) ix by (auto simp: kvm_tree_def)
  have i: "unat ?i < 512" using ix by simp
  have other: "mem' (slot t' j) = mem (slot t' j)" if "unat t' mod 4096 = 0" "unat j < 512" "t' \<noteq> ?t" for t' j
    using slot_eq_iff [OF that(1) kvm_l3_aligned that(2) i] that(3) by (auto simp: mem'_def pte_addr_def)
  have "mem' l1 = mem l1" using other [OF t(3), of 0] t(1) by (simp add: slot_0)
  note ag = kvm_tables_agree [OF other [OF kvm_l2_aligned _ t(2) [symmetric]] this]
  show "kvm_l2 mem' l1 = kvm_l2 mem l1" by (rule ag(1))
  show "unat i < 512 \<Longrightarrow> kvm_l3 mem' l1 i = kvm_l3 mem l1 i" by (rule ag(2))
  show "kvm_tree mem' l1" using ag(3) assms(1) by simp
  show "kvm_tables mem' l1 = kvm_tables mem l1" by (rule ag(4))
  show pa: "pg' < 262144 \<Longrightarrow> pte_addr mem' l1 pg' = pte_addr mem l1 pg'" for pg' by (rule ag(5))
  show "pg' < 262144 \<Longrightarrow> kvm_entry mem' l1 pg' = (if pg' = pg then PageTableEntry v else kvm_entry mem l1 pg')"
  proof -
    assume pg': "pg' < 262144"
    note ix' = pg_indices [OF pg']
    have "pte_addr mem l1 pg' = pte_addr mem l1 pg \<longleftrightarrow> pg' = pg"
    proof -
      have "kvm_l3 mem l1 (of_nat (pg' div 512)) = ?t \<longleftrightarrow> (of_nat (pg' div 512) :: u64) = of_nat (pg div 512)"
        using assms(1) ix ix' by (intro inj_on_eq_iff [of "kvm_l3 mem l1" "{i. unat i < 512}"]) (auto simp: kvm_tree_def)
      then show ?thesis
        unfolding pte_addr_def using slot_eq_iff [OF kvm_l3_aligned kvm_l3_aligned _ i] ix' same_pg_iff [OF pg' assms(2)] by auto
    qed
    then show ?thesis unfolding kvm_entry_def pa [OF pg'] by (auto simp: mem'_def entry_at_def)
  qed
  have "?t \<in> kvm_tables mem l1" using ix by (auto simp: kvm_tables_def)
  then show "unat t mod 4096 = 0 \<Longrightarrow> t \<notin> kvm_tables mem l1 \<Longrightarrow> unat j < 512 \<Longrightarrow> mem' (slot t j) = mem (slot t j)"
    by (intro other) auto
qed

section \<open>Walking one page\<close>

lemma kva_of_add: "a + k \<le> 262144 \<Longrightarrow> kva_add_pages (kva_of a) k = Return (kva_of (a + k))"
proof -
  assume le: "a + k \<le> 262144"
  then have "unat (kva_u64 (kva_of a)) = pool_lo + a * 4096" using kva_of_nat [of a] by (simp add: page_at_def)
  moreover have "(a + k) * 4096 \<le> 262144 * 4096" using le by (intro mult_right_mono) auto
  ultimately have "unat (kva_u64 (kva_of a)) + k * unat PAGE_SIZE < 2 ^ 64" by (simp add: pool_lo_def algebra_simps)
  then show ?thesis by (simp add: kva_add_pages_def kva_of_def algebra_simps)
qed

lemma table_changes_pool:
  assumes "a + Suc k < 262144"
  shows "table_changes (kva_of a) (Suc k) = Return (False, (a + Suc k) div 512 \<noteq> (a + k) div 512)"
  using assms kva_of_add [of a "Suc k"] kva_of_add [of a k] pool_page_indices(1) [of "a + Suc k"] pool_page_indices(1) [of "a + k"]
  by (simp add: table_changes_def)

text \<open>A walk about to treat page \<open>k\<close> of its range, with whatever it has cached being right.\<close>

definition map_ready :: "pte_memory \<Rightarrow> u64 \<Rightarrow> nat \<Rightarrow> nat \<Rightarrow> nat \<Rightarrow> KvmMapWalk \<Rightarrow> bool" where
  "map_ready mem l1 a n k w \<longleftrightarrow>
     km_base w = kva_of a \<and> km_pages w = n \<and> km_page_idx w = k \<and> km_l1_paddr w = l1 \<and>
     (if k < n then km_state w = NeedL1 \<or> km_state w = NeedL2 \<and> km_l2_paddr w = kvm_l2 mem l1 \<or>
        km_state w = NeedL3 \<and> km_l2_paddr w = kvm_l2 mem l1 \<and> km_l3_paddr w = kvm_l3 mem l1 (of_nat ((a + k) div 512))
      else km_state w = PageDone)"

lemma map_current_pool:
  assumes "km_base w = kva_of a" and "a + km_page_idx w < 262144"
  shows "map_current_step w = Return (case km_state w of
         NeedL1 \<Rightarrow> ReadL1Pte (PhysAddr (km_l1_paddr w))
       | NeedL2 \<Rightarrow> ReadL2Pte (PhysAddr (slot (km_l2_paddr w) (of_nat ((a + km_page_idx w) div 512))))
       | NeedL3 \<Rightarrow> ReadL3Pte (PhysAddr (slot (km_l3_paddr w) (of_nat ((a + km_page_idx w) mod 512))))
       | NeedBacking \<Rightarrow> WantBacking
       | NeedWritePte \<Rightarrow>
           (case km_pending_phys w of
              Some paddr \<Rightarrow> WritePagePte (PhysAddr (slot (km_l3_paddr w) (of_nat ((a + km_page_idx w) mod 512)))) (build_kernel_page paddr)
            | None \<Rightarrow> MapStepFault)
       | PageFaulted \<Rightarrow> MapStepFault
       | PageDone \<Rightarrow> MapStepDone)"
  using assms kva_of_add [of a "km_page_idx w"] pool_page_indices(1) [of "a + km_page_idx w"]
  unfolding slot_def by (cases "km_state w") (simp_all add: map_current_step_def)

lemma drive_page_l3:
  assumes "kvm_tree mem l1" and "km_base w = kva_of a" and "km_pages w = n" and "km_page_idx w = k" and "k < n" and "a + n \<le> 262144"
    and "km_l1_paddr w = l1" and "km_state w = NeedL3" and "km_l2_paddr w = kvm_l2 mem l1"
    and "km_l3_paddr w = kvm_l3 mem l1 (of_nat ((a + k) div 512))" and "\<not> pte_is_valid (kvm_entry mem l1 (a + k))"
  obtains w' where "\<forall>m. drive_map_walk b w d mem m =
      bind_outcome (b d m) (\<lambda>(r, m). case r of Err e \<Rightarrow> Return (Err e, d, mem, m)
        | Ok pa \<Rightarrow> drive_map_walk b w' (d + 1) (mem(pte_addr mem l1 (a + k) := pte_raw (build_kernel_page pa))) m)"
    and "\<forall>v. map_ready (mem(pte_addr mem l1 (a + k) := v)) l1 a n (Suc k) w'"
proof -
  have lt: "a + k < 262144" using assms(5,6) by simp
  have addr: "slot (km_l3_paddr w) (of_nat ((a + k) mod 512)) = pte_addr mem l1 (a + k)" by (simp add: assms(10) pte_addr_def)
  have inv: "\<not> pte_is_valid (PageTableEntry (mem (pte_addr mem l1 (a + k))))" using assms(11) by (simp add: kvm_entry_def entry_at_def)
  let ?st = "if Suc k < n then if (a + Suc k) div 512 \<noteq> (a + k) div 512 then NeedL2 else NeedL3 else PageDone"
  let ?w = "w\<lparr>km_pending_phys := None, km_page_idx := Suc k, km_state := ?st\<rparr>"
  have 1: "drive_map_walk b w d mem m = drive_map_walk b (w\<lparr>km_state := NeedBacking\<rparr>) d mem m" for m
    by (subst drive_map_walk.simps) (use map_current_pool [of w a] lt inv assms(2,4,8) in \<open>simp add: addr map_step_l3_def\<close>)
  have 2: "drive_map_walk b (w\<lparr>km_state := NeedBacking\<rparr>) d mem m =
      bind_outcome (b d m) (\<lambda>(r, m). case r of Err e \<Rightarrow> Return (Err e, d, mem, m)
        | Ok pa \<Rightarrow> drive_map_walk b (w\<lparr>km_pending_phys := Some pa, km_state := NeedWritePte\<rparr>) d mem m)" for m
    by (subst drive_map_walk.simps) (use map_current_pool [of "w\<lparr>km_state := NeedBacking\<rparr>" a] lt assms(2,4) in \<open>simp add: supply_backing_def cong: result.case_cong\<close>)
  have 3: "drive_map_walk b (w\<lparr>km_pending_phys := Some pa, km_state := NeedWritePte\<rparr>) d mem m =
      drive_map_walk b ?w (d + 1) (mem(pte_addr mem l1 (a + k) := pte_raw (build_kernel_page pa))) m" for pa m
    by (subst drive_map_walk.simps)
      (use map_current_pool [of "w\<lparr>km_pending_phys := Some pa, km_state := NeedWritePte\<rparr>" a] lt assms(2-6) table_changes_pool [of a k]
       in \<open>auto simp: addr step_pte_written_def Let_def\<close>)
  show thesis
  proof (rule that [of ?w])
    show "\<forall>m. drive_map_walk b w d mem m =
      bind_outcome (b d m) (\<lambda>(r, m). case r of Err e \<Rightarrow> Return (Err e, d, mem, m)
        | Ok pa \<Rightarrow> drive_map_walk b ?w (d + 1) (mem(pte_addr mem l1 (a + k) := pte_raw (build_kernel_page pa))) m)"
      unfolding 1 2 3 by simp
    show "\<forall>v. map_ready (mem(pte_addr mem l1 (a + k) := v)) l1 a n (Suc k) ?w"
    proof
      fix v
      note wr = kvm_l3_write [OF assms(1) lt refl, where v = v]
      have "unat (of_nat ((a + k) div 512) :: u64) < 512" using pg_indices [OF lt] by simp
      then show "map_ready (mem(pte_addr mem l1 (a + k) := v)) l1 a n (Suc k) ?w" using assms wr(1) wr(2) [of "of_nat ((a + k) div 512)"] by (auto simp: map_ready_def)
    qed
  qed
qed

lemma drive_page:
  assumes "kvm_tree mem l1" and "map_ready mem l1 a n k w" and "k < n" and "a + n \<le> 262144"
    and "\<not> pte_is_valid (kvm_entry mem l1 (a + k))"
  obtains w' where "\<forall>m. drive_map_walk b w d mem m =
      bind_outcome (b d m) (\<lambda>(r, m). case r of Err e \<Rightarrow> Return (Err e, d, mem, m)
        | Ok pa \<Rightarrow> drive_map_walk b w' (d + 1) (mem(pte_addr mem l1 (a + k) := pte_raw (build_kernel_page pa))) m)"
    and "\<forall>v. map_ready (mem(pte_addr mem l1 (a + k) := v)) l1 a n (Suc k) w'"
proof -
  have lt: "a + k < 262144" using assms(3,4) by simp
  note ix = pg_indices [OF lt]
  have w: "km_base w = kva_of a" "km_pages w = n" "km_page_idx w = k" "km_l1_paddr w = l1" using assms(2) by (simp_all add: map_ready_def)
  have t: "pte_is_table (entry_at mem l1)" "pte_is_table (entry_at mem (slot (kvm_l2 mem l1) (of_nat ((a + k) div 512))))"
    using assms(1) ix by (simp_all add: kvm_tree_def)
  then have v: "pte_is_valid (entry_at mem l1)" "pte_is_valid (entry_at mem (slot (kvm_l2 mem l1) (of_nat ((a + k) div 512))))"
    by (simp_all add: pte_kind_bits)
  let ?l3 = "\<lambda>w. w\<lparr>km_l3_paddr := kvm_l3 mem l1 (of_nat ((a + k) div 512)), km_state := NeedL3\<rparr>"
  have l2: "drive_map_walk b w d mem m = drive_map_walk b (?l3 w) d mem m"
    if "km_state w = NeedL2" "km_l2_paddr w = kvm_l2 mem l1" "km_base w = kva_of a" "km_page_idx w = k" for w m
    by (subst drive_map_walk.simps)
      (use map_current_pool [of w a] lt t v that in \<open>simp add: map_step_l2_def kvm_l3_def entry_at_def\<close>)
  have l1: "drive_map_walk b w d mem m = drive_map_walk b (w\<lparr>km_l2_paddr := kvm_l2 mem l1, km_state := NeedL2\<rparr>) d mem m"
    if "km_state w = NeedL1" for m
    by (subst drive_map_walk.simps)
      (use map_current_pool [of w a] lt t v that w in \<open>simp add: map_step_l1_def kvm_l2_def entry_at_def\<close>)
  define w3 where "w3 = (if km_state w = NeedL1 then ?l3 (w\<lparr>km_l2_paddr := kvm_l2 mem l1, km_state := NeedL2\<rparr>)
    else if km_state w = NeedL2 then ?l3 w else w)"
  have same: "drive_map_walk b w d mem m = drive_map_walk b w3 d mem m" for m
  proof -
    consider "km_state w = NeedL1" | "km_state w = NeedL2" "km_l2_paddr w = kvm_l2 mem l1" | "km_state w = NeedL3"
      using assms(2,3) by (auto simp: map_ready_def)
    then show ?thesis using l1 l2 [of w] l2 [of "w\<lparr>km_l2_paddr := kvm_l2 mem l1, km_state := NeedL2\<rparr>"] w by cases (simp_all add: w3_def)
  qed
  have "km_base w3 = kva_of a" "km_pages w3 = n" "km_page_idx w3 = k" "km_l1_paddr w3 = l1" "km_state w3 = NeedL3"
    "km_l2_paddr w3 = kvm_l2 mem l1" "km_l3_paddr w3 = kvm_l3 mem l1 (of_nat ((a + k) div 512))"
    using assms(2,3) by (auto simp: map_ready_def w3_def)
  note l3 = drive_page_l3 [OF assms(1) this(1-3) assms(3,4) this(4-7) assms(5), of b d]
  show thesis by (rule l3, rule that, unfold same)
qed

text \<open>The frames a walk asks for one after the other, and the entries it writes.\<close>

fun supply_all :: "backing \<Rightarrow> nat \<Rightarrow> nat \<Rightarrow> PhysMem \<Rightarrow> (PhysAddr list \<times> KvmError option \<times> PhysMem) outcome" where
  "supply_all b d 0 m = Return ([], None, m)"
| "supply_all b d (Suc k) m =
     bind_outcome (b d m) (\<lambda>(r, m).
       case r of
         Err e \<Rightarrow> Return ([], Some e, m)
       | Ok pa \<Rightarrow> bind_outcome (supply_all b (d + 1) k m) (\<lambda>(pas, e, m). Return (pa # pas, e, m)))"

fun put_pages :: "u64 \<Rightarrow> nat \<Rightarrow> PhysAddr list \<Rightarrow> pte_memory \<Rightarrow> pte_memory" where
  "put_pages l1 a [] mem = mem"
| "put_pages l1 a (pa # pas) mem = put_pages l1 (Suc a) pas (mem(pte_addr mem l1 a := pte_raw (build_kernel_page pa)))"

lemma bind_outcome_assoc: "bind_outcome (bind_outcome m f) g = bind_outcome m (\<lambda>x. bind_outcome (f x) g)"
  by (cases m) simp_all

lemma drive_map_walk_run:
  assumes "kvm_tree mem l1" and "map_ready mem l1 a n k w" and "k \<le> n" and "a + n \<le> 262144"
    and "\<forall>i. k \<le> i \<and> i < n \<longrightarrow> \<not> pte_is_valid (kvm_entry mem l1 (a + i))"
  shows "drive_map_walk b w d mem m = bind_outcome (supply_all b d (n - k) m) (\<lambda>(pas, e, m).
    Return (case e of None \<Rightarrow> Ok () | Some e \<Rightarrow> Err e, d + length pas, put_pages l1 (a + k) pas mem, m))"
  using assms
proof (induction "n - k" arbitrary: k w mem d m)
  case 0
  then have "k = n" "km_state w = PageDone" "km_base w = kva_of a" "km_page_idx w = n" by (simp_all add: map_ready_def)
  moreover from this have "map_current_step w = Return MapStepDone"
    using kva_of_add [of a n] "0.prems"(4) by (simp add: map_current_step_def split: prod.split)
  ultimately show ?case by (subst drive_map_walk.simps) simp
next
  case (Suc j)
  then have lt: "k < n" and lt': "a + k < 262144" by simp_all
  have inv: "\<not> pte_is_valid (kvm_entry mem l1 (a + k))" using Suc.prems(5) lt by simp
  obtain w' where w': "\<forall>m. drive_map_walk b w d mem m =
      bind_outcome (b d m) (\<lambda>(r, m). case r of Err e \<Rightarrow> Return (Err e, d, mem, m)
        | Ok pa \<Rightarrow> drive_map_walk b w' (d + 1) (mem(pte_addr mem l1 (a + k) := pte_raw (build_kernel_page pa))) m)"
    "\<forall>v. map_ready (mem(pte_addr mem l1 (a + k) := v)) l1 a n (Suc k) w'"
    by (rule drive_page [OF Suc.prems(1,2) lt Suc.prems(4) inv, of b d])
  have ih: "drive_map_walk b w' (d + 1) (mem(pte_addr mem l1 (a + k) := v)) m =
    bind_outcome (supply_all b (d + 1) j m) (\<lambda>(pas, e, m).
      Return (case e of None \<Rightarrow> Ok () | Some e \<Rightarrow> Err e, d + 1 + length pas, put_pages l1 (Suc (a + k)) pas (mem(pte_addr mem l1 (a + k) := v)), m))"
    for v m
  proof -
    note wr = kvm_l3_write [OF Suc.prems(1) lt' refl, where v = v]
    have "\<forall>i. Suc k \<le> i \<and> i < n \<longrightarrow> \<not> pte_is_valid (kvm_entry (mem(pte_addr mem l1 (a + k) := v)) l1 (a + i))"
      using wr(6) Suc.prems(4,5) by auto
    moreover have "j = n - Suc k" using Suc.hyps(2) by simp
    ultimately show ?thesis using Suc.hyps(1) [of "Suc k", OF _ wr(3) spec [OF w'(2)]] lt Suc.prems(4) by simp
  qed
  have nk: "n - k = Suc j" using Suc.hyps(2) by simp
  show ?case unfolding spec [OF w'(1)] ih nk supply_all.simps bind_outcome_assoc
    by (rule bind_outcome_cong) (auto simp: bind_outcome_assoc split_def split: result.split intro!: bind_outcome_cong)
qed

text \<open>A change of entries of the pool only: the tables stay, and everything outside them.\<close>

definition pool_change :: "u64 \<Rightarrow> pte_memory \<Rightarrow> pte_memory \<Rightarrow> bool" where
  "pool_change l1 mem mem' \<longleftrightarrow>
     kvm_tree mem' l1 \<and> kvm_tables mem' l1 = kvm_tables mem l1 \<and> kvm_l2 mem' l1 = kvm_l2 mem l1 \<and>
     (\<forall>i. unat i < 512 \<longrightarrow> kvm_l3 mem' l1 i = kvm_l3 mem l1 i) \<and>
     (\<forall>t j. unat t mod 4096 = 0 \<longrightarrow> t \<notin> kvm_tables mem l1 \<longrightarrow> unat j < 512 \<longrightarrow> mem' (slot t j) = mem (slot t j))"

lemma pool_change_refl: "kvm_tree mem l1 \<Longrightarrow> pool_change l1 mem mem"
  by (simp add: pool_change_def)

lemma pool_change_trans: "pool_change l1 mem mem' \<Longrightarrow> pool_change l1 mem' mem'' \<Longrightarrow> pool_change l1 mem mem''"
  by (simp add: pool_change_def)

lemma pool_change_write:
  assumes "kvm_tree mem l1" and "pg < 262144"
  shows "pool_change l1 mem (mem(pte_addr mem l1 pg := v))"
  using kvm_l3_write [OF assms refl, where v = v] by (simp add: pool_change_def)

lemma put_pages_spec:
  assumes "kvm_tree mem l1" and "a + length pas \<le> 262144"
  shows "pool_change l1 mem (put_pages l1 a pas mem)"
    and "\<forall>pg < 262144. kvm_entry (put_pages l1 a pas mem) l1 pg =
      (if a \<le> pg \<and> pg < a + length pas then build_kernel_page (pas ! (pg - a)) else kvm_entry mem l1 pg)"
  using assms
proof (induction pas arbitrary: a mem)
  case Nil
  {
    case 1
    then show ?case by (simp add: pool_change_refl)
  next
    case 2
    then show ?case by auto
  }
next
  case (Cons pa pas)
  {
    case 1
    let ?mem = "mem(pte_addr mem l1 a := pte_raw (build_kernel_page pa))"
    have lt: "a < 262144" using 1(2) by simp
    note wr = kvm_l3_write [OF 1(1) lt refl, where v = "pte_raw (build_kernel_page pa)"]
    have "pool_change l1 ?mem (put_pages l1 (Suc a) pas ?mem)"
      by (rule Cons.IH(1) [OF wr(3)]) (use 1(2) in simp)
    from pool_change_trans [OF pool_change_write [OF 1(1) lt] this] show ?case by simp
  next
    case 2
    let ?mem = "mem(pte_addr mem l1 a := pte_raw (build_kernel_page pa))"
    have lt: "a < 262144" using 2(2) by simp
    note wr = kvm_l3_write [OF 2(1) lt refl, where v = "pte_raw (build_kernel_page pa)"]
    have ih: "\<forall>pg < 262144. kvm_entry (put_pages l1 (Suc a) pas ?mem) l1 pg =
      (if Suc a \<le> pg \<and> pg < Suc a + length pas then build_kernel_page (pas ! (pg - Suc a)) else kvm_entry ?mem l1 pg)"
      by (rule Cons.IH(2) [OF wr(3)]) (use 2(2) in simp)
    show ?case
    proof (intro allI impI)
      fix pg :: nat assume pg: "pg < 262144"
      have "pg - a = Suc (pg - Suc a)" if "Suc a \<le> pg" using that by simp
      then show "kvm_entry (put_pages l1 a (pa # pas) mem) l1 pg =
        (if a \<le> pg \<and> pg < a + length (pa # pas) then build_kernel_page ((pa # pas) ! (pg - a)) else kvm_entry mem l1 pg)"
        using ih pg wr(6) [OF pg] by (cases "pg = a") auto
    qed
  }
qed

section \<open>Tearing down\<close>

definition free_ready :: "pte_memory \<Rightarrow> u64 \<Rightarrow> nat \<Rightarrow> nat \<Rightarrow> nat \<Rightarrow> KvmFreeWalk \<Rightarrow> bool" where
  "free_ready mem l1 a n k w \<longleftrightarrow>
     kf_base w = kva_of a \<and> kf_pages w = n \<and> kf_page_idx w = k \<and> kf_l1_paddr w = l1 \<and>
     (if k < n then kf_state w = FreeNeedL1 \<or> kf_state w = FreeNeedL2 \<and> kf_l2_paddr w = kvm_l2 mem l1 \<or>
        kf_state w = FreeNeedL3 \<and> kf_l2_paddr w = kvm_l2 mem l1 \<and> kf_l3_paddr w = kvm_l3 mem l1 (of_nat ((a + k) div 512))
      else kf_state w = FreeDone)"

lemma free_current_pool:
  assumes "kf_base w = kva_of a" and "a + kf_page_idx w < 262144"
  shows "free_current_step w = Return (case kf_state w of
         FreeNeedL1 \<Rightarrow> FreeReadL1Pte (PhysAddr (kf_l1_paddr w))
       | FreeNeedL2 \<Rightarrow> FreeReadL2Pte (PhysAddr (slot (kf_l2_paddr w) (of_nat ((a + kf_page_idx w) div 512))))
       | FreeNeedL3 \<Rightarrow> FreeReadL3Pte (PhysAddr (slot (kf_l3_paddr w) (of_nat ((a + kf_page_idx w) mod 512))))
       | FreeNeedClear \<Rightarrow>
           (case kf_captured w of
              Some backing \<Rightarrow> ClearPte (PhysAddr (slot (kf_l3_paddr w) (of_nat ((a + kf_page_idx w) mod 512)))) backing
            | None \<Rightarrow> FreeStepFault)
       | FreeFaulted \<Rightarrow> FreeStepFault
       | FreeDone \<Rightarrow> FreeStepDone)"
  using assms kva_of_add [of a "kf_page_idx w"] pool_page_indices(1) [of "a + kf_page_idx w"]
  unfolding slot_def by (cases "kf_state w") (simp_all add: free_current_step_def)

lemma tear_page_l3:
  assumes "kvm_tree mem l1" and "kf_base w = kva_of a" and "kf_pages w = n" and "kf_page_idx w = k" and "k < n" and "a + n \<le> 262144"
    and "kf_l1_paddr w = l1" and "kf_state w = FreeNeedL3" and "kf_l2_paddr w = kvm_l2 mem l1"
    and "kf_l3_paddr w = kvm_l3 mem l1 (of_nat ((a + k) div 512))" and "pte_is_valid (kvm_entry mem l1 (a + k))"
  obtains w' where "\<forall>fs m. tear_down_loop p dl w fs mem m =
      bind_outcome (record_backing p dl (output_addr (kvm_entry mem l1 (a + k))) fs m) (\<lambda>(fs, m).
        tear_down_loop p dl w' fs (mem(pte_addr mem l1 (a + k) := 0)) m)"
    and "free_ready (mem(pte_addr mem l1 (a + k) := 0)) l1 a n (Suc k) w'"
proof -
  have lt: "a + k < 262144" using assms(5,6) by simp
  have addr: "slot (kf_l3_paddr w) (of_nat ((a + k) mod 512)) = pte_addr mem l1 (a + k)" by (simp add: assms(10) pte_addr_def)
  have e: "PageTableEntry (mem (pte_addr mem l1 (a + k))) = kvm_entry mem l1 (a + k)" by (simp add: kvm_entry_def entry_at_def)
  let ?st = "if Suc k < n then if (a + Suc k) div 512 \<noteq> (a + k) div 512 then FreeNeedL2 else FreeNeedL3 else FreeDone"
  let ?w = "w\<lparr>kf_captured := None, kf_page_idx := Suc k, kf_state := ?st\<rparr>"
  let ?c = "w\<lparr>kf_captured := Some (output_addr (kvm_entry mem l1 (a + k))), kf_state := FreeNeedClear\<rparr>"
  have 1: "tear_down_loop p dl w fs mem m = tear_down_loop p dl ?c fs mem m" for fs m
    by (subst tear_down_loop.simps) (use free_current_pool [of w a] lt e assms(2,4,8,11) in \<open>simp add: addr free_step_l3_def\<close>)
  have cl: "step_pte_cleared ?c = Return ?w"
    using assms(2-6) lt table_changes_pool [of a k] by (auto simp: step_pte_cleared_def Let_def)
  have 2: "tear_down_loop p dl ?c fs mem m =
      bind_outcome (record_backing p dl (output_addr (kvm_entry mem l1 (a + k))) fs m) (\<lambda>(fs, m).
        tear_down_loop p dl ?w fs (mem(pte_addr mem l1 (a + k) := 0)) m)" for fs m
    by (subst tear_down_loop.simps) (use free_current_pool [of ?c a] lt assms(2,4) cl in \<open>simp add: addr Let_def\<close>)
  note wr = kvm_l3_write [OF assms(1) lt refl, where v = 0]
  have "unat (of_nat ((a + k) div 512) :: u64) < 512" using pg_indices [OF lt] by simp
  then have "free_ready (mem(pte_addr mem l1 (a + k) := 0)) l1 a n (Suc k) ?w"
    using assms wr(1) wr(2) [of "of_nat ((a + k) div 512)"] by (auto simp: free_ready_def)
  with 1 2 show thesis by (intro that [of ?w]) simp_all
qed

lemma tear_page:
  assumes "kvm_tree mem l1" and "free_ready mem l1 a n k w" and "k < n" and "a + n \<le> 262144"
    and "pte_is_valid (kvm_entry mem l1 (a + k))"
  obtains w' where "\<forall>fs m. tear_down_loop p dl w fs mem m =
      bind_outcome (record_backing p dl (output_addr (kvm_entry mem l1 (a + k))) fs m) (\<lambda>(fs, m).
        tear_down_loop p dl w' fs (mem(pte_addr mem l1 (a + k) := 0)) m)"
    and "free_ready (mem(pte_addr mem l1 (a + k) := 0)) l1 a n (Suc k) w'"
proof -
  have lt: "a + k < 262144" using assms(3,4) by simp
  note ix = pg_indices [OF lt]
  have w: "kf_base w = kva_of a" "kf_pages w = n" "kf_page_idx w = k" "kf_l1_paddr w = l1" using assms(2) by (simp_all add: free_ready_def)
  have t: "pte_is_table (entry_at mem l1)" "pte_is_table (entry_at mem (slot (kvm_l2 mem l1) (of_nat ((a + k) div 512))))"
    using assms(1) ix by (simp_all add: kvm_tree_def)
  let ?l3 = "\<lambda>w. w\<lparr>kf_l3_paddr := kvm_l3 mem l1 (of_nat ((a + k) div 512)), kf_state := FreeNeedL3\<rparr>"
  have l2: "tear_down_loop p dl w fs mem m = tear_down_loop p dl (?l3 w) fs mem m"
    if "kf_state w = FreeNeedL2" "kf_l2_paddr w = kvm_l2 mem l1" "kf_base w = kva_of a" "kf_page_idx w = k" for w fs m
    by (subst tear_down_loop.simps)
      (use free_current_pool [of w a] lt t that in \<open>simp add: free_step_l2_def kvm_l3_def entry_at_def\<close>)
  have l1: "tear_down_loop p dl w fs mem m = tear_down_loop p dl (w\<lparr>kf_l2_paddr := kvm_l2 mem l1, kf_state := FreeNeedL2\<rparr>) fs mem m"
    if "kf_state w = FreeNeedL1" for fs m
    by (subst tear_down_loop.simps)
      (use free_current_pool [of w a] lt t that w in \<open>simp add: free_step_l1_def kvm_l2_def entry_at_def\<close>)
  define w3 where "w3 = (if kf_state w = FreeNeedL1 then ?l3 (w\<lparr>kf_l2_paddr := kvm_l2 mem l1, kf_state := FreeNeedL2\<rparr>)
    else if kf_state w = FreeNeedL2 then ?l3 w else w)"
  have same: "tear_down_loop p dl w fs mem m = tear_down_loop p dl w3 fs mem m" for fs m
  proof -
    consider "kf_state w = FreeNeedL1" | "kf_state w = FreeNeedL2" "kf_l2_paddr w = kvm_l2 mem l1" | "kf_state w = FreeNeedL3"
      using assms(2,3) by (auto simp: free_ready_def)
    then show ?thesis using l1 l2 [of w] l2 [of "w\<lparr>kf_l2_paddr := kvm_l2 mem l1, kf_state := FreeNeedL2\<rparr>"] w by cases (simp_all add: w3_def)
  qed
  have "kf_base w3 = kva_of a" "kf_pages w3 = n" "kf_page_idx w3 = k" "kf_l1_paddr w3 = l1" "kf_state w3 = FreeNeedL3"
    "kf_l2_paddr w3 = kvm_l2 mem l1" "kf_l3_paddr w3 = kvm_l3 mem l1 (of_nat ((a + k) div 512))"
    using assms(2,3) by (auto simp: free_ready_def w3_def)
  note l3 = tear_page_l3 [OF assms(1) this(1-3) assms(3,4) this(4-7) assms(5), of p dl]
  show thesis by (rule l3, rule that, unfold same)
qed

fun record_all ::
  "Platform \<Rightarrow> bool \<Rightarrow> PhysAddr list \<Rightarrow> PhysPage list \<Rightarrow> PhysMem \<Rightarrow> (PhysPage list \<times> PhysMem) outcome" where
  "record_all p dl [] fs m = Return (fs, m)"
| "record_all p dl (x # xs) fs m = bind_outcome (record_backing p dl x fs m) (\<lambda>(fs, m). record_all p dl xs fs m)"

fun clear_pages :: "u64 \<Rightarrow> nat \<Rightarrow> nat \<Rightarrow> pte_memory \<Rightarrow> pte_memory" where
  "clear_pages l1 a 0 mem = mem"
| "clear_pages l1 a (Suc n) mem = clear_pages l1 (Suc a) n (mem(pte_addr mem l1 a := 0))"

lemma clear_pages_spec:
  assumes "kvm_tree mem l1" and "a + n \<le> 262144"
  shows "pool_change l1 mem (clear_pages l1 a n mem) \<and>
    (\<forall>pg < 262144. kvm_entry (clear_pages l1 a n mem) l1 pg = (if a \<le> pg \<and> pg < a + n then PageTableEntry 0 else kvm_entry mem l1 pg))"
  using assms
proof (induction n arbitrary: a mem)
  case 0
  then show ?case by (auto simp: pool_change_refl)
next
  case (Suc n)
  let ?mem = "mem(pte_addr mem l1 a := 0)"
  have lt: "a < 262144" using Suc.prems by simp
  note wr = kvm_l3_write [OF Suc.prems(1) lt refl, where v = 0]
  have le: "Suc a + n \<le> 262144" using Suc.prems(2) by simp
  have ih: "pool_change l1 ?mem (clear_pages l1 (Suc a) n ?mem) \<and>
    (\<forall>pg < 262144. kvm_entry (clear_pages l1 (Suc a) n ?mem) l1 pg =
      (if Suc a \<le> pg \<and> pg < Suc a + n then PageTableEntry 0 else kvm_entry ?mem l1 pg))"
    by (rule Suc.IH [OF wr(3) le])
  have "pool_change l1 mem (clear_pages l1 a (Suc n) mem)"
    unfolding clear_pages.simps by (rule pool_change_trans [OF pool_change_write [OF Suc.prems(1) lt] conjunct1 [OF ih]])
  moreover have "kvm_entry (clear_pages l1 a (Suc n) mem) l1 pg = (if a \<le> pg \<and> pg < a + Suc n then PageTableEntry 0 else kvm_entry mem l1 pg)"
    if "pg < 262144" for pg
    using ih that wr(6) [OF that] by (cases "pg = a") auto
  ultimately show ?case by blast
qed

lemma tear_down_run:
  assumes "kvm_tree mem l1" and "free_ready mem l1 a n k w" and "k \<le> n" and "a + n \<le> 262144"
    and "\<forall>i. k \<le> i \<and> i < n \<longrightarrow> pte_is_valid (kvm_entry mem l1 (a + i))"
  shows "tear_down_loop p dl w fs mem m =
    bind_outcome (record_all p dl (map (\<lambda>i. output_addr (kvm_entry mem l1 (a + i))) [k..<n]) fs m) (\<lambda>(fs, m).
      Return (fs, clear_pages l1 (a + k) (n - k) mem, m))"
  using assms
proof (induction "n - k" arbitrary: k w mem fs m)
  case 0
  then have "k = n" "kf_state w = FreeDone" "kf_base w = kva_of a" "kf_page_idx w = n" by (simp_all add: free_ready_def)
  moreover from this have "free_current_step w = Return FreeStepDone"
    using kva_of_add [of a n] "0.prems"(4) by (simp add: free_current_step_def split: prod.split)
  ultimately show ?case by (subst tear_down_loop.simps) simp
next
  case (Suc j)
  then have lt: "k < n" and lt': "a + k < 262144" by simp_all
  have valid: "pte_is_valid (kvm_entry mem l1 (a + k))" using Suc.prems(5) lt by simp
  let ?mem = "mem(pte_addr mem l1 (a + k) := 0)"
  obtain w' where w': "\<forall>fs m. tear_down_loop p dl w fs mem m =
      bind_outcome (record_backing p dl (output_addr (kvm_entry mem l1 (a + k))) fs m) (\<lambda>(fs, m). tear_down_loop p dl w' fs ?mem m)"
    "free_ready ?mem l1 a n (Suc k) w'"
    by (rule tear_page [OF Suc.prems(1,2) lt Suc.prems(4) valid, of p dl])
  note wr = kvm_l3_write [OF Suc.prems(1) lt' refl, where v = 0]
  have same: "kvm_entry ?mem l1 (a + i) = kvm_entry mem l1 (a + i)" if "Suc k \<le> i" "i < n" for i
    using wr(6) [of "a + i"] Suc.prems(4) that by simp
  have "\<forall>i. Suc k \<le> i \<and> i < n \<longrightarrow> pte_is_valid (kvm_entry ?mem l1 (a + i))" using same Suc.prems(5) by simp
  moreover have "j = n - Suc k" using Suc.hyps(2) by simp
  ultimately have ih: "tear_down_loop p dl w' fs ?mem m =
    bind_outcome (record_all p dl (map (\<lambda>i. output_addr (kvm_entry ?mem l1 (a + i))) [Suc k..<n]) fs m) (\<lambda>(fs, m).
      Return (fs, clear_pages l1 (Suc (a + k)) j ?mem, m))" for fs m
    using Suc.hyps(1) [of "Suc k", OF _ wr(3) w'(2)] lt Suc.prems(4) by simp
  have mp: "map (\<lambda>i. output_addr (kvm_entry ?mem l1 (a + i))) [Suc k..<n] = map (\<lambda>i. output_addr (kvm_entry mem l1 (a + i))) [Suc k..<n]"
    using same by simp
  have nk: "n - k = Suc j" using Suc.hyps(2) by simp
  show ?case unfolding spec [OF spec [OF w'(1)]] ih mp nk upt_conv_Cons [OF lt] list.map record_all.simps clear_pages.simps bind_outcome_assoc
    by (rule bind_outcome_cong) (auto simp: split_def)
qed

section \<open>Giving frames back\<close>

lemma record_all_false: "record_all p False xs fs m = Return (fs, m)"
  by (induction xs) (simp_all add: record_backing_def)

lemma record_all_frames:
  assumes "frames_ok p m" and "distinct (fs @ gs)" and "set (fs @ gs) \<subseteq> taken_frames p m" and "\<forall>g \<in> set gs. containing_page (start_addr g) = g"
  shows "\<exists>fs' m' D. record_all p True (map start_addr gs) fs m = Return (fs', m') \<and> frames_ok p m' \<and> distinct fs' \<and>
    set fs' \<union> D = set (fs @ gs) \<and> set fs' \<inter> D = {} \<and> free_frames p m' = free_frames p m \<union> D \<and>
    taken_frames p m' = taken_frames p m - D \<and> (pool m', pool_base m') = (pool m, pool_base m)"
  using assms
proof (induction gs arbitrary: fs m)
  case Nil
  then show ?case by (intro exI [of _ fs] exI [of _ m] exI [of _ "{}"]) simp
next
  case (Cons g gs)
  show ?case
  proof (cases "length fs < 64")
    case True
    have "distinct ((fs @ [g]) @ gs)" "set ((fs @ [g]) @ gs) \<subseteq> taken_frames p m" using Cons.prems by auto
    from Cons.IH [OF Cons.prems(1) this] Cons.prems(4) True show ?thesis by (simp add: record_backing_def)
  next
    case False
    have "g \<in> taken_frames p m" using Cons.prems(3) by simp
    from frame_pool.dealloc_taken [OF Cons.prems(1) this] obtain m1 where m1: "dealloc_page p g m = Return m1" "frames_ok p m1"
      "free_frames p m1 = insert g (free_frames p m)" "taken_frames p m1 = taken_frames p m - {g}"
      "(pool m1, pool_base m1) = (pool m, pool_base m)" by auto
    have "distinct (fs @ gs)" "set (fs @ gs) \<subseteq> taken_frames p m1" using Cons.prems m1(4) by auto
    from Cons.IH [OF m1(2) this] Cons.prems(4) obtain fs' m' D where r: "record_all p True (map start_addr gs) fs m1 = Return (fs', m')"
      "frames_ok p m'" "distinct fs'" "set fs' \<union> D = set (fs @ gs)" "set fs' \<inter> D = {}" "free_frames p m' = free_frames p m1 \<union> D"
      "taken_frames p m' = taken_frames p m1 - D" "(pool m', pool_base m') = (pool m1, pool_base m1)" by auto
    have "record_all p True (map start_addr (g # gs)) fs m = Return (fs', m')"
      using False Cons.prems(4) m1(1) r(1) by (simp add: record_backing_def)
    moreover have "g \<notin> set fs'" using r(4) Cons.prems(2) by auto
    ultimately show ?thesis using r m1(3,4,5) Cons.prems(2)
      by (intro exI [of _ fs'] exI [of _ m'] exI [of _ "insert g D"]) auto
  qed
qed

lemma dealloc_all_frames:
  assumes "frames_ok p m" and "distinct fs" and "set fs \<subseteq> taken_frames p m"
  shows "\<exists>m'. dealloc_all p fs m = Return m' \<and> frames_ok p m' \<and> free_frames p m' = free_frames p m \<union> set fs \<and>
    taken_frames p m' = taken_frames p m - set fs \<and> (pool m', pool_base m') = (pool m, pool_base m)"
  using frame_pool.dealloc_loop [of "dealloc_all p" UNIV p id m fs] assms by simp

section \<open>Frames for a mapping\<close>

lemma supply_frames:
  assumes "frames_ok p m"
  shows "\<exists>fs e m'. supply_all (frame_backing p) d n m = Return (map start_addr fs, e, m') \<and> frames_ok p m' \<and> distinct fs \<and>
    set fs \<subseteq> free_frames p m \<and> free_frames p m' = free_frames p m - set fs \<and> taken_frames p m' = taken_frames p m \<union> set fs \<and>
    length fs \<le> n \<and> (pool m', pool_base m') = (pool m, pool_base m) \<and>
    (if length fs = n then e = None else e = Some OutOfPhysicalFrames \<and> free_frames p m' = {})"
  using assms
proof (induction n arbitrary: d m)
  case 0
  then show ?case by (intro exI [of _ "[]"]) simp
next
  case (Suc n)
  from frame_pool.alloc_cases [OF Suc.prems] show ?case
  proof (elim disjE exE conjE)
    fix f m1 assume a: "alloc_page p m = Return (Some f, m1)" "frames_ok p m1" "f \<in> free_frames p m"
      "free_frames p m1 = free_frames p m - {f}" "taken_frames p m1 = insert f (taken_frames p m)"
      "(pool m1, pool_base m1) = (pool m, pool_base m)"
    obtain fs e m' where r: "supply_all (frame_backing p) (d + 1) n m1 = Return (map start_addr fs, e, m')" "frames_ok p m'" "distinct fs"
      "set fs \<subseteq> free_frames p m1" "free_frames p m' = free_frames p m1 - set fs" "taken_frames p m' = taken_frames p m1 \<union> set fs"
      "length fs \<le> n" "(pool m', pool_base m') = (pool m1, pool_base m1)"
      "if length fs = n then e = None else e = Some OutOfPhysicalFrames \<and> free_frames p m' = {}"
      using Suc.IH [OF a(2), of "d + 1"] by auto
    have "supply_all (frame_backing p) d (Suc n) m = Return (map start_addr (f # fs), e, m')"
      using a(1) r(1) by (simp add: frame_backing_def)
    moreover have "f \<notin> set fs" using r(4) a(4) by auto
    ultimately show ?case using r a by (intro exI [of _ "f # fs"] exI [of _ e] exI [of _ m']) (auto split: if_splits)
  next
    assume "alloc_page p m = Return (None, m)" "free_frames p m = {}"
    then show ?case using Suc.prems
      by (intro exI [of _ "[]"] exI [of _ "Some OutOfPhysicalFrames"] exI [of _ m]) (simp add: frame_backing_def)
  qed
qed

lemma kernel_page_bit:
  "bit (pte_raw (build_kernel_page (PhysAddr a))) n \<longleftrightarrow>
    n \<in> {0, 1, 10, 53, 54} \<or> bit (attr_bits MAIR_NORMAL AP_RW_EL1 SH_INNER) n \<or> 12 \<le> n \<and> n < 48 \<and> bit a n"
  by (auto simp: build_kernel_page_def with_pxn_def with_uxn_def new_page_def bit_or_iff bit_and_iff pte_flag_bits addr_mask_bit)

lemma kernel_page_valid: "pte_is_valid (build_kernel_page pa)"
  by (cases pa) (simp add: pte_is_valid_bit kernel_page_bit)

lemma kernel_page_address: "next_of (build_kernel_page (PhysAddr a)) = a AND PTE_ADDR_MASK"
  by (rule bit_eqI) (auto simp: output_addr_def bit_and_iff kernel_page_bit attr_bits_bit addr_mask_bit)

lemma frame_mask: "table_frame f \<Longrightarrow> frame_paddr f AND PTE_ADDR_MASK = frame_paddr f"
proof -
  assume f: "table_frame f"
  then have "next_of (new_table (PhysAddr (frame_paddr f))) = frame_paddr f" using new_table_entry(2) by (simp add: table_frame_def)
  moreover have "next_of (new_table (PhysAddr a)) = a AND PTE_ADDR_MASK" for a
    by (rule bit_eqI) (auto simp: new_table_def output_addr_def bit_and_iff bit_or_iff pte_flag_bits addr_mask_bit)
  ultimately show ?thesis by simp
qed

lemma kernel_page_output: "table_frame f \<Longrightarrow> output_addr (build_kernel_page (start_addr f)) = start_addr f"
  using kernel_page_address [of "frame_paddr f"] frame_mask [of f] by (simp add: frame_paddr_def PhysAddr.expand)

section \<open>The state of the allocator\<close>

text \<open>
  \<open>P\<close> is the set of free pages of the pool. Every table of the pool is a frame in use, and the entry
  of a free page is empty.
\<close>

definition kvm_ok :: "Platform \<Rightarrow> u64 \<Rightarrow> nat set \<Rightarrow> kvm_state \<Rightarrow> bool" where
  "kvm_ok p l0 P st \<longleftrightarrow> (let (k, mem, m) = st; l1 = kvm_l1_paddr k in
     kvm_initialized k \<and> ram_addressable p \<and> frames_ok p m \<and> list_of (kvm_list k) P \<and> kvm_tree mem l1 \<and>
     unat l0 mod 4096 = 0 \<and> l0 \<notin> kvm_tables mem l1 \<and> entry_at mem (slot l0 256) = new_table (PhysAddr l1) \<and>
     kvm_tables mem l1 \<subseteq> frame_paddr ` taken_frames p m \<and> (\<forall>pg \<in> P. \<not> pte_is_valid (kvm_entry mem l1 pg)))"

definition mapped_at :: "pte_memory \<Rightarrow> u64 \<Rightarrow> nat \<Rightarrow> PhysPage list \<Rightarrow> bool" where
  "mapped_at mem l1 a fs \<longleftrightarrow> a + length fs \<le> 262144 \<and>
     (\<forall>i < length fs. kvm_entry mem l1 (a + i) = build_kernel_page (start_addr (fs ! i)))"

lemma kvm_ok_change:
  assumes "kvm_ok p l0 P (k, mem, m)" and "pool_change (kvm_l1_paddr k) mem mem'" and "list_of fl P'" and "frames_ok p m'"
    and "kvm_tables mem (kvm_l1_paddr k) \<subseteq> frame_paddr ` taken_frames p m'"
    and "\<forall>pg \<in> P'. \<not> pte_is_valid (kvm_entry mem' (kvm_l1_paddr k) pg)"
  shows "kvm_ok p l0 P' (k\<lparr>kvm_list := fl\<rparr>, mem', m')"
proof -
  let ?l1 = "kvm_l1_paddr k"
  have ok: "kvm_initialized k" "ram_addressable p" "unat l0 mod 4096 = 0" "l0 \<notin> kvm_tables mem ?l1"
    "entry_at mem (slot l0 256) = new_table (PhysAddr ?l1)"
    using assms(1) by (simp_all add: kvm_ok_def Let_def)
  have pc: "kvm_tree mem' ?l1" "kvm_tables mem' ?l1 = kvm_tables mem ?l1"
    "\<And>t j. unat t mod 4096 = 0 \<Longrightarrow> t \<notin> kvm_tables mem ?l1 \<Longrightarrow> unat j < 512 \<Longrightarrow> mem' (slot t j) = mem (slot t j)"
    using assms(2) by (simp_all add: pool_change_def)
  have "mem' (slot l0 256) = mem (slot l0 256)" by (rule pc(3) [OF ok(3,4)]) simp
  then have "entry_at mem' (slot l0 256) = new_table (PhysAddr ?l1)" using ok(5) by (simp add: entry_at_def)
  with ok pc(1,2) assms(3-6) show ?thesis by (simp add: kvm_ok_def Let_def)
qed

lemma give_back_range:
  assumes "frames_ok p m" and "ram_addressable p" and "dl \<Longrightarrow> distinct fs \<and> set fs \<subseteq> taken_frames p m"
  obtains gs m1 m' where "record_all p dl (map (\<lambda>f. output_addr (build_kernel_page (start_addr f))) fs) [] m = Return (gs, m1)"
    and "dealloc_all p gs m1 = Return m'" and "frames_ok p m'" and "free_frames p m' = free_frames p m \<union> (if dl then set fs else {})"
    and "taken_frames p m' = taken_frames p m - (if dl then set fs else {})"
proof (cases dl)
  case False
  then show ?thesis using that [of "[]" m m] assms(1) by (simp add: record_all_false)
next
  case True
  then have fs: "distinct fs" "set fs \<subseteq> taken_frames p m" using assms(3) by auto
  have cont: "\<forall>f \<in> set fs. containing_page (start_addr f) = f" using fs(2) frame_containing by (fastforce simp: taken_frames_def)
  have mp: "map (\<lambda>f. output_addr (build_kernel_page (start_addr f))) fs = map start_addr fs"
    using kernel_page_output taken_frame_table [OF assms(1,2)] fs(2) by (intro map_cong) auto
  obtain gs m1 D where r: "record_all p True (map start_addr fs) [] m = Return (gs, m1)" "frames_ok p m1" "distinct gs" "set gs \<union> D = set fs"
    "set gs \<inter> D = {}" "free_frames p m1 = free_frames p m \<union> D" "taken_frames p m1 = taken_frames p m - D"
    using record_all_frames [OF assms(1), of "[]" fs] fs cont by auto
  have "set gs \<subseteq> taken_frames p m1" using r(4,5,7) fs(2) by auto
  from dealloc_all_frames [OF r(2,3) this] obtain m' where d: "dealloc_all p gs m1 = Return m'" "frames_ok p m'"
    "free_frames p m' = free_frames p m1 \<union> set gs" "taken_frames p m' = taken_frames p m1 - set gs" by blast
  show ?thesis
  proof (rule that [of gs m1 m'])
    show "record_all p dl (map (\<lambda>f. output_addr (build_kernel_page (start_addr f))) fs) [] m = Return (gs, m1)"
      unfolding mp using r(1) True by simp
    show "free_frames p m' = free_frames p m \<union> (if dl then set fs else {})" using True r(4,6) d(3) by auto
    show "taken_frames p m' = taken_frames p m - (if dl then set fs else {})" using True r(4,7) d(4) by auto
  qed (fact d)+
qed

lemma subset_image_diff: "T \<subseteq> f ` A \<Longrightarrow> f ` B \<inter> T = {} \<Longrightarrow> T \<subseteq> f ` (A - B)"
  by blast

lemma tear_down_spec:
  assumes "kvm_ok p l0 P (k, mem, m)" and "mapped_at mem (kvm_l1_paddr k) a fs" and "fs \<noteq> []" and "{a..<a + length fs} \<inter> P = {}"
    and "dl \<longrightarrow> distinct fs \<and> set fs \<subseteq> taken_frames p m \<and> frame_paddr ` set fs \<inter> kvm_tables mem (kvm_l1_paddr k) = {}"
  shows "\<exists>fl mem' m' P'. tear_down_range p (kva_of a) (length fs) dl (k, mem, m) = Return (k\<lparr>kvm_list := fl\<rparr>, mem', m') \<and>
    kvm_ok p l0 P' (k\<lparr>kvm_list := fl\<rparr>, mem', m') \<and> pool_change (kvm_l1_paddr k) mem mem' \<and>
    (\<forall>pg < 262144. kvm_entry mem' (kvm_l1_paddr k) pg =
      (if a \<le> pg \<and> pg < a + length fs then PageTableEntry 0 else kvm_entry mem (kvm_l1_paddr k) pg)) \<and>
    (if runs_of (pool_bytes P) = KVM_MAX_FREE_REGIONS \<and> page_at a - 1 \<notin> pool_bytes P \<and> a + length fs \<notin> P
     then P' = P else P' = P \<union> {a..<a + length fs}) \<and>
    free_frames p m' = free_frames p m \<union> (if dl then set fs else {}) \<and>
    taken_frames p m' = taken_frames p m - (if dl then set fs else {})"
proof -
  let ?l1 = "kvm_l1_paddr k" and ?n = "length fs"
  have ok: "frames_ok p m" "ram_addressable p" "kvm_tree mem ?l1" "list_of (kvm_list k) P" "P \<subseteq> {..<262144}"
    "kvm_tables mem ?l1 \<subseteq> frame_paddr ` taken_frames p m" "\<forall>pg \<in> P. \<not> pte_is_valid (kvm_entry mem ?l1 pg)"
    using assms(1) by (simp_all add: kvm_ok_def list_of_def Let_def)
  have le: "a + ?n \<le> 262144" and n: "0 < ?n" using assms(2,3) by (simp_all add: mapped_at_def)
  have en: "kvm_entry mem ?l1 (a + i) = build_kernel_page (start_addr (fs ! i))" if "i < ?n" for i
    using assms(2) that by (simp add: mapped_at_def)
  have rd: "free_ready mem ?l1 a ?n 0 (kvm_free_start (kva_of a) ?n ?l1)" using n by (simp add: free_ready_def kvm_free_start_def)
  have valid: "\<forall>i. 0 \<le> i \<and> i < ?n \<longrightarrow> pte_is_valid (kvm_entry mem ?l1 (a + i))" using en kernel_page_valid by simp
  define mem' where "mem' = clear_pages ?l1 a ?n mem"
  have cp: "pool_change ?l1 mem mem'"
    "\<forall>pg < 262144. kvm_entry mem' ?l1 pg = (if a \<le> pg \<and> pg < a + ?n then PageTableEntry 0 else kvm_entry mem ?l1 pg)"
    using clear_pages_spec [OF ok(3) le, folded mem'_def] by auto
  have mp: "map (\<lambda>i. output_addr (kvm_entry mem ?l1 (a + i))) [0..<?n] = map (\<lambda>f. output_addr (build_kernel_page (start_addr f))) fs"
    by (rule nth_equalityI) (simp_all add: en)
  obtain gs m1 m' where g: "record_all p dl (map (\<lambda>f. output_addr (build_kernel_page (start_addr f))) fs) [] m = Return (gs, m1)"
    "dealloc_all p gs m1 = Return m'" "frames_ok p m'" "free_frames p m' = free_frames p m \<union> (if dl then set fs else {})"
    "taken_frames p m' = taken_frames p m - (if dl then set fs else {})"
    by (rule give_back_range [OF ok(1,2), of dl fs]) (use assms(5) in blast)
  have run: "tear_down_loop p dl (kvm_free_start (kva_of a) ?n ?l1) [] mem m = Return (gs, mem', m1)"
    using tear_down_run [OF ok(3) rd le0 le valid, of p dl "[]" m] g(1) by (simp add: mem'_def mp)
  obtain r fl where f: "kvm_list_free (kva_of a) ?n (kvm_list k) = Return (r, fl)"
    "if runs_of (pool_bytes P) = KVM_MAX_FREE_REGIONS \<and> page_at a - 1 \<notin> pool_bytes P \<and> a + ?n \<notin> P
     then r = Err RegionTableFull \<and> list_of fl P else r = Ok () \<and> list_of fl (P \<union> {a..<a + ?n})"
    using list_free_pages [OF ok(4) n le assms(4)] by blast
  define P' where "P' = (if runs_of (pool_bytes P) = KVM_MAX_FREE_REGIONS \<and> page_at a - 1 \<notin> pool_bytes P \<and> a + ?n \<notin> P
    then P else P \<union> {a..<a + ?n})"
  have fl: "list_of fl P'" using f(2) by (simp add: P'_def split: if_splits)
  have "\<not> pte_is_valid (PageTableEntry 0)" by (simp add: pte_is_valid_bit)
  then have "\<forall>pg \<in> P'. \<not> pte_is_valid (kvm_entry mem' ?l1 pg)"
    using cp(2) ok(5,7) le by (auto simp: P'_def split: if_splits)
  moreover have "kvm_tables mem ?l1 \<subseteq> frame_paddr ` taken_frames p m'" 
    unfolding g(5) using ok(6) assms(5) by (cases dl) (simp_all add: subset_image_diff)
  ultimately have "kvm_ok p l0 P' (k\<lparr>kvm_list := fl\<rparr>, mem', m')"
    using kvm_ok_change [OF assms(1) cp(1) fl g(3)] by blast
  moreover have "tear_down_range p (kva_of a) ?n dl (k, mem, m) = Return (k\<lparr>kvm_list := fl\<rparr>, mem', m')"
    using n run g(2) f(1) by (simp add: tear_down_range_def list_free_ignored_def)
  ultimately show ?thesis using cp g(4,5)
    by (intro exI [of _ fl] exI [of _ mem'] exI [of _ m'] exI [of _ P'] conjI) (simp_all add: P'_def)
qed

section \<open>Allocating\<close>

text \<open>What a page of the pool maps to, and the free pages after a failed allocation of which \<open>c\<close> pages had been mapped.\<close>

definition kvm_view :: "pte_memory \<Rightarrow> u64 \<Rightarrow> nat \<Rightarrow> PageTableEntry option" where
  "kvm_view mem l1 pg = (let e = kvm_entry mem l1 pg in if pte_is_valid e then Some e else None)"

definition rolled_back :: "nat set \<Rightarrow> nat \<Rightarrow> nat \<Rightarrow> nat \<Rightarrow> nat set" where
  "rolled_back P a n c =
     (let Q = P - {a..<a + n} in
      if c = 0 then P
      else if runs_of (pool_bytes Q) = KVM_MAX_FREE_REGIONS \<and> page_at a - 1 \<notin> pool_bytes Q \<and> a + c \<notin> Q then Q
      else Q \<union> {a..<a + c})"

lemma paddr_free_taken:
  assumes "frames_ok p m" and "f \<in> free_frames p m" and "g \<in> taken_frames p m"
  shows "frame_paddr f \<noteq> frame_paddr g"
proof
  assume "frame_paddr f = frame_paddr g"
  moreover have "containing_page (start_addr f) = f" "containing_page (start_addr g) = g"
    using assms frame_containing by (auto simp: free_frames_def taken_frames_def)
  ultimately have "f = g" by (metis frame_paddr_def PhysAddr.expand)
  with frame_pool.free_not_taken [OF assms(1)] assms show False by blast
qed

text \<open>The walk of an allocation: it maps as many pages as there are frames, up to the requested number.\<close>

lemma map_walk_frames:
  assumes "kvm_ok p l0 P (k, mem, m)" and "0 < n" and "{a..<a + n} \<subseteq> P" and "list_of fl (P - {a..<a + n})"
  obtains fs m' where "drive_map_walk (frame_backing p) (kvm_map_start (kva_of a) n (kvm_l1_paddr k)) 0 mem m =
      Return (if length fs = n then Ok () else Err OutOfPhysicalFrames, length fs, put_pages (kvm_l1_paddr k) a (map start_addr fs) mem, m')"
    and "kvm_ok p l0 (P - {a..<a + n}) (k\<lparr>kvm_list := fl\<rparr>, put_pages (kvm_l1_paddr k) a (map start_addr fs) mem, m')"
    and "distinct fs" and "set fs \<subseteq> free_frames p m" and "free_frames p m' = free_frames p m - set fs"
    and "taken_frames p m' = taken_frames p m \<union> set fs" and "length fs = min n (card (free_frames p m))" and "a + n \<le> 262144"
    and "frame_paddr ` set fs \<inter> kvm_tables mem (kvm_l1_paddr k) = {}"
proof -
  let ?l1 = "kvm_l1_paddr k"
  have ok: "frames_ok p m" "ram_addressable p" "kvm_tree mem ?l1" "P \<subseteq> {..<262144}"
    "kvm_tables mem ?l1 \<subseteq> frame_paddr ` taken_frames p m" "\<forall>pg \<in> P. \<not> pte_is_valid (kvm_entry mem ?l1 pg)"
    using assms(1) by (simp_all add: kvm_ok_def list_of_def Let_def)
  have "a + n - 1 \<in> P" using assms(2,3) by auto
  then have "a + n - 1 < 262144" using ok(4) by blast
  then have le: "a + n \<le> 262144" by simp
  have rd: "map_ready mem ?l1 a n 0 (kvm_map_start (kva_of a) n ?l1)" using assms(2) by (simp add: map_ready_def kvm_map_start_def)
  have inv: "\<forall>i. 0 \<le> i \<and> i < n \<longrightarrow> \<not> pte_is_valid (kvm_entry mem ?l1 (a + i))" 
  proof (intro allI impI)
    fix i assume "0 \<le> i \<and> i < n"
    then have "a + i \<in> P" using assms(3) by (intro subsetD [OF assms(3)]) simp
    then show "\<not> pte_is_valid (kvm_entry mem ?l1 (a + i))" by (rule bspec [OF ok(6)])
  qed
  obtain fs e m' where s: "supply_all (frame_backing p) 0 n m = Return (map start_addr fs, e, m')" "frames_ok p m'" "distinct fs"
    "set fs \<subseteq> free_frames p m" "free_frames p m' = free_frames p m - set fs" "taken_frames p m' = taken_frames p m \<union> set fs"
    "length fs \<le> n" "if length fs = n then e = None else e = Some OutOfPhysicalFrames \<and> free_frames p m' = {}"
    using supply_frames [OF ok(1), of 0 n] by auto
  let ?mem = "put_pages ?l1 a (map start_addr fs) mem"
  have le': "a + length (map start_addr fs) \<le> 262144" using le s(7) by simp
  note put = put_pages_spec [OF ok(3) le']
  have fin: "finite (free_frames p m)" by (rule free_frames_finite [OF ok(1)])
  have len: "length fs = min n (card (free_frames p m))"
  proof (cases "length fs = n")
    case True
    then show ?thesis using card_mono [OF fin s(4)] distinct_card [OF s(3)] by simp
  next
    case False
    then have "set fs = free_frames p m" using s(4,5,8) by auto
    then show ?thesis using distinct_card [OF s(3)] s(7) by simp
  qed
  have dj: "frame_paddr ` set fs \<inter> kvm_tables mem ?l1 = {}"
    using ok(5) s(4) paddr_free_taken [OF ok(1)] by blast
  have "drive_map_walk (frame_backing p) (kvm_map_start (kva_of a) n ?l1) 0 mem m =
      Return (if length fs = n then Ok () else Err OutOfPhysicalFrames, length fs, ?mem, m')"
    using drive_map_walk_run [OF ok(3) rd le0 le inv, of "frame_backing p" 0 m] s(1,8) by auto
  moreover have "kvm_ok p l0 (P - {a..<a + n}) (k\<lparr>kvm_list := fl\<rparr>, ?mem, m')"
  proof (rule kvm_ok_change [OF assms(1) put(1) assms(4) s(2)])
    show "kvm_tables mem ?l1 \<subseteq> frame_paddr ` taken_frames p m'" using ok(5) s(6) by auto
    show "\<forall>pg \<in> P - {a..<a + n}. \<not> pte_is_valid (kvm_entry ?mem ?l1 pg)"
      using put(2) ok(4,6) s(7) by (auto simp: subset_iff)
  qed
  ultimately show thesis using s(3-6) len le dj by (rule that)
qed

text \<open>An allocation that finds addresses and frames, one that finds no addresses, and one that runs out of frames.\<close>

lemma alloc_kernel_pages_ok:
  assumes "kvm_ok p l0 P (k, mem, m)" and "0 < n" and "\<exists>a. {a..<a + n} \<subseteq> P" and "n \<le> card (free_frames p m)"
  obtains a fs k' mem' m' where "alloc_kernel_pages p n (k, mem, m) = Return (Ok \<lparr>owned_kva = kva_of a, owned_pages = n\<rparr>, k', mem', m')"
    and "{a..<a + n} \<subseteq> P" and "\<forall>b. {b..<b + n} \<subseteq> P \<longrightarrow> a \<le> b" and "kvm_ok p l0 (P - {a..<a + n}) (k', mem', m')"
    and "kvm_l1_paddr k' = kvm_l1_paddr k" and "pool_change (kvm_l1_paddr k) mem mem'"
    and "length fs = n" and "distinct fs" and "set fs \<subseteq> free_frames p m"
    and "free_frames p m' = free_frames p m - set fs" and "taken_frames p m' = taken_frames p m \<union> set fs"
    and "mapped_at mem' (kvm_l1_paddr k) a fs"
    and "\<forall>pg < 262144. pg \<notin> {a..<a + n} \<longrightarrow> kvm_entry mem' (kvm_l1_paddr k) pg = kvm_entry mem (kvm_l1_paddr k) pg"
    and "frame_paddr ` set fs \<inter> kvm_tables mem (kvm_l1_paddr k) = {}"
proof -
  let ?l1 = "kvm_l1_paddr k"
  have ok: "kvm_initialized k" "kvm_tree mem ?l1" "list_of (kvm_list k) P"
    using assms(1) by (simp_all add: kvm_ok_def Let_def)
  obtain a fl where t: "try_alloc n (kvm_list k) = Return (Ok (kva_of a), fl)" "list_of fl (P - {a..<a + n})" "{a..<a + n} \<subseteq> P"
    "\<forall>b. {b..<b + n} \<subseteq> P \<longrightarrow> a \<le> b"
    using try_alloc_pages [OF ok(3) assms(2)] assms(3) by auto
  obtain fs m' where w: "drive_map_walk (frame_backing p) (kvm_map_start (kva_of a) n ?l1) 0 mem m =
      Return (if length fs = n then Ok () else Err OutOfPhysicalFrames, length fs, put_pages ?l1 a (map start_addr fs) mem, m')"
    "kvm_ok p l0 (P - {a..<a + n}) (k\<lparr>kvm_list := fl\<rparr>, put_pages ?l1 a (map start_addr fs) mem, m')"
    "distinct fs" "set fs \<subseteq> free_frames p m" "free_frames p m' = free_frames p m - set fs"
    "taken_frames p m' = taken_frames p m \<union> set fs" "length fs = min n (card (free_frames p m))" "a + n \<le> 262144"
    "frame_paddr ` set fs \<inter> kvm_tables mem ?l1 = {}"
    by (rule map_walk_frames [OF assms(1,2) t(3,2)])
  have len: "length fs = n" using w(7) assms(4) by simp
  have le: "a + length (map start_addr fs) \<le> 262144" using w(8) len by simp
  note put = put_pages_spec [OF ok(2) le]
  show thesis
  proof (rule that [of a "k\<lparr>kvm_list := fl\<rparr>" "put_pages ?l1 a (map start_addr fs) mem" m' fs])
    show "alloc_kernel_pages p n (k, mem, m) =
      Return (Ok \<lparr>owned_kva = kva_of a, owned_pages = n\<rparr>, k\<lparr>kvm_list := fl\<rparr>, put_pages ?l1 a (map start_addr fs) mem, m')"
      using ok(1) assms(2) t(1) w(1) len by (simp add: alloc_kernel_pages_def map_range_def)
    show "mapped_at (put_pages ?l1 a (map start_addr fs) mem) ?l1 a fs" using put(2) w(8) len by (simp add: mapped_at_def)
    show "\<forall>pg < 262144. pg \<notin> {a..<a + n} \<longrightarrow> kvm_entry (put_pages ?l1 a (map start_addr fs) mem) ?l1 pg = kvm_entry mem ?l1 pg"
      using put(2) len by simp
  qed (simp_all add: t(3,4) len w(2-6,9) put(1))
qed

lemma alloc_kernel_pages_no_addresses:
  assumes "kvm_ok p l0 P (k, mem, m)" and "\<nexists>a. {a..<a + n} \<subseteq> P"
  shows "alloc_kernel_pages p n (k, mem, m) = Return (Err KvmOutOfVirtualMemory, k, mem, m)"
proof -
  have ok: "kvm_initialized k" "list_of (kvm_list k) P" using assms(1) by (simp_all add: kvm_ok_def Let_def)
  have "0 < n" using assms(2) by (cases n) auto
  with try_alloc_pages [OF ok(2), of n] assms(2) have "try_alloc n (kvm_list k) = Return (Err OutOfVirtualMemory, kvm_list k)" by simp
  with ok(1) \<open>0 < n\<close> show ?thesis by (simp add: alloc_kernel_pages_def map_range_def)
qed

lemma view_cleared:
  assumes "\<not> pte_is_valid (kvm_entry mem l1 pg)" and "kvm_entry mem' l1 pg = PageTableEntry 0"
  shows "kvm_view mem' l1 pg = kvm_view mem l1 pg"
  using assms by (simp add: kvm_view_def pte_is_valid_bit)

text \<open>The state a failed allocation leaves: frames, translations and other entries as before.\<close>

definition alloc_undone :: "Platform \<Rightarrow> u64 \<Rightarrow> nat set \<Rightarrow> kvm_state \<Rightarrow> nat set \<Rightarrow> kvm_state \<Rightarrow> bool" where
  "alloc_undone p l0 P st P' st' \<longleftrightarrow> (let (k, mem, m) = st; (k', mem', m') = st'; l1 = kvm_l1_paddr k in
     kvm_ok p l0 P' st' \<and> kvm_l1_paddr k' = l1 \<and> pool_change l1 mem mem' \<and>
     free_frames p m' = free_frames p m \<and> taken_frames p m' = taken_frames p m \<and>
     (\<forall>pg < 262144. kvm_view mem' l1 pg = kvm_view mem l1 pg) \<and>
     (\<forall>pg < 262144. pg \<notin> P \<longrightarrow> kvm_entry mem' l1 pg = kvm_entry mem l1 pg))"

lemma kvm_roll_back_some:
  assumes "kvm_ok p l0 P (k, mem, m)" and "{a..<a + n} \<subseteq> P" and "a + n \<le> 262144"
    and "kvm_ok p l0 (P - {a..<a + n}) (k\<lparr>kvm_list := fl\<rparr>, put_pages (kvm_l1_paddr k) a (map start_addr fs) mem, m1)"
    and "distinct fs" and "set fs \<subseteq> free_frames p m" and "free_frames p m1 = free_frames p m - set fs"
    and "taken_frames p m1 = taken_frames p m \<union> set fs" and "length fs < n" and "fs \<noteq> []"
    and "frame_paddr ` set fs \<inter> kvm_tables mem (kvm_l1_paddr k) = {}"
  shows "\<exists>st'. kvm_roll_back p (kva_of a) n (length fs) True (k\<lparr>kvm_list := fl\<rparr>, put_pages (kvm_l1_paddr k) a (map start_addr fs) mem, m1) = Return st' \<and>
    alloc_undone p l0 P (k, mem, m) (rolled_back P a n (length fs)) st'"
proof -
  let ?l1 = "kvm_l1_paddr k" and ?k1 = "k\<lparr>kvm_list := fl\<rparr>" and ?Q = "P - {a..<a + n}"
  let ?mem1 = "put_pages ?l1 a (map start_addr fs) mem"
  have ok: "kvm_tree mem ?l1" "frames_ok p m" "\<forall>pg \<in> P. \<not> pte_is_valid (kvm_entry mem ?l1 pg)"
    using assms(1) by (simp_all add: kvm_ok_def Let_def)
  have le: "a + length (map start_addr fs) \<le> 262144" using assms(3,9) by simp
  note put = put_pages_spec [OF ok(1) le]
  have ma: "mapped_at ?mem1 (kvm_l1_paddr ?k1) a fs" using put(2) le by (simp add: mapped_at_def)
  have tb: "kvm_tables ?mem1 ?l1 = kvm_tables mem ?l1" using put(1) by (simp add: pool_change_def)
  have dj: "{a..<a + length fs} \<inter> ?Q = {}" using assms(9) by auto
  have own: "True \<longrightarrow> distinct fs \<and> set fs \<subseteq> taken_frames p m1 \<and> frame_paddr ` set fs \<inter> kvm_tables ?mem1 (kvm_l1_paddr ?k1) = {}"
    using assms(5,8,11) tb by simp
  obtain fl' mem' m' P' where d: "tear_down_range p (kva_of a) (length fs) True (?k1, ?mem1, m1) = Return (?k1\<lparr>kvm_list := fl'\<rparr>, mem', m')"
    "kvm_ok p l0 P' (?k1\<lparr>kvm_list := fl'\<rparr>, mem', m')" "pool_change (kvm_l1_paddr ?k1) ?mem1 mem'"
    "\<forall>pg < 262144. kvm_entry mem' (kvm_l1_paddr ?k1) pg =
      (if a \<le> pg \<and> pg < a + length fs then PageTableEntry 0 else kvm_entry ?mem1 (kvm_l1_paddr ?k1) pg)"
    "if runs_of (pool_bytes ?Q) = KVM_MAX_FREE_REGIONS \<and> page_at a - 1 \<notin> pool_bytes ?Q \<and> a + length fs \<notin> ?Q
     then P' = ?Q else P' = ?Q \<union> {a..<a + length fs}"
    "free_frames p m' = free_frames p m1 \<union> (if True then set fs else {})"
    "taken_frames p m' = taken_frames p m1 - (if True then set fs else {})"
    using tear_down_spec [OF assms(4) ma assms(10) dj own] by (elim exE conjE) (rule that)
  have P': "P' = rolled_back P a n (length fs)" using d(5) assms(10) by (simp add: rolled_back_def Let_def split: if_splits)
  have en: "kvm_entry mem' ?l1 pg = (if a \<le> pg \<and> pg < a + length fs then PageTableEntry 0 else kvm_entry mem ?l1 pg)" if "pg < 262144" for pg
    using d(4) put(2) that by simp
  have "kvm_view mem' ?l1 pg = kvm_view mem ?l1 pg" if "pg < 262144" for pg
  proof (cases "a \<le> pg \<and> pg < a + length fs")
    case True
    then have "pg \<in> P" using assms(9) by (intro subsetD [OF assms(2)]) simp
    then show ?thesis using en [OF that] True ok(3) by (intro view_cleared) simp_all
  next
    case False
    then show ?thesis unfolding kvm_view_def en [OF that] by (simp only: if_False)
  qed
  moreover have "kvm_entry mem' ?l1 pg = kvm_entry mem ?l1 pg" if "pg < 262144" "pg \<notin> P" for pg
  proof -
    have "pg \<notin> {a..<a + n}" using assms(2) that(2) by blast
    then have "\<not> (a \<le> pg \<and> pg < a + length fs)" using assms(9) by auto
    then show ?thesis using en [OF that(1)] by (simp only: if_False)
  qed
  moreover have "pool_change ?l1 mem mem'" using pool_change_trans [OF put(1)] d(3) by simp
  moreover have "set fs \<inter> taken_frames p m = {}" using frame_pool.free_not_taken [OF ok(2)] assms(6) by blast
  then have "taken_frames p m' = taken_frames p m" "free_frames p m' = free_frames p m" using d(6,7) assms(6-8) by auto
  ultimately have "alloc_undone p l0 P (k, mem, m) (rolled_back P a n (length fs)) (?k1\<lparr>kvm_list := fl'\<rparr>, mem', m')"
    using d(2) by (simp add: alloc_undone_def P')
  with d(1) assms(10) show ?thesis by (auto simp: kvm_roll_back_def)
qed

lemma roll_back_none:
  assumes "kvm_ok p l0 P (k, mem, m)" and "0 < n" and "{a..<a + n} \<subseteq> P" and "\<forall>b. {b..<b + n} \<subseteq> P \<longrightarrow> a \<le> b"
    and "list_of fl (P - {a..<a + n})" and "frames_ok p m1" and "free_frames p m1 = free_frames p m" and "taken_frames p m1 = taken_frames p m"
  shows "\<exists>st'. kvm_roll_back p (kva_of a) n 0 True (k\<lparr>kvm_list := fl\<rparr>, mem, m1) = Return st' \<and>
    alloc_undone p l0 P (k, mem, m) (rolled_back P a n 0) st'"
proof -
  let ?l1 = "kvm_l1_paddr k"
  have ok: "kvm_tree mem ?l1" "list_of (kvm_list k) P" "kvm_tables mem ?l1 \<subseteq> frame_paddr ` taken_frames p m1"
    "\<forall>pg \<in> P. \<not> pte_is_valid (kvm_entry mem ?l1 pg)"
    using assms(1,8) by (simp_all add: kvm_ok_def Let_def)
  obtain fl' where f: "kvm_list_free (kva_of a) n fl = Return (Ok (), fl')" "list_of fl' P"
    using list_free_last [OF ok(2) assms(2-5)] by (elim exE conjE) (rule that)
  have pc: "pool_change ?l1 mem mem" by (rule pool_change_refl [OF ok(1)])
  have "kvm_ok p l0 P (k\<lparr>kvm_list := fl'\<rparr>, mem, m1)" by (rule kvm_ok_change [OF assms(1) pc f(2) assms(6) ok(3,4)])
  with f(1) pc assms(7,8) show ?thesis by (simp add: kvm_roll_back_def list_free_ignored_def rolled_back_def alloc_undone_def)
qed

lemma alloc_kernel_pages_no_frames:
  assumes "kvm_ok p l0 P (k, mem, m)" and "\<exists>a. {a..<a + n} \<subseteq> P" and "card (free_frames p m) < n"
  obtains a st' where "alloc_kernel_pages p n (k, mem, m) = Return (Err OutOfPhysicalFrames, st')"
    and "{a..<a + n} \<subseteq> P" and "\<forall>b. {b..<b + n} \<subseteq> P \<longrightarrow> a \<le> b"
    and "alloc_undone p l0 P (k, mem, m) (rolled_back P a n (card (free_frames p m))) st'"
proof -
  let ?l1 = "kvm_l1_paddr k" and ?c = "card (free_frames p m)"
  have n: "0 < n" using assms(3) by simp
  have ok: "kvm_initialized k" "list_of (kvm_list k) P" using assms(1) by (simp_all add: kvm_ok_def Let_def)
  obtain a fl where t: "try_alloc n (kvm_list k) = Return (Ok (kva_of a), fl)" "list_of fl (P - {a..<a + n})" "{a..<a + n} \<subseteq> P"
    "\<forall>b. {b..<b + n} \<subseteq> P \<longrightarrow> a \<le> b"
    using try_alloc_pages [OF ok(2) n] assms(2) by auto
  obtain fs m1 where w: "drive_map_walk (frame_backing p) (kvm_map_start (kva_of a) n ?l1) 0 mem m =
      Return (if length fs = n then Ok () else Err OutOfPhysicalFrames, length fs, put_pages ?l1 a (map start_addr fs) mem, m1)"
    "kvm_ok p l0 (P - {a..<a + n}) (k\<lparr>kvm_list := fl\<rparr>, put_pages ?l1 a (map start_addr fs) mem, m1)"
    "distinct fs" "set fs \<subseteq> free_frames p m" "free_frames p m1 = free_frames p m - set fs"
    "taken_frames p m1 = taken_frames p m \<union> set fs" "length fs = min n ?c" "a + n \<le> 262144"
    "frame_paddr ` set fs \<inter> kvm_tables mem ?l1 = {}"
    by (rule map_walk_frames [OF assms(1) n t(3,2)])
  let ?st = "(k\<lparr>kvm_list := fl\<rparr>, put_pages ?l1 a (map start_addr fs) mem, m1)"
  have len: "length fs = ?c" "length fs < n" using w(7) assms(3) by simp_all
  have fr: "frames_ok p m1" using w(2) by (simp add: kvm_ok_def Let_def)
  have "\<exists>st'. kvm_roll_back p (kva_of a) n (length fs) True ?st = Return st' \<and> alloc_undone p l0 P (k, mem, m) (rolled_back P a n (length fs)) st'"
  proof (cases "fs = []")
    case True
    with w(5,6) have "free_frames p m1 = free_frames p m" "taken_frames p m1 = taken_frames p m" by simp_all
    from roll_back_none [OF assms(1) n t(3,4,2) fr this] True show ?thesis by simp
  next
    case False
    show ?thesis by (rule kvm_roll_back_some [OF assms(1) t(3) w(8,2-6) len(2) False w(9)])
  qed
  then obtain st' where r: "kvm_roll_back p (kva_of a) n (length fs) True ?st = Return st'"
    "alloc_undone p l0 P (k, mem, m) (rolled_back P a n (length fs)) st'" by (elim exE conjE) (rule that)
  have "alloc_kernel_pages p n (k, mem, m) = Return (Err OutOfPhysicalFrames, st')"
    using ok(1) n t(1) w(1) len(2) r(1) by (simp add: alloc_kernel_pages_def map_range_def)
  from that [OF this t(3,4)] r(2) len(1) show thesis by simp
qed

end
