(* ===== verification/Kvm_Safety.thy ===== *)
theory Kvm_Safety
  imports Kvm
begin

text \<open>
  The kernel address-space allocator over a whole history: \<^verbatim>\<open>kvm_init\<close>, then any sequence of allocations, mappings,
  frees and changes made elsewhere in the kernel. The theory proves what \<^verbatim>\<open>kvm_init\<close> builds and that the
  live ranges never overlap, stay mapped to their frames and can always be given back.
\<close>

section \<open>A block of frames\<close>

lemma alloc_order_frames:
  assumes "frames_ok p m" and "k \<le> MAX_ORDER"
  shows "(\<exists>i m'. alloc_order p k m = Return (Some (frame_at p i), m') \<and> frames_ok p m' \<and> i + 2 ^ k \<le> ram_pages p \<and>
      frame_at p ` {i..<i + 2 ^ k} \<subseteq> free_frames p m \<and> free_frames p m' = free_frames p m - frame_at p ` {i..<i + 2 ^ k} \<and>
      taken_frames p m' = taken_frames p m \<union> frame_at p ` {i..<i + 2 ^ k}) \<or>
    alloc_order p k m = Return (None, m) \<and> (\<forall>i. i mod 2 ^ k = 0 \<longrightarrow> \<not> page_run i k \<subseteq> free_pages (frames m))"
proof -
  have b: "buddy_inv (frames m)" and pl: "platform_ok p" and t: "total_pages (frames m) = ram_pages p"
    using assms(1) by (simp_all add: frames_ok_def)
  show ?thesis
  proof (rule disjE [OF buddy_alloc_spec [OF b assms(2)]])
    assume "\<exists>idx b'. buddy_alloc k (frames m) = Return (Some idx, b') \<and> buddy_inv b' \<and> alloc_gives k (frames m) idx b'"
    then obtain i b' where a: "buddy_alloc k (frames m) = Return (Some i, b')" "buddy_inv b'" "alloc_gives k (frames m) i b'" by blast
    let ?m = "m\<lparr>frames := b'\<rparr>" and ?R = "{i..<i + 2 ^ k}"
    have g: "?R \<subseteq> free_pages (frames m)" "free_pages b' = free_pages (frames m) - ?R" "total_pages b' = ram_pages p"
      "\<forall>q < MAX_PAGES. page_allocated b' q \<longleftrightarrow> q \<in> ?R \<or> page_allocated (frames m) q"
      using a(3) t by (simp_all add: alloc_gives_def page_run_def)
    have fp: "free_pages (frames m) \<subseteq> {..<ram_pages p}" using frames_below [OF assms(1)] by auto
    have R: "?R \<subseteq> {..<ram_pages p}" using g(1) fp by blast
    have "(0::nat) < 2 ^ k" by simp
    then have "i + 2 ^ k - 1 \<in> ?R" unfolding atLeastLessThan_iff by linarith
    then have "i + 2 ^ k - 1 < ram_pages p" using R by blast
    then have le: "i + 2 ^ k \<le> ram_pages p" by simp
    then have lt: "i < ram_pages p" by (meson less_add_same_cancel1 less_le_trans zero_less_numeral zero_less_power)
    have inj: "inj_on (frame_at p) {..<ram_pages p}" using frame_at_eq_iff [OF pl] by (auto simp: inj_on_def)
    have "alloc_order p k m = Return (Some (frame_at p i), ?m)"
      by (simp add: alloc_order_def a(1) frame_at_index(1) [OF pl lt])
    moreover have "frames_ok p ?m" using pl a(2) g(3) by (simp add: frames_ok_def)
    moreover have "free_frames p ?m = free_frames p m - frame_at p ` ?R"
      using inj_on_image_set_diff [OF inj, of "free_pages (frames m)" ?R] fp R g(2) by (auto simp: free_frames_def)
    moreover have "q < MAX_PAGES" if "q < ram_pages p" for q using that pl by (simp add: platform_ok_def)
    then have "{q. q < ram_pages p \<and> page_allocated b' q} = {q. q < ram_pages p \<and> page_allocated (frames m) q} \<union> ?R"
      using g(4) R by auto
    then have "taken_frames p ?m = taken_frames p m \<union> frame_at p ` ?R" by (simp add: taken_frames_def image_Un)
    moreover have "frame_at p ` ?R \<subseteq> free_frames p m" using g(1) by (auto simp: free_frames_def)
    ultimately show ?thesis using le by blast
  qed (simp add: alloc_order_def)
qed

section \<open>The tables \<open>kvm_init\<close> builds\<close>

definition table_page :: "u64 \<Rightarrow> nat \<Rightarrow> u64" where
  "table_page base i = base + of_nat i * PAGE_SIZE"

lemma table_counts: "KVM_L2_TABLES_COUNT = 1" "KVM_L3_TABLES_COUNT = 512" "KVM_BOOTSTRAP_TABLE_PAGES = 514"
  by code_simp+

lemma bootstrap_order: "order_for_count 514 = Return 10"
  by (simp add: order_for_count_def order_loop.simps)

lemma table_page_nat:
  assumes "unat base mod 4096 = 0" and "unat base + 514 * 4096 \<le> 2 ^ 48" and "i < 514"
  shows "unat (table_page base i) = unat base + i * 4096" and "unat (table_page base i) mod 4096 = 0"
    and "unat (table_page base i) < 2 ^ 48"
proof -
  have lt: "i * 4096 < 514 * 4096" using assms(3) by simp
  then have "unat (of_nat i * PAGE_SIZE :: u64) = i * 4096"
    by (simp add: PAGE_SIZE_def unat_word_ariths unat_of_nat)
  then show u: "unat (table_page base i) = unat base + i * 4096"
    unfolding table_page_def using lt assms(2) by (subst unat_add_lem [THEN iffD1]) simp_all
  show "unat (table_page base i) mod 4096 = 0" using assms(1) unfolding u by (simp add: mod_add_eq [symmetric])
  show "unat (table_page base i) < 2 ^ 48" using lt assms(2) unfolding u by linarith
qed

lemma zero_tables_entry:
  assumes "\<forall>i \<in> set is. unat (table_page base i) mod 4096 = 0" and "unat t mod 4096 = 0" and "unat j < 512"
  shows "entry_at (zero_tables base is mem) (slot t j) = (if t \<in> table_page base ` set is then pte_empty else entry_at mem (slot t j))"
  using assms(1) by (induction "is" arbitrary: mem) (auto simp: entry_at_zero assms(2,3) table_page_def)

lemma stitch_l2_entry:
  assumes "\<forall>s \<in> set subs. s < 512" and "unat l2 mod 4096 = 0" and "unat t mod 4096 = 0" and "unat j < 512"
  shows "entry_at (stitch_l2 l2 base 0 subs mem) (slot t j) =
    (if t = l2 \<and> unat j \<in> set subs then new_table (PhysAddr (table_page base (unat j))) else entry_at mem (slot t j))"
  using assms(1)
proof (induction subs arbitrary: mem)
  case (Cons s subs)
  let ?mem = "mem(slot l2 (of_nat s) := pte_raw (new_table (PhysAddr (table_page base s))))"
  have s: "unat (of_nat s :: u64) = s" using Cons.prems by (simp add: unat_of_nat)
  then have eq: "j = of_nat s \<longleftrightarrow> unat j = s" by (simp add: word_unat_eq_iff)
  have ih: "entry_at (stitch_l2 l2 base 0 subs ?mem) (slot t j) =
    (if t = l2 \<and> unat j \<in> set subs then new_table (PhysAddr (table_page base (unat j))) else entry_at ?mem (slot t j))"
    by (rule Cons.IH) (use Cons.prems in simp)
  have "entry_at ?mem (slot t j) = (if t = l2 \<and> j = of_nat s then PageTableEntry (pte_raw (new_table (PhysAddr (table_page base s)))) else entry_at mem (slot t j))"
    using entry_at_write [OF assms(2,3) _ assms(4), of "of_nat s"] s Cons.prems by simp
  moreover have "stitch_l2 l2 base 0 (s # subs) mem = stitch_l2 l2 base 0 subs ?mem"
    using Cons.prems by (simp add: table_counts slot_def table_page_def)
  ultimately show ?case using ih eq by auto
qed simp

definition build_tables :: "u64 \<Rightarrow> pte_memory \<Rightarrow> pte_memory" where
  "build_tables base mem = stitch_l1 base (base + PAGE_SIZE) (base + of_nat (1 + KVM_L2_TABLES_COUNT) * PAGE_SIZE) [0..<KVM_L2_TABLES_COUNT]
     (zero_tables base [0..<KVM_BOOTSTRAP_TABLE_PAGES] mem)"

lemma build_tables_entry:
  assumes "unat base mod 4096 = 0" and "unat base + 514 * 4096 \<le> 2 ^ 48" and "unat t mod 4096 = 0" and "unat j < 512"
  shows "entry_at (build_tables base mem) (slot t j) =
    (if t = table_page base 1 then new_table (PhysAddr (table_page base (2 + unat j)))
     else if t = base \<and> j = 0 then new_table (PhysAddr (table_page base 1))
     else if t \<in> table_page base ` {..<514} then pte_empty else entry_at mem (slot t j))"
proof -
  let ?z = "zero_tables base [0..<514] mem"
  have upt: "[0..<1] = [0]" by simp
  have tp: "base + PAGE_SIZE = table_page base 1" "base + of_nat 0 * 8 = slot base 0" "base = table_page base 0"
    by (simp_all add: table_page_def slot_def)
  have sh: "table_page (base + of_nat (1 + 1) * PAGE_SIZE) i = table_page base (2 + i)" for i
    by (simp add: table_page_def algebra_simps)
  have al: "unat (table_page base 1) mod 4096 = 0" "\<forall>i \<in> set [0..<514]. unat (table_page base i) mod 4096 = 0"
    using table_page_nat(2) [OF assms(1,2)] by simp_all
  have "build_tables base mem = stitch_l2 (table_page base 1) (base + of_nat (1 + 1) * PAGE_SIZE) 0 [0..<512]
      (?z(slot base 0 := pte_raw (new_table (PhysAddr (table_page base 1)))))"
    unfolding build_tables_def table_counts upt by (simp add: tp(1,2) slot_def Let_def del: upt_Suc)
  then have "entry_at (build_tables base mem) (slot t j) =
      (if t = table_page base 1 then new_table (PhysAddr (table_page base (2 + unat j)))
       else entry_at (?z(slot base 0 := pte_raw (new_table (PhysAddr (table_page base 1))))) (slot t j))"
    using stitch_l2_entry [OF _ al(1) assms(3,4), of "[0..<512]" "base + of_nat (1 + 1) * PAGE_SIZE"] assms(4) by (simp only: sh) simp
  moreover have "entry_at (?z(slot base 0 := pte_raw (new_table (PhysAddr (table_page base 1))))) (slot t j) =
      (if t = base \<and> j = 0 then PageTableEntry (pte_raw (new_table (PhysAddr (table_page base 1)))) else entry_at ?z (slot t j))"
    by (rule entry_at_write [OF assms(1,3) _ assms(4)]) simp
  moreover have "entry_at ?z (slot t j) = (if t \<in> table_page base ` {..<514} then pte_empty else entry_at mem (slot t j))"
    using zero_tables_entry [OF al(2) assms(3,4)] by (simp add: atLeast0LessThan del: upt_Suc)
  ultimately show ?thesis by simp
qed

lemma table_page_inj:
  assumes "unat base mod 4096 = 0" and "unat base + 514 * 4096 \<le> 2 ^ 48" and "i < 514" and "j < 514"
  shows "table_page base i = table_page base j \<longleftrightarrow> i = j"
  using table_page_nat(1) [OF assms(1,2,3)] table_page_nat(1) [OF assms(1,2,4)] by (auto simp: word_unat_eq_iff)

text \<open>The tree the tables form once the root points at them.\<close>

lemma build_tables_tree:
  assumes "unat base mod 4096 = 0" and "unat base + 514 * 4096 \<le> 2 ^ 48" and "unat l0 mod 4096 = 0" and "l0 \<notin> table_page base ` {..<514}"
    and "mem' = (build_tables base mem)(slot l0 256 := pte_raw (new_table (PhysAddr base)))"
  shows "kvm_tree mem' base" and "kvm_tables mem' base = table_page base ` {..<514}" and "entry_at mem' (slot l0 256) = new_table (PhysAddr base)"
    and "\<forall>pg < 262144. \<not> pte_is_valid (kvm_entry mem' base pg)"
    and "\<forall>t j. unat t mod 4096 = 0 \<longrightarrow> t \<notin> table_page base ` {..<514} \<longrightarrow> t \<noteq> l0 \<longrightarrow> unat j < 512 \<longrightarrow> entry_at mem' (slot t j) = entry_at mem (slot t j)"
proof -
  note nat = table_page_nat [OF assms(1,2)] and inj = table_page_inj [OF assms(1,2)]
  have base: "base = table_page base 0" by (simp add: table_page_def)
  have en: "entry_at mem' (slot t j) = (if t = l0 \<and> j = 256 then new_table (PhysAddr base) else entry_at (build_tables base mem) (slot t j))"
    if "unat t mod 4096 = 0" "unat j < 512" for t j
    using entry_at_write [OF assms(3) that(1) _ that(2), of 256] by (simp add: assms(5))
  show "entry_at mem' (slot l0 256) = new_table (PhysAddr base)" using en [OF assms(3), of 256] by simp
  have tbl: "entry_at mem' (slot (table_page base i) j) = (if i = 1 then new_table (PhysAddr (table_page base (2 + unat j)))
      else if i = 0 \<and> j = 0 then new_table (PhysAddr (table_page base 1)) else pte_empty)" if "i < 514" "unat j < 512" for i j
  proof -
    have "table_page base i \<noteq> l0" using assms(4) that(1) by auto
    moreover have "table_page base i = base \<longleftrightarrow> i = 0" using inj [OF that(1), of 0] base by simp
    ultimately show ?thesis
      using en [OF nat(2) [OF that(1)] that(2)] build_tables_entry [OF assms(1,2) nat(2) [OF that(1)] that(2)] inj [OF that(1), of 1] that(1) by simp
  qed
  have "entry_at mem' (slot (table_page base 0) 0) = new_table (PhysAddr (table_page base 1))" using tbl [of 0 0] by simp
  then have e1: "entry_at mem' base = new_table (PhysAddr (table_page base 1))" using base by (simp add: slot_def)
  then have l2: "kvm_l2 mem' base = table_page base 1" "pte_is_table (entry_at mem' base)"
    using new_table_entry [OF nat(2,3), of 1] by (simp_all add: kvm_l2_def)
  have e2: "entry_at mem' (slot (kvm_l2 mem' base) i) = new_table (PhysAddr (table_page base (2 + unat i)))" if "unat i < 512" for i
    using tbl [of 1 i] that l2(1) by simp
  have l3: "kvm_l3 mem' base i = table_page base (2 + unat i)" "pte_is_table (entry_at mem' (slot (kvm_l2 mem' base) i))" if "unat i < 512" for i
    using e2 [OF that] new_table_entry [OF nat(2,3), of "2 + unat i"] that by (simp_all add: kvm_l3_def)
  have "kvm_l3 mem' base i \<notin> {base, kvm_l2 mem' base}" if "unat i < 512" for i
    using l3(1) [OF that] inj [of "2 + unat i" 0] inj [of "2 + unat i" 1] base l2(1) that by simp
  moreover have "inj_on (kvm_l3 mem' base) {i. unat i < 512}"
    by (rule inj_onI) (simp add: l3(1) inj, simp add: word_unat_eq_iff)
  moreover have "kvm_l2 mem' base \<noteq> base" using l2(1) inj [of 1 0] base by simp
  ultimately show "kvm_tree mem' base" using l2(2) l3(2) assms(1) by (simp add: kvm_tree_def)
  have "kvm_l3 mem' base ` {i. unat i < 512} = table_page base ` {2..<514}"
  proof (intro set_eqI iffI)
    fix x assume "x \<in> table_page base ` {2..<514}"
    then obtain i where i: "x = table_page base (2 + i)" "i < 512" by (auto simp: le_iff_add)
    then have u: "unat (of_nat i :: u64) = i" by (simp add: unat_of_nat)
    then have "x = kvm_l3 mem' base (of_nat i)" using i l3(1) [of "of_nat i"] by simp
    then show "x \<in> kvm_l3 mem' base ` {i. unat i < 512}" using u i(2) by (intro image_eqI [of _ _ "of_nat i"]) simp_all
  qed (auto simp: l3(1))
  moreover have "{..<514} = insert 0 (insert 1 {2..<514::nat})" by auto
  ultimately show "kvm_tables mem' base = table_page base ` {..<514}" using l2(1) base unfolding kvm_tables_def by simp
  show "\<forall>pg < 262144. \<not> pte_is_valid (kvm_entry mem' base pg)"
  proof (intro allI impI)
    fix pg :: nat assume pg: "pg < 262144"
    then have d: "pg div 512 < 512" by simp
    then have u: "unat (of_nat (pg div 512) :: u64) = pg div 512" "unat (of_nat (pg mod 512) :: u64) = pg mod 512" by (simp_all add: unat_of_nat)
    have "kvm_entry mem' base pg = pte_empty"
      using l3(1) [of "of_nat (pg div 512)"] tbl [of "2 + pg div 512" "of_nat (pg mod 512)"] d u by (simp add: kvm_entry_def pte_addr_def)
    then show "\<not> pte_is_valid (kvm_entry mem' base pg)" by (simp add: pte_empty_def pte_is_valid_bit)
  qed
  show "\<forall>t j. unat t mod 4096 = 0 \<longrightarrow> t \<notin> table_page base ` {..<514} \<longrightarrow> t \<noteq> l0 \<longrightarrow> unat j < 512 \<longrightarrow> entry_at mem' (slot t j) = entry_at mem (slot t j)"
    using en build_tables_entry [OF assms(1,2)] base by (auto simp: image_iff)
qed

lemma kvm_init_cases:
  assumes "frames_ok p m" and "ram_addressable p" and "unat l0 mod 4096 = 0" and "l0 \<notin> frame_paddr ` free_frames p m"
  shows "(\<exists>k mem' m'. kvm_init p l0 (kvm_allocator_new, mem, m) = Return (k, mem', m') \<and> kvm_ok p l0 {..<262144} (k, mem', m') \<and>
      free_frames p m' \<subseteq> free_frames p m \<and> taken_frames p m \<subseteq> taken_frames p m' \<and> card (free_frames p m) = card (free_frames p m') + 1024) \<or>
    kvm_init p l0 (kvm_allocator_new, mem, m) = Panic \<and> (\<forall>i. i mod 1024 = 0 \<longrightarrow> \<not> {i..<i + 1024} \<subseteq> free_pages (frames m))"
proof -
  have ac: "alloc_pages_contiguous p KVM_BOOTSTRAP_TABLE_PAGES m = alloc_order p 10 m"
    by (simp add: alloc_pages_contiguous_def table_counts(3) bootstrap_order)
  have o: "10 \<le> MAX_ORDER" by (simp add: MAX_ORDER_def)
  have pl: "platform_ok p" using assms(1) by (simp add: frames_ok_def)
  from alloc_order_frames [OF assms(1) o] show ?thesis
  proof (elim disjE exE conjE)
    fix i m' assume a: "alloc_order p 10 m = Return (Some (frame_at p i), m')" "frames_ok p m'" "i + 2 ^ 10 \<le> ram_pages p"
      "frame_at p ` {i..<i + 2 ^ 10} \<subseteq> free_frames p m" "free_frames p m' = free_frames p m - frame_at p ` {i..<i + 2 ^ 10}"
      "taken_frames p m' = taken_frames p m \<union> frame_at p ` {i..<i + 2 ^ 10}"
    let ?b = "frame_paddr (frame_at p i)"
    have pa: "unat (frame_paddr (frame_at p j)) = base_of p + j * 4096" if "j < ram_pages p" for j
      unfolding frame_paddr_def by (rule frame_at_index(3) [OF pl that])
    have i: "i < ram_pages p" using a(3) by simp
    have al: "unat ?b mod 4096 = 0" using frame_at_table [OF pl assms(2) i] by (simp add: table_frame_def)
    have "(i + 514) * 4096 \<le> ram_pages p * 4096" using a(3) by (intro mult_right_mono) simp_all
    then have hi: "unat ?b + 514 * 4096 \<le> 2 ^ 48" using pa [OF i] assms(2) by (simp add: ram_addressable_def algebra_simps)
    have tp: "table_page ?b j = frame_paddr (frame_at p (i + j))" if "j < 514" for j
      using table_page_nat(1) [OF al hi that] pa [OF i] pa [of "i + j"] a(3) that by (simp add: word_unat_eq_iff algebra_simps)
    have sub: "table_page ?b ` {..<514} \<subseteq> frame_paddr ` frame_at p ` {i..<i + 2 ^ 10}" using tp by force
    then have l0: "l0 \<notin> table_page ?b ` {..<514}" using assms(4) a(4) by blast
    let ?mem = "(build_tables ?b mem)(slot l0 256 := pte_raw (new_table (PhysAddr ?b)))"
    let ?k = "kvm_allocator_new\<lparr>kvm_l1_paddr := ?b, kvm_initialized := True\<rparr>"
    note tree = build_tables_tree [OF al hi assms(3) l0 refl, of mem]
    have "kvm_init p l0 (kvm_allocator_new, mem, m) = Return (?k, ?mem, m')"
      by (simp add: kvm_init_def ac a(1) build_tables_def Let_def frame_paddr_def kvm_allocator_new_def write_entry_def KVM_L0_INDEX_def slot_def)
    moreover have "kvm_ok p l0 {..<262144} (?k, ?mem, m')"
      using tree l0 a(2,6) sub assms(2,3) list_new_pages by (auto simp: kvm_ok_def Let_def kvm_allocator_new_def)
    moreover have "card (frame_at p ` {i..<i + 2 ^ 10}) = 1024"
      using frame_at_eq_iff [OF pl] a(3) by (subst card_image) (auto simp: inj_on_def)
    then have "card (free_frames p m) = card (free_frames p m') + 1024"
      using card_Diff_subset [OF _ a(4)] card_mono [OF free_frames_finite [OF assms(1)] a(4)] a(5) by simp
    ultimately show ?thesis using a(5,6) by blast
  next
    assume "alloc_order p 10 m = Return (None, m)" "\<forall>i. i mod 2 ^ 10 = 0 \<longrightarrow> \<not> page_run i 10 \<subseteq> free_pages (frames m)"
    then show ?thesis by (simp add: kvm_init_def ac kvm_allocator_new_def page_run_def)
  qed
qed

lemma map_existing_cases:
  assumes "kvm_ok p l0 P (k, mem, m)"
  shows "(\<exists>a k' mem'. map_existing p f (k, mem, m) = Return (Ok \<lparr>mapped_kva = kva_of a, mapped_pages = 1\<rparr>, k', mem', m) \<and> a \<in> P \<and>
      kvm_ok p l0 (P - {a}) (k', mem', m) \<and> kvm_l1_paddr k' = kvm_l1_paddr k \<and> pool_change (kvm_l1_paddr k) mem mem' \<and>
      mapped_at mem' (kvm_l1_paddr k) a [f] \<and>
      (\<forall>pg < 262144. pg \<noteq> a \<longrightarrow> kvm_entry mem' (kvm_l1_paddr k) pg = kvm_entry mem (kvm_l1_paddr k) pg)) \<or>
    map_existing p f (k, mem, m) = Return (Err KvmOutOfVirtualMemory, k, mem, m) \<and> P = {}"
proof -
  let ?l1 = "kvm_l1_paddr k"
  have ok: "kvm_initialized k" "kvm_tree mem ?l1" "list_of (kvm_list k) P" "P \<subseteq> {..<262144}" "frames_ok p m"
    "kvm_tables mem ?l1 \<subseteq> frame_paddr ` taken_frames p m" "\<forall>pg \<in> P. \<not> pte_is_valid (kvm_entry mem ?l1 pg)"
    using assms by (simp_all add: kvm_ok_def list_of_def Let_def)
  show ?thesis
  proof (cases "\<exists>a. {a..<a + 1} \<subseteq> P")
    case True
    then obtain a fl where t: "try_alloc 1 (kvm_list k) = Return (Ok (kva_of a), fl)" "list_of fl (P - {a..<a + 1})" "{a..<a + 1} \<subseteq> P"
      using try_alloc_pages [OF ok(3), of 1] by auto
    have aP: "a \<in> P" using t(3) by simp
    then have a: "a < 262144" using ok(4) by blast
    let ?mem = "put_pages ?l1 a [start_addr f] mem" and ?k = "k\<lparr>kvm_list := fl\<rparr>"
    have le: "a + length [start_addr f] \<le> 262144" "a + 1 \<le> 262144" using a by simp_all
    note put = put_pages_spec [OF ok(2) le(1)]
    have rd: "map_ready mem ?l1 a 1 0 (kvm_map_start (kva_of a) 1 ?l1)" by (simp add: map_ready_def kvm_map_start_def)
    have inv: "\<forall>i. 0 \<le> i \<and> i < 1 \<longrightarrow> \<not> pte_is_valid (kvm_entry mem ?l1 (a + i))" using ok(7) aP by simp
    have "drive_map_walk (\<lambda>i m. Return (Ok (start_addr f), m)) (kvm_map_start (kva_of a) 1 ?l1) 0 mem m = Return (Ok (), 1, ?mem, m)"
      using drive_map_walk_run [OF ok(2) rd le0 le(2) inv, of "\<lambda>i m. Return (Ok (start_addr f), m)" 0 m] by simp
    then have "map_existing p f (k, mem, m) = Return (Ok \<lparr>mapped_kva = kva_of a, mapped_pages = 1\<rparr>, ?k, ?mem, m)"
      using ok(1) t(1) by (simp add: map_existing_def map_range_def)
    moreover have "P - {a..<a + 1} = P - {a}" by simp
    then have "kvm_ok p l0 (P - {a}) (?k, ?mem, m)"
      using put(2) ok(4,7) t(2) by (intro kvm_ok_change [OF assms put(1) _ ok(5,6)]) (auto simp: subset_iff)
    ultimately show ?thesis using put aP a by (intro disjI1 exI [of _ a] exI [of _ ?k] exI [of _ ?mem]) (simp add: mapped_at_def)
  next
    case False
    then have "P = {}" by auto
    with try_alloc_pages [OF ok(3), of 1] ok(1) show ?thesis by (simp add: map_existing_def map_range_def)
  qed
qed

section \<open>Live ranges\<close>

text \<open>
  A range handed out and not yet given back, with the frames behind it: those the allocator owns, or the
  caller's one frame.
\<close>

datatype live_range = Owned OwnedKvmRange "PhysPage list" | Mapped MappedKvmRange PhysPage

fun range_kva :: "live_range \<Rightarrow> KernelVa" where
  "range_kva (Owned rng fs) = owned_kva rng"
| "range_kva (Mapped rng f) = mapped_kva rng"

fun range_len :: "live_range \<Rightarrow> nat" where
  "range_len (Owned rng fs) = owned_pages rng"
| "range_len (Mapped rng f) = mapped_pages rng"

fun range_frames :: "live_range \<Rightarrow> PhysPage list" where
  "range_frames (Owned rng fs) = fs"
| "range_frames (Mapped rng f) = [f]"

fun own_frames :: "live_range \<Rightarrow> PhysPage set" where
  "own_frames (Owned rng fs) = set fs"
| "own_frames (Mapped rng f) = {}"

definition first_page :: "KernelVa \<Rightarrow> nat" where
  "first_page kva = (unat (kva_u64 kva) - pool_lo) div 4096"

definition range_pages :: "live_range \<Rightarrow> nat set" where
  "range_pages r = {first_page (range_kva r)..<first_page (range_kva r) + range_len r}"

definition backing_of :: "kvm_state \<Rightarrow> OwnedKvmRange \<Rightarrow> PhysPage list" where
  "backing_of st rng = (case st of (k, mem, m) \<Rightarrow>
     map (\<lambda>i. containing_page (output_addr (kvm_entry mem (kvm_l1_paddr k) (first_page (owned_kva rng) + i)))) [0..<owned_pages rng])"

lemma first_page_of [simp]: "a \<le> 262144 \<Longrightarrow> first_page (kva_of a) = a"
  by (simp add: first_page_def kva_of_nat page_at_def)

definition range_ok :: "Platform \<Rightarrow> pte_memory \<Rightarrow> u64 \<Rightarrow> PhysMem \<Rightarrow> nat set \<Rightarrow> live_range \<Rightarrow> bool" where
  "range_ok p mem l1 m P r \<longleftrightarrow>
     (let a = first_page (range_kva r); fs = range_frames r in
      range_kva r = kva_of a \<and> range_len r = length fs \<and> fs \<noteq> [] \<and> mapped_at mem l1 a fs \<and> range_pages r \<inter> P = {} \<and>
      (\<forall>f \<in> set fs. table_frame f) \<and> own_frames r \<subseteq> taken_frames p m \<and> (own_frames r \<noteq> {} \<longrightarrow> distinct fs) \<and>
      frame_paddr ` own_frames r \<inter> kvm_tables mem l1 = {})"

definition apart :: "live_range set \<Rightarrow> bool" where
  "apart L \<longleftrightarrow> (\<forall>r \<in> L. \<forall>s \<in> L. r \<noteq> s \<longrightarrow> range_pages r \<inter> range_pages s = {} \<and> own_frames r \<inter> own_frames s = {})"

definition kvm_inv :: "Platform \<Rightarrow> u64 \<Rightarrow> kvm_state \<Rightarrow> live_range set \<Rightarrow> nat set \<Rightarrow> bool" where
  "kvm_inv p l0 st L P \<longleftrightarrow> (case st of (k, mem, m) \<Rightarrow>
     kvm_ok p l0 P st \<and> (\<forall>r \<in> L. range_ok p mem (kvm_l1_paddr k) m P r) \<and> apart L)"

text \<open>What the rest of the kernel may change: anything but the tables of the pool, their entry in the root, and the owned frames.\<close>

definition elsewhere :: "Platform \<Rightarrow> u64 \<Rightarrow> kvm_state \<Rightarrow> live_range set \<Rightarrow> pte_memory \<Rightarrow> PhysMem \<Rightarrow> bool" where
  "elsewhere p l0 st L mem' m' \<longleftrightarrow> (case st of (k, mem, m) \<Rightarrow>
     frames_ok p m' \<and> mem' (slot l0 256) = mem (slot l0 256) \<and>
     (\<forall>t \<in> kvm_tables mem (kvm_l1_paddr k). t \<in> frame_paddr ` taken_frames p m' \<and> (\<forall>j. unat j < 512 \<longrightarrow> mem' (slot t j) = mem (slot t j))) \<and>
     (\<forall>r \<in> L. own_frames r \<subseteq> taken_frames p m'))"

inductive kvm_run :: "Platform \<Rightarrow> u64 \<Rightarrow> kvm_state \<Rightarrow> live_range set \<Rightarrow> bool" for p l0 where
  Init: "frames_ok p m \<Longrightarrow> ram_addressable p \<Longrightarrow> unat l0 mod 4096 = 0 \<Longrightarrow> l0 \<notin> frame_paddr ` free_frames p m \<Longrightarrow>
    kvm_init p l0 (kvm_allocator_new, mem, m) = Return st \<Longrightarrow> kvm_run p l0 st {}"
| Alloc: "kvm_run p l0 st L \<Longrightarrow> alloc_kernel_pages p n st = Return (Ok rng, st') \<Longrightarrow>
    kvm_run p l0 st' (insert (Owned rng (backing_of st' rng)) L)"
| AllocFails: "kvm_run p l0 st L \<Longrightarrow> alloc_kernel_pages p n st = Return (Err e, st') \<Longrightarrow> kvm_run p l0 st' L"
| Map: "kvm_run p l0 (k, mem, m) L \<Longrightarrow> f \<in> taken_frames p m \<Longrightarrow> map_existing p f (k, mem, m) = Return (Ok rng, st') \<Longrightarrow>
    kvm_run p l0 st' (insert (Mapped rng f) L)"
| MapFails: "kvm_run p l0 st L \<Longrightarrow> map_existing p f st = Return (Err e, st') \<Longrightarrow> kvm_run p l0 st' L"
| Free: "kvm_run p l0 st L \<Longrightarrow> Owned rng fs \<in> L \<Longrightarrow> free_kernel_pages p rng st = Return st' \<Longrightarrow> kvm_run p l0 st' (L - {Owned rng fs})"
| Unmap: "kvm_run p l0 st L \<Longrightarrow> Mapped rng f \<in> L \<Longrightarrow> unmap_existing p rng st = Return st' \<Longrightarrow> kvm_run p l0 st' (L - {Mapped rng f})"
| Elsewhere: "kvm_run p l0 (k, mem, m) L \<Longrightarrow> elsewhere p l0 (k, mem, m) L mem' m' \<Longrightarrow> kvm_run p l0 (k, mem', m') L"

lemma range_bound: "range_ok p mem l1 m P r \<Longrightarrow> pg \<in> range_pages r \<Longrightarrow> pg < 262144"
  by (auto simp: range_ok_def Let_def mapped_at_def range_pages_def)

text \<open>A step that leaves the entries, the tables and the owned frames of the ranges alone keeps them.\<close>

lemma range_keep:
  assumes "range_ok p mem l1 m P r" and "\<And>pg. pg \<in> range_pages r \<Longrightarrow> kvm_entry mem' l1 pg = kvm_entry mem l1 pg"
    and "range_pages r \<inter> P' = {}" and "own_frames r \<subseteq> taken_frames p m'" and "kvm_tables mem' l1 = kvm_tables mem l1"
  shows "range_ok p mem' l1 m' P' r"
proof -
  have "mapped_at mem' l1 (first_page (range_kva r)) (range_frames r)"
    using assms(1,2) by (auto simp: range_ok_def Let_def mapped_at_def range_pages_def)
  with assms(1,3-5) show ?thesis by (simp add: range_ok_def Let_def)
qed

lemma apart_insert:
  assumes "apart L" and "\<And>s. s \<in> L \<Longrightarrow> range_pages r \<inter> range_pages s = {} \<and> own_frames r \<inter> own_frames s = {}"
  shows "apart (insert r L)"
  using assms(1) assms(2) [unfolded Int_commute [of "range_pages r"] Int_commute [of "own_frames r"]] assms(2)
  unfolding apart_def by blast

lemma apart_subset: "apart L \<Longrightarrow> M \<subseteq> L \<Longrightarrow> apart M"
  by (auto simp: apart_def)

lemma inv_alloc:
  assumes "kvm_inv p l0 (k, mem, m) L P" and "kvm_ok p l0 (P - {a..<a + n}) (k', mem', m')" and "kvm_l1_paddr k' = kvm_l1_paddr k"
    and "pool_change (kvm_l1_paddr k) mem mem'" and "{a..<a + n} \<subseteq> P"
    and "\<forall>pg < 262144. pg \<notin> {a..<a + n} \<longrightarrow> kvm_entry mem' (kvm_l1_paddr k) pg = kvm_entry mem (kvm_l1_paddr k) pg"
    and "taken_frames p m \<subseteq> taken_frames p m'"
    and "range_ok p mem' (kvm_l1_paddr k) m' (P - {a..<a + n}) r" and "range_pages r = {a..<a + n}" and "own_frames r \<inter> taken_frames p m = {}"
  shows "kvm_inv p l0 (k', mem', m') (insert r L) (P - {a..<a + n})"
proof -
  let ?l1 = "kvm_l1_paddr k"
  have rs: "range_ok p mem ?l1 m P s" if "s \<in> L" for s using assms(1) that by (simp add: kvm_inv_def)
  have dj: "range_pages s \<inter> P = {}" "own_frames s \<subseteq> taken_frames p m" if "s \<in> L" for s
    using rs [OF that] by (simp_all add: range_ok_def Let_def)
  have "range_ok p mem' ?l1 m' (P - {a..<a + n}) s" if "s \<in> L" for s
  proof (rule range_keep [OF rs [OF that]])
    show "kvm_entry mem' ?l1 pg = kvm_entry mem ?l1 pg" if "pg \<in> range_pages s" for pg
      using assms(5,6) dj(1) [OF \<open>s \<in> L\<close>] range_bound [OF rs [OF \<open>s \<in> L\<close>] that] that by blast
    show "kvm_tables mem' ?l1 = kvm_tables mem ?l1" using assms(4) by (simp add: pool_change_def)
  qed (use dj [OF that] assms(7) in blast)+
  moreover have "apart (insert r L)"
  proof (rule apart_insert)
    show "apart L" using assms(1) by (simp add: kvm_inv_def)
    show "range_pages r \<inter> range_pages s = {} \<and> own_frames r \<inter> own_frames s = {}" if "s \<in> L" for s
      using dj [OF that] assms(5,9,10) by blast
  qed
  ultimately show ?thesis using assms(2,3,8) by (simp add: kvm_inv_def)
qed

lemma inv_undone:
  assumes "kvm_inv p l0 st L P" and "alloc_undone p l0 P st P' st'" and "P' \<subseteq> P"
  shows "kvm_inv p l0 st' L P'"
proof -
  obtain k mem m k' mem' m' where st: "st = (k, mem, m)" "st' = (k', mem', m')" by (cases st, cases st')
  let ?l1 = "kvm_l1_paddr k"
  have u: "kvm_ok p l0 P' st'" "kvm_l1_paddr k' = ?l1" "pool_change ?l1 mem mem'" "taken_frames p m' = taken_frames p m"
    "\<forall>pg < 262144. pg \<notin> P \<longrightarrow> kvm_entry mem' ?l1 pg = kvm_entry mem ?l1 pg"
    using assms(2) by (simp_all add: alloc_undone_def st Let_def)
  have rs: "range_ok p mem ?l1 m P s" if "s \<in> L" for s using assms(1) that by (simp add: kvm_inv_def st)
  have "range_ok p mem' ?l1 m' P' s" if "s \<in> L" for s
  proof (rule range_keep [OF rs [OF that]])
    have dj: "range_pages s \<inter> P = {}" "own_frames s \<subseteq> taken_frames p m" using rs [OF that] by (simp_all add: range_ok_def Let_def)
    show "kvm_entry mem' ?l1 pg = kvm_entry mem ?l1 pg" if "pg \<in> range_pages s" for pg
      using u(5) dj(1) range_bound [OF rs [OF \<open>s \<in> L\<close>] that] that by blast
    show "range_pages s \<inter> P' = {}" using dj(1) assms(3) by blast
    show "own_frames s \<subseteq> taken_frames p m'" using dj(2) u(4) by simp
    show "kvm_tables mem' ?l1 = kvm_tables mem ?l1" using u(3) by (simp add: pool_change_def)
  qed
  then show ?thesis using assms(1) u(1,2) by (simp add: kvm_inv_def st)
qed

lemma rolled_back_subset: "{a..<a + n} \<subseteq> P \<Longrightarrow> c < n \<Longrightarrow> rolled_back P a n c \<subseteq> P"
  by (auto simp: rolled_back_def Let_def subset_iff)

definition given_back :: "nat set \<Rightarrow> live_range \<Rightarrow> nat set" where
  "given_back P r =
     (let a = first_page (range_kva r) in
      if runs_of (pool_bytes P) = KVM_MAX_FREE_REGIONS \<and> page_at a - 1 \<notin> pool_bytes P \<and> a + range_len r \<notin> P then P
      else P \<union> range_pages r)"

lemma range_tear_down:
  assumes "kvm_inv p l0 (k, mem, m) L P" and "r \<in> L" and "dl \<longleftrightarrow> own_frames r \<noteq> {}"
  obtains k' mem' m' P' where "tear_down_range p (range_kva r) (range_len r) dl (k, mem, m) = Return (k', mem', m')"
    and "kvm_inv p l0 (k', mem', m') (L - {r}) P'" and "kvm_l1_paddr k' = kvm_l1_paddr k" and "P' = given_back P r"
    and "\<forall>pg < 262144. kvm_entry mem' (kvm_l1_paddr k) pg = (if pg \<in> range_pages r then PageTableEntry 0 else kvm_entry mem (kvm_l1_paddr k) pg)"
    and "free_frames p m' = free_frames p m \<union> own_frames r" and "taken_frames p m' = taken_frames p m - own_frames r"
proof -
  let ?l1 = "kvm_l1_paddr k" and ?a = "first_page (range_kva r)" and ?fs = "range_frames r"
  have ok: "kvm_ok p l0 P (k, mem, m)" and ap: "apart L" and rs: "\<And>s. s \<in> L \<Longrightarrow> range_ok p mem ?l1 m P s"
    using assms(1) by (simp_all add: kvm_inv_def)
  have r: "range_kva r = kva_of ?a" "range_len r = length ?fs" "?fs \<noteq> []" "mapped_at mem ?l1 ?a ?fs"
    "range_pages r \<inter> P = {}" "own_frames r \<subseteq> taken_frames p m" "own_frames r \<noteq> {} \<longrightarrow> distinct ?fs"
    "frame_paddr ` own_frames r \<inter> kvm_tables mem ?l1 = {}"
    using rs [OF assms(2)] by (simp_all add: range_ok_def Let_def)
  have rp: "range_pages r = {?a..<?a + length ?fs}" using r(2) by (simp add: range_pages_def)
  have own: "(if dl then set ?fs else {}) = own_frames r" using assms(3) by (cases r) auto
  have dl: "dl \<longrightarrow> distinct ?fs \<and> set ?fs \<subseteq> taken_frames p m \<and> frame_paddr ` set ?fs \<inter> kvm_tables mem ?l1 = {}"
    using assms(3) r(6-8) own by (cases r) simp_all
  have dj: "{?a..<?a + length ?fs} \<inter> P = {}" using r(5) rp by simp
  obtain fl mem' m' P' where t: "tear_down_range p (kva_of ?a) (length ?fs) dl (k, mem, m) = Return (k\<lparr>kvm_list := fl\<rparr>, mem', m')"
    "kvm_ok p l0 P' (k\<lparr>kvm_list := fl\<rparr>, mem', m')" "pool_change ?l1 mem mem'"
    "\<forall>pg < 262144. kvm_entry mem' ?l1 pg = (if ?a \<le> pg \<and> pg < ?a + length ?fs then PageTableEntry 0 else kvm_entry mem ?l1 pg)"
    "if runs_of (pool_bytes P) = KVM_MAX_FREE_REGIONS \<and> page_at ?a - 1 \<notin> pool_bytes P \<and> ?a + length ?fs \<notin> P
     then P' = P else P' = P \<union> {?a..<?a + length ?fs}"
    "free_frames p m' = free_frames p m \<union> (if dl then set ?fs else {})" "taken_frames p m' = taken_frames p m - (if dl then set ?fs else {})"
    using tear_down_spec [OF ok r(4,3) dj dl] by (elim exE conjE) (rule that)
  have en: "\<forall>pg < 262144. kvm_entry mem' ?l1 pg = (if pg \<in> range_pages r then PageTableEntry 0 else kvm_entry mem ?l1 pg)"
    using t(4) by (simp add: rp)
  have P': "P' \<subseteq> P \<union> range_pages r" using t(5) rp by (simp split: if_splits)
  have "range_ok p mem' ?l1 m' P' s" if "s \<in> L - {r}" for s
  proof -
    have s: "s \<in> L" "range_pages r \<inter> range_pages s = {}" "own_frames r \<inter> own_frames s = {}" using ap assms(2) that by (auto simp: apart_def)
    have "range_pages s \<inter> P = {}" "own_frames s \<subseteq> taken_frames p m" using rs [OF s(1)] by (simp_all add: range_ok_def Let_def)
    moreover have "kvm_entry mem' ?l1 pg = kvm_entry mem ?l1 pg" if "pg \<in> range_pages s" for pg
    proof -
      have "pg \<notin> range_pages r" using s(2) that by blast
      then show ?thesis using en range_bound [OF rs [OF s(1)] that] by simp
    qed
    ultimately show ?thesis using t(3) t(7) own s(2,3) P'
      by (intro range_keep [OF rs [OF s(1)]]) (auto simp: pool_change_def)
  qed
  then have "kvm_inv p l0 (k\<lparr>kvm_list := fl\<rparr>, mem', m') (L - {r}) P'"
    using t(2) apart_subset [OF ap, of "L - {r}"] by (auto simp: kvm_inv_def)
  moreover have "tear_down_range p (range_kva r) (range_len r) dl (k, mem, m) = Return (k\<lparr>kvm_list := fl\<rparr>, mem', m')"
    unfolding r(2) using t(1) r(1) by simp
  moreover have "P' = given_back P r" using t(5) r(2) by (simp add: given_back_def Let_def rp split: if_splits)
  ultimately show thesis using that [of "k\<lparr>kvm_list := fl\<rparr>" mem' m' P'] en t(6,7) own by simp
qed

section \<open>Every history\<close>

lemma inv_init:
  assumes "frames_ok p m" and "ram_addressable p" and "unat l0 mod 4096 = 0" and "l0 \<notin> frame_paddr ` free_frames p m"
    and "kvm_init p l0 (kvm_allocator_new, mem, m) = Return st"
  shows "kvm_inv p l0 st {} {..<262144}"
  using kvm_init_cases [OF assms(1-4), of mem] assms(5) by (auto simp: kvm_inv_def apart_def)

lemma backing_found:
  assumes "mapped_at mem (kvm_l1_paddr k) a fs" and "\<forall>f \<in> set fs. table_frame f \<and> containing_page (start_addr f) = f"
  shows "backing_of (k, mem, m) \<lparr>owned_kva = kva_of a, owned_pages = length fs\<rparr> = fs"
proof (rule nth_equalityI)
  fix i assume "i < length (backing_of (k, mem, m) \<lparr>owned_kva = kva_of a, owned_pages = length fs\<rparr>)"
  then have i: "i < length fs" by (simp add: backing_of_def)
  then have "fs ! i \<in> set fs" by simp
  with assms(2) have "output_addr (build_kernel_page (start_addr (fs ! i))) = start_addr (fs ! i)" "containing_page (start_addr (fs ! i)) = fs ! i"
    using kernel_page_output by blast+
  with i assms(1) show "backing_of (k, mem, m) \<lparr>owned_kva = kva_of a, owned_pages = length fs\<rparr> ! i = fs ! i"
    by (simp add: backing_of_def mapped_at_def)
qed (simp add: backing_of_def)

lemma inv_alloc_kernel_pages:
  assumes "kvm_inv p l0 st L P" and "alloc_kernel_pages p n st = Return (Ok rng, st')"
  shows "\<exists>P'. kvm_inv p l0 st' (insert (Owned rng (backing_of st' rng)) L) P'"
proof -
  obtain k mem m where st: "st = (k, mem, m)" by (cases st)
  let ?l1 = "kvm_l1_paddr k"
  have ok: "kvm_ok p l0 P (k, mem, m)" using assms(1) by (simp add: kvm_inv_def st)
  then have i: "kvm_initialized k" "frames_ok p m" "ram_addressable p" "P \<subseteq> {..<262144}"
    by (simp_all add: kvm_ok_def list_of_def Let_def)
  have n: "0 < n" using assms(2) i(1) by (cases "n = 0") (simp_all add: alloc_kernel_pages_def st)
  have ex: "\<exists>a. {a..<a + n} \<subseteq> P" using alloc_kernel_pages_no_addresses [OF ok, of n] assms(2) by (auto simp: st)
  have c: "n \<le> card (free_frames p m)"
  proof (rule ccontr)
    assume "\<not> n \<le> card (free_frames p m)"
    then obtain a st'' where "alloc_kernel_pages p n (k, mem, m) = Return (Err OutOfPhysicalFrames, st'')"
      using alloc_kernel_pages_no_frames [OF ok ex] by (metis not_le)
    with assms(2) show False by (simp add: st)
  qed
  obtain a fs k' mem' m' where a: "alloc_kernel_pages p n (k, mem, m) = Return (Ok \<lparr>owned_kva = kva_of a, owned_pages = n\<rparr>, k', mem', m')"
    "{a..<a + n} \<subseteq> P" "kvm_ok p l0 (P - {a..<a + n}) (k', mem', m')" "kvm_l1_paddr k' = ?l1" "pool_change ?l1 mem mem'"
    "length fs = n" "distinct fs" "set fs \<subseteq> free_frames p m" "taken_frames p m' = taken_frames p m \<union> set fs" "mapped_at mem' ?l1 a fs"
    "\<forall>pg < 262144. pg \<notin> {a..<a + n} \<longrightarrow> kvm_entry mem' ?l1 pg = kvm_entry mem ?l1 pg" "frame_paddr ` set fs \<inter> kvm_tables mem ?l1 = {}"
    by (rule alloc_kernel_pages_ok [OF ok n ex c])
  let ?rng = "\<lparr>owned_kva = kva_of a, owned_pages = n\<rparr>"
  have st': "st' = (k', mem', m')" "rng = ?rng" using a(1) assms(2) by (simp_all add: st)
  have le: "a + n \<le> 262144" using a(10,6) by (simp add: mapped_at_def)
  have tf: "\<forall>f \<in> set fs. table_frame f \<and> containing_page (start_addr f) = f"
    using a(8) free_frame_table [OF i(2,3)] frame_containing by (force simp: free_frames_def)
  have b: "backing_of st' rng = fs" using backing_found [of mem' k' a fs m'] a(4,6,10) tf by (simp add: st')
  have rp: "range_pages (Owned ?rng fs) = {a..<a + n}" using le by (simp add: range_pages_def)
  have "kvm_tables mem' ?l1 = kvm_tables mem ?l1" using a(5) by (simp add: pool_change_def)
  then have "range_ok p mem' ?l1 m' (P - {a..<a + n}) (Owned ?rng fs)"
    using a(6,7,9,10,12) tf n le rp by (auto simp: range_ok_def Let_def)
  moreover have "set fs \<inter> taken_frames p m = {}" using frame_pool.free_not_taken [OF i(2)] a(8) by blast
  ultimately have "kvm_inv p l0 (k', mem', m') (insert (Owned ?rng fs) L) (P - {a..<a + n})"
    using a(9) by (intro inv_alloc [OF assms(1) [unfolded st] a(3,4,5,2,11)] rp) auto
  then show ?thesis using b unfolding st' by auto
qed

lemma inv_alloc_fails:
  assumes "kvm_inv p l0 st L P" and "alloc_kernel_pages p n st = Return (Err e, st')"
  shows "\<exists>P'. kvm_inv p l0 st' L P'"
proof -
  obtain k mem m where st: "st = (k, mem, m)" by (cases st)
  have ok: "kvm_ok p l0 P (k, mem, m)" using assms(1) by (simp add: kvm_inv_def st)
  then have i: "kvm_initialized k" by (simp add: kvm_ok_def Let_def)
  consider "n = 0" | "0 < n" "\<nexists>a. {a..<a + n} \<subseteq> P" | "0 < n" "\<exists>a. {a..<a + n} \<subseteq> P" "n \<le> card (free_frames p m)"
    | "\<exists>a. {a..<a + n} \<subseteq> P" "card (free_frames p m) < n" by fastforce
  then show ?thesis
  proof cases
    case 1
    then show ?thesis using assms i by (auto simp: alloc_kernel_pages_def st)
  next
    case 2
    then show ?thesis using assms alloc_kernel_pages_no_addresses [OF ok 2(2)] by (auto simp: st)
  next
    case 3
    then obtain rng st'' where "alloc_kernel_pages p n (k, mem, m) = Return (Ok rng, st'')" by (rule alloc_kernel_pages_ok [OF ok])
    then show ?thesis using assms(2) by (simp add: st)
  next
    case 4
    then obtain a st'' where a: "alloc_kernel_pages p n (k, mem, m) = Return (Err OutOfPhysicalFrames, st'')" "{a..<a + n} \<subseteq> P"
      "alloc_undone p l0 P (k, mem, m) (rolled_back P a n (card (free_frames p m))) st''" by (rule alloc_kernel_pages_no_frames [OF ok])
    have "st' = st''" using a(1) assms(2) by (simp add: st)
    then show ?thesis using inv_undone [OF assms(1) [unfolded st] a(3)] rolled_back_subset [OF a(2) 4(2)] by blast
  qed
qed

lemma inv_map_existing:
  assumes "kvm_inv p l0 (k, mem, m) L P" and "f \<in> taken_frames p m" and "map_existing p f (k, mem, m) = Return (Ok rng, st')"
  shows "\<exists>P'. kvm_inv p l0 st' (insert (Mapped rng f) L) P'"
proof -
  let ?l1 = "kvm_l1_paddr k"
  have ok: "kvm_ok p l0 P (k, mem, m)" using assms(1) by (simp add: kvm_inv_def)
  then have i: "frames_ok p m" "ram_addressable p" by (simp_all add: kvm_ok_def Let_def)
  from map_existing_cases [OF ok, of f] assms(3) obtain a k' mem' where
    a: "rng = \<lparr>mapped_kva = kva_of a, mapped_pages = 1\<rparr>" "st' = (k', mem', m)" "a \<in> P" "kvm_ok p l0 (P - {a}) (k', mem', m)" "kvm_l1_paddr k' = ?l1"
      "pool_change ?l1 mem mem'" "mapped_at mem' ?l1 a [f]" "\<forall>pg < 262144. pg \<noteq> a \<longrightarrow> kvm_entry mem' ?l1 pg = kvm_entry mem ?l1 pg" by auto
  have le: "a + 1 \<le> 262144" using a(7) by (simp add: mapped_at_def)
  have r1: "{a..<a + 1} = {a}" by auto
  have rp: "range_pages (Mapped rng f) = {a..<a + 1}" using le a(1) by (simp add: range_pages_def)
  have "range_ok p mem' ?l1 m (P - {a..<a + 1}) (Mapped rng f)"
    using taken_frame_table [OF i assms(2)] a(1,7) le rp by (auto simp: range_ok_def Let_def)
  then have "kvm_inv p l0 (k', mem', m) (insert (Mapped rng f) L) (P - {a..<a + 1})"
    using a(3,4,8) by (intro inv_alloc [OF assms(1) _ a(5,6) _ _ _ _ rp]) (auto simp: r1)
  then show ?thesis using a(2) by blast
qed

lemma inv_elsewhere:
  assumes "kvm_inv p l0 (k, mem, m) L P" and "elsewhere p l0 (k, mem, m) L mem' m'"
  shows "kvm_inv p l0 (k, mem', m') L P"
proof -
  let ?l1 = "kvm_l1_paddr k"
  have ok: "kvm_ok p l0 P (k, mem, m)" using assms(1) by (simp add: kvm_inv_def)
  then have P: "P \<subseteq> {..<262144}" by (simp add: kvm_ok_def list_of_def Let_def)
  have e: "frames_ok p m'" "mem' (slot l0 256) = mem (slot l0 256)" "kvm_tables mem ?l1 \<subseteq> frame_paddr ` taken_frames p m'"
    "\<And>t j. t \<in> kvm_tables mem ?l1 \<Longrightarrow> unat j < 512 \<Longrightarrow> mem' (slot t j) = mem (slot t j)" "\<And>r. r \<in> L \<Longrightarrow> own_frames r \<subseteq> taken_frames p m'"
    using assms(2) by (auto simp: elsewhere_def)
  have "mem' (slot ?l1 0) = mem (slot ?l1 0)" by (rule e(4)) (simp_all add: kvm_tables_def)
  then have l1: "mem' ?l1 = mem ?l1" by (simp add: slot_def)
  have l2: "mem' (slot (kvm_l2 mem ?l1) i) = mem (slot (kvm_l2 mem ?l1) i)" if "unat i < 512" for i
    by (rule e(4)) (simp_all add: kvm_tables_def that)
  have ag: "kvm_tree mem' ?l1 \<longleftrightarrow> kvm_tree mem ?l1" "kvm_tables mem' ?l1 = kvm_tables mem ?l1"
    by (rule kvm_tables_agree(3) [OF l2 l1], assumption) (rule kvm_tables_agree(4) [OF l2 l1])
  have en: "kvm_entry mem' ?l1 pg = kvm_entry mem ?l1 pg" if "pg < 262144" for pg
  proof -
    have "kvm_l3 mem ?l1 (of_nat (pg div 512)) \<in> kvm_tables mem ?l1" using pg_indices [OF that] by (simp add: kvm_tables_def)
    then have "mem' (pte_addr mem ?l1 pg) = mem (pte_addr mem ?l1 pg)"
      unfolding pte_addr_def using pg_indices [OF that] by (intro e(4)) simp_all
    moreover have "pte_addr mem' ?l1 pg = pte_addr mem ?l1 pg" by (rule kvm_tables_agree(5) [OF l2 l1]) (assumption, rule that)
    ultimately show ?thesis by (simp add: kvm_entry_def entry_at_def)
  qed
  have "kvm_ok p l0 P (k, mem', m')"
    using ok e(1-3) ag en P by (auto simp: kvm_ok_def Let_def entry_at_def subset_iff)
  moreover have "range_ok p mem' ?l1 m' P r" if "r \<in> L" for r
  proof -
    have r: "range_ok p mem ?l1 m P r" using assms(1) that by (simp add: kvm_inv_def)
    show ?thesis using range_bound [OF r] en e(5) [OF that] ag(2) r
      by (intro range_keep [OF r]) (simp_all add: range_ok_def Let_def)
  qed
  ultimately show ?thesis using assms(1) by (simp add: kvm_inv_def)
qed

lemma kvm_run_inv: "kvm_run p l0 st L \<Longrightarrow> \<exists>P. kvm_inv p l0 st L P"
proof (induction rule: kvm_run.induct)
  case (Init m mem st)
  from inv_init [OF this] show ?case by blast
next
  case (Alloc st L n rng st')
  then show ?case using inv_alloc_kernel_pages by blast
next
  case (AllocFails st L n e st')
  then show ?case using inv_alloc_fails by blast
next
  case (Map k mem m L f rng st')
  then show ?case using inv_map_existing by blast
next
  case (MapFails st L f e st')
  obtain k mem m where st: "st = (k, mem, m)" by (cases st)
  from MapFails.IH obtain P where P: "kvm_inv p l0 (k, mem, m) L P" by (auto simp: st)
  then have "kvm_ok p l0 P (k, mem, m)" by (simp add: kvm_inv_def)
  from map_existing_cases [OF this, of f] MapFails.hyps(2) P show ?case by (auto simp: st)
next
  case (Free st L rng fs st')
  obtain k mem m where st: "st = (k, mem, m)" by (cases st)
  from Free.IH obtain P where P: "kvm_inv p l0 (k, mem, m) L P" by (auto simp: st)
  then have "fs \<noteq> []" "kvm_initialized k" using Free.hyps(2) by (auto simp: kvm_inv_def range_ok_def kvm_ok_def Let_def)
  then have "True \<longleftrightarrow> own_frames (Owned rng fs) \<noteq> {}" by simp
  from range_tear_down [OF P Free.hyps(2) this] Free.hyps(3) \<open>kvm_initialized k\<close> show ?case by (auto simp: st free_kernel_pages_def)
next
  case (Unmap st L rng f st')
  obtain k mem m where st: "st = (k, mem, m)" by (cases st)
  from Unmap.IH obtain P where P: "kvm_inv p l0 (k, mem, m) L P" by (auto simp: st)
  then have "kvm_initialized k" by (auto simp: kvm_inv_def kvm_ok_def Let_def)
  have "False \<longleftrightarrow> own_frames (Mapped rng f) \<noteq> {}" by simp
  from range_tear_down [OF P Unmap.hyps(2) this] Unmap.hyps(3) \<open>kvm_initialized k\<close> show ?case by (auto simp: st unmap_existing_def)
next
  case (Elsewhere k mem m L mem' m')
  then show ?case using inv_elsewhere by blast
qed

section \<open>What the tables translate\<close>

lemma kvm_translate:
  assumes "kvm_ok p l0 P (k, mem, m)" and "pg < 262144"
  shows "walk_translate mem l0 (kva_u64 (kva_of pg)) =
    (let e = kvm_entry mem (kvm_l1_paddr k) pg in if pte_is_valid e then Some (next_of e) else None)"
proof -
  let ?l1 = "kvm_l1_paddr k" and ?va = "kva_u64 (kva_of pg)"
  have ok: "frames_ok p m" "ram_addressable p" "kvm_tree mem ?l1" "entry_at mem (slot l0 256) = new_table (PhysAddr ?l1)"
    "kvm_tables mem ?l1 \<subseteq> frame_paddr ` taken_frames p m"
    using assms(1) by (simp_all add: kvm_ok_def Let_def)
  have "?l1 \<in> frame_paddr ` taken_frames p m" using ok(5) by (auto simp: kvm_tables_def)
  then have "unat ?l1 mod 4096 = 0" "unat ?l1 < 2 ^ 48" using taken_frame_table [OF ok(1,2)] by (auto simp: table_frame_def)
  note t1 = new_table_entry [OF this]
  note ix = pool_page_indices [OF assms(2)]
  have ix': "drop_bit 39 ?va AND 0x1FF = 256" "drop_bit 30 ?va AND 0x1FF = 0" "drop_bit 21 ?va AND 0x1FF = of_nat (pg div 512)"
    "drop_bit 12 ?va AND 0x1FF = of_nat (pg mod 512)" using ix(2-5) by (simp_all add: index_of_def)
  have lt: "unat (of_nat (pg div 512) :: u64) < 512" using pg_indices [OF assms(2)] by simp
  have tb: "pte_is_table (entry_at mem ?l1)" "pte_is_table (entry_at mem (slot (kvm_l2 mem ?l1) (of_nat (pg div 512))))"
    using ok(3) lt by (simp_all add: kvm_tree_def)
  have nb: "\<not> pte_is_block e" if "pte_is_table e" for e using that by (simp add: pte_kind_bits)
  have "unat ?va mod 4096 = 0" using kva_of_nat [of pg] assms(2) by (simp add: page_at_def pool_lo_def mod_add_eq [symmetric])
  then have off: "?va AND 0xFFF = 0"
    by (simp add: unat_eq_0 [symmetric] unat_mod_page flip: take_bit_eq_mask) (simp add: take_bit_eq_mask mask_eq_exp_minus_1)
  have e0: "entry_at mem (l0 + 256 * 8) = new_table (PhysAddr ?l1)" using ok(4) by (simp add: slot_def)
  have "walk_leaf mem l0 ?va = leaf_3 mem ?va (pte_addr mem ?l1 pg)"
    unfolding walk_leaf_def ix' e0 Let_def if_P [OF t1(1)] t1(2) leaf_1_def leaf_2_def
    using tb nb [OF tb(1)] nb [OF tb(2)] by (simp add: pte_addr_def kvm_l3_def kvm_l2_def slot_def)
  then show ?thesis by (simp add: walk_translate_leaf leaf_3_def off kvm_entry_def Let_def)
qed

definition range_bytes :: "live_range \<Rightarrow> nat set" where
  "range_bytes r = {unat (kva_u64 (range_kva r))..<unat (kva_u64 (range_kva r)) + range_len r * 4096}"

lemma range_address:
  assumes "range_ok p mem l1 m P r" and "i < range_len r"
  shows "kva_u64 (range_kva r) + of_nat i * PAGE_SIZE = kva_u64 (kva_of (first_page (range_kva r) + i))"
  using assms(1) by (cases "range_kva r") (simp add: range_ok_def Let_def kva_of_def algebra_simps)

lemma range_translates:
  assumes "kvm_inv p l0 (k, mem, m) L P" and "r \<in> L" and "i < range_len r"
  shows "walk_translate mem l0 (kva_u64 (range_kva r) + of_nat i * PAGE_SIZE) = Some (frame_paddr (range_frames r ! i))"
proof -
  let ?l1 = "kvm_l1_paddr k" and ?a = "first_page (range_kva r)"
  have ok: "kvm_ok p l0 P (k, mem, m)" and r: "range_ok p mem ?l1 m P r" using assms(1,2) by (simp_all add: kvm_inv_def)
  have m: "mapped_at mem ?l1 ?a (range_frames r)" "i < length (range_frames r)" "table_frame (range_frames r ! i)"
    using r assms(3) by (simp_all add: range_ok_def Let_def)
  have "?a + i < 262144" using m(1,2) by (simp add: mapped_at_def)
  moreover have "kvm_entry mem ?l1 (?a + i) = build_kernel_page (start_addr (range_frames r ! i))" using m(1,2) by (simp add: mapped_at_def)
  ultimately show ?thesis
    unfolding range_address [OF r assms(3)] using kernel_page_output [OF m(3)] by (simp add: kvm_translate [OF ok] kernel_page_valid frame_paddr_def)
qed

lemma range_bytes_apart:
  assumes "range_ok p mem l1 m P r" and "range_ok p mem l1 m P s" and "range_pages r \<inter> range_pages s = {}"
  shows "range_bytes r \<inter> range_bytes s = {}"
proof -
  have b: "unat (kva_u64 (range_kva t)) = pool_lo + first_page (range_kva t) * 4096" if "range_ok p mem l1 m P t" for t
    using that kva_of_nat [of "first_page (range_kva t)"] by (simp add: range_ok_def Let_def mapped_at_def page_at_def)
  let ?x = "first_page (range_kva r)" and ?y = "first_page (range_kva s)"
  have "0 < range_len r" "0 < range_len s" using assms(1,2) by (simp_all add: range_ok_def Let_def)
  with assms(3) have "?x + range_len r \<le> ?y \<or> ?y + range_len s \<le> ?x" by (auto simp: range_pages_def)
  then have "(?x + range_len r) * 4096 \<le> ?y * 4096 \<or> (?y + range_len s) * 4096 \<le> ?x * 4096"
    using mult_le_mono1 by blast
  then show ?thesis unfolding range_bytes_def b [OF assms(1)] b [OF assms(2)] by (auto simp: algebra_simps)
qed

lemma range_in_pool:
  assumes "range_ok p mem l1 m P r"
  shows "range_bytes r \<subseteq> {pool_lo..<pool_hi}"
proof -
  let ?x = "first_page (range_kva r)"
  have "?x + range_len r \<le> 262144" using assms by (simp add: range_ok_def Let_def mapped_at_def)
  then have "(?x + range_len r) * 4096 \<le> 262144 * 4096" by (rule mult_le_mono1)
  moreover have "unat (kva_u64 (range_kva r)) = pool_lo + ?x * 4096"
    using assms kva_of_nat [of ?x] by (simp add: range_ok_def Let_def mapped_at_def page_at_def)
  ultimately show ?thesis by (auto simp: range_bytes_def pool_lo_def pool_hi_def)
qed

section \<open>Properties\<close>

text \<open>C9. After \<^verbatim>\<open>kvm_init\<close> and any sequence of \<^verbatim>\<open>alloc_kernel_pages\<close>, \<^verbatim>\<open>map_existing\<close>, \<^verbatim>\<open>free_kernel_pages\<close>, \<^verbatim>\<open>unmap_existing\<close>
  and changes elsewhere in the kernel, the live ranges lie in the pool and do not overlap, each page of each
  translates through the kernel's root table to the frame behind it, and the frames a range owns are in use,
  distinct, and owned by no other range.\<close>

theorem kvm_ranges_safe:
  assumes "kvm_run p l0 (k, mem, m) L"
  shows "(\<forall>r \<in> L. \<forall>i < range_len r. walk_translate mem l0 (kva_u64 (range_kva r) + of_nat i * PAGE_SIZE) = Some (frame_paddr (range_frames r ! i))) \<and>
    (\<forall>r \<in> L. \<forall>s \<in> L. r \<noteq> s \<longrightarrow> range_bytes r \<inter> range_bytes s = {} \<and> own_frames r \<inter> own_frames s = {}) \<and>
    (\<forall>r \<in> L. 0 < range_len r \<and> range_len r = length (range_frames r) \<and> range_bytes r \<subseteq> {pool_lo..<pool_hi} \<and>
      own_frames r \<subseteq> taken_frames p m \<and> (own_frames r \<noteq> {} \<longrightarrow> distinct (range_frames r)))"
proof -
  obtain P where P: "kvm_inv p l0 (k, mem, m) L P" using kvm_run_inv [OF assms] by blast
  then have rs: "\<And>r. r \<in> L \<Longrightarrow> range_ok p mem (kvm_l1_paddr k) m P r" and ap: "apart L" by (simp_all add: kvm_inv_def)
  have "range_bytes r \<inter> range_bytes s = {} \<and> own_frames r \<inter> own_frames s = {}" if "r \<in> L" "s \<in> L" "r \<noteq> s" for r s
    using range_bytes_apart [OF rs [OF that(1)] rs [OF that(2)]] ap that by (simp add: apart_def)
  moreover have "0 < range_len r \<and> range_len r = length (range_frames r) \<and> range_bytes r \<subseteq> {pool_lo..<pool_hi} \<and>
      own_frames r \<subseteq> taken_frames p m \<and> (own_frames r \<noteq> {} \<longrightarrow> distinct (range_frames r))" if "r \<in> L" for r
    using rs [OF that] range_in_pool [OF rs [OF that]] by (simp add: range_ok_def Let_def)
  ultimately show ?thesis using range_translates [OF P] by blast
qed

text \<open>C16. Giving a live range back never panics. \<^verbatim>\<open>free_kernel_pages\<close> returns exactly the frames of the range and leaves its
  addresses untranslated; its pages become free again unless the region table is full and they touch no free
  region, when they are lost for good.\<close>

theorem kvm_free_exact:
  assumes "kvm_run p l0 (k, mem, m) L" and "Owned rng fs \<in> L"
  shows "\<exists>P k' mem' m'. list_of (kvm_list k) P \<and> free_kernel_pages p rng (k, mem, m) = Return (k', mem', m') \<and>
    list_of (kvm_list k') (given_back P (Owned rng fs)) \<and> range_pages (Owned rng fs) \<inter> P = {} \<and>
    free_frames p m' = free_frames p m \<union> set fs \<and> taken_frames p m' = taken_frames p m - set fs \<and>
    (\<forall>i < owned_pages rng. walk_translate mem' l0 (kva_u64 (owned_kva rng) + of_nat i * PAGE_SIZE) = None)"
proof -
  let ?r = "Owned rng fs" and ?l1 = "kvm_l1_paddr k"
  obtain P where P: "kvm_inv p l0 (k, mem, m) L P" using kvm_run_inv [OF assms(1)] by blast
  then have r: "range_ok p mem ?l1 m P ?r" and ok: "kvm_ok p l0 P (k, mem, m)" using assms(2) by (simp_all add: kvm_inv_def)
  have "True \<longleftrightarrow> own_frames ?r \<noteq> {}" using r by (simp add: range_ok_def Let_def)
  then obtain k' mem' m' P' where t: "tear_down_range p (range_kva ?r) (range_len ?r) True (k, mem, m) = Return (k', mem', m')"
    "kvm_inv p l0 (k', mem', m') (L - {?r}) P'" "kvm_l1_paddr k' = ?l1" "P' = given_back P ?r"
    "\<forall>pg < 262144. kvm_entry mem' ?l1 pg = (if pg \<in> range_pages ?r then PageTableEntry 0 else kvm_entry mem ?l1 pg)"
    "free_frames p m' = free_frames p m \<union> own_frames ?r" "taken_frames p m' = taken_frames p m - own_frames ?r"
    by (rule range_tear_down [OF P assms(2)])
  have ok': "kvm_ok p l0 P' (k', mem', m')" using t(2) by (simp add: kvm_inv_def)
  have "walk_translate mem' l0 (kva_u64 (owned_kva rng) + of_nat i * PAGE_SIZE) = None" if "i < owned_pages rng" for i
  proof -
    have "first_page (range_kva ?r) + i \<in> range_pages ?r" using that by (simp add: range_pages_def)
    then show ?thesis
      using range_address [OF r, of i] that t(3,5) range_bound [OF r, of "first_page (range_kva ?r) + i"]
      by (simp add: kvm_translate [OF ok'] pte_is_valid_bit)
  qed
  moreover have "list_of (kvm_list k) P" "list_of (kvm_list k') P'" "kvm_initialized k" using ok ok' by (simp_all add: kvm_ok_def Let_def)
  moreover have "range_pages ?r \<inter> P = {}" using r by (simp add: range_ok_def Let_def)
  ultimately show ?thesis using t(1,4,6,7)
    by (intro exI [of _ P] exI [of _ k'] exI [of _ mem'] exI [of _ m'] conjI) (simp_all add: free_kernel_pages_def)
qed

text \<open>C11. The outcome of \<^verbatim>\<open>alloc_kernel_pages\<close> is decided by the free pages of the pool and the number \<open>c\<close> of free frames. With no
  run of \<open>n\<close> free pages it fails and changes nothing. With enough frames it takes the lowest run and \<open>n\<close> free frames. With too
  few frames it fails, and frames and translations are as before; the addresses are all back only when no
  frame was free: after a partial mapping the pages past the \<open>c\<close> mapped ones stay reserved for good.\<close>

theorem kvm_alloc_exact:
  assumes "kvm_run p l0 (k, mem, m) L" and "0 < n" and "c = card (free_frames p m)"
  shows "\<exists>P. list_of (kvm_list k) P \<and>
    (if \<nexists>a. {a..<a + n} \<subseteq> P then alloc_kernel_pages p n (k, mem, m) = Return (Err KvmOutOfVirtualMemory, k, mem, m)
     else \<exists>a k' mem' m'. {a..<a + n} \<subseteq> P \<and> (\<forall>b. {b..<b + n} \<subseteq> P \<longrightarrow> a \<le> b) \<and>
       (if n \<le> c
        then alloc_kernel_pages p n (k, mem, m) = Return (Ok \<lparr>owned_kva = kva_of a, owned_pages = n\<rparr>, k', mem', m') \<and>
          list_of (kvm_list k') (P - {a..<a + n}) \<and>
          (\<exists>fs. length fs = n \<and> distinct fs \<and> set fs \<subseteq> free_frames p m \<and> free_frames p m' = free_frames p m - set fs)
        else alloc_kernel_pages p n (k, mem, m) = Return (Err OutOfPhysicalFrames, k', mem', m') \<and>
          list_of (kvm_list k') (rolled_back P a n c) \<and> free_frames p m' = free_frames p m \<and>
          (\<forall>pg < 262144. walk_translate mem' l0 (kva_u64 (kva_of pg)) = walk_translate mem l0 (kva_u64 (kva_of pg)))))"
proof -
  obtain P where P: "kvm_inv p l0 (k, mem, m) L P" using kvm_run_inv [OF assms(1)] by blast
  then have ok: "kvm_ok p l0 P (k, mem, m)" by (simp add: kvm_inv_def)
  have l: "list_of (kvm_list k') P'" if "kvm_ok p l0 P' (k', mem', m')" for k' P' mem' m' using that by (simp add: kvm_ok_def Let_def)
  consider "\<nexists>a. {a..<a + n} \<subseteq> P" | "\<exists>a. {a..<a + n} \<subseteq> P" "n \<le> c" | "\<exists>a. {a..<a + n} \<subseteq> P" "c < n" by fastforce
  then show ?thesis
  proof cases
    case 1
    then show ?thesis using l [OF ok] alloc_kernel_pages_no_addresses [OF ok 1] by (intro exI [of _ P]) simp
  next
    case 2
    obtain a fs k' mem' m' where a: "alloc_kernel_pages p n (k, mem, m) = Return (Ok \<lparr>owned_kva = kva_of a, owned_pages = n\<rparr>, k', mem', m')"
      "{a..<a + n} \<subseteq> P" "\<forall>b. {b..<b + n} \<subseteq> P \<longrightarrow> a \<le> b" "kvm_ok p l0 (P - {a..<a + n}) (k', mem', m')" "length fs = n" "distinct fs"
      "set fs \<subseteq> free_frames p m" "free_frames p m' = free_frames p m - set fs"
      by (rule alloc_kernel_pages_ok [OF ok assms(2) 2(1) 2(2) [unfolded assms(3)]])
    have "\<exists>fs. length fs = n \<and> distinct fs \<and> set fs \<subseteq> free_frames p m \<and> free_frames p m' = free_frames p m - set fs" using a(5-8) by blast
    with a(1-3) l [OF a(4)] show ?thesis unfolding if_P [OF 2(2)]
      by (intro exI [of _ P] conjI l [OF ok])
        (subst if_not_P [OF not_not [THEN iffD2, OF 2(1)]], intro exI [of _ a] exI [of _ k'] exI [of _ mem'] exI [of _ m'] conjI; assumption)
  next
    case 3
    then obtain a st' where a: "alloc_kernel_pages p n (k, mem, m) = Return (Err OutOfPhysicalFrames, st')" "{a..<a + n} \<subseteq> P"
      "\<forall>b. {b..<b + n} \<subseteq> P \<longrightarrow> a \<le> b" "alloc_undone p l0 P (k, mem, m) (rolled_back P a n (card (free_frames p m))) st'"
      using alloc_kernel_pages_no_frames [OF ok 3(1)] assms(3) by metis
    obtain k' mem' m' where st': "st' = (k', mem', m')" by (cases st')
    have u: "kvm_ok p l0 (rolled_back P a n c) (k', mem', m')" "kvm_l1_paddr k' = kvm_l1_paddr k" "free_frames p m' = free_frames p m"
      "\<forall>pg < 262144. kvm_view mem' (kvm_l1_paddr k) pg = kvm_view mem (kvm_l1_paddr k) pg"
      using a(4) assms(3) by (simp_all add: alloc_undone_def st' Let_def)
    have "walk_translate mem' l0 (kva_u64 (kva_of pg)) = walk_translate mem l0 (kva_u64 (kva_of pg))" if "pg < 262144" for pg
      using spec [OF u(4), of pg] that u(2) by (simp add: kvm_translate [OF ok] kvm_translate [OF u(1)] kvm_view_def Let_def split: if_splits)
    then have "\<forall>pg < 262144. walk_translate mem' l0 (kva_u64 (kva_of pg)) = walk_translate mem l0 (kva_u64 (kva_of pg))" by blast
    with a(1-3) l [OF u(1)] u(3) show ?thesis unfolding if_not_P [OF less_le_not_le [THEN iffD1, THEN conjunct2, OF 3(2)]] st'
      by (intro exI [of _ P] conjI l [OF ok])
        (subst if_not_P [OF not_not [THEN iffD2, OF 3(1)]], intro exI [of _ a] exI [of _ k'] exI [of _ mem'] exI [of _ m'] conjI; assumption)
  qed
qed

section \<open>A small machine\<close>

text \<open>A machine with 1026 free frames: \<^verbatim>\<open>kvm_init\<close> takes 1024 of them and two are left.\<close>

lemma demo_kvm: "\<exists>k mem m. kvm_run virt_board 0 (k, mem, m) {} \<and> card (free_frames virt_board m) = 2 \<and> kvm_ok virt_board 0 {..<262144} (k, mem, m)"
proof -
  have pl: "platform_ok virt_board" using virt_board_boot by (simp add: boot_ok_def)
  then have np: "ram_pages virt_board \<le> MAX_PAGES" by (simp add: platform_ok_def)
  have r: "ram_pages virt_board = 16384" by (simp add: ram_pages_nat virt_board_def)
  obtain b where b: "buddy_inv b" "free_pages b = {}" "total_pages b = ram_pages virt_board" using buddy_init_spec [OF np] by blast
  have "0 + 1026 \<le> total_pages b" "{0 ..< 0 + 1026} \<inter> free_pages b = {}" by (simp_all add: b r)
  from add_range_spec [OF b(1) this] obtain b' where b': "buddy_inv b'" "free_pages b' = {0 ..< 1026}"
    "total_pages b' = ram_pages virt_board" by (auto simp: b)
  let ?m = "\<lparr>frames = b', pool = dma_empty, pool_base = 0\<rparr>"
  have ok: "frames_ok virt_board ?m" using b' pl by (simp add: frames_ok_def)
  have ad: "ram_addressable virt_board" by (simp add: ram_addressable_def base_of_def virt_board_def ram_pages_nat)
  have "inj_on (frame_at virt_board) {0 ..< 1026}" by (rule inj_on_subset [OF frame_inj [OF ok]]) (simp add: r subset_iff)
  then have c: "card (free_frames virt_board ?m) = 1026" by (simp add: free_frames_def b'(2) card_image)
  have "unat (frame_paddr (frame_at virt_board i)) \<noteq> 0" if "i < 1026" for i
    using frame_at_index(3) [OF pl, of i] that r by (simp add: frame_paddr_def base_of_def virt_board_def)
  then have z: "0 \<notin> frame_paddr ` free_frames virt_board ?m" by (force simp: free_frames_def b'(2))
  have u: "unat (0 :: u64) mod 4096 = 0" by simp
  have "{0..<0 + 1024} \<subseteq> free_pages (frames ?m)" by (auto simp: b'(2))
  then have run: "\<not> (\<forall>i. i mod 1024 = 0 \<longrightarrow> \<not> {i..<i + 1024} \<subseteq> free_pages (frames ?m))"
    by (intro notI) (drule spec [of _ 0], simp)
  obtain k mem m where
    i: "kvm_init virt_board 0 (kvm_allocator_new, \<lambda>_. 0, ?m) = Return (k, mem, m)" "kvm_ok virt_board 0 {..<262144} (k, mem, m)"
      "card (free_frames virt_board ?m) = card (free_frames virt_board m) + 1024"
    using kvm_init_cases [OF ok ad u z, of "\<lambda>_. 0"] run by (elim disjE exE conjE) (rule that, assumption+, erule notE, assumption)
  have "card (free_frames virt_board m) = 2" using i(3) unfolding c by simp
  moreover have "kvm_run virt_board 0 (k, mem, m) {}" by (rule kvm_run.Init [OF ok ad u z i(1)])
  ultimately show ?thesis using i(2) by blast
qed

lemma demo_range: "\<exists>k mem m rng f g. kvm_run virt_board 0 (k, mem, m) {Owned rng [f, g]} \<and> owned_pages rng = 2"
proof -
  obtain k mem m where d: "kvm_run virt_board 0 (k, mem, m) {}" "card (free_frames virt_board m) = 2" "kvm_ok virt_board 0 {..<262144} (k, mem, m)"
    using demo_kvm by blast
  have "{0..<0 + 2} \<subseteq> {..<262144::nat}" by auto
  then have ex: "\<exists>a. {a..<a + 2} \<subseteq> {..<262144::nat}" by blast
  have c: "2 \<le> card (free_frames virt_board m)" using d(2) by simp
  obtain rng k' mem' m' where a: "alloc_kernel_pages virt_board 2 (k, mem, m) = Return (Ok rng, k', mem', m')" "owned_pages rng = 2"
    by (rule alloc_kernel_pages_ok [OF d(3) _ ex c]) simp_all
  let ?fs = "backing_of (k', mem', m') rng"
  have "kvm_run virt_board 0 (k', mem', m') {Owned rng ?fs}" using kvm_run.Alloc [OF d(1) a(1)] by simp
  moreover have "length ?fs = 2" using a(2) by (simp add: backing_of_def)
  then obtain f g where "?fs = [f, g]" by (auto simp: length_Suc_conv numeral_2_eq_2)
  ultimately show ?thesis using a(2) by metis
qed

theorem kvm_ranges_safe_witness:
  "\<exists>k mem m rng f g. kvm_run virt_board 0 (k, mem, m) {Owned rng [f, g]} \<and> f \<noteq> g \<and>
    walk_translate mem 0 (kva_u64 (owned_kva rng)) = Some (frame_paddr f) \<and>
    walk_translate mem 0 (kva_u64 (owned_kva rng) + PAGE_SIZE) = Some (frame_paddr g)"
proof -
  obtain k mem m rng f g where d: "kvm_run virt_board 0 (k, mem, m) {Owned rng [f, g]}" "owned_pages rng = 2" using demo_range by blast
  note safe = kvm_ranges_safe [OF d(1)]
  have t: "\<forall>i < 2. walk_translate mem 0 (kva_u64 (owned_kva rng) + of_nat i * PAGE_SIZE) = Some (frame_paddr ([f, g] ! i))"
    using conjunct1 [OF safe] d(2) by simp
  have "f \<noteq> g" using conjunct2 [OF conjunct2 [OF safe]] by simp
  then show ?thesis using d(1) spec [OF t, of 0] spec [OF t, of 1]
    by (intro exI [of _ k] exI [of _ mem] exI [of _ m] exI [of _ rng] exI [of _ f] exI [of _ g]) simp
qed

theorem kvm_free_exact_witness:
  "\<exists>k mem m rng f g k' mem' m'. kvm_run virt_board 0 (k, mem, m) {Owned rng [f, g]} \<and>
    free_kernel_pages virt_board rng (k, mem, m) = Return (k', mem', m') \<and> free_frames virt_board m' = free_frames virt_board m \<union> {f, g} \<and>
    walk_translate mem' 0 (kva_u64 (owned_kva rng)) = None"
proof -
  obtain k mem m rng f g where d: "kvm_run virt_board 0 (k, mem, m) {Owned rng [f, g]}" "owned_pages rng = 2" using demo_range by blast
  from kvm_free_exact [OF d(1), of rng "[f, g]"] obtain k' mem' m' where
    f: "free_kernel_pages virt_board rng (k, mem, m) = Return (k', mem', m')" "free_frames virt_board m' = free_frames virt_board m \<union> set [f, g]"
      "\<forall>i < owned_pages rng. walk_translate mem' 0 (kva_u64 (owned_kva rng) + of_nat i * PAGE_SIZE) = None" by blast
  have "walk_translate mem' 0 (kva_u64 (owned_kva rng)) = None" using spec [OF f(3), of 0] d(2) by simp
  with d(1) f(1,2) show ?thesis by (simp only: list.set) blast
qed

lemma pool_bytes_inj: "pool_bytes P = pool_bytes Q \<Longrightarrow> P = Q"
proof (rule set_eqI)
  fix pg assume "pool_bytes P = pool_bytes Q"
  then have "page_at pg \<in> pool_bytes P \<longleftrightarrow> page_at pg \<in> pool_bytes Q" by simp
  then show "pg \<in> P \<longleftrightarrow> pg \<in> Q" by (simp add: pool_bytes_def page_at_def)
qed

lemma list_of_unique: "list_of fl P \<Longrightarrow> list_of fl Q \<Longrightarrow> P = Q"
  unfolding list_of_def by (rule pool_bytes_inj) simp

theorem kvm_alloc_exact_witness:
  "\<exists>k mem m k' mem' m' P'. kvm_run virt_board 0 (k, mem, m) {} \<and> list_of (kvm_list k) {..<262144} \<and>
    alloc_kernel_pages virt_board 3 (k, mem, m) = Return (Err OutOfPhysicalFrames, k', mem', m') \<and> list_of (kvm_list k') P' \<and> 2 \<notin> P'"
proof -
  obtain k mem m where d: "kvm_run virt_board 0 (k, mem, m) {}" "card (free_frames virt_board m) = 2" "kvm_ok virt_board 0 {..<262144} (k, mem, m)"
    using demo_kvm by blast
  have l: "list_of (kvm_list k) {..<262144}" using d(3) by (simp add: kvm_ok_def Let_def)
  have three: "0 < (3::nat)" "\<not> 3 \<le> (2::nat)" by simp_all
  from kvm_alloc_exact [OF d(1) three(1) d(2) [symmetric], unfolded if_not_P [OF three(2)]] obtain P where
    P: "list_of (kvm_list k) P"
      "if \<nexists>a. {a..<a + 3} \<subseteq> P then alloc_kernel_pages virt_board 3 (k, mem, m) = Return (Err KvmOutOfVirtualMemory, k, mem, m)
       else \<exists>a k' mem' m'. {a..<a + 3} \<subseteq> P \<and> (\<forall>b. {b..<b + 3} \<subseteq> P \<longrightarrow> a \<le> b) \<and>
          alloc_kernel_pages virt_board 3 (k, mem, m) = Return (Err OutOfPhysicalFrames, k', mem', m') \<and>
          list_of (kvm_list k') (rolled_back P a 3 2) \<and> free_frames virt_board m' = free_frames virt_board m \<and>
          (\<forall>pg < 262144. walk_translate mem' 0 (kva_u64 (kva_of pg)) = walk_translate mem 0 (kva_u64 (kva_of pg)))"
    by (elim exE conjE) (rule that)
  have eq: "P = {..<262144}" by (rule list_of_unique [OF P(1) l])
  have z: "{0..<0 + 3} \<subseteq> P" unfolding eq by (simp add: subset_iff)
  then have ne: "\<not> (\<nexists>a. {a..<a + 3} \<subseteq> P)" by blast
  from P(2) [unfolded if_not_P [OF ne]] obtain a k' mem' m' where a: "\<forall>b. {b..<b + 3} \<subseteq> P \<longrightarrow> a \<le> b"
    "alloc_kernel_pages virt_board 3 (k, mem, m) = Return (Err OutOfPhysicalFrames, k', mem', m')" "list_of (kvm_list k') (rolled_back P a 3 2)"
    by (elim exE conjE) (rule that)
  have "a = 0" using mp [OF spec [OF a(1)] z] by simp
  then have "2 \<notin> rolled_back P a 3 2" by (simp add: rolled_back_def Let_def)
  with d(1) l a(2,3) show ?thesis by blast
qed

end
