(* ===== verification/Bytes.thy ===== *)
theory Bytes
  imports Addr
begin

text \<open>
  What the parsers of \<^verbatim>\<open>lockjaw-types\<close> share: arithmetic that panics on overflow, as in the development
  profile, on words and on \<^verbatim>\<open>usize\<close> (a number below \<open>2 ^ 64\<close>), and reading integers from byte slices, where an
  index past the end panics.
\<close>

named_theorems arith_returns \<open>overflow-checked arithmetic that returns\<close>

section \<open>Checked arithmetic\<close>

definition add_w :: "'w::len word \<Rightarrow> 'w word \<Rightarrow> 'w word outcome" where
  "add_w a b = assert_then (unat a + unat b < 2 ^ LENGTH('w)) (Return (a + b))"

definition sub_w :: "'w::len word \<Rightarrow> 'w word \<Rightarrow> 'w word outcome" where
  "sub_w a b = assert_then (b \<le> a) (Return (a - b))"

definition mul_w :: "'w::len word \<Rightarrow> 'w word \<Rightarrow> 'w word outcome" where
  "mul_w a b = assert_then (unat a * unat b < 2 ^ LENGTH('w)) (Return (a * b))"

definition add_us :: "nat \<Rightarrow> nat \<Rightarrow> nat outcome" where
  "add_us a b = assert_then (a + b < 2 ^ 64) (Return (a + b))"

definition mul_us :: "nat \<Rightarrow> nat \<Rightarrow> nat outcome" where
  "mul_us a b = assert_then (a * b < 2 ^ 64) (Return (a * b))"

lemma add_w_Return [arith_returns]: "unat a + unat b < 2 ^ LENGTH('w) \<Longrightarrow> add_w a b = Return (a + b)" for a :: "'w::len word"
  by (simp add: add_w_def)

lemma sub_w_Return [arith_returns]: "b \<le> a \<Longrightarrow> sub_w a b = Return (a - b)" for a :: "'w::len word"
  by (simp add: sub_w_def)

lemma mul_w_Return [arith_returns]: "unat a * unat b < 2 ^ LENGTH('w) \<Longrightarrow> mul_w a b = Return (a * b)" for a :: "'w::len word"
  by (simp add: mul_w_def)

lemma add_us_Return [arith_returns]: "a + b < 2 ^ 64 \<Longrightarrow> add_us a b = Return (a + b)"
  by (simp add: add_us_def)

lemma mul_us_Return [arith_returns]: "a * b < 2 ^ 64 \<Longrightarrow> mul_us a b = Return (a * b)"
  by (simp add: mul_us_def)

lemma unat_add_w: "unat a + unat b < 2 ^ LENGTH('w) \<Longrightarrow> unat (a + b) = unat a + unat b" for a :: "'w::len word"
  by (simp add: unat_word_ariths)

lemma unat_sub_w: "b \<le> a \<Longrightarrow> unat (a - b) = unat a - unat b" for a :: "'w::len word"
  by (simp add: unat_sub)

section \<open>Integers in byte slices\<close>

type_synonym bytes = "u8 list"

fun le_nat :: "bytes \<Rightarrow> nat" where
  "le_nat [] = 0"
| "le_nat (b # bs) = unat b + 256 * le_nat bs"

definition le_at :: "bytes \<Rightarrow> nat \<Rightarrow> nat \<Rightarrow> nat" where
  "le_at data off n = le_nat (take n (drop off data))"

lemma le_nat_bound: "le_nat bs < 256 ^ length bs"
proof (induction bs)
  case (Cons b bs)
  have "unat b < 2 ^ LENGTH(8)" by (rule unsigned_less)
  then show ?case using Cons by simp
qed simp

lemma le_nat_width: "length bs \<le> n \<Longrightarrow> le_nat bs < 256 ^ n"
  by (rule less_le_trans [OF le_nat_bound power_increasing]) simp_all

lemma le_at_bound: "le_at data off n < 256 ^ n"
  unfolding le_at_def by (rule le_nat_width) simp

text \<open>\<^verbatim>\<open>from_le_bytes\<close> of the bytes at an offset, each index checked.\<close>

definition read_le :: "nat \<Rightarrow> bytes \<Rightarrow> nat \<Rightarrow> 'w::len word outcome" where
  "read_le n data off = assert_then (off + n \<le> length data) (Return (of_nat (le_at data off n)))"

definition read_u16 :: "bytes \<Rightarrow> nat \<Rightarrow> u16 outcome" where "read_u16 data off = read_le 2 data off"
definition read_u32 :: "bytes \<Rightarrow> nat \<Rightarrow> u32 outcome" where "read_u32 data off = read_le 4 data off"
definition read_u64 :: "bytes \<Rightarrow> nat \<Rightarrow> u64 outcome" where "read_u64 data off = read_le 8 data off"

lemmas read_defs = read_u16_def read_u32_def read_u64_def read_le_def

lemma read_u16_nat: "unat (of_nat (le_at data off 2) :: u16) = le_at data off 2"
  and read_u32_nat: "unat (of_nat (le_at data off 4) :: u32) = le_at data off 4"
  and read_u64_nat: "unat (of_nat (le_at data off 8) :: u64) = le_at data off 8"
  using le_at_bound [of data off 2] le_at_bound [of data off 4] le_at_bound [of data off 8]
  by (simp_all add: unat_of_nat take_bit_nat_eq_self)

lemmas read_nat = read_u16_nat read_u32_nat read_u64_nat

end
