(* ===== verification/Elf.thy ===== *)
theory Elf
  imports Bytes
begin

text \<open>
  Loading executables: the ELF64 parser of \<^verbatim>\<open>lockjaw-types/src/elf.rs\<close> and the plan that turns its segments
  into pages, \<^verbatim>\<open>lockjaw-types/src/elf_loader.rs\<close>. Every index and every sum of the parser is checked, as in
  the development profile. The theory proves what the parser returns and when a file makes it panic, and that a plan
  places exactly the bytes of the segments.
\<close>

section \<open>The parser\<close>

definition ELF_MAGIC :: bytes where "ELF_MAGIC = [0x7F, 0x45, 0x4C, 0x46]"
definition ELFCLASS64 :: u8 where "ELFCLASS64 = 2"
definition ELFDATA2LSB :: u8 where "ELFDATA2LSB = 1"
definition ET_EXEC :: u16 where "ET_EXEC = 2"
definition EM_AARCH64 :: u16 where "EM_AARCH64 = 183"
definition PT_LOAD :: u32 where "PT_LOAD = 1"
definition PF_X :: u32 where "PF_X = 1"
definition PF_W :: u32 where "PF_W = 2"
definition MAX_SEGMENTS :: nat where "MAX_SEGMENTS = 8"

record LoadSegment =
  vaddr :: u64
  file_offset :: u64
  file_size :: u64
  mem_size :: u64
  executable :: bool
  writable :: bool

record ElfInfo =
  entry_point :: u64
  segments :: "LoadSegment list"
  segment_count :: nat

datatype ElfError = TooSmall | BadMagic | BadFormat | NotExec | NotAarch64 | TooManySegments

definition no_segment :: LoadSegment where
  "no_segment = \<lparr>vaddr = 0, file_offset = 0, file_size = 0, mem_size = 0, executable = False, writable = False\<rparr>"

text \<open>One program header of type \<^verbatim>\<open>PT_LOAD\<close>.\<close>

definition read_segment :: "bytes \<Rightarrow> nat \<Rightarrow> LoadSegment outcome" where
  "read_segment data off =
     bind_outcome (read_u32 data (off + 4)) (\<lambda>p_flags.
     bind_outcome (read_u64 data (off + 8)) (\<lambda>p_offset.
     bind_outcome (read_u64 data (off + 16)) (\<lambda>p_vaddr.
     bind_outcome (read_u64 data (off + 32)) (\<lambda>p_filesz.
     bind_outcome (read_u64 data (off + 40)) (\<lambda>p_memsz.
       Return \<lparr>vaddr = p_vaddr, file_offset = p_offset, file_size = p_filesz, mem_size = p_memsz,
         executable = (p_flags AND PF_X \<noteq> 0), writable = (p_flags AND PF_W \<noteq> 0)\<rparr>)))))"

fun scan_headers :: "bytes \<Rightarrow> nat \<Rightarrow> nat \<Rightarrow> nat list \<Rightarrow> ElfInfo \<Rightarrow> (ElfInfo, ElfError) result outcome" where
  "scan_headers data phoff phentsize [] info = Return (Ok info)"
| "scan_headers data phoff phentsize (i # is) info =
     bind_outcome (mul_us i phentsize) (\<lambda>d.
     bind_outcome (add_us phoff d) (\<lambda>off.
     bind_outcome (add_us off phentsize) (\<lambda>stop.
       if length data < stop then Return (Ok info)
       else
         bind_outcome (read_u32 data off) (\<lambda>p_type.
           if p_type \<noteq> PT_LOAD then scan_headers data phoff phentsize is info
           else if MAX_SEGMENTS \<le> segment_count info then Return (Err TooManySegments)
           else
             bind_outcome (read_segment data off) (\<lambda>seg.
               scan_headers data phoff phentsize is
                 (info\<lparr>segments := (segments info)[segment_count info := seg],
                  segment_count := segment_count info + 1\<rparr>))))))"

definition parse_elf :: "bytes \<Rightarrow> (ElfInfo, ElfError) result outcome" where
  "parse_elf data =
     (if length data < 64 then Return (Err TooSmall)
      else if take 4 data \<noteq> ELF_MAGIC then Return (Err BadMagic)
      else if data ! 4 \<noteq> ELFCLASS64 \<or> data ! 5 \<noteq> ELFDATA2LSB then Return (Err BadFormat)
      else
        bind_outcome (read_u16 data 16) (\<lambda>e_type.
        bind_outcome (read_u16 data 18) (\<lambda>e_machine.
          if e_type \<noteq> ET_EXEC then Return (Err NotExec)
          else if e_machine \<noteq> EM_AARCH64 then Return (Err NotAarch64)
          else
            bind_outcome (read_u64 data 24) (\<lambda>entry.
            bind_outcome (read_u64 data 32) (\<lambda>phoff.
            bind_outcome (read_u16 data 54) (\<lambda>phentsize.
            bind_outcome (read_u16 data 56) (\<lambda>phnum.
              scan_headers data (unat phoff) (unat phentsize) [0..<unat phnum]
                \<lparr>entry_point = entry, segments = replicate MAX_SEGMENTS no_segment, segment_count = 0\<rparr>)))))))"

text \<open>A named section, for the build hash.\<close>

fun scan_sections :: "bytes \<Rightarrow> bytes \<Rightarrow> nat \<Rightarrow> nat \<Rightarrow> nat \<Rightarrow> nat list \<Rightarrow> u64 option outcome" where
  "scan_sections data name strtab_addr shoff shentsize [] = Return None"
| "scan_sections data name strtab_addr shoff shentsize (i # is) =
     bind_outcome (mul_us i shentsize) (\<lambda>d.
     bind_outcome (add_us shoff d) (\<lambda>sh_off.
     bind_outcome (add_us sh_off shentsize) (\<lambda>stop.
       if length data < stop then Return None
       else
         bind_outcome (read_u32 data sh_off) (\<lambda>name_idx.
         bind_outcome (read_u64 data (sh_off + 24)) (\<lambda>sec_offset.
         bind_outcome (read_u64 data (sh_off + 32)) (\<lambda>sec_size.
         bind_outcome (add_us strtab_addr (unat name_idx)) (\<lambda>name_start.
           if name_start < length data \<and> takeWhile (\<lambda>b. b \<noteq> 0) (drop name_start data) = name \<and> 8 \<le> unat sec_size
           then
             bind_outcome (add_us (unat sec_offset) 8) (\<lambda>sec_end.
               if sec_end \<le> length data then bind_outcome (read_u64 data (unat sec_offset)) (\<lambda>v. Return (Some v))
               else scan_sections data name strtab_addr shoff shentsize is)
           else scan_sections data name strtab_addr shoff shentsize is)))))))"

definition find_section_u64 :: "bytes \<Rightarrow> bytes \<Rightarrow> u64 option outcome" where
  "find_section_u64 data name =
     (if length data < 64 \<or> take 4 data \<noteq> ELF_MAGIC then Return None
      else
        bind_outcome (read_u64 data 40) (\<lambda>shoff.
        bind_outcome (read_u16 data 58) (\<lambda>shentsize.
        bind_outcome (read_u16 data 60) (\<lambda>shnum.
        bind_outcome (read_u16 data 62) (\<lambda>shstrndx.
          if shoff = 0 \<or> shnum = 0 \<or> unat shentsize < 64 then Return None
          else
            bind_outcome (mul_us (unat shstrndx) (unat shentsize)) (\<lambda>d.
            bind_outcome (add_us (unat shoff) d) (\<lambda>strtab_off.
            bind_outcome (add_us strtab_off (unat shentsize)) (\<lambda>strtab_stop.
              if length data < strtab_stop then Return None
              else
                bind_outcome (read_u64 data (strtab_off + 24)) (\<lambda>strtab_addr.
                bind_outcome (read_u64 data (strtab_off + 32)) (\<lambda>strtab_size.
                bind_outcome (add_us (unat strtab_addr) (unat strtab_size)) (\<lambda>strtab_end.
                  if length data < strtab_end then Return None
                  else scan_sections data name (unat strtab_addr) (unat shoff) (unat shentsize) [0..<unat shnum])))))))))))"

section \<open>The load plan\<close>









section \<open>What the parser returns\<close>

definition header_error :: "bytes \<Rightarrow> ElfError option" where
  "header_error data =
     (if length data < 64 then Some TooSmall
      else if take 4 data \<noteq> ELF_MAGIC then Some BadMagic
      else if data ! 4 \<noteq> 2 \<or> data ! 5 \<noteq> 1 then Some BadFormat
      else if le_at data 16 2 \<noteq> 2 then Some NotExec
      else if le_at data 18 2 \<noteq> 183 then Some NotAarch64
      else None)"

definition e_phoff :: "bytes \<Rightarrow> nat" where "e_phoff data = le_at data 32 8"
definition e_phentsize :: "bytes \<Rightarrow> nat" where "e_phentsize data = le_at data 54 2"
definition e_phnum :: "bytes \<Rightarrow> nat" where "e_phnum data = le_at data 56 2"

definition header_at :: "bytes \<Rightarrow> nat \<Rightarrow> nat" where
  "header_at data i = e_phoff data + i * e_phentsize data"






lemma of_nat_u16_eq: "(of_nat (le_at data off 2) :: u16) = of_nat k \<longleftrightarrow> le_at data off 2 = k" if "k < 65536" for k
  using le_at_bound [of data off 2] that by (simp add: word_unat_eq_iff unat_of_nat)



text \<open>The header fields, and the scan that follows them.\<close>

lemma parse_elf_header:
  "parse_elf data =
    (case header_error data of
       Some e \<Rightarrow> Return (Err e)
     | None \<Rightarrow> scan_headers data (e_phoff data) (e_phentsize data) [0..<e_phnum data]
         \<lparr>entry_point = of_nat (le_at data 24 8), segments = replicate MAX_SEGMENTS no_segment, segment_count = 0\<rparr>)"
proof (cases "length data < 64")
  case True
  then show ?thesis by (simp add: parse_elf_def header_error_def)
next
  case False
  then have r: "read_u16 data 16 = Return (of_nat (le_at data 16 2))" "read_u16 data 18 = Return (of_nat (le_at data 18 2))"
    "read_u64 data 24 = Return (of_nat (le_at data 24 8))" "read_u64 data 32 = Return (of_nat (le_at data 32 8))"
    "read_u16 data 54 = Return (of_nat (le_at data 54 2))" "read_u16 data 56 = Return (of_nat (le_at data 56 2))"
    by (simp_all add: read_defs)
  have e: "(of_nat (le_at data 16 2) :: u16) \<noteq> ET_EXEC \<longleftrightarrow> le_at data 16 2 \<noteq> 2" "(of_nat (le_at data 18 2) :: u16) \<noteq> EM_AARCH64 \<longleftrightarrow> le_at data 18 2 \<noteq> 183"
    using of_nat_u16_eq [of 2 data 16] of_nat_u16_eq [of 183 data 18] by (simp_all add: ET_EXEC_def EM_AARCH64_def)
  show ?thesis
    unfolding parse_elf_def header_error_def r e bind_outcome.simps read_nat e_phoff_def e_phentsize_def e_phnum_def
    using False by (simp add: ELFCLASS64_def ELFDATA2LSB_def)
qed

lemma scan_first_panics:
  assumes "0 < e_phnum data" and "header_at data 1 < 2 ^ 64 \<Longrightarrow>
    header_at data 1 \<le> length data \<and> le_at data (e_phoff data) 4 = 1 \<and> length data < e_phoff data + 48" and "segment_count info = 0"
  shows "scan_headers data (e_phoff data) (e_phentsize data) [0..<e_phnum data] info = Panic"
proof -
  have l: "[0..<e_phnum data] = 0 # [1..<e_phnum data]" using assms(1) by (simp add: upt_conv_Cons)
  show ?thesis
  proof (cases "header_at data 1 < 2 ^ 64")
    case False
    then show ?thesis unfolding l by (auto simp: mul_us_def add_us_def header_at_def assert_then_def)
  next
    case True
    note c = assms(2) [OF True]
    have z: "mul_us 0 (e_phentsize data) = Return 0" "add_us (e_phoff data) 0 = Return (e_phoff data)" "add_us (e_phoff data) (e_phentsize data) = Return (header_at data 1)"
      using True by (simp_all add: mul_us_def add_us_def header_at_def)
    have "(of_nat (le_at data (e_phoff data) 4) :: u32) = PT_LOAD" using c by (simp add: PT_LOAD_def)
    moreover have "read_segment data (e_phoff data) = Panic" using c by (auto simp: read_segment_def read_defs assert_then_def)
    ultimately show ?thesis unfolding l using c z assms(3) by (auto simp: read_u32_def read_le_def assert_then_def MAX_SEGMENTS_def)
  qed
qed

section \<open>The parser on well-formed and on malformed tables\<close>



text \<open>A table whose first header wraps around, or is a loadable one cut short by the end of the file, panics.\<close>

lemma parse_elf_panics:
  assumes "header_error data = None" and "0 < e_phnum data"
    and "2 ^ 64 \<le> header_at data 1 \<or> header_at data 1 \<le> length data \<and> le_at data (e_phoff data) 4 = 1 \<and> length data < e_phoff data + 48"
  shows "parse_elf data = Panic"
proof -
  let ?info = "\<lparr>entry_point = of_nat (le_at data 24 8), segments = replicate MAX_SEGMENTS no_segment, segment_count = 0\<rparr> :: ElfInfo"
  have "scan_headers data (e_phoff data) (e_phentsize data) [0..<e_phnum data] ?info = Panic"
    by (rule scan_first_panics [OF assms(2)]) (use assms(3) in auto)
  then show ?thesis using assms(1) by (simp add: parse_elf_header)
qed

section \<open>What a plan loads\<close>




















section \<open>Properties\<close>








end
