(* ===== verification/Spec2Isabelle.thy ===== *)
theory Spec2Isabelle
  imports Scheduler Ipc_State Wait_Objects Time Ticket_Lock Handles Space_Types Kvm_Safety Elf
begin

text \<open>
  \<^bold>\<open>Verification of the Lockjaw microkernel.\<close>

  Lockjaw is a capability microkernel for AArch64. Its logic sits in the crate \<^verbatim>\<open>lockjaw-types\<close> (pure
  state machines and data structures, no hardware access); the kernel proper under \<^verbatim>\<open>src/src\<close> applies
  that logic to memory, threads and page tables. This library models the state-changing logic of the
  kernel and proves it correct. Paths below are relative to \<^verbatim>\<open>src/\<close>.

  \<^bold>\<open>The system and how its parts interact.\<close> At boot, \<^verbatim>\<open>init_with_gap\<close> divides RAM between the buddy
  allocator and the DMA pool, keeping the kernel image and the stacks out of both. \<^verbatim>\<open>kvm_init\<close> then builds
  the page tables of the kernel address pool from frames of the buddy allocator. Memory reaches user
  programs as page sets, whose headers live in a pool of kernel addresses and whose frames come from the
  buddy allocator or the DMA pool. Page sets are mapped into address spaces, which are built from donated
  or boot-time frames, extended by mapping and cut by validated unmapping. Threads hold handles to kernel
  objects in a handle table and use them for IPC over endpoints and Reply objects, for notifications and
  for timed waits on several objects. Executables are loaded page by page from an ELF load plan. The scheduler decides which thread each CPU runs, and every kernel
  entry holds the giant kernel lock, a ticket lock.

  \<^bold>\<open>Conventions.\<close> A Rust function is a HOL function with the state passed explicitly. A function that can
  panic returns an \<open>outcome\<close>; \<^verbatim>\<open>assert!\<close>, \<^verbatim>\<open>unwrap\<close>, an index out of range, \<^verbatim>\<open>debug_assert!\<close> and arithmetic
  overflow panic, as in the dev profile of \<^verbatim>\<open>Cargo.toml\<close>. \<^verbatim>\<open>Result\<close> is \<open>result\<close>, \<^verbatim>\<open>Option\<close> is
  \<open>option\<close>, \<^verbatim>\<open>u8\<close> to \<^verbatim>\<open>u64\<close> are words of that width, and \<^verbatim>\<open>usize\<close> is a natural number whose overflow at
  \<open>2 ^ 64\<close> is written out where it can happen. Physical memory that holds page tables is a function from
  physical addresses to 64-bit words.

  \<^bold>\<open>The theories.\<close>

  \<^item> \<open>Lockjaw_Prelude\<close>: outcomes, results, words, the slice and integer functions of the Rust library,
    and the interfaces between components as locales (slot table, first-in first-out queue, bit store,
    frame source). Every locale is interpreted on the model's own definitions.
  \<^item> \<open>Scheduler\<close>: \<^verbatim>\<open>lockjaw-types/src/scheduler.rs\<close>, \<open>SchedState\<close> with every operation on it. Shown: the
    code's invariant holds in every reachable state, a scheduling step selects the next ready thread in
    round-robin order and switches exactly to it, a ready thread is reached after a bounded number of
    preemptions, exit is final, and blocking followed by unblocking gives the thread back.
  \<^item> \<open>Ipc_State\<close>: \<^verbatim>\<open>lockjaw-types/src/ipc_state.rs\<close>, the endpoint, waiter queue and Reply objects with
    the transitions for send, receive, call and reply. Shown: a refinement to an abstract machine with an
    unbounded queue and a set of calls in progress, the code's invariants and absence of panics, that a
    caller is released exactly by the reply to its own call, and that effect lists and decision functions
    describe the same step.
  \<^item> \<open>Wait_Objects\<close>: \<^verbatim>\<open>lockjaw-types/src/notification_state.rs\<close>, \<^verbatim>\<open>wait.rs\<close> and \<^verbatim>\<open>ipc_token.rs\<close>. Shown: over any
    sequence of signals and waits no wake-up is lost or invented, the readiness mask is exact, and accepted
    user buffers lie in user memory.
  \<^item> \<open>Time\<close>: \<^verbatim>\<open>lockjaw-types/src/time.rs\<close>. Shown: a deadline is never the sentinel and expires exactly when
    the requested time has passed.
  \<^item> \<open>Ticket_Lock\<close>: \<^verbatim>\<open>lockjaw-types/src/ticket_lock.rs\<close> and \<^verbatim>\<open>src/sched/gkl.rs\<close>, one step per atomic access, CPUs
    interleaving freely, counters wrapping. Shown: mutual exclusion, service in ticket order, progress.
  \<^item> \<open>Addr\<close>: the address types of \<^verbatim>\<open>lockjaw-types/src/addr.rs\<close>.
  \<^item> \<open>Handles\<close>: \<^verbatim>\<open>lockjaw-types/src/rights.rs\<close>, \<^verbatim>\<open>object.rs\<close> and \<^verbatim>\<open>handle_ops.rs\<close>. Shown: a lookup succeeds exactly
    for a live handle of the right kind with the rights asked for, insert and remove are inverse, and
    revocation validates first and then removes every handle to the revoked page set.
  \<^item> \<open>Buddy\<close>: \<^verbatim>\<open>lockjaw-types/src/buddy.rs\<close> with its byte bitmaps. Shown: allocation and freeing against sets
    of pages, on every branch; the blocks handed out and the free pages partition memory over any
    interleaving; the order computed for a count is the least one.
  \<^item> \<open>Dma_Pool\<close>: \<^verbatim>\<open>lockjaw-types/src/dma_pool.rs\<close>. Shown: first fit, exact accounting, double frees panic.
  \<^item> \<open>Page_Alloc\<close>: \<^verbatim>\<open>src/mm/page_alloc.rs\<close>, \<^verbatim>\<open>src/mm/addr.rs\<close> and \<^verbatim>\<open>src/cap/dma_pool.rs\<close>. Shown: boot gives
    the buddy allocator exactly the pages that are not reserved, contiguous allocation succeeds exactly when
    an aligned run is free and round trips, and the fallback for a small RAM panics.
  \<^item> \<open>Page_Table\<close>: \<^verbatim>\<open>lockjaw-types/src/page_table.rs\<close>. Shown: the run query agrees with single pages, and
    validated unmapping is all or nothing.
  \<^item> \<open>Page_Set\<close>: \<^verbatim>\<open>lockjaw-types/src/pageset_table.rs\<close> and \<^verbatim>\<open>pageset_header_pool.rs\<close> and the kernel code of the
    same names under \<^verbatim>\<open>src/cap\<close>. Shown: creation is exact on every branch, a set lives exactly as long as it is
    referenced or mapped, and live sets that own memory never share a page, in every reachable state. Such a
    state starts from any well-formed memory, and memory as boot leaves it is well formed.
  \<^item> \<open>Vmem\<close>: \<^verbatim>\<open>map_pages_in_existing\<close> of \<^verbatim>\<open>src/arch/aarch64/vmem.rs\<close> with the decisions of
    \<^verbatim>\<open>lockjaw-types/src/vmem.rs\<close>. Shown: a mapping installs exactly the pages of the set or changes nothing.
  \<^item> \<open>Address_Space\<close>: the builder, \<^verbatim>\<open>create_address_space\<close> and \<^verbatim>\<open>free_address_space\<close> of the same files. Shown: the
    tables translate exactly the mappings asked for, and freeing returns exactly the frames of the tables.
  \<^item> \<open>Space_Types\<close>: the type of an address space and that building, mapping and unmapping in any order keep it.
  \<^item> \<open>Kvm_List\<close>, \<open>Kvm\<close>, \<open>Kvm_Safety\<close>: \<^verbatim>\<open>lockjaw-types/src/kvm.rs\<close> and \<^verbatim>\<open>src/mm/kvm.rs\<close>, the free list of kernel
    addresses, the walks that map and tear down a range, and the allocator over them. Shown: the list refines
    a set of free pages, allocation and freeing are exact on every branch, and over any history live ranges
    are disjoint, mapped to their frames and can be given back.
  \<^item> \<open>Bytes\<close>, \<open>Elf\<close>: \<^verbatim>\<open>lockjaw-types/src/elf.rs\<close> and \<^verbatim>\<open>elf_loader.rs\<close>, the ELF64 parser and the plan that turns
    its segments into pages. Shown: the parser returns the first failing check or the loadable segments, and
    the plan loads exactly their bytes or reports a cause that holds.

  \<^bold>\<open>Loops, fuel and bounds.\<close> Loops are structural recursions or \<open>function\<close>s with a termination proof. The
  search of \<open>select_next\<close> can run for ever for a thread index outside the table; it is a
  \<open>partial_function\<close> whose missing result is \<open>Diverge\<close>, and the reachable states are shown to avoid it. The run
  query over a level-2 table has fuel 513, one more than the entries of a table, each step moves to a later
  entry, and the query is shown never to exhaust it. Sizes are those of the code: \<open>MAX_THREADS\<close>,
  \<open>MAX_PAGESETS\<close> (128 slots of 33 pages), \<open>MAX_PAGES\<close>, \<open>MAX_ORDER\<close>, 512 pool pages, at most 33 level-2 regions
  per mapping, 64 free-list regions.

  \<^bold>\<open>Parameters.\<close> The RAM description read by \<^verbatim>\<open>src/mm/addr.rs\<close> is a record argument (\<open>Platform\<close>); the address
  of the kernel's level-0 table, fixed by the linker, and the kernel addresses returned to the header pool
  are arguments. Statements about them name what they need (\<open>platform_ok\<close>, \<open>boot_ok\<close>).

  \<^bold>\<open>Not modelled.\<close> Assembly, system registers, cache, TLB and interrupt hardware and console output: they have
  no functional state here. The contents of data pages, so zeroing has no effect. The kernel glue that
  reaches TCBs, endpoints and notifications through raw pointers (\<^verbatim>\<open>src/sched\<close>, \<^verbatim>\<open>src/ipc\<close>, \<^verbatim>\<open>src/syscall\<close>,
  \<^verbatim>\<open>src/process.rs\<close>): the decisions it applies are modelled, the pointer manipulation is not. User-space
  drivers, servers and their file and device formats, the generated register and message accessors, and the
  build tools are outside the kernel. The atomics of the ticket lock are sequentially consistent steps, and
  \<open>is_locked\<close> reads both counters at once.
\<close>

end
